(* ===== verification/Prelude.thy ===== *)
theory Prelude
  imports Main "HOL-Library.Word"
begin

text \<open>
  Shared vocabulary of the development: the machine integer types of \<^verbatim>\<open>types.h\<close>, the
  result type of kernel code, the weakest-precondition rules that carry the proofs about it,
  byte arrays with their little-endian loads and stores, and the list lemmas that several
  components use.
\<close>

unbundle bit_operations_syntax

declare One_nat_def [simp del]

named_theorems wp_rules \<open>post-conditions of kernel operations\<close>

section \<open>Machine integers\<close>

type_synonym u8 = "8 word"
type_synonym u16 = "16 word"
type_synonym u32 = "32 word"
type_synonym u64 = "64 word"

text \<open>A C character constant and a C string literal (without its terminating NUL).\<close>

definition chr :: "char \<Rightarrow> u8" where
  "chr c = of_char c"

definition str :: "string \<Rightarrow> u8 list" where
  "str cs = map chr cs"

section \<open>Results of kernel code\<close>

text \<open>
  A kernel function either returns, or calls \<^verbatim>\<open>panic\<close> with a message, or commits a memory
  error of C (an access out of bounds, a read of an uninitialised object, a null
  dereference), or goes to sleep waiting for another process.
\<close>

datatype kerror = Panic string | Fault string | Sleep string

type_synonym 'a res = "kerror + 'a"

definition bnd :: "'a res \<Rightarrow> ('a \<Rightarrow> 'b res) \<Rightarrow> 'b res" where
  "bnd r f = (case r of Inl e \<Rightarrow> Inl e | Inr x \<Rightarrow> f x)"

lemma bnd_Inr [simp]: "bnd (Inr x) f = f x"
  by (simp add: bnd_def)

lemma bnd_Inl [simp]: "bnd (Inl e) f = Inl e"
  by (simp add: bnd_def)

lemma bnd_eq_Inr: "bnd r f = Inr y \<longleftrightarrow> (\<exists>x. r = Inr x \<and> f x = Inr y)"
  by (cases r) auto

lemma bnd_assoc: "bnd (bnd r f) g = bnd r (\<lambda>x. bnd (f x) g)"
  by (cases r) auto

lemma bnd_cong [fundef_cong]:
  "r = r' \<Longrightarrow> (\<And>x. r' = Inr x \<Longrightarrow> f x = g x) \<Longrightarrow> bnd r f = bnd r' g"
  by (cases r') auto

text \<open>
  \<open>wp r Q\<close>: the run \<open>r\<close> returns, and its result satisfies \<open>Q\<close>.
  \<open>wlp r Q\<close>: if \<open>r\<close> returns, its result satisfies \<open>Q\<close> (it may also panic, fault or sleep).
\<close>

definition wp :: "'a res \<Rightarrow> ('a \<Rightarrow> bool) \<Rightarrow> bool" where
  "wp r Q = (case r of Inl e \<Rightarrow> False | Inr x \<Rightarrow> Q x)"

definition wlp :: "'a res \<Rightarrow> ('a \<Rightarrow> bool) \<Rightarrow> bool" where
  "wlp r Q = (case r of Inl e \<Rightarrow> True | Inr x \<Rightarrow> Q x)"

lemma wp_Inr [simp]: "wp (Inr x) Q = Q x"
  by (simp add: wp_def)

lemma wp_Inl [simp]: "\<not> wp (Inl e) Q"
  by (simp add: wp_def)

lemma wp_bnd [simp]: "wp (bnd r f) Q = wp r (\<lambda>x. wp (f x) Q)"
  by (cases r) auto

lemma wp_iff: "wp r Q \<longleftrightarrow> (\<exists>x. r = Inr x \<and> Q x)"
  by (cases r) auto

lemma wp_mono: "wp r P \<Longrightarrow> (\<And>x. P x \<Longrightarrow> Q x) \<Longrightarrow> wp r Q"
  by (cases r) auto

lemma wp_conj: "wp r P \<Longrightarrow> wp r Q \<Longrightarrow> wp r (\<lambda>x. P x \<and> Q x)"
  by (cases r) auto

lemma wp_InrD: "wp r Q \<Longrightarrow> r = Inr x \<Longrightarrow> Q x"
  by simp

lemma wlp_Inr [simp]: "wlp (Inr x) Q = Q x"
  by (simp add: wlp_def)

lemma wlp_Inl [simp]: "wlp (Inl e) Q"
  by (simp add: wlp_def)

lemma wlp_bnd [simp]: "wlp (bnd r f) Q = wlp r (\<lambda>x. wlp (f x) Q)"
  by (cases r) auto

lemma wlp_iff: "wlp r Q \<longleftrightarrow> (\<forall>x. r = Inr x \<longrightarrow> Q x)"
  by (cases r) auto

lemma wlp_mono: "wlp r P \<Longrightarrow> (\<And>x. P x \<Longrightarrow> Q x) \<Longrightarrow> wlp r Q"
  by (cases r) auto

section \<open>Byte arrays\<close>

text \<open>
  A byte array object of C (a disk block, a page) is a function from offsets to bytes; the
  offsets below the object's size are the object. 16- and 32-bit fields are little-endian.
\<close>

type_synonym bytes = "nat \<Rightarrow> u8"

definition get16 :: "bytes \<Rightarrow> nat \<Rightarrow> u16" where
  "get16 d a = ucast (d a) OR push_bit 8 (ucast (d (a + 1)))"

definition put16 :: "bytes \<Rightarrow> nat \<Rightarrow> u16 \<Rightarrow> bytes" where
  "put16 d a v = d(a := ucast v, a + 1 := ucast (drop_bit 8 v))"

definition get32 :: "bytes \<Rightarrow> nat \<Rightarrow> u32" where
  "get32 d a = ucast (d a) OR push_bit 8 (ucast (d (a + 1)))
     OR push_bit 16 (ucast (d (a + 2))) OR push_bit 24 (ucast (d (a + 3)))"

definition put32 :: "bytes \<Rightarrow> nat \<Rightarrow> u32 \<Rightarrow> bytes" where
  "put32 d a v = d(a := ucast v, a + 1 := ucast (drop_bit 8 v),
     a + 2 := ucast (drop_bit 16 v), a + 3 := ucast (drop_bit 24 v))"

lemma get16_put16 [simp]: "get16 (put16 d a v) a = v"
proof (rule bit_word_eqI)
  fix n assume "n < LENGTH(16)"
  then have "n < 8 \<or> 8 \<le> n \<and> n < 16" by auto
  then consider "n < 8" | "8 \<le> n" "n < 16" by blast
  then show "bit (get16 (put16 d a v) a) n = bit v n"
    by cases (simp_all add: get16_def put16_def bit_simps less_diff_conv2)
qed

lemma get32_put32 [simp]: "get32 (put32 d a v) a = v"
proof (rule bit_word_eqI)
  fix n assume "n < LENGTH(32)"
  then have "n < 8 \<or> 8 \<le> n \<and> n < 16 \<or> 16 \<le> n \<and> n < 24 \<or> 24 \<le> n \<and> n < 32" by auto
  then consider "n < 8" | "8 \<le> n" "n < 16" | "16 \<le> n" "n < 24" | "24 \<le> n" "n < 32"
    by blast
  then show "bit (get32 (put32 d a v) a) n = bit v n"
    by cases (simp_all add: get32_def put32_def bit_simps less_diff_conv2)
qed

lemma put16_other: "i < a \<or> a + 2 \<le> i \<Longrightarrow> put16 d a v i = d i"
  by (auto simp: put16_def)

lemma put32_other: "i < a \<or> a + 4 \<le> i \<Longrightarrow> put32 d a v i = d i"
  by (auto simp: put32_def)

lemma get16_put16_other: "a + 2 \<le> b \<or> b + 2 \<le> a \<Longrightarrow> get16 (put16 d a v) b = get16 d b"
  by (auto simp: get16_def put16_other)

lemma get16_put32_other: "a + 4 \<le> b \<or> b + 2 \<le> a \<Longrightarrow> get16 (put32 d a v) b = get16 d b"
  by (auto simp: get16_def put32_other)

lemma get32_put16_other: "a + 2 \<le> b \<or> b + 4 \<le> a \<Longrightarrow> get32 (put16 d a v) b = get32 d b"
  by (auto simp: get32_def put16_other)

lemma get32_put32_other: "a + 4 \<le> b \<or> b + 4 \<le> a \<Longrightarrow> get32 (put32 d a v) b = get32 d b"
  by (auto simp: get32_def put32_other)

lemma get32_cong: "(\<And>i. a \<le> i \<Longrightarrow> i < a + 4 \<Longrightarrow> d i = e i) \<Longrightarrow> get32 d a = get32 e a"
  unfolding get32_def by auto

lemma get32_zero [simp]: "get32 (\<lambda>_. 0) a = 0"
  by (simp add: get32_def)

lemma get16_zero [simp]: "get16 (\<lambda>_. 0) a = 0"
  by (simp add: get16_def)

text \<open>Two arrays that agree on their first \<open>n\<close> bytes.\<close>

definition eq_upto :: "nat \<Rightarrow> bytes \<Rightarrow> bytes \<Rightarrow> bool" where
  "eq_upto n d e \<longleftrightarrow> (\<forall>i<n. d i = e i)"

section \<open>Lists\<close>

lemma index_1 [simp]:
  "(x # xs)[1 := y] = x # xs[0 := y]" "(x # xs) ! 1 = xs ! 0" "(case 1 of 0 \<Rightarrow> a | Suc j \<Rightarrow> f j) = f 0"
  by (simp_all add: One_nat_def)

text \<open>Evaluation of word numerals ends at \<open>take_bit_num 1\<close>.\<close>

lemma take_bit_num_1 [simp]:
  "take_bit_num 1 num.One = Some num.One" "take_bit_num 1 (num.Bit0 m) = None"
  "take_bit_num 1 (num.Bit1 m) = Some num.One"
  by (simp_all add: One_nat_def)

lemma upt_small:
  "[0..<1] = [0]" "[0..<2] = [0, 1]" "[0..<3] = [0, 1, 2]" "[0..<4] = [0, 1, 2, 3]"
  "[0..<6] = [0, 1, 2, 3, 4, 5]"
  by code_simp+

lemma find_SomeD: "find P xs = Some x \<Longrightarrow> x \<in> set xs \<and> P x"
  by (induction xs) (auto split: if_splits)

lemma find_NoneD: "find P xs = None \<Longrightarrow> x \<in> set xs \<Longrightarrow> \<not> P x"
  by (simp add: find_None_iff)

lemma find_unique:
  assumes "x \<in> set xs" "P x" "\<And>y. y \<in> set xs \<Longrightarrow> P y \<Longrightarrow> y = x"
  shows "find P xs = Some x"
proof (cases "find P xs")
  case None
  from find_NoneD [OF None assms(1)] assms(2) show ?thesis by blast
next
  case (Some y)
  then have "y = x" using find_SomeD assms(3) by metis
  with Some show ?thesis by simp
qed

lemma card_less_ex:
  assumes "finite B" "card B < card A"
  shows "\<exists>x\<in>A. x \<notin> B"
proof (rule ccontr)
  assume "\<not> (\<exists>x\<in>A. x \<notin> B)"
  then have "A \<subseteq> B" by blast
  then have "card A \<le> card B" by (rule card_mono [OF assms(1)])
  with assms(2) show False by simp
qed

end
