(* ===== verification/Sleeplock.thy ===== *)
theory Sleeplock
  imports Prelude
begin

text \<open>
  Sleeping locks (\<^verbatim>\<open>sleeplock.c\<close>) as the buffer cache and the inode cache use them. The spin
  lock inside a sleep lock only makes each of the three operations atomic, so an operation is
  one function on the lock. Waiting for a lock that is held is the result \<open>Sleep\<close>.
\<close>

record sleeplock =
  sl_locked :: bool
  sl_pid :: int

definition initsleeplock :: sleeplock where
  "initsleeplock = \<lparr>sl_locked = False, sl_pid = 0\<rparr>"

definition acquiresleep :: "int \<Rightarrow> sleeplock \<Rightarrow> sleeplock res" where
  "acquiresleep pid lk =
     (if sl_locked lk then Inl (Sleep ''acquiresleep'')
      else Inr (lk\<lparr>sl_locked := True, sl_pid := pid\<rparr>))"

definition releasesleep :: "sleeplock \<Rightarrow> sleeplock" where
  "releasesleep lk = lk\<lparr>sl_locked := False, sl_pid := 0\<rparr>"

definition holdingsleep :: "sleeplock \<Rightarrow> bool" where
  "holdingsleep lk = sl_locked lk"

lemma acquiresleep_wp [simp]:
  "wp (acquiresleep pid lk) Q \<longleftrightarrow> \<not> sl_locked lk \<and> Q (lk\<lparr>sl_locked := True, sl_pid := pid\<rparr>)"
  by (simp add: acquiresleep_def)

lemma releasesleep_unlocked [simp]: "sl_locked (releasesleep lk) = False"
  by (simp add: releasesleep_def)

lemma initsleeplock_unlocked [simp]: "sl_locked initsleeplock = False"
  by (simp add: initsleeplock_def)

end
