(* ===== verification/Bio.thy ===== *)
theory Bio
  imports Sleeplock
begin

text \<open>
  The buffer cache (\<^verbatim>\<open>bio.c\<close>) over the synchronous disk driver (\<^verbatim>\<open>memide.c\<close>). The doubly
  linked list through \<^verbatim>\<open>bcache.head\<close> is the list \<open>lru\<close> of buffer indices, most recently used
  first. A reference count is at most the number of processes, so it never wraps. The field \<open>wtrace\<close> records the block writes the driver has issued, in order; no
  operation reads it, it is what the crash theorems of the log speak about.
\<close>

section \<open>State\<close>

abbreviation (input) MAXOPBLOCKS :: nat where "MAXOPBLOCKS \<equiv> 10"
abbreviation (input) LOGSIZE :: nat where "LOGSIZE \<equiv> 30"
abbreviation (input) NBUF :: nat where "NBUF \<equiv> 30"
abbreviation (input) BSIZE :: nat where "BSIZE \<equiv> 512"

text \<open>\<^verbatim>\<open>struct buf\<close>; \<open>b_valid\<close> and \<open>b_dirty\<close> are the bits \<^verbatim>\<open>B_VALID\<close> and \<^verbatim>\<open>B_DIRTY\<close> of its flags.\<close>

record buf =
  b_valid :: bool
  b_dirty :: bool
  b_dev :: nat
  b_blockno :: nat
  b_lock :: sleeplock
  b_refcnt :: nat
  b_data :: bytes

record bio =
  bufs :: "nat \<Rightarrow> buf"
  lru :: "nat list"
  memdisk :: "nat \<Rightarrow> bytes"
  disksize :: nat
  wtrace :: "(nat \<times> bytes) list"
  cpid :: int

definition set_buf :: "nat \<Rightarrow> buf \<Rightarrow> 'a bio_scheme \<Rightarrow> 'a bio_scheme" where
  "set_buf i b s = s\<lparr>bufs := (bufs s)(i := b)\<rparr>"

text \<open>Writing to the data of buffer \<open>i\<close>, as the callers of \<^verbatim>\<open>bread\<close> do through \<^verbatim>\<open>bp->data\<close>.\<close>

definition set_data :: "nat \<Rightarrow> bytes \<Rightarrow> 'a bio_scheme \<Rightarrow> 'a bio_scheme" where
  "set_data i d s = set_buf i ((bufs s i)\<lparr>b_data := d\<rparr>) s"

abbreviation bdata :: "'a bio_scheme \<Rightarrow> nat \<Rightarrow> bytes" where
  "bdata s i \<equiv> b_data (bufs s i)"

section \<open>Operations\<close>

subsection \<open>memide.c\<close>

text \<open>\<open>img\<close> and \<open>img_size\<close> are the disk image linked into the kernel.\<close>

definition ideinit :: "bytes \<Rightarrow> nat \<Rightarrow> 'a bio_scheme \<Rightarrow> 'a bio_scheme" where
  "ideinit img img_size s = s\<lparr>memdisk := (\<lambda>b i. img (b * BSIZE + i)), disksize := img_size div BSIZE\<rparr>"

definition iderw :: "nat \<Rightarrow> 'a bio_scheme \<Rightarrow> 'a bio_scheme res" where
  "iderw i s =
     (let b = bufs s i in
      if \<not> holdingsleep (b_lock b) then Inl (Panic ''iderw: buf not locked'')
      else if b_valid b \<and> \<not> b_dirty b then Inl (Panic ''iderw: nothing to do'')
      else if b_dev b \<noteq> 1 then Inl (Panic ''iderw: request not for disk 1'')
      else if disksize s \<le> b_blockno b then Inl (Panic ''iderw: block out of range'')
      else if b_dirty b then
        Inr (set_buf i (b\<lparr>b_dirty := False, b_valid := True\<rparr>)
              (s\<lparr>memdisk := (memdisk s)(b_blockno b := b_data b),
                 wtrace := wtrace s @ [(b_blockno b, b_data b)]\<rparr>))
      else Inr (set_buf i (b\<lparr>b_data := memdisk s (b_blockno b), b_valid := True\<rparr>) s))"

subsection \<open>bio.c\<close>

definition binit :: "'a bio_scheme \<Rightarrow> 'a bio_scheme" where
  "binit s = fold (\<lambda>i s. set_buf i ((bufs s i)\<lparr>b_lock := initsleeplock\<rparr>) (s\<lparr>lru := i # lru s\<rparr>))
               [0..<NBUF] (s\<lparr>lru := []\<rparr>)"

definition bget :: "nat \<Rightarrow> nat \<Rightarrow> 'a bio_scheme \<Rightarrow> (nat \<times> 'a bio_scheme) res" where
  "bget dev blockno s =
     (case find (\<lambda>i. b_dev (bufs s i) = dev \<and> b_blockno (bufs s i) = blockno) (lru s) of
        Some i \<Rightarrow>
          let b = (bufs s i)\<lparr>b_refcnt := b_refcnt (bufs s i) + 1\<rparr> in
          bnd (acquiresleep (cpid s) (b_lock b)) (\<lambda>lk.
          Inr (i, set_buf i (b\<lparr>b_lock := lk\<rparr>) s))
      | None \<Rightarrow>
          (case find (\<lambda>i. b_refcnt (bufs s i) = 0 \<and> \<not> b_dirty (bufs s i)) (rev (lru s)) of
             Some i \<Rightarrow>
               let b = (bufs s i)\<lparr>b_dev := dev, b_blockno := blockno,
                         b_valid := False, b_dirty := False, b_refcnt := 1\<rparr> in
               bnd (acquiresleep (cpid s) (b_lock b)) (\<lambda>lk.
               Inr (i, set_buf i (b\<lparr>b_lock := lk\<rparr>) s))
           | None \<Rightarrow> Inl (Panic ''bget: no buffers'')))"

definition bread :: "nat \<Rightarrow> nat \<Rightarrow> 'a bio_scheme \<Rightarrow> (nat \<times> 'a bio_scheme) res" where
  "bread dev blockno s =
     bnd (bget dev blockno s) (\<lambda>(i, s).
     if \<not> b_valid (bufs s i) then bnd (iderw i s) (\<lambda>s. Inr (i, s)) else Inr (i, s))"

definition bwrite :: "nat \<Rightarrow> 'a bio_scheme \<Rightarrow> 'a bio_scheme res" where
  "bwrite i s =
     (if \<not> holdingsleep (b_lock (bufs s i)) then Inl (Panic ''bwrite'')
      else iderw i (set_buf i ((bufs s i)\<lparr>b_dirty := True\<rparr>) s))"

definition brelse :: "nat \<Rightarrow> 'a bio_scheme \<Rightarrow> 'a bio_scheme res" where
  "brelse i s =
     (if \<not> holdingsleep (b_lock (bufs s i)) then Inl (Panic ''brelse'')
      else let b = (bufs s i)\<lparr>b_lock := releasesleep (b_lock (bufs s i)),
                              b_refcnt := b_refcnt (bufs s i) - 1\<rparr>;
               s = set_buf i b s
           in Inr (if b_refcnt b = 0 then s\<lparr>lru := i # remove1 i (lru s)\<rparr> else s))"

section \<open>The contents the cache stands for\<close>

text \<open>
  The current contents of block \<open>n\<close> of the file system device: those of its cached buffer when
  that is valid, the disk's otherwise.
\<close>

definition caches :: "'a bio_scheme \<Rightarrow> nat \<Rightarrow> nat \<Rightarrow> bool" where
  "caches s n i \<longleftrightarrow> b_dev (bufs s i) = 1 \<and> b_blockno (bufs s i) = n"

definition blk :: "'a bio_scheme \<Rightarrow> nat \<Rightarrow> bytes" where
  "blk s n = (case find (\<lambda>i. caches s n i \<and> b_valid (bufs s i)) (lru s) of
                Some i \<Rightarrow> bdata s i | None \<Rightarrow> memdisk s n)"

section \<open>Invariant\<close>

definition buf_ok :: "'a bio_scheme \<Rightarrow> buf \<Rightarrow> bool" where
  "buf_ok s b \<longleftrightarrow>
     (sl_locked (b_lock b) \<longrightarrow> 0 < b_refcnt b) \<and>
     (b_dirty b \<longrightarrow> b_valid b) \<and>
     (b_valid b \<longrightarrow> b_dev b = 1 \<and> b_blockno b < disksize s) \<and>
     (b_valid b \<and> \<not> b_dirty b \<and> \<not> sl_locked (b_lock b) \<longrightarrow> b_data b = memdisk s (b_blockno b))"

definition bio_inv :: "'a bio_scheme \<Rightarrow> bool" where
  "bio_inv s \<longleftrightarrow>
     distinct (lru s) \<and> set (lru s) = {..<NBUF} \<and>
     (\<forall>i<NBUF. \<forall>j<NBUF. \<forall>n. caches s n i \<and> caches s n j \<longrightarrow> i = j) \<and>
     (\<forall>i<NBUF. buf_ok s (bufs s i))"

definition blk_locked :: "'a bio_scheme \<Rightarrow> nat \<Rightarrow> bool" where
  "blk_locked s n \<longleftrightarrow> (\<exists>i<NBUF. caches s n i \<and> sl_locked (b_lock (bufs s i)))"

definition free_buf :: "'a bio_scheme \<Rightarrow> bool" where
  "free_buf s \<longleftrightarrow> (\<exists>i<NBUF. b_refcnt (bufs s i) = 0 \<and> \<not> b_dirty (bufs s i))"

lemma bufs_set_buf [simp]: "bufs (set_buf i b s) = (bufs s)(i := b)"
  by (simp add: set_buf_def)

lemma set_buf_frame [simp]:
  "lru (set_buf i b s) = lru s" "memdisk (set_buf i b s) = memdisk s"
  "disksize (set_buf i b s) = disksize s" "wtrace (set_buf i b s) = wtrace s"
  "cpid (set_buf i b s) = cpid s" "bio.more (set_buf i b s) = bio.more s"
  by (simp_all add: set_buf_def)

lemma set_buf_set_buf [simp]: "set_buf i b (set_buf i c s) = set_buf i b s"
  by (simp add: set_buf_def)

lemma bio_inv_lru: "bio_inv s \<Longrightarrow> i \<in> set (lru s) \<longleftrightarrow> i < NBUF"
  by (simp add: bio_inv_def)

lemma bio_inv_buf_ok: "bio_inv s \<Longrightarrow> i < NBUF \<Longrightarrow> buf_ok s (bufs s i)"
  by (simp add: bio_inv_def)

lemma bio_inv_unique:
  "bio_inv s \<Longrightarrow> i < NBUF \<Longrightarrow> j < NBUF \<Longrightarrow> caches s n i \<Longrightarrow> caches s n j \<Longrightarrow> i = j"
  unfolding bio_inv_def by blast

lemma blk_cached:
  assumes "bio_inv s" "i < NBUF" "caches s n i" "b_valid (bufs s i)"
  shows "blk s n = bdata s i"
proof -
  have "find (\<lambda>i. caches s n i \<and> b_valid (bufs s i)) (lru s) = Some i"
    using assms bio_inv_unique [OF assms(1)] by (intro find_unique) (auto simp: bio_inv_lru)
  then show ?thesis by (simp add: blk_def)
qed

lemma blk_uncached:
  assumes "bio_inv s" "\<And>i. i < NBUF \<Longrightarrow> caches s n i \<Longrightarrow> \<not> b_valid (bufs s i)"
  shows "blk s n = memdisk s n"
proof -
  have "find (\<lambda>i. caches s n i \<and> b_valid (bufs s i)) (lru s) = None"
    using assms by (auto simp: find_None_iff bio_inv_lru)
  then show ?thesis by (simp add: blk_def)
qed

text \<open>Updating one buffer: when the invariant is kept, and what becomes of the contents.\<close>

lemma caches_set_buf:
  "caches (set_buf i b s) n j \<longleftrightarrow> (if j = i then b_dev b = 1 \<and> b_blockno b = n else caches s n j)"
  by (simp add: caches_def)

lemma buf_ok_set_buf [simp]: "buf_ok (set_buf i b s) c = buf_ok s c"
  by (simp add: buf_ok_def)

lemma bio_inv_set_buf:
  assumes inv: "bio_inv s" and ok: "buf_ok s b"
    and uniq: "\<And>j. j < NBUF \<Longrightarrow> j \<noteq> i \<Longrightarrow> b_dev b = 1 \<Longrightarrow> \<not> caches s (b_blockno b) j"
  shows "bio_inv (set_buf i b s)"
  unfolding bio_inv_def
proof (intro conjI allI impI)
  fix j k n
  assume jk: "j < NBUF" "k < NBUF" and
    c: "caches (set_buf i b s) n j \<and> caches (set_buf i b s) n k"
  show "j = k"
  proof (cases "j = i \<or> k = i")
    case True
    with jk c uniq show ?thesis by (auto simp: caches_set_buf split: if_splits)
  next
    case False
    with c have "caches s n j" "caches s n k" by (simp_all add: caches_set_buf)
    with inv jk show ?thesis by (blast intro: bio_inv_unique)
  qed
next
  fix j assume "j < NBUF"
  with inv ok show "buf_ok (set_buf i b s) (bufs (set_buf i b s) j)"
    by (simp add: bio_inv_buf_ok)
qed (use inv in \<open>simp_all add: bio_inv_def\<close>)

lemma blk_set_buf:
  assumes inv: "bio_inv s" and inv': "bio_inv (set_buf i b s)" and i: "i < NBUF"
  shows "blk (set_buf i b s) m =
    (if b_valid b \<and> b_dev b = 1 \<and> b_blockno b = m then b_data b
     else if b_valid (bufs s i) \<and> caches s m i then memdisk s m else blk s m)"
proof (cases "b_valid b \<and> b_dev b = 1 \<and> b_blockno b = m")
  case True
  then show ?thesis using blk_cached [OF inv' i, of m] by (simp add: caches_set_buf)
next
  case new: False
  show ?thesis
  proof (cases "\<exists>j<NBUF. j \<noteq> i \<and> caches s m j \<and> b_valid (bufs s j)")
    case True
    then obtain j where j: "j < NBUF" "j \<noteq> i" "caches s m j" "b_valid (bufs s j)" by blast
    then have "blk (set_buf i b s) m = bdata s j"
      using blk_cached [OF inv' j(1), of m] by (simp add: caches_set_buf)
    moreover have "\<not> caches s m i" using bio_inv_unique [OF inv i j(1)] j(2,3) by blast
    ultimately show ?thesis using new blk_cached [OF inv j(1,3,4)] by auto
  next
    case False
    then have "blk (set_buf i b s) m = memdisk s m"
      using new by (subst blk_uncached [OF inv']) (auto simp: caches_set_buf split: if_splits)
    moreover have "blk s m = memdisk s m" if "\<not> (b_valid (bufs s i) \<and> caches s m i)"
      using False that by (intro blk_uncached [OF inv]) blast
    ultimately show ?thesis using new by auto
  qed
qed

section \<open>Specifications\<close>

lemma find_cached:
  assumes "bio_inv s" "find (\<lambda>i. b_dev (bufs s i) = 1 \<and> b_blockno (bufs s i) = n) (lru s) = Some i"
  shows "i < NBUF" "caches s n i"
  using find_SomeD [OF assms(2)] assms(1) by (simp_all add: bio_inv_lru caches_def)

lemma find_not_cached:
  assumes "bio_inv s" "find (\<lambda>i. b_dev (bufs s i) = 1 \<and> b_blockno (bufs s i) = n) (lru s) = None"
  shows "i < NBUF \<Longrightarrow> \<not> caches s n i"
  using find_NoneD [OF assms(2), of i] assms(1) by (simp add: bio_inv_lru caches_def)

text \<open>
  \<open>got s n i s'\<close>: \<open>s'\<close> is \<open>s\<close> after buffer \<open>i\<close> has been locked for block \<open>n\<close> and filled with it.
\<close>

definition got :: "'a bio_scheme \<Rightarrow> nat \<Rightarrow> nat \<Rightarrow> 'a bio_scheme \<Rightarrow> bool" where
  "got s n i s' \<longleftrightarrow>
     i < NBUF \<and> bio_inv s' \<and> blk s' = blk s \<and> bdata s' i = blk s n \<and> caches s' n i \<and>
     b_valid (bufs s' i) \<and> sl_locked (b_lock (bufs s' i)) \<and>
     \<not> sl_locked (b_lock (bufs s i)) \<and> b_dirty (bufs s' i) = b_dirty (bufs s i) \<and>
     b_refcnt (bufs s' i) = b_refcnt (bufs s i) + 1 \<and>
     (\<not> b_dirty (bufs s i) \<longrightarrow> blk s n = memdisk s n) \<and>
     (b_dirty (bufs s i) \<longrightarrow> caches s n i) \<and>
     s' = set_buf i (bufs s' i) s"

lemma gotI:
  assumes inv: "bio_inv s" and i: "i < NBUF" and n: "n < disksize s"
    and b: "b_dev b = 1" "b_blockno b = n" "b_valid b" "sl_locked (b_lock b)" "b_data b = blk s n"
      "b_dirty b = b_dirty (bufs s i)" "b_refcnt b = b_refcnt (bufs s i) + 1"
    and other: "\<And>j. j < NBUF \<Longrightarrow> j \<noteq> i \<Longrightarrow> \<not> caches s n j"
    and unl: "\<not> sl_locked (b_lock (bufs s i))"
    and clean: "b_valid (bufs s i) \<Longrightarrow> b_blockno (bufs s i) \<noteq> n \<Longrightarrow> \<not> b_dirty (bufs s i)"
    and disk: "\<not> b_dirty (bufs s i) \<Longrightarrow> blk s n = memdisk s n"
  shows "got s n i (set_buf i b s)"
proof -
  have inv': "bio_inv (set_buf i b s)"
    using b other n by (intro bio_inv_set_buf [OF inv]) (auto simp: buf_ok_def)
  have "blk (set_buf i b s) m = blk s m" for m
  proof (cases "b_valid (bufs s i) \<and> caches s m i \<and> m \<noteq> n")
    case True
    with bio_inv_buf_ok [OF inv i] unl clean have "bdata s i = memdisk s m"
      by (auto simp: buf_ok_def caches_def)
    with True b show ?thesis using blk_cached [OF inv i, of m]
      by (simp add: blk_set_buf [OF inv inv' i])
  next
    case False
    with b show ?thesis by (auto simp: blk_set_buf [OF inv inv' i])
  qed
  then show ?thesis
    using i inv' b unl disk clean bio_inv_buf_ok [OF inv i]
    by (auto simp: got_def caches_set_buf) (auto simp: caches_def buf_ok_def)
qed

lemma bread_got:
  assumes inv: "bio_inv s" and n: "n < disksize s" and nl: "\<not> blk_locked s n"
    and room: "(\<exists>i<NBUF. caches s n i) \<or> free_buf s"
  shows "wp (bread 1 n s) (\<lambda>(i, s'). got s n i s')"
proof (cases "find (\<lambda>i. b_dev (bufs s i) = 1 \<and> b_blockno (bufs s i) = n) (lru s)")
  case (Some i)
  note i = find_cached [OF inv Some]
  from i nl have unl: "\<not> sl_locked (b_lock (bufs s i))" by (auto simp: blk_locked_def)
  have other: "\<not> caches s n j" if "j < NBUF" "j \<noteq> i" for j
    using bio_inv_unique [OF inv i(1) that(1) i(2)] that(2) by blast
  have dirty: "b_dirty (bufs s i) \<Longrightarrow> b_valid (bufs s i)"
    using bio_inv_buf_ok [OF inv i(1)] by (simp add: buf_ok_def)
  have unc: "blk s n = memdisk s n" if "\<not> b_valid (bufs s i)"
    using that other by (intro blk_uncached [OF inv]) metis
  have disk: "blk s n = memdisk s n" if "\<not> b_dirty (bufs s i)"
    using that unl bio_inv_buf_ok [OF inv i(1)] blk_cached [OF inv i] unc i(2)
    by (cases "b_valid (bufs s i)") (auto simp: buf_ok_def caches_def)
  have ni: "b_dev (bufs s i) = 1" "b_blockno (bufs s i) = n"
    using i(2) by (simp_all add: caches_def)
  show ?thesis
  proof (cases "b_valid (bufs s i)")
    case True
    then show ?thesis
      by (simp add: bread_def bget_def Some Let_def unl)
        (rule gotI [OF inv i(1) n], simp_all add: ni unl other disk blk_cached [OF inv i])
  next
    case False
    with dirty have "\<not> b_dirty (bufs s i)" by blast
    with False show ?thesis
      by (simp add: bread_def bget_def Some Let_def iderw_def holdingsleep_def unl ni n not_le)
        (rule gotI [OF inv i(1) n], simp_all add: ni unl other unc)
  qed
next
  case None
  note out = find_not_cached [OF inv None]
  with room obtain k where "k < NBUF" "b_refcnt (bufs s k) = 0" "\<not> b_dirty (bufs s k)"
    by (auto simp: free_buf_def)
  then obtain i where f: "find (\<lambda>i. b_refcnt (bufs s i) = 0 \<and> \<not> b_dirty (bufs s i)) (rev (lru s)) = Some i"
    using inv by (cases "find (\<lambda>i. b_refcnt (bufs s i) = 0 \<and> \<not> b_dirty (bufs s i)) (rev (lru s))")
      (auto simp: find_None_iff bio_inv_lru)
  then have i: "i < NBUF" "b_refcnt (bufs s i) = 0" "\<not> b_dirty (bufs s i)"
    using find_SomeD [OF f] inv by (auto simp: bio_inv_lru)
  then have unl: "\<not> sl_locked (b_lock (bufs s i))"
    using bio_inv_buf_ok [OF inv i(1)] by (auto simp: buf_ok_def)
  have "blk s n = memdisk s n" using out by (intro blk_uncached [OF inv]) blast
  then show ?thesis
    using None f i unl n out
    by (auto simp: bread_def bget_def Let_def iderw_def holdingsleep_def intro!: gotI [OF inv i(1) n])
qed

lemma gotD:
  assumes "got s n i s'"
  shows "i < NBUF" "bio_inv s'" "blk s' = blk s" "bdata s' i = blk s n" "caches s' n i"
    "b_valid (bufs s' i)" "sl_locked (b_lock (bufs s' i))" "b_dirty (bufs s' i) = b_dirty (bufs s i)"
    "b_refcnt (bufs s' i) = b_refcnt (bufs s i) + 1"
    "\<not> b_dirty (bufs s i) \<Longrightarrow> blk s n = memdisk s n" "b_dirty (bufs s i) \<Longrightarrow> caches s n i"
    "\<not> sl_locked (b_lock (bufs s i))"
    "lru s' = lru s" "memdisk s' = memdisk s" "disksize s' = disksize s" "wtrace s' = wtrace s"
    "cpid s' = cpid s" "bio.more s' = bio.more s" "j \<noteq> i \<Longrightarrow> bufs s' j = bufs s j"
proof -
  from assms have eq: "s' = set_buf i (bufs s' i) s" by (simp add: got_def)
  show "i < NBUF" "bio_inv s'" "blk s' = blk s" "bdata s' i = blk s n" "caches s' n i"
    "b_valid (bufs s' i)" "sl_locked (b_lock (bufs s' i))" "b_dirty (bufs s' i) = b_dirty (bufs s i)"
    "b_refcnt (bufs s' i) = b_refcnt (bufs s i) + 1"
    "\<not> b_dirty (bufs s i) \<Longrightarrow> blk s n = memdisk s n" "b_dirty (bufs s i) \<Longrightarrow> caches s n i"
    "\<not> sl_locked (b_lock (bufs s i))"
    using assms by (simp_all add: got_def)
  show "lru s' = lru s" "memdisk s' = memdisk s" "disksize s' = disksize s" "wtrace s' = wtrace s"
    "cpid s' = cpid s" "bio.more s' = bio.more s" "j \<noteq> i \<Longrightarrow> bufs s' j = bufs s j"
    by (subst eq, simp)+
qed

text \<open>Storing into a locked, filled buffer changes the contents of its block and of no other.\<close>

lemma set_data_spec:
  assumes inv: "bio_inv s" and i: "i < NBUF" and c: "caches s n i"
    and v: "b_valid (bufs s i)" and l: "sl_locked (b_lock (bufs s i))"
  shows "bio_inv (set_data i d s)" "blk (set_data i d s) = (blk s)(n := d)"
proof -
  have n: "b_dev (bufs s i) = 1" "b_blockno (bufs s i) = n" using c by (simp_all add: caches_def)
  show inv': "bio_inv (set_data i d s)"
    unfolding set_data_def
  proof (rule bio_inv_set_buf [OF inv])
    show "buf_ok s (bufs s i\<lparr>b_data := d\<rparr>)"
      using bio_inv_buf_ok [OF inv i] l by (simp add: buf_ok_def)
  next
    fix j assume "j < NBUF" "j \<noteq> i"
    then show "\<not> caches s (b_blockno (bufs s i\<lparr>b_data := d\<rparr>)) j"
      using bio_inv_unique [OF inv i _ c] n by auto
  qed
  show "blk (set_data i d s) = (blk s)(n := d)"
  proof
    fix m
    show "blk (set_data i d s) m = ((blk s)(n := d)) m"
      using n v blk_set_buf [OF inv inv' [unfolded set_data_def] i, of m]
      by (auto simp: set_data_def caches_def)
  qed
qed

lemma set_data_frame [simp]:
  "lru (set_data i d s) = lru s" "memdisk (set_data i d s) = memdisk s"
  "disksize (set_data i d s) = disksize s" "wtrace (set_data i d s) = wtrace s"
  "cpid (set_data i d s) = cpid s" "bio.more (set_data i d s) = bio.more s"
  "bufs (set_data i d s) = (bufs s)(i := (bufs s i)\<lparr>b_data := d\<rparr>)"
  by (simp_all add: set_data_def)

lemma buf_valid_dirty [simp]:
  fixes b :: buf
  shows "b_valid b \<Longrightarrow> b\<lparr>b_dirty := x, b_valid := True\<rparr> = b\<lparr>b_dirty := x\<rparr>"
  by (cases b) simp

text \<open>
  Writing a locked buffer through: the disk gets its contents, one write is issued, and the
  contents of no block change.
\<close>

lemma bwrite_spec:
  assumes inv: "bio_inv s" and i: "i < NBUF" and c: "caches s n i"
    and v: "b_valid (bufs s i)" and l: "sl_locked (b_lock (bufs s i))"
  shows "wp (bwrite i s) (\<lambda>s'. bio_inv s' \<and> blk s' = blk s \<and>
           s' = set_buf i ((bufs s i)\<lparr>b_dirty := False\<rparr>)
                  (s\<lparr>memdisk := (memdisk s)(n := bdata s i), wtrace := wtrace s @ [(n, bdata s i)]\<rparr>))"
proof -
  let ?s1 = "s\<lparr>memdisk := (memdisk s)(n := bdata s i), wtrace := wtrace s @ [(n, bdata s i)]\<rparr>"
  let ?s2 = "set_buf i ((bufs s i)\<lparr>b_dirty := False\<rparr>) ?s1"
  have n: "b_dev (bufs s i) = 1" "b_blockno (bufs s i) = n" using c by (simp_all add: caches_def)
  have ok: "buf_ok s (bufs s j)" if "j < NBUF" for j using inv that by (rule bio_inv_buf_ok)
  have other: "j < NBUF \<Longrightarrow> j \<noteq> i \<Longrightarrow> \<not> caches s n j" for j
    using bio_inv_unique [OF inv i _ c] by blast
  have caches2: "caches ?s2 m j = caches s m j" for m j
    by (simp add: caches_def)
  have okj: "buf_ok ?s2 (bufs ?s2 j)" if "j < NBUF" for j
    using ok [OF that] other [OF that] l n v
    by (auto simp: buf_ok_def caches_def)
  have inv2: "bio_inv ?s2"
    unfolding bio_inv_def caches2 using okj inv by (simp add: bio_inv_def)
  have "blk ?s2 m = blk s m" for m
  proof (cases "\<exists>j<NBUF. caches s m j \<and> b_valid (bufs s j)")
    case True
    then obtain j where j: "j < NBUF" "caches s m j" "b_valid (bufs s j)" by blast
    then have "blk ?s2 m = bdata ?s2 j"
      by (intro blk_cached [OF inv2 j(1)]) (auto simp: caches2)
    with blk_cached [OF inv j] show ?thesis by simp
  next
    case False
    then have "m \<noteq> n" using i c v by blast
    moreover have "blk ?s2 m = memdisk ?s2 m"
      using False v by (intro blk_uncached [OF inv2]) (auto simp: caches2)
    moreover have "blk s m = memdisk s m"
      using False by (intro blk_uncached [OF inv]) blast
    ultimately show ?thesis by simp
  qed
  then have "blk ?s2 = blk s" ..
  moreover have "n < disksize s" using ok [OF i] v n by (simp add: buf_ok_def)
  ultimately show ?thesis
    using inv2 l n v by (simp add: bwrite_def iderw_def holdingsleep_def Let_def not_le set_buf_def)
qed

lemma lru_perm:
  assumes inv: "bio_inv s" and L: "distinct L" "set L = {..<NBUF}"
  shows "bio_inv (s\<lparr>lru := L\<rparr>)" "blk (s\<lparr>lru := L\<rparr>) = blk s"
proof -
  have c: "caches (s\<lparr>lru := L\<rparr>) m j = caches s m j" for m j by (simp add: caches_def)
  have o: "buf_ok (s\<lparr>lru := L\<rparr>) b = buf_ok s b" for b by (simp add: buf_ok_def)
  show inv': "bio_inv (s\<lparr>lru := L\<rparr>)"
    using inv L by (simp add: bio_inv_def c o)
  show "blk (s\<lparr>lru := L\<rparr>) = blk s"
  proof
    fix m
    show "blk (s\<lparr>lru := L\<rparr>) m = blk s m"
    proof (cases "\<exists>j<NBUF. caches s m j \<and> b_valid (bufs s j)")
      case True
      then obtain j where j: "j < NBUF" "caches s m j" "b_valid (bufs s j)" by blast
      then show ?thesis
        using blk_cached [OF inv' j(1), of m] blk_cached [OF inv j] by (simp add: c)
    next
      case False
      then show ?thesis
        using blk_uncached [OF inv', of m] blk_uncached [OF inv, of m] by (auto simp: c)
    qed
  qed
qed

text \<open>Releasing a buffer that is dirty or agrees with the disk.\<close>

definition released :: "'a bio_scheme \<Rightarrow> nat \<Rightarrow> 'a bio_scheme \<Rightarrow> bool" where
  "released s i s' \<longleftrightarrow>
     bio_inv s' \<and> blk s' = blk s \<and>
     (\<exists>L. s' = (set_buf i ((bufs s i)\<lparr>b_lock := releasesleep (b_lock (bufs s i)),
                  b_refcnt := b_refcnt (bufs s i) - 1\<rparr>) s)\<lparr>lru := L\<rparr>)"

lemma brelse_released:
  assumes inv: "bio_inv s" and i: "i < NBUF" and l: "sl_locked (b_lock (bufs s i))"
    and clean: "b_valid (bufs s i) \<Longrightarrow> \<not> b_dirty (bufs s i) \<Longrightarrow>
                  bdata s i = memdisk s (b_blockno (bufs s i))"
  shows "wp (brelse i s) (\<lambda>s'. released s i s')"
proof -
  let ?b = "(bufs s i)\<lparr>b_lock := releasesleep (b_lock (bufs s i)), b_refcnt := b_refcnt (bufs s i) - 1\<rparr>"
  let ?s1 = "set_buf i ?b s"
  have ok: "buf_ok s (bufs s i)" using inv i by (rule bio_inv_buf_ok)
  have inv1: "bio_inv ?s1"
  proof (rule bio_inv_set_buf [OF inv])
    show "buf_ok s ?b" using ok clean l by (simp add: buf_ok_def)
  next
    fix j assume "j < NBUF" "j \<noteq> i" "b_dev ?b = 1"
    then show "\<not> caches s (b_blockno ?b) j"
      using bio_inv_unique [OF inv i, of j "b_blockno (bufs s i)"] by (auto simp: caches_def)
  qed
  have blk1: "blk ?s1 = blk s"
  proof
    fix m show "blk ?s1 m = blk s m"
      using blk_set_buf [OF inv inv1 i, of m] blk_cached [OF inv i, of m]
      by (auto simp: caches_def)
  qed
  let ?L = "i # remove1 i (lru s)"
  have L: "distinct ?L" "set ?L = {..<NBUF}"
    using inv i by (auto simp: bio_inv_def)
  have "released s i (?s1\<lparr>lru := M\<rparr>)" if "distinct M" "set M = {..<NBUF}" for M
    unfolding released_def using lru_perm [OF inv1 that] blk1 by auto
  from this [OF L] this [of "lru s"] inv have
    "released s i (?s1\<lparr>lru := ?L\<rparr>)" "released s i (?s1\<lparr>lru := lru s\<rparr>)"
    by (simp_all add: bio_inv_def)
  then show ?thesis
    using l by (auto simp: brelse_def holdingsleep_def Let_def set_buf_def)
qed

lemma binit_loop:
  "fold (\<lambda>i s. set_buf i ((bufs s i)\<lparr>b_lock := initsleeplock\<rparr>) (s\<lparr>lru := i # lru s\<rparr>)) [0..<k] s =
   s\<lparr>lru := rev [0..<k] @ lru s,
     bufs := (\<lambda>i. if i < k then (bufs s i)\<lparr>b_lock := initsleeplock\<rparr> else bufs s i)\<rparr>"
  by (induction k) (auto simp: set_buf_def fun_eq_iff less_Suc_eq)

text \<open>The initial state: memory is zero, so every buffer is that of block 0 of device 0.\<close>

definition zero_buf :: buf where
  "zero_buf = \<lparr>b_valid = False, b_dirty = False, b_dev = 0, b_blockno = 0,
     b_lock = initsleeplock, b_refcnt = 0, b_data = (\<lambda>_. 0)\<rparr>"

lemma binit_inv:
  assumes "bufs s = (\<lambda>_. zero_buf)"
  shows "bio_inv (binit s)" "blk (binit s) = memdisk s" "free_buf (binit s)"
proof -
  have s': "binit s = s\<lparr>lru := rev [0..<NBUF], bufs := (\<lambda>_. zero_buf)\<rparr>"
    using assms by (simp add: binit_def binit_loop zero_buf_def fun_eq_iff del: upt_rec_numeral)
  have c: "\<not> caches (binit s) n i" for n i
    by (simp add: s' caches_def zero_buf_def)
  show inv: "bio_inv (binit s)"
    unfolding bio_inv_def using c
    by (auto simp: s' buf_ok_def zero_buf_def simp del: upt_rec_numeral)
  show "blk (binit s) = memdisk s"
    using blk_uncached [OF inv] c by (auto simp: s')
  show "free_buf (binit s)"
    by (auto simp: free_buf_def s' zero_buf_def intro: exI [of _ 0])
qed

section \<open>The cache as its clients see it\<close>

text \<open>
  A run that holds some buffers: every referenced buffer is locked by it and filled. \<open>own s i n\<close>:
  it holds buffer \<open>i\<close>, which is that of block \<open>n\<close>. \<open>held s\<close>: the blocks it holds.
  \<open>dirty s\<close>: the blocks pinned in the cache because they differ from the disk until they are
  written. \<open>rest s\<close>: what the cache does not touch.
\<close>

definition calm :: "'a bio_scheme \<Rightarrow> bool" where
  "calm s \<longleftrightarrow> bio_inv s \<and>
     (\<forall>i<NBUF. b_refcnt (bufs s i) = (if sl_locked (b_lock (bufs s i)) then 1 else 0) \<and>
       (sl_locked (b_lock (bufs s i)) \<longrightarrow> b_valid (bufs s i)))"

definition own :: "'a bio_scheme \<Rightarrow> nat \<Rightarrow> nat \<Rightarrow> bool" where
  "own s i n \<longleftrightarrow> i < NBUF \<and> caches s n i \<and> sl_locked (b_lock (bufs s i))"

definition held :: "'a bio_scheme \<Rightarrow> nat set" where
  "held s = {n. \<exists>i. own s i n}"

definition dirty :: "'a bio_scheme \<Rightarrow> nat set" where
  "dirty s = {n. \<exists>i<NBUF. caches s n i \<and> b_dirty (bufs s i)}"

definition rest :: "'a bio_scheme \<Rightarrow> nat \<times> int \<times> 'a" where
  "rest s = (disksize s, cpid s, bio.more s)"

lemma view_cong:
  assumes "bufs s' = bufs s" "lru s' = lru s" "memdisk s' = memdisk s" "disksize s' = disksize s"
  shows "calm s' = calm s" "blk s' = blk s" "own s' = own s" "dirty s' = dirty s"
proof -
  have c: "caches s' n i = caches s n i" for n i using assms by (simp add: caches_def)
  have o: "buf_ok s' b = buf_ok s b" for b using assms by (simp add: buf_ok_def)
  have "bio_inv s' = bio_inv s" using assms by (simp add: bio_inv_def c o)
  then show "calm s' = calm s" using assms by (simp add: calm_def)
  show "blk s' = blk s" by (rule ext) (simp add: blk_def c assms split: option.split)
  show "own s' = own s" using assms by (simp add: own_def c fun_eq_iff)
  show "dirty s' = dirty s" using assms by (simp add: dirty_def c)
qed

lemma calm_inv: "calm s \<Longrightarrow> bio_inv s"
  by (simp add: calm_def)

lemma own_valid: "calm s \<Longrightarrow> own s i n \<Longrightarrow> b_valid (bufs s i)"
  by (simp add: calm_def own_def)

lemma own_data: "calm s \<Longrightarrow> own s i n \<Longrightarrow> bdata s i = blk s n"
  using blk_cached [of s i n] own_valid [of s i n] calm_inv [of s] unfolding own_def by simp

lemma own_held: "own s i n \<Longrightarrow> n \<in> held s"
  by (auto simp: held_def)

lemma own_unique: "calm s \<Longrightarrow> own s i n \<Longrightarrow> caches s n j \<Longrightarrow> j < NBUF \<Longrightarrow> j = i"
  using bio_inv_unique [of s i j n] by (auto simp: own_def calm_inv)

lemma own_fun: "own s i n \<Longrightarrow> own s i m \<Longrightarrow> n = m"
  by (simp add: own_def caches_def)

text \<open>
  A buffer that is not free is pinned or held; each of those blocks has one buffer, so there is
  a free buffer as long as fewer than \<open>NBUF\<close> blocks are pinned or held.
\<close>

lemma calm_free:
  assumes calm: "calm s" and room: "card (dirty s \<union> held s) < NBUF"
  shows "free_buf s"
proof (rule ccontr)
  assume no: "\<not> free_buf s"
  let ?f = "\<lambda>i. b_blockno (bufs s i)"
  have busy: "b_dev (bufs s i) = 1 \<and> ?f i \<in> dirty s \<union> held s" if i: "i < NBUF" for i
  proof -
    from no i have "b_refcnt (bufs s i) \<noteq> 0 \<or> b_dirty (bufs s i)" by (auto simp: free_buf_def)
    moreover from calm i have "b_refcnt (bufs s i) \<noteq> 0 \<Longrightarrow>
        sl_locked (b_lock (bufs s i)) \<and> b_valid (bufs s i)"
      by (auto simp: calm_def split: if_splits)
    moreover have "buf_ok s (bufs s i)" using calm_inv [OF calm] i by (rule bio_inv_buf_ok)
    ultimately show ?thesis using i by (auto simp: dirty_def held_def own_def caches_def buf_ok_def)
  qed
  have "inj_on ?f {..<NBUF}"
  proof (rule inj_onI)
    fix i j assume "i \<in> {..<NBUF}" "j \<in> {..<NBUF}" "?f i = ?f j"
    with busy show "i = j"
      by (intro bio_inv_unique [OF calm_inv [OF calm], of i j "?f i"]) (auto simp: caches_def)
  qed
  then have "card (?f ` {..<NBUF}) = NBUF" by (simp add: card_image)
  moreover have "finite (dirty s \<union> held s)"
  proof -
    have "dirty s \<union> held s \<subseteq> ?f ` {..<NBUF}"
      by (auto simp: dirty_def held_def own_def caches_def)
    then show ?thesis by (rule finite_subset) simp
  qed
  moreover have "?f ` {..<NBUF} \<subseteq> dirty s \<union> held s" using busy by auto
  ultimately show False
    using room card_mono [of "dirty s \<union> held s" "?f ` {..<NBUF}"] by linarith
qed

lemma caches_fun: "caches s n i \<Longrightarrow> caches s m i \<Longrightarrow> n = m"
  by (simp add: caches_def)

lemma blk_locked_held: "blk_locked s n \<longleftrightarrow> n \<in> held s"
  by (auto simp: blk_locked_def held_def own_def)

lemma dirty_cached: "n \<in> dirty s \<Longrightarrow> \<exists>i<NBUF. caches s n i"
  by (auto simp: dirty_def)

lemma bread_calm:
  assumes calm: "calm s" and n: "n < disksize s" "n \<notin> held s"
    and room: "n \<in> dirty s \<or> card (dirty s \<union> held s) < NBUF"
  shows "wp (bread 1 n s) (\<lambda>(i, s'). calm s' \<and> blk s' = blk s \<and> dirty s' = dirty s \<and>
           (\<forall>j m. own s' j m \<longleftrightarrow> own s j m \<or> j = i \<and> m = n) \<and>
           (n \<notin> dirty s \<longrightarrow> blk s n = memdisk s n) \<and>
           memdisk s' = memdisk s \<and> wtrace s' = wtrace s \<and> rest s' = rest s)"
proof -
  have "wp (bread 1 n s) (\<lambda>(i, s'). got s n i s')"
    using room calm_free [OF calm] dirty_cached n
    by (intro bread_got) (auto simp: calm_inv [OF calm] blk_locked_held)
  then show ?thesis
  proof (rule wp_mono, clarify)
    fix i s' assume g: "got s n i s'"
    note d = gotD [OF g]
    have "bufs s' = (bufs s)(i := bufs s' i)" using d(19) by auto
    then obtain b where b: "bufs s' = (bufs s)(i := b)" ..
    have c: "caches s' m j \<longleftrightarrow> (if j = i then m = n else caches s m j)" for m j
      using d(5) by (auto simp: caches_def b)
    have "calm s'"
      unfolding calm_def
    proof (intro conjI allI impI)
      fix j assume j: "j < NBUF"
      show "b_refcnt (bufs s' j) = (if sl_locked (b_lock (bufs s' j)) then 1 else 0)"
        using calm j d by (cases "j = i") (simp_all add: calm_def)
      assume "sl_locked (b_lock (bufs s' j))"
      then show "b_valid (bufs s' j)"
        using calm j d by (cases "j = i") (simp_all add: calm_def)
    qed (rule d)
    moreover have "dirty s' = dirty s"
      unfolding dirty_def c using d(1,8,11) by (auto simp: b split: if_splits) (metis caches_fun)
    moreover have "own s' j m \<longleftrightarrow> own s j m \<or> j = i \<and> m = n" for j m
      unfolding own_def c using d(1,7,12) by (auto simp: b split: if_splits)
    moreover have "n \<notin> dirty s \<Longrightarrow> blk s n = memdisk s n"
      using d(1,10,11) by (auto simp: dirty_def)
    ultimately show "calm s' \<and> blk s' = blk s \<and> dirty s' = dirty s \<and>
           (\<forall>j m. own s' j m \<longleftrightarrow> own s j m \<or> j = i \<and> m = n) \<and>
           (n \<notin> dirty s \<longrightarrow> blk s n = memdisk s n) \<and>
           memdisk s' = memdisk s \<and> wtrace s' = wtrace s \<and> rest s' = rest s"
      using d by (simp add: rest_def)
  qed
qed

lemma set_data_calm:
  assumes calm: "calm s" and o: "own s i n"
  shows "calm (set_data i d s)" "blk (set_data i d s) = (blk s)(n := d)"
    "dirty (set_data i d s) = dirty s" "own (set_data i d s) = own s"
    "memdisk (set_data i d s) = memdisk s" "wtrace (set_data i d s) = wtrace s"
    "rest (set_data i d s) = rest s"
proof -
  have i: "i < NBUF" "caches s n i" "sl_locked (b_lock (bufs s i))" "b_valid (bufs s i)"
    using o own_valid [OF calm o] by (simp_all add: own_def)
  note d = set_data_spec [OF calm_inv [OF calm] i(1,2,4,3), of d]
  have c: "caches (set_data i d s) m j = caches s m j" for m j
    by (simp add: caches_def)
  show "calm (set_data i d s)" using calm d i by (auto simp: calm_def)
  show "blk (set_data i d s) = (blk s)(n := d)" by (rule d)
  show "dirty (set_data i d s) = dirty s" unfolding dirty_def c by auto
  show "own (set_data i d s) = own s" by (auto simp: fun_eq_iff own_def c)
qed (simp_all add: rest_def)

lemma bwrite_calm:
  assumes calm: "calm s" and o: "own s i n"
  shows "wp (bwrite i s) (\<lambda>s'. calm s' \<and> blk s' = blk s \<and> dirty s' = dirty s - {n} \<and>
           own s' = own s \<and> memdisk s' = (memdisk s)(n := blk s n) \<and>
           wtrace s' = wtrace s @ [(n, blk s n)] \<and> rest s' = rest s)"
proof -
  have i: "i < NBUF" "caches s n i" "sl_locked (b_lock (bufs s i))" "b_valid (bufs s i)"
    using o own_valid [OF calm o] by (simp_all add: own_def)
  show ?thesis
  proof (rule wp_mono [OF bwrite_spec [OF calm_inv [OF calm] i(1,2,4,3)]], elim conjE)
    fix s'
    let ?b = "(bufs s i)\<lparr>b_dirty := False\<rparr>"
    assume s': "bio_inv s'" "blk s' = blk s"
      "s' = set_buf i ?b (s\<lparr>memdisk := (memdisk s)(n := bdata s i),
                            wtrace := wtrace s @ [(n, bdata s i)]\<rparr>)"
    from s'(3) have b: "bufs s' = (bufs s)(i := ?b)" by simp
    have c: "caches s' m j = caches s m j" for m j
      by (simp add: caches_def b)
    have "calm s'" using calm s'(1) by (auto simp: calm_def b)
    moreover have "dirty s' = dirty s - {n}"
      unfolding dirty_def c b
      using own_unique [OF calm o] i(2) by (auto split: if_splits dest: caches_fun) (metis caches_fun)
    moreover have "own s' = own s" by (auto simp: fun_eq_iff own_def c b)
    ultimately show "calm s' \<and> blk s' = blk s \<and> dirty s' = dirty s - {n} \<and>
           own s' = own s \<and> memdisk s' = (memdisk s)(n := blk s n) \<and>
           wtrace s' = wtrace s @ [(n, blk s n)] \<and> rest s' = rest s"
      using s' own_data [OF calm o] by (simp add: rest_def)
  qed
qed

lemma brelse_calm:
  assumes calm: "calm s" and o: "own s i n" and clean: "n \<in> dirty s \<or> blk s n = memdisk s n"
  shows "wp (brelse i s) (\<lambda>s'. calm s' \<and> blk s' = blk s \<and> dirty s' = dirty s \<and>
           (\<forall>j m. own s' j m \<longleftrightarrow> own s j m \<and> m \<noteq> n) \<and>
           memdisk s' = memdisk s \<and> wtrace s' = wtrace s \<and> rest s' = rest s)"
proof -
  have i: "i < NBUF" "caches s n i" "sl_locked (b_lock (bufs s i))" "b_valid (bufs s i)"
    using o own_valid [OF calm o] by (simp_all add: own_def)
  have "bdata s i = memdisk s (b_blockno (bufs s i))" if "\<not> b_dirty (bufs s i)"
    using that clean own_data [OF calm o] own_unique [OF calm o] i(2)
    by (auto simp: dirty_def caches_def)
  then show ?thesis
  proof (intro wp_mono [OF brelse_released [OF calm_inv [OF calm] i(1,3)]])
    fix s'
    let ?b = "(bufs s i)\<lparr>b_lock := releasesleep (b_lock (bufs s i)), b_refcnt := b_refcnt (bufs s i) - 1\<rparr>"
    assume r: "released s i s'"
    then have b: "bufs s' = (bufs s)(i := ?b)" by (auto simp: released_def)
    have c: "caches s' m j = caches s m j" for m j
      by (simp add: caches_def b)
    have "calm s'" using calm r i by (auto simp: calm_def b released_def)
    moreover have "dirty s' = dirty s" unfolding dirty_def c b by auto
    moreover have "own s' j m \<longleftrightarrow> own s j m \<and> m \<noteq> n" for j m
      using i(2) own_unique [OF calm o] by (auto simp: own_def c b dest: caches_fun)
    ultimately show "calm s' \<and> blk s' = blk s \<and> dirty s' = dirty s \<and>
           (\<forall>j m. own s' j m \<longleftrightarrow> own s j m \<and> m \<noteq> n) \<and>
           memdisk s' = memdisk s \<and> wtrace s' = wtrace s \<and> rest s' = rest s"
      using r by (auto simp: released_def rest_def)
  qed
qed

text \<open>
  The contract of the buffer cache, as the log and the file system rely on it, and what follows
  from it for the block copies of the log: reading a block and releasing it changes nothing, and
  a copy through two buffers changes the destination block, on the disk and in the cache.
\<close>

locale buffer_cache =
  fixes calm :: "'s \<Rightarrow> bool" and blk :: "'s \<Rightarrow> nat \<Rightarrow> bytes" and dirty :: "'s \<Rightarrow> nat set"
    and own :: "'s \<Rightarrow> nat \<Rightarrow> nat \<Rightarrow> bool" and disk :: "'s \<Rightarrow> nat \<Rightarrow> bytes"
    and trace :: "'s \<Rightarrow> (nat \<times> bytes) list" and rest :: "'s \<Rightarrow> 'r" and nblk :: "'s \<Rightarrow> nat"
    and data :: "'s \<Rightarrow> nat \<Rightarrow> bytes"
    and get :: "nat \<Rightarrow> 's \<Rightarrow> (nat \<times> 's) res" and store :: "nat \<Rightarrow> bytes \<Rightarrow> 's \<Rightarrow> 's"
    and flush :: "nat \<Rightarrow> 's \<Rightarrow> 's res" and rel :: "nat \<Rightarrow> 's \<Rightarrow> 's res"
  assumes get_law: "calm s \<Longrightarrow> n < nblk s \<Longrightarrow> \<forall>i. \<not> own s i n \<Longrightarrow>
      n \<in> dirty s \<or> card (dirty s \<union> {m. \<exists>i. own s i m}) < NBUF \<Longrightarrow>
      wp (get n s) (\<lambda>(i, s'). calm s' \<and> blk s' = blk s \<and> dirty s' = dirty s \<and>
           (\<forall>j m. own s' j m \<longleftrightarrow> own s j m \<or> j = i \<and> m = n) \<and>
           (n \<notin> dirty s \<longrightarrow> blk s n = disk s n) \<and>
           disk s' = disk s \<and> trace s' = trace s \<and> rest s' = rest s)"
    and data_law: "calm s \<Longrightarrow> own s i n \<Longrightarrow> data s i = blk s n"
    and store_law: "calm s \<Longrightarrow> own s i n \<Longrightarrow>
      calm (store i d s) \<and> blk (store i d s) = (blk s)(n := d) \<and>
      dirty (store i d s) = dirty s \<and> own (store i d s) = own s \<and>
      disk (store i d s) = disk s \<and> trace (store i d s) = trace s \<and> rest (store i d s) = rest s"
    and flush_law: "calm s \<Longrightarrow> own s i n \<Longrightarrow>
      wp (flush i s) (\<lambda>s'. calm s' \<and> blk s' = blk s \<and> dirty s' = dirty s - {n} \<and>
           own s' = own s \<and> disk s' = (disk s)(n := blk s n) \<and>
           trace s' = trace s @ [(n, blk s n)] \<and> rest s' = rest s)"
    and rel_law: "calm s \<Longrightarrow> own s i n \<Longrightarrow> n \<in> dirty s \<or> blk s n = disk s n \<Longrightarrow>
      wp (rel i s) (\<lambda>s'. calm s' \<and> blk s' = blk s \<and> dirty s' = dirty s \<and>
           (\<forall>j m. own s' j m \<longleftrightarrow> own s j m \<and> m \<noteq> n) \<and>
           disk s' = disk s \<and> trace s' = trace s \<and> rest s' = rest s)"
    and nblk_law: "rest s' = rest s \<Longrightarrow> nblk s' = nblk s"
begin

lemma read_block:
  assumes "calm s" "n < nblk s" "\<forall>i. \<not> own s i n"
    "n \<in> dirty s \<or> card (dirty s \<union> {m. \<exists>i. own s i m}) < NBUF"
  shows "wp (bnd (get n s) (\<lambda>(i, s1). bnd (rel i s1) (\<lambda>s2. Inr (data s1 i, s2))))
    (\<lambda>(d, s'). d = blk s n \<and> calm s' \<and> blk s' = blk s \<and> dirty s' = dirty s \<and> own s' = own s \<and>
       disk s' = disk s \<and> trace s' = trace s \<and> rest s' = rest s)"
  unfolding wp_bnd
proof (rule wp_mono [OF get_law [OF assms]], clarify)
  fix i s1
  assume s1: "calm s1" "blk s1 = blk s" "dirty s1 = dirty s"
    "\<forall>j m. own s1 j m \<longleftrightarrow> own s j m \<or> j = i \<and> m = n"
    "n \<notin> dirty s \<longrightarrow> blk s n = disk s n" "disk s1 = disk s" "trace s1 = trace s" "rest s1 = rest s"
  then have o: "own s1 i n" by blast
  have c: "n \<in> dirty s1 \<or> blk s1 n = disk s1 n" using s1 by auto
  show "wp (bnd (rel i s1) (\<lambda>s2. Inr (data s1 i, s2)))
    (\<lambda>(d, s'). d = blk s n \<and> calm s' \<and> blk s' = blk s \<and> dirty s' = dirty s \<and> own s' = own s \<and>
       disk s' = disk s \<and> trace s' = trace s \<and> rest s' = rest s)"
    unfolding wp_bnd
    using s1 assms(3) data_law [OF s1(1) o]
    by (intro wp_mono [OF rel_law [OF s1(1) o c]]) (auto simp: fun_eq_iff)
qed

text \<open>
  Two buffers are taken, \<open>x\<close> for block \<open>a\<close> and then \<open>y\<close> for block \<open>b\<close>; one is copied into the other
  and written, and both are released. The copy goes to the first buffer in \<^verbatim>\<open>write_log\<close> and to the
  second in \<^verbatim>\<open>install_trans\<close>.
\<close>

lemma get_two:
  assumes calm: "calm s" and none: "\<forall>i m. \<not> own s i m"
    and ab: "a < nblk s" "b < nblk s" "a \<noteq> b"
    and room: "a \<in> dirty s \<or> card (dirty s) < NBUF" "b \<in> dirty s \<or> card (insert a (dirty s)) < NBUF"
    and rest: "\<And>x y s2. calm s2 \<Longrightarrow> blk s2 = blk s \<Longrightarrow> dirty s2 = dirty s \<Longrightarrow>
      (\<forall>j m. own s2 j m \<longleftrightarrow> j = x \<and> m = a \<or> j = y \<and> m = b) \<Longrightarrow>
      (\<forall>m\<in>{a, b}. m \<in> dirty s \<or> blk s m = disk s m) \<Longrightarrow>
      disk s2 = disk s \<Longrightarrow> trace s2 = trace s \<Longrightarrow> rest s2 = rest s \<Longrightarrow> wp (f x y s2) Q"
  shows "wp (bnd (get a s) (\<lambda>(x, s1). bnd (get b s1) (\<lambda>(y, s2). f x y s2))) Q"
  unfolding wp_bnd
proof (rule wp_mono [OF get_law [OF calm ab(1)]], goal_cases)
  case 2
  from room(1) none show ?case by simp
next
  case (3 r)
  obtain x s1 where r: "r = (x, s1)" by (cases r)
  with 3 none have s1: "calm s1" "blk s1 = blk s" "dirty s1 = dirty s"
    "\<forall>j m. own s1 j m \<longleftrightarrow> j = x \<and> m = a" "a \<notin> dirty s \<longrightarrow> blk s a = disk s a"
    "disk s1 = disk s" "trace s1 = trace s" "rest s1 = rest s" by auto
  have "dirty s1 \<union> {m. \<exists>i. own s1 i m} = insert a (dirty s)" using s1 by auto
  with room(2) s1 have "b \<in> dirty s1 \<or> card (dirty s1 \<union> {m. \<exists>i. own s1 i m}) < NBUF" by simp
  moreover have "b < nblk s1" using ab(2) nblk_law [OF s1(8)] by simp
  moreover have "\<forall>i. \<not> own s1 i b" using s1(4) ab(3) by auto
  ultimately have g: "wp (get b s1) (\<lambda>(i, s'). calm s' \<and> blk s' = blk s1 \<and> dirty s' = dirty s1 \<and>
           (\<forall>j m. own s' j m \<longleftrightarrow> own s1 j m \<or> j = i \<and> m = b) \<and>
           (b \<notin> dirty s1 \<longrightarrow> blk s1 b = disk s1 b) \<and>
           disk s' = disk s1 \<and> trace s' = trace s1 \<and> rest s' = rest s1)"
    by (intro get_law [OF s1(1)])
  show ?case
    unfolding r wp_bnd prod.case
    by (rule wp_mono [OF g], clarify, rule rest) (use s1 in auto)
qed (use none in simp)

lemma copy_tail:
  assumes calm: "calm s" and cd: "c \<noteq> d" and clean: "c \<in> dirty s \<or> blk s c = disk s c"
    and owned: "\<forall>j m. own s j m \<longleftrightarrow> j = u \<and> m = c \<or> j = v \<and> m = d"
  shows "wp (bnd (flush v (store v (data s u) s)) (\<lambda>s3. bnd (rel u s3) (\<lambda>s4. rel v s4)))
    (\<lambda>s'. calm s' \<and> blk s' = (blk s)(d := blk s c) \<and> dirty s' = dirty s - {d} \<and>
       (\<forall>i m. \<not> own s' i m) \<and> disk s' = (disk s)(d := blk s c) \<and>
       trace s' = trace s @ [(d, blk s c)] \<and> rest s' = rest s)"
proof -
  let ?s = "store v (data s u) s"
  have o: "own s u c" "own s v d" using owned by auto
  note st = store_law [OF calm o(2), of "data s u"]
  note dat = data_law [OF calm o(1)]
  have cs: "calm ?s" "own ?s v d" using st o by auto
  show ?thesis
    unfolding wp_bnd
  proof (rule wp_mono [OF flush_law [OF cs]])
    fix s3
    assume "calm s3 \<and> blk s3 = blk ?s \<and> dirty s3 = dirty ?s - {d} \<and> own s3 = own ?s \<and>
      disk s3 = (disk ?s)(d := blk ?s d) \<and> trace s3 = trace ?s @ [(d, blk ?s d)] \<and> rest s3 = rest ?s"
    with st dat have s3: "calm s3" "blk s3 = (blk s)(d := blk s c)" "dirty s3 = dirty s - {d}"
      "own s3 = own s" "disk s3 = (disk s)(d := blk s c)" "trace s3 = trace s @ [(d, blk s c)]"
      "rest s3 = rest s" by auto
    have u: "own s3 u c" "c \<in> dirty s3 \<or> blk s3 c = disk s3 c"
      using s3 o clean cd by auto
    show "wp (rel u s3) (\<lambda>s4. wp (rel v s4) (\<lambda>s'. calm s' \<and> blk s' = (blk s)(d := blk s c) \<and>
       dirty s' = dirty s - {d} \<and> (\<forall>i m. \<not> own s' i m) \<and> disk s' = (disk s)(d := blk s c) \<and>
       trace s' = trace s @ [(d, blk s c)] \<and> rest s' = rest s))"
    proof (rule wp_mono [OF rel_law [OF s3(1) u]], elim conjE)
      fix s4
      assume s4: "calm s4" "blk s4 = blk s3" "dirty s4 = dirty s3"
        "\<forall>j m. own s4 j m \<longleftrightarrow> own s3 j m \<and> m \<noteq> c" "disk s4 = disk s3" "trace s4 = trace s3"
        "rest s4 = rest s3"
      then have v: "own s4 v d" "d \<in> dirty s4 \<or> blk s4 d = disk s4 d"
        using s3 o cd by auto
      show "wp (rel v s4) (\<lambda>s'. calm s' \<and> blk s' = (blk s)(d := blk s c) \<and>
         dirty s' = dirty s - {d} \<and> (\<forall>i m. \<not> own s' i m) \<and> disk s' = (disk s)(d := blk s c) \<and>
         trace s' = trace s @ [(d, blk s c)] \<and> rest s' = rest s)"
        by (rule wp_mono [OF rel_law [OF s4(1) v]]) (use s3 s4 owned in auto)
    qed
  qed
qed

lemma copy_first:
  assumes calm: "calm s" and none: "\<forall>i m. \<not> own s i m"
    and ab: "a < nblk s" "b < nblk s" "a \<noteq> b"
    and room: "a \<in> dirty s \<or> card (dirty s) < NBUF" "b \<in> dirty s \<or> card (insert a (dirty s)) < NBUF"
  shows "wp (bnd (get a s) (\<lambda>(x, s1). bnd (get b s1) (\<lambda>(y, s2).
      bnd (flush x (store x (data s2 y) s2)) (\<lambda>s3. bnd (rel y s3) (\<lambda>s4. rel x s4)))))
    (\<lambda>s'. calm s' \<and> blk s' = (blk s)(a := blk s b) \<and> dirty s' = dirty s - {a} \<and>
       (\<forall>i m. \<not> own s' i m) \<and> disk s' = (disk s)(a := blk s b) \<and>
       trace s' = trace s @ [(a, blk s b)] \<and> rest s' = rest s)"
proof (rule get_two [OF assms])
  fix x y s2
  assume s2: "calm s2" "blk s2 = blk s" "dirty s2 = dirty s"
    "\<forall>j m. own s2 j m \<longleftrightarrow> j = x \<and> m = a \<or> j = y \<and> m = b"
    "\<forall>m\<in>{a, b}. m \<in> dirty s \<or> blk s m = disk s m"
    "disk s2 = disk s" "trace s2 = trace s" "rest s2 = rest s"
  show "wp (bnd (flush x (store x (data s2 y) s2)) (\<lambda>s3. bnd (rel y s3) (\<lambda>s4. rel x s4)))
    (\<lambda>s'. calm s' \<and> blk s' = (blk s)(a := blk s b) \<and> dirty s' = dirty s - {a} \<and>
       (\<forall>i m. \<not> own s' i m) \<and> disk s' = (disk s)(a := blk s b) \<and>
       trace s' = trace s @ [(a, blk s b)] \<and> rest s' = rest s)"
    using copy_tail [OF s2(1), of b a y x] s2 ab(3) by auto
qed

lemma copy_second:
  assumes calm: "calm s" and none: "\<forall>i m. \<not> own s i m"
    and ab: "a < nblk s" "b < nblk s" "a \<noteq> b"
    and room: "a \<in> dirty s \<or> card (dirty s) < NBUF" "b \<in> dirty s \<or> card (insert a (dirty s)) < NBUF"
  shows "wp (bnd (get a s) (\<lambda>(x, s1). bnd (get b s1) (\<lambda>(y, s2).
      bnd (flush y (store y (data s2 x) s2)) (\<lambda>s3. bnd (rel x s3) (\<lambda>s4. rel y s4)))))
    (\<lambda>s'. calm s' \<and> blk s' = (blk s)(b := blk s a) \<and> dirty s' = dirty s - {b} \<and>
       (\<forall>i m. \<not> own s' i m) \<and> disk s' = (disk s)(b := blk s a) \<and>
       trace s' = trace s @ [(b, blk s a)] \<and> rest s' = rest s)"
proof (rule get_two [OF assms])
  fix x y s2
  assume s2: "calm s2" "blk s2 = blk s" "dirty s2 = dirty s"
    "\<forall>j m. own s2 j m \<longleftrightarrow> j = x \<and> m = a \<or> j = y \<and> m = b"
    "\<forall>m\<in>{a, b}. m \<in> dirty s \<or> blk s m = disk s m"
    "disk s2 = disk s" "trace s2 = trace s" "rest s2 = rest s"
  show "wp (bnd (flush y (store y (data s2 x) s2)) (\<lambda>s3. bnd (rel x s3) (\<lambda>s4. rel y s4)))
    (\<lambda>s'. calm s' \<and> blk s' = (blk s)(b := blk s a) \<and> dirty s' = dirty s - {b} \<and>
       (\<forall>i m. \<not> own s' i m) \<and> disk s' = (disk s)(b := blk s a) \<and>
       trace s' = trace s @ [(b, blk s a)] \<and> rest s' = rest s)"
    using copy_tail [OF s2(1), of a b x y] s2 ab(3) by auto
qed

lemma write_block:
  assumes calm: "calm s" and none: "\<forall>i m. \<not> own s i m" and n: "n < nblk s"
    and room: "n \<in> dirty s \<or> card (dirty s) < NBUF"
  shows "wp (bnd (get n s) (\<lambda>(x, s1). bnd (flush x (store x (g (data s1 x)) s1)) (\<lambda>s2. rel x s2)))
    (\<lambda>s'. calm s' \<and> blk s' = (blk s)(n := g (blk s n)) \<and> dirty s' = dirty s - {n} \<and>
       (\<forall>i m. \<not> own s' i m) \<and> disk s' = (disk s)(n := g (blk s n)) \<and>
       trace s' = trace s @ [(n, g (blk s n))] \<and> rest s' = rest s)"
proof -
  have "wp (get n s) (\<lambda>(i, s'). calm s' \<and> blk s' = blk s \<and> dirty s' = dirty s \<and>
           (\<forall>j m. own s' j m \<longleftrightarrow> own s j m \<or> j = i \<and> m = n) \<and>
           (n \<notin> dirty s \<longrightarrow> blk s n = disk s n) \<and>
           disk s' = disk s \<and> trace s' = trace s \<and> rest s' = rest s)"
    using none room by (intro get_law [OF calm n]) simp_all
  then show ?thesis
  proof (subst wp_bnd, elim wp_mono, clarify)
    fix x s1
    assume s1: "calm s1" "blk s1 = blk s" "dirty s1 = dirty s"
      "\<forall>j m. own s1 j m \<longleftrightarrow> own s j m \<or> j = x \<and> m = n" "disk s1 = disk s" "trace s1 = trace s"
      "rest s1 = rest s"
    then have o: "own s1 x n" by blast
    let ?s = "store x (g (data s1 x)) s1"
    note st = store_law [OF s1(1) o, of "g (data s1 x)"] and dat = data_law [OF s1(1) o]
    have cs: "calm ?s" "own ?s x n" using st o by auto
    show "wp (bnd (flush x ?s) (\<lambda>s2. rel x s2))
      (\<lambda>s'. calm s' \<and> blk s' = (blk s)(n := g (blk s n)) \<and> dirty s' = dirty s - {n} \<and>
         (\<forall>i m. \<not> own s' i m) \<and> disk s' = (disk s)(n := g (blk s n)) \<and>
         trace s' = trace s @ [(n, g (blk s n))] \<and> rest s' = rest s)"
    proof (subst wp_bnd, rule wp_mono [OF flush_law [OF cs]])
      fix s2
      assume "calm s2 \<and> blk s2 = blk ?s \<and> dirty s2 = dirty ?s - {n} \<and> own s2 = own ?s \<and>
        disk s2 = (disk ?s)(n := blk ?s n) \<and> trace s2 = trace ?s @ [(n, blk ?s n)] \<and> rest s2 = rest ?s"
      with st dat s1 have s2: "calm s2" "blk s2 = (blk s)(n := g (blk s n))" "dirty s2 = dirty s - {n}"
        "own s2 = own s1" "disk s2 = (disk s)(n := g (blk s n))" "trace s2 = trace s @ [(n, g (blk s n))]"
        "rest s2 = rest s" by auto
      then have r: "own s2 x n" "n \<in> dirty s2 \<or> blk s2 n = disk s2 n" using o by auto
      show "wp (rel x s2) (\<lambda>s'. calm s' \<and> blk s' = (blk s)(n := g (blk s n)) \<and> dirty s' = dirty s - {n} \<and>
         (\<forall>i m. \<not> own s' i m) \<and> disk s' = (disk s)(n := g (blk s n)) \<and>
         trace s' = trace s @ [(n, g (blk s n))] \<and> rest s' = rest s)"
        by (rule wp_mono [OF rel_law [OF s2(1) r]]) (use s1 s2 none in auto)
    qed
  qed
qed

end

interpretation bc: buffer_cache calm blk dirty own memdisk wtrace rest disksize bdata
  "bread 1" set_data bwrite brelse
proof
  fix s :: "'a bio_scheme" and n
  assume "calm s" "n < disksize s" "\<forall>i. \<not> own s i n"
    "n \<in> dirty s \<or> card (dirty s \<union> {m. \<exists>i. own s i m}) < NBUF"
  then show "wp (bread 1 n s) (\<lambda>(i, s'). calm s' \<and> blk s' = blk s \<and> dirty s' = dirty s \<and>
           (\<forall>j m. own s' j m \<longleftrightarrow> own s j m \<or> j = i \<and> m = n) \<and>
           (n \<notin> dirty s \<longrightarrow> blk s n = memdisk s n) \<and>
           memdisk s' = memdisk s \<and> wtrace s' = wtrace s \<and> rest s' = rest s)"
    by (intro bread_calm) (auto simp: held_def)
next
  fix s s' :: "'a bio_scheme"
  assume "rest s' = rest s"
  then show "disksize s' = disksize s" by (simp add: rest_def)
qed (simp_all add: own_data set_data_calm bwrite_calm brelse_calm)

end
