(* ===== verification/Log.thy ===== *)
theory Log
  imports Bio
begin

text \<open>
  The write-ahead log (\<^verbatim>\<open>log.c\<close>) on top of the buffer cache, and \<^verbatim>\<open>readsb\<close> of \<^verbatim>\<open>fs.c\<close>, which
  \<^verbatim>\<open>initlog\<close> calls. The log's state extends the cache's: one state record carries both.
\<close>

section \<open>State\<close>

text \<open>\<^verbatim>\<open>struct log\<close> and the header \<^verbatim>\<open>log.lh\<close>; entries of \<open>lh_block\<close> at and above \<open>lh_n\<close> are stale.\<close>

record log = bio +
  lg_start :: nat
  lg_size :: int
  lg_outstanding :: int
  lg_committing :: bool
  lg_dev :: nat
  lh_n :: int
  lh_block :: "nat \<Rightarrow> nat"

record superblock =
  sb_size :: nat
  sb_nblocks :: nat
  sb_ninodes :: nat
  sb_nlog :: nat
  sb_logstart :: nat
  sb_inodestart :: nat
  sb_bmapstart :: nat

definition sb_of :: "bytes \<Rightarrow> superblock" where
  "sb_of d = \<lparr>sb_size = unat (get32 d 0), sb_nblocks = unat (get32 d 4),
     sb_ninodes = unat (get32 d 8), sb_nlog = unat (get32 d 12),
     sb_logstart = unat (get32 d 16), sb_inodestart = unat (get32 d 20),
     sb_bmapstart = unat (get32 d 24)\<rparr>"

section \<open>Operations\<close>

definition readsb :: "nat \<Rightarrow> 'a bio_scheme \<Rightarrow> (superblock \<times> 'a bio_scheme) res" where
  "readsb dev s =
     bnd (bread dev 1 s) (\<lambda>(bp, s1).
     bnd (brelse bp s1) (\<lambda>s2.
     Inr (sb_of (bdata s1 bp), s2)))"

text \<open>\<open>install_upto t\<close>: the first \<open>t\<close> rounds of the loop of \<^verbatim>\<open>install_trans\<close>; likewise below.\<close>

primrec install_upto :: "nat \<Rightarrow> 'a log_scheme \<Rightarrow> 'a log_scheme res" where
  "install_upto 0 s = Inr s"
| "install_upto (Suc tail) s =
     bnd (install_upto tail s) (\<lambda>s.
     bnd (bread (lg_dev s) (lg_start s + tail + 1) s) (\<lambda>(lbuf, s1).
     bnd (bread (lg_dev s) (lh_block s tail) s1) (\<lambda>(dbuf, s2).
     bnd (bwrite dbuf (set_data dbuf (bdata s2 lbuf) s2)) (\<lambda>s3.
     bnd (brelse lbuf s3) (\<lambda>s4.
     brelse dbuf s4)))))"

definition install_trans :: "'a log_scheme \<Rightarrow> 'a log_scheme res" where
  "install_trans s = install_upto (nat (lh_n s)) s"

text \<open>
  The header block: \<^verbatim>\<open>int n\<close> at offset 0, \<^verbatim>\<open>int block[LOGSIZE]\<close> at offset 4. A count beyond
  \<^verbatim>\<open>LOGSIZE\<close> on the disk would make \<^verbatim>\<open>read_head\<close> overrun \<^verbatim>\<open>log.lh.block\<close>.
\<close>

primrec read_blocks :: "bytes \<Rightarrow> nat \<Rightarrow> (nat \<Rightarrow> nat) \<Rightarrow> (nat \<Rightarrow> nat) res" where
  "read_blocks d 0 f = Inr f"
| "read_blocks d (Suc i) f =
     bnd (read_blocks d i f) (\<lambda>f.
     if i < LOGSIZE then Inr (f(i := unat (get32 d (4 + 4 * i))))
     else Inl (Fault ''log.lh.block''))"

primrec write_blocks :: "bytes \<Rightarrow> nat \<Rightarrow> (nat \<Rightarrow> nat) \<Rightarrow> bytes" where
  "write_blocks d 0 f = d"
| "write_blocks d (Suc i) f = put32 (write_blocks d i f) (4 + 4 * i) (of_nat (f i))"

definition read_head :: "'a log_scheme \<Rightarrow> 'a log_scheme res" where
  "read_head s =
     bnd (bread (lg_dev s) (lg_start s) s) (\<lambda>(buf, s1).
     let n = sint (get32 (bdata s1 buf) 0) in
     bnd (read_blocks (bdata s1 buf) (nat n) (lh_block s1)) (\<lambda>f.
     brelse buf (s1\<lparr>lh_n := n, lh_block := f\<rparr>)))"

definition write_head :: "'a log_scheme \<Rightarrow> 'a log_scheme res" where
  "write_head s =
     bnd (bread (lg_dev s) (lg_start s) s) (\<lambda>(buf, s1).
     let d = write_blocks (put32 (bdata s1 buf) 0 (of_int (lh_n s))) (nat (lh_n s)) (lh_block s) in
     bnd (bwrite buf (set_data buf d s1)) (\<lambda>s2.
     brelse buf s2))"

definition recover_from_log :: "'a log_scheme \<Rightarrow> 'a log_scheme res" where
  "recover_from_log s =
     bnd (read_head s) (\<lambda>s.
     bnd (install_trans s) (\<lambda>s.
     write_head (s\<lparr>lh_n := 0\<rparr>)))"

definition initlog :: "nat \<Rightarrow> 'a log_scheme \<Rightarrow> 'a log_scheme res" where
  "initlog dev s =
     (if 4 + 4 * LOGSIZE \<ge> BSIZE then Inl (Panic ''initlog: too big logheader'')
      else bnd (readsb dev s) (\<lambda>(sb, s).
           recover_from_log (s\<lparr>lg_start := sb_logstart sb, lg_size := int (sb_nlog sb), lg_dev := dev\<rparr>)))"

definition begin_op :: "'a log_scheme \<Rightarrow> 'a log_scheme res" where
  "begin_op s =
     (if lg_committing s then Inl (Sleep ''log'')
      else if lh_n s + (lg_outstanding s + 1) * int MAXOPBLOCKS > int LOGSIZE then Inl (Sleep ''log'')
      else Inr (s\<lparr>lg_outstanding := lg_outstanding s + 1\<rparr>))"

primrec write_upto :: "nat \<Rightarrow> 'a log_scheme \<Rightarrow> 'a log_scheme res" where
  "write_upto 0 s = Inr s"
| "write_upto (Suc tail) s =
     bnd (write_upto tail s) (\<lambda>s.
     bnd (bread (lg_dev s) (lg_start s + tail + 1) s) (\<lambda>(to, s1).
     bnd (bread (lg_dev s) (lh_block s tail) s1) (\<lambda>(from, s2).
     bnd (bwrite to (set_data to (bdata s2 from) s2)) (\<lambda>s3.
     bnd (brelse from s3) (\<lambda>s4.
     brelse to s4)))))"

definition write_log :: "'a log_scheme \<Rightarrow> 'a log_scheme res" where
  "write_log s = write_upto (nat (lh_n s)) s"

definition commit :: "'a log_scheme \<Rightarrow> 'a log_scheme res" where
  "commit s =
     (if lh_n s > 0 then
        bnd (write_log s) (\<lambda>s.
        bnd (write_head s) (\<lambda>s.
        bnd (install_trans s) (\<lambda>s.
        write_head (s\<lparr>lh_n := 0\<rparr>))))
      else Inr s)"

definition end_op :: "'a log_scheme \<Rightarrow> 'a log_scheme res" where
  "end_op s =
     (let s = s\<lparr>lg_outstanding := lg_outstanding s - 1\<rparr> in
      if lg_committing s then Inl (Panic ''log.committing'')
      else if lg_outstanding s = 0 then
        bnd (commit (s\<lparr>lg_committing := True\<rparr>)) (\<lambda>s. Inr (s\<lparr>lg_committing := False\<rparr>))
      else Inr s)"

text \<open>The index the absorption loop of \<^verbatim>\<open>log_write\<close> stops at.\<close>

function log_index :: "(nat \<Rightarrow> nat) \<Rightarrow> nat \<Rightarrow> nat \<Rightarrow> nat \<Rightarrow> nat" where
  "log_index f n b i = (if i < n \<and> f i \<noteq> b then log_index f n b (i + 1) else i)"
  by pat_completeness auto
termination
  by (relation "measure (\<lambda>(f, n, b, i). n - i)") auto

declare log_index.simps [simp del]

text \<open>
  \<^verbatim>\<open>log_write\<close> as one step. The code makes its two checks before it takes \<^verbatim>\<open>log.lock\<close>: the caller is inside an
  operation, so \<^verbatim>\<open>log.outstanding\<close> stays positive, and that the log does not fill up in between is the
  business of the reservation in \<^verbatim>\<open>begin_op\<close>.
\<close>

definition log_write :: "nat \<Rightarrow> 'a log_scheme \<Rightarrow> 'a log_scheme res" where
  "log_write b s =
     (if lh_n s \<ge> int LOGSIZE \<or> lh_n s \<ge> lg_size s - 1 then Inl (Panic ''too big a transaction'')
      else if lg_outstanding s < 1 then Inl (Panic ''log_write outside of trans'')
      else let bn = b_blockno (bufs s b);
               i = log_index (lh_block s) (nat (lh_n s)) bn 0;
               s = s\<lparr>lh_block := (lh_block s)(i := bn)\<rparr>;
               s = (if int i = lh_n s then s\<lparr>lh_n := lh_n s + 1\<rparr> else s)
           in Inr (set_buf b ((bufs s b)\<lparr>b_dirty := True\<rparr>) s))"

section \<open>Sequences of block writes\<close>

definition apply_writes :: "(nat \<Rightarrow> bytes) \<Rightarrow> (nat \<times> bytes) list \<Rightarrow> nat \<Rightarrow> bytes" where
  "apply_writes d ws = foldl (\<lambda>d (b, v). d(b := v)) d ws"

lemma apply_writes_Nil [simp]: "apply_writes d [] = d"
  by (simp add: apply_writes_def)

lemma apply_writes_Cons [simp]:
  "apply_writes d ((b, v) # ws) = apply_writes (d(b := v)) ws"
  by (simp add: apply_writes_def)

lemma apply_writes_append [simp]:
  "apply_writes d (ws @ vs) = apply_writes (apply_writes d ws) vs"
  by (simp add: apply_writes_def)

lemma apply_writes_snoc_map:
  "apply_writes d (map (\<lambda>t. (f t, g t)) [0..<Suc k]) =
   (apply_writes d (map (\<lambda>t. (f t, g t)) [0..<k]))(f k := g k)"
  by (simp add: apply_writes_def)

lemma apply_writes_other:
  "b \<notin> f ` {..<k} \<Longrightarrow> apply_writes d (map (\<lambda>t. (f t, g t)) [0..<k]) b = d b"
  by (induction k) (auto simp: apply_writes_snoc_map lessThan_Suc simp del: upt_Suc)

lemma apply_writes_in:
  "t < k \<Longrightarrow> inj_on f {..<k} \<Longrightarrow> apply_writes d (map (\<lambda>t. (f t, g t)) [0..<k]) (f t) = g t"
proof (induction k)
  case (Suc k)
  then have "t < k \<Longrightarrow> f t \<noteq> f k" by (auto simp: inj_on_def)
  moreover have "inj_on f {..<k}" using Suc.prems(2) by (rule inj_on_subset) auto
  ultimately show ?case
    using Suc by (cases "t = k") (auto simp: apply_writes_snoc_map simp del: upt_Suc)
qed simp

section \<open>The header block\<close>

definition hd_n :: "bytes \<Rightarrow> int" where
  "hd_n d = sint (get32 d 0)"

definition hd_block :: "bytes \<Rightarrow> nat \<Rightarrow> nat" where
  "hd_block d t = unat (get32 d (4 + 4 * t))"

lemma write_blocks_n: "get32 (write_blocks d k f) 0 = get32 d 0"
  by (induction k) (simp_all add: get32_put32_other)

lemma write_blocks_block:
  "t < k \<Longrightarrow> get32 (write_blocks d k f) (4 + 4 * t) = of_nat (f t)"
proof (induction k)
  case (Suc k)
  then show ?case by (cases "t = k") (simp_all add: get32_put32_other)
qed simp

lemma read_blocks_eq:
  "k \<le> LOGSIZE \<Longrightarrow> read_blocks d k f = Inr (\<lambda>t. if t < k then hd_block d t else f t)"
  by (induction k) (auto simp: hd_block_def fun_eq_iff less_Suc_eq)

lemma sint_small: "0 \<le> n \<Longrightarrow> n < 2 ^ 31 \<Longrightarrow> sint (of_int n :: u32) = n"
  by (simp add: sint_sbintrunc' signed_take_bit_int_eq_self)

lemma hd_n_write [simp]:
  "0 \<le> n \<Longrightarrow> n < 2 ^ 31 \<Longrightarrow> hd_n (write_blocks (put32 d 0 (of_int n)) k f) = n"
  by (simp only: hd_n_def write_blocks_n get32_put32 sint_small)

lemma hd_block_write [simp]:
  "t < k \<Longrightarrow> f t < 2 ^ 32 \<Longrightarrow> hd_block (write_blocks d k f) t = f t"
  by (simp add: hd_block_def write_blocks_block unat_of_nat)

section \<open>Invariant\<close>

lemma rest_log:
  fixes s s' :: "'a log_scheme"
  assumes "rest s' = rest s"
  shows "lg_start s' = lg_start s" "lg_size s' = lg_size s" "lg_outstanding s' = lg_outstanding s"
    "lg_committing s' = lg_committing s" "lg_dev s' = lg_dev s" "lh_n s' = lh_n s"
    "lh_block s' = lh_block s" "disksize s' = disksize s" "log.more s' = log.more s"
  using assms by (cases s, cases s', simp add: rest_def)+

lemma log_view [simp]:
  "calm (s\<lparr>lh_n := n\<rparr>) = calm s" "blk (s\<lparr>lh_n := n\<rparr>) = blk s" "own (s\<lparr>lh_n := n\<rparr>) = own s"
  "dirty (s\<lparr>lh_n := n\<rparr>) = dirty s" "calm (s\<lparr>lh_block := f\<rparr>) = calm s" "blk (s\<lparr>lh_block := f\<rparr>) = blk s"
  "own (s\<lparr>lh_block := f\<rparr>) = own s" "dirty (s\<lparr>lh_block := f\<rparr>) = dirty s"
  "calm (s\<lparr>lg_committing := c\<rparr>) = calm s" "blk (s\<lparr>lg_committing := c\<rparr>) = blk s"
  "own (s\<lparr>lg_committing := c\<rparr>) = own s" "dirty (s\<lparr>lg_committing := c\<rparr>) = dirty s"
  "calm (s\<lparr>lg_outstanding := k\<rparr>) = calm s" "blk (s\<lparr>lg_outstanding := k\<rparr>) = blk s"
  "own (s\<lparr>lg_outstanding := k\<rparr>) = own s" "dirty (s\<lparr>lg_outstanding := k\<rparr>) = dirty s"
  by (rule view_cong; simp)+

text \<open>
  The blocks of the log region, and what holds of the log between its operations: the header in
  memory lists the pinned blocks, once each; the log region lies on the disk, and no block in it
  is logged.
\<close>

definition log_area :: "'a log_scheme \<Rightarrow> nat set" where
  "log_area s = {lg_start s ..< lg_start s + nat (lg_size s)}"

definition log_inv :: "'a log_scheme \<Rightarrow> bool" where
  "log_inv s \<longleftrightarrow>
     lg_dev s = 1 \<and> 0 \<le> lh_n s \<and> lh_n s \<le> int LOGSIZE \<and> lh_n s < lg_size s \<and>
     lg_start s + nat (lg_size s) \<le> disksize s \<and> disksize s < 2 ^ 31 \<and>
     inj_on (lh_block s) {..<nat (lh_n s)} \<and> lh_block s ` {..<nat (lh_n s)} = dirty s \<and>
     dirty s \<inter> log_area s = {} \<and> (\<forall>b\<in>dirty s. b < disksize s)"

lemma log_invD:
  assumes "log_inv s"
  shows "lg_dev s = 1" "0 \<le> lh_n s" "lh_n s \<le> int LOGSIZE" "lh_n s < lg_size s"
    "lg_start s + nat (lg_size s) \<le> disksize s" "disksize s < 2 ^ 31"
    "inj_on (lh_block s) {..<nat (lh_n s)}" "lh_block s ` {..<nat (lh_n s)} = dirty s"
    "t < nat (lh_n s) \<Longrightarrow> lh_block s t \<in> dirty s"
    "b \<in> dirty s \<Longrightarrow> b \<notin> log_area s" "b \<in> dirty s \<Longrightarrow> b < disksize s"
    "t \<le> nat (lh_n s) \<Longrightarrow> lg_start s + t \<in> log_area s"
    "t \<le> nat (lh_n s) \<Longrightarrow> lg_start s + t < disksize s"
  using assms unfolding log_inv_def log_area_def by auto

section \<open>What the phases of a commit write\<close>

definition log_writes :: "'a log_scheme \<Rightarrow> nat \<Rightarrow> (nat \<times> bytes) list" where
  "log_writes s k = map (\<lambda>t. (lg_start s + t + 1, blk s (lh_block s t))) [0..<k]"

lemma write_upto_spec:
  fixes s :: "'a log_scheme"
  assumes calm: "calm s" and none: "\<forall>i m. \<not> own s i m" and inv: "log_inv s"
    and room: "card (dirty s) < NBUF" and k: "k \<le> nat (lh_n s)"
  shows "wp (write_upto k s) (\<lambda>s'. calm s' \<and> (\<forall>i m. \<not> own s' i m) \<and> dirty s' = dirty s \<and>
     blk s' = apply_writes (blk s) (log_writes s k) \<and>
     memdisk s' = apply_writes (memdisk s) (log_writes s k) \<and>
     wtrace s' = wtrace s @ log_writes s k \<and> rest s' = rest s)"
  using k
proof (induction k)
  case 0
  then show ?case using calm none by (simp add: log_writes_def)
next
  case (Suc k)
  note I = log_invD [OF inv]
  have kn: "k < nat (lh_n s)" using Suc.prems by simp
  have B: "lh_block s k \<in> dirty s" "lh_block s k < disksize s" "lh_block s k \<notin> log_area s"
    using I(9) [OF kn] I(10,11) by blast+
  have A: "lg_start s + k + 1 \<in> log_area s" "lg_start s + k + 1 < disksize s"
    using I(12,13) [of "k + 1"] kn by (simp_all add: add.assoc)
  with I(10) have A': "lg_start s + k + 1 \<notin> dirty s" by blast
  have W: "log_writes s (Suc k) = log_writes s k @ [(lg_start s + k + 1, blk s (lh_block s k))]"
    by (simp add: log_writes_def)
  have same: "apply_writes (blk s) (log_writes s k) (lh_block s k) = blk s (lh_block s k)"
    unfolding log_writes_def
  proof (rule apply_writes_other)
    show "lh_block s k \<notin> (\<lambda>t. lg_start s + t + 1) ` {..<k}"
    proof
      assume "lh_block s k \<in> (\<lambda>t. lg_start s + t + 1) ` {..<k}"
      then obtain t where "t < k" "lh_block s k = lg_start s + (t + 1)" by auto
      with I(12) [of "t + 1"] kn B(3) show False by simp
    qed
  qed
  show ?case
    unfolding write_upto.simps
  proof (subst wp_bnd, rule wp_mono [OF Suc.IH], use Suc.prems in simp, elim conjE)
    fix s'
    assume s': "calm s'" "\<forall>i m. \<not> own s' i m" "dirty s' = dirty s"
      "blk s' = apply_writes (blk s) (log_writes s k)"
      "memdisk s' = apply_writes (memdisk s) (log_writes s k)"
      "wtrace s' = wtrace s @ log_writes s k" "rest s' = rest s"
    note R = rest_log [OF s'(7)]
    show "wp (bnd (bread (lg_dev s') (lg_start s' + k + 1) s') (\<lambda>(to, s1).
       bnd (bread (lg_dev s') (lh_block s' k) s1) (\<lambda>(from, s2).
       bnd (bwrite to (set_data to (bdata s2 from) s2)) (\<lambda>s3.
       bnd (brelse from s3) (\<lambda>s4. brelse to s4)))))
      (\<lambda>s'. calm s' \<and> (\<forall>i m. \<not> own s' i m) \<and> dirty s' = dirty s \<and>
         blk s' = apply_writes (blk s) (log_writes s (Suc k)) \<and>
         memdisk s' = apply_writes (memdisk s) (log_writes s (Suc k)) \<and>
         wtrace s' = wtrace s @ log_writes s (Suc k) \<and> rest s' = rest s)"
      unfolding R I(1)
      by (rule wp_mono [OF bc.copy_first [OF s'(1,2)]])
        (use A A' B R s' room same in \<open>auto simp: W\<close>)
  qed
qed

definition inst_writes :: "'a log_scheme \<Rightarrow> nat \<Rightarrow> (nat \<times> bytes) list" where
  "inst_writes s k = map (\<lambda>t. (lh_block s t, blk s (lg_start s + t + 1))) [0..<k]"

text \<open>What \<^verbatim>\<open>install_trans\<close> needs of the header: the same at a commit and at a recovery.\<close>

definition installable :: "'a log_scheme \<Rightarrow> bool" where
  "installable s \<longleftrightarrow> lg_dev s = 1 \<and> 0 \<le> lh_n s \<and> inj_on (lh_block s) {..<nat (lh_n s)} \<and>
     card (dirty s) < NBUF \<and> lg_start s + nat (lh_n s) < disksize s \<and>
     (\<forall>t<nat (lh_n s). lh_block s t < disksize s \<and>
        lh_block s t \<notin> {lg_start s .. lg_start s + nat (lh_n s)} \<and>
        lg_start s + t + 1 \<notin> dirty s \<and> (lh_block s t \<in> dirty s \<or> card (dirty s) + 1 < NBUF))"

lemma installableD:
  assumes "installable s"
  shows "lg_dev s = 1" "inj_on (lh_block s) {..<nat (lh_n s)}"
    "card (dirty s) < NBUF" "0 \<le> lh_n s" "lg_start s + nat (lh_n s) < disksize s"
    "t < nat (lh_n s) \<Longrightarrow> lh_block s t < disksize s"
    "t < nat (lh_n s) \<Longrightarrow> lh_block s t \<notin> {lg_start s .. lg_start s + nat (lh_n s)}"
    "t < nat (lh_n s) \<Longrightarrow> lg_start s + t + 1 \<notin> dirty s"
    "t < nat (lh_n s) \<Longrightarrow> lh_block s t \<in> dirty s \<or> card (dirty s) + 1 < NBUF"
  using assms unfolding installable_def by auto

lemma finite_dirty [simp]: "finite (dirty s)"
proof -
  have "dirty s \<subseteq> (\<lambda>i. b_blockno (bufs s i)) ` {..<NBUF}" by (auto simp: dirty_def caches_def)
  then show ?thesis by (rule finite_subset) simp
qed

lemma install_upto_spec:
  fixes s :: "'a log_scheme"
  assumes calm: "calm s" and none: "\<forall>i m. \<not> own s i m" and inst: "installable s"
    and k: "k \<le> nat (lh_n s)"
  shows "wp (install_upto k s) (\<lambda>s'. calm s' \<and> (\<forall>i m. \<not> own s' i m) \<and>
     dirty s' = dirty s - lh_block s ` {..<k} \<and>
     blk s' = apply_writes (blk s) (inst_writes s k) \<and>
     memdisk s' = apply_writes (memdisk s) (inst_writes s k) \<and>
     wtrace s' = wtrace s @ inst_writes s k \<and> rest s' = rest s)"
  using k
proof (induction k)
  case 0
  then show ?case using calm none by (simp add: inst_writes_def)
next
  case (Suc k)
  note I = installableD [OF inst]
  have kn: "k < nat (lh_n s)" using Suc.prems by simp
  let ?a = "lg_start s + k + 1" and ?b = "lh_block s k"
  have a: "?a < disksize s" using I(5) kn by simp
  have ab: "?a \<noteq> ?b" using I(7) [OF kn] kn by auto
  have W: "inst_writes s (Suc k) = inst_writes s k @ [(?b, blk s ?a)]"
    by (simp add: inst_writes_def)
  have same: "apply_writes (blk s) (inst_writes s k) ?a = blk s ?a"
    unfolding inst_writes_def
  proof (rule apply_writes_other)
    show "?a \<notin> lh_block s ` {..<k}"
    proof
      assume "?a \<in> lh_block s ` {..<k}"
      then obtain t where "t < k" "lh_block s t = ?a" by auto
      with I(7) [of t] kn show False by simp
    qed
  qed
  have b: "?b \<notin> lh_block s ` {..<k}"
  proof
    assume "?b \<in> lh_block s ` {..<k}"
    then obtain t where "t < k" "lh_block s t = ?b" by auto
    with inj_onD [OF I(2), of t k] kn show False by simp
  qed
  show ?case
    unfolding install_upto.simps
  proof (subst wp_bnd, rule wp_mono [OF Suc.IH], use Suc.prems in simp, elim conjE)
    fix s'
    assume s': "calm s'" "\<forall>i m. \<not> own s' i m" "dirty s' = dirty s - lh_block s ` {..<k}"
      "blk s' = apply_writes (blk s) (inst_writes s k)"
      "memdisk s' = apply_writes (memdisk s) (inst_writes s k)"
      "wtrace s' = wtrace s @ inst_writes s k" "rest s' = rest s"
    note R = rest_log [OF s'(7)]
    have c1: "card (dirty s') \<le> card (dirty s)" using s'(3) by (auto intro: card_mono)
    have c2: "card (insert ?a (dirty s')) \<le> card (dirty s) + 1"
      using c1 by (simp add: card_insert_if)
    have room: "card (dirty s') < NBUF" "?b \<in> dirty s' \<or> card (insert ?a (dirty s')) < NBUF"
      using I(3) I(9) [OF kn] c1 c2 b s'(3) by auto
    show "wp (bnd (bread (lg_dev s') (lg_start s' + k + 1) s') (\<lambda>(lbuf, s1).
       bnd (bread (lg_dev s') (lh_block s' k) s1) (\<lambda>(dbuf, s2).
       bnd (bwrite dbuf (set_data dbuf (bdata s2 lbuf) s2)) (\<lambda>s3.
       bnd (brelse lbuf s3) (\<lambda>s4. brelse dbuf s4)))))
      (\<lambda>s'. calm s' \<and> (\<forall>i m. \<not> own s' i m) \<and>
         dirty s' = dirty s - lh_block s ` {..<Suc k} \<and>
         blk s' = apply_writes (blk s) (inst_writes s (Suc k)) \<and>
         memdisk s' = apply_writes (memdisk s) (inst_writes s (Suc k)) \<and>
         wtrace s' = wtrace s @ inst_writes s (Suc k) \<and> rest s' = rest s)"
      unfolding R I(1)
      by (rule wp_mono [OF bc.copy_second [OF s'(1,2)]])
        (use a ab I(6) [OF kn] R s' room same in \<open>auto simp: W lessThan_Suc\<close>)
  qed
qed

text \<open>The header block as \<^verbatim>\<open>write_head\<close> leaves it.\<close>

definition new_head :: "'a log_scheme \<Rightarrow> bytes \<Rightarrow> bytes" where
  "new_head s d = write_blocks (put32 d 0 (of_int (lh_n s))) (nat (lh_n s)) (lh_block s)"

lemma write_head_spec:
  fixes s :: "'a log_scheme"
  assumes calm: "calm s" and none: "\<forall>i m. \<not> own s i m" and dev: "lg_dev s = 1"
    and start: "lg_start s < disksize s" and room: "card (dirty s) < NBUF"
  shows "wp (write_head s) (\<lambda>s'. calm s' \<and> (\<forall>i m. \<not> own s' i m) \<and>
     dirty s' = dirty s - {lg_start s} \<and>
     blk s' = (blk s)(lg_start s := new_head s (blk s (lg_start s))) \<and>
     memdisk s' = (memdisk s)(lg_start s := new_head s (blk s (lg_start s))) \<and>
     wtrace s' = wtrace s @ [(lg_start s, new_head s (blk s (lg_start s)))] \<and> rest s' = rest s)"
  unfolding write_head_def dev Let_def new_head_def [symmetric]
  by (rule wp_mono [OF bc.write_block [OF calm none start, of "new_head s"]]) (use room in auto)

lemma read_head_spec:
  fixes s :: "'a log_scheme"
  assumes calm: "calm s" and none: "\<forall>i m. \<not> own s i m" and dev: "lg_dev s = 1"
    and start: "lg_start s < disksize s" and room: "card (dirty s) < NBUF"
    and n: "hd_n (blk s (lg_start s)) \<le> int LOGSIZE"
  shows "wp (read_head s) (\<lambda>s'. calm s' \<and> (\<forall>i m. \<not> own s' i m) \<and> dirty s' = dirty s \<and>
     blk s' = blk s \<and> memdisk s' = memdisk s \<and> wtrace s' = wtrace s \<and>
     lh_n s' = hd_n (blk s (lg_start s)) \<and>
     (\<forall>t<nat (lh_n s'). lh_block s' t = hd_block (blk s (lg_start s)) t) \<and>
     lg_start s' = lg_start s \<and> lg_size s' = lg_size s \<and> lg_outstanding s' = lg_outstanding s \<and>
     lg_committing s' = lg_committing s \<and> lg_dev s' = lg_dev s \<and> disksize s' = disksize s)"
  unfolding read_head_def dev
proof (subst wp_bnd, rule wp_mono [OF bc.get_law [OF calm start]], goal_cases)
  case (3 r)
  obtain x s1 where r: "r = (x, s1)" by (cases r)
  with 3 none have s1: "calm s1" "blk s1 = blk s" "dirty s1 = dirty s"
    "\<forall>j m. own s1 j m \<longleftrightarrow> j = x \<and> m = lg_start s"
    "lg_start s \<notin> dirty s \<longrightarrow> blk s (lg_start s) = memdisk s (lg_start s)"
    "memdisk s1 = memdisk s" "wtrace s1 = wtrace s" "rest s1 = rest s" by auto
  note R = rest_log [OF s1(8)]
  let ?d = "blk s (lg_start s)"
  let ?f = "\<lambda>t. if t < nat (hd_n ?d) then hd_block ?d t else lh_block s1 t"
  let ?s = "s1\<lparr>lh_n := hd_n ?d, lh_block := ?f\<rparr>"
  have o: "own s1 x (lg_start s)" using s1(4) by blast
  have dat: "bdata s1 x = ?d" using own_data [OF s1(1) o] s1(2) by simp
  have rb: "read_blocks ?d (nat (hd_n ?d)) (lh_block s1) = Inr ?f"
    using n by (intro read_blocks_eq) simp
  have c: "calm ?s" "own ?s x (lg_start s)" "lg_start s \<in> dirty ?s \<or> blk ?s (lg_start s) = memdisk ?s (lg_start s)"
    using s1 o by auto
  show ?case
    unfolding r prod.case Let_def dat hd_n_def [symmetric] rb bnd_Inr
  proof (rule wp_mono [OF brelse_calm [OF c]], elim conjE)
    fix s'
    assume s': "calm s'" "blk s' = blk ?s" "dirty s' = dirty ?s"
      "\<forall>j m. own s' j m \<longleftrightarrow> own ?s j m \<and> m \<noteq> lg_start s" "memdisk s' = memdisk ?s"
      "wtrace s' = wtrace ?s" "rest s' = rest ?s"
    show "calm s' \<and> (\<forall>i m. \<not> own s' i m) \<and> dirty s' = dirty s \<and>
     blk s' = blk s \<and> memdisk s' = memdisk s \<and> wtrace s' = wtrace s \<and>
     lh_n s' = hd_n ?d \<and> (\<forall>t<nat (lh_n s'). lh_block s' t = hd_block ?d t) \<and>
     lg_start s' = lg_start s \<and> lg_size s' = lg_size s \<and> lg_outstanding s' = lg_outstanding s \<and>
     lg_committing s' = lg_committing s \<and> lg_dev s' = 1 \<and> disksize s' = disksize s"
      using s' s1 R rest_log [OF s'(7)] dev by simp
  qed
qed (use none room in auto)

end
