(* ===== verification/Log_Crash.thy ===== *)
theory Log_Crash
  imports Log
begin

text \<open>
  Crash safety of the log. A crash keeps the block writes the driver has issued and loses memory;
  a block write is atomic. The theorems say what the disk holds after a crash at any point of a
  commit, or of a recovery, once \<^verbatim>\<open>initlog\<close> has run on it.
\<close>

section \<open>A commit\<close>

definition commit_head :: "'a log_scheme \<Rightarrow> bytes" where
  "commit_head s = new_head s (blk s (lg_start s))"

definition home_writes :: "'a log_scheme \<Rightarrow> (nat \<times> bytes) list" where
  "home_writes s = map (\<lambda>t. (lh_block s t, blk s (lh_block s t))) [0..<nat (lh_n s)]"

text \<open>The block writes of a commit: log blocks, header, home blocks, empty header.\<close>

definition commit_writes :: "'a log_scheme \<Rightarrow> (nat \<times> bytes) list" where
  "commit_writes s = log_writes s (nat (lh_n s)) @ [(lg_start s, commit_head s)] @
     home_writes s @ [(lg_start s, put32 (commit_head s) 0 0)]"

lemma log_blocks_inj: "inj_on (\<lambda>t. lg_start s + t + 1) A"
  by (rule inj_onI) simp

lemma log_area_inside:
  assumes "log_inv s"
  shows "{lg_start s .. lg_start s + nat (lh_n s)} \<subseteq> log_area s"
    "lg_start s + nat (lh_n s) < disksize s"
  using log_invD(2,4,5) [OF assms] by (auto simp: log_area_def)

lemma log_writes_at:
  "t < k \<Longrightarrow> apply_writes d (log_writes s k) (lg_start s + t + 1) = blk s (lh_block s t)"
  unfolding log_writes_def
  by (rule apply_writes_in [where f = "\<lambda>t. lg_start s + t + 1"]) (auto simp: log_blocks_inj)

lemma log_writes_other:
  "b \<notin> {lg_start s + 1 .. lg_start s + k} \<Longrightarrow> apply_writes d (log_writes s k) b = d b"
  unfolding log_writes_def by (rule apply_writes_other) auto

lemma home_writes_at:
  assumes "log_inv s" "b \<in> dirty s"
  shows "apply_writes d (home_writes s) b = blk s b"
proof -
  note I = log_invD [OF assms(1)]
  from assms(2) I(8) obtain t where t: "t < nat (lh_n s)" "b = lh_block s t" by auto
  then show ?thesis
    unfolding home_writes_def using apply_writes_in [OF t(1) I(7)] by simp
qed

lemma home_writes_other:
  "log_inv s \<Longrightarrow> b \<notin> dirty s \<Longrightarrow> apply_writes d (home_writes s) b = d b"
  unfolding home_writes_def using log_invD(8) by (intro apply_writes_other) blast

lemma clean_blk:
  assumes "calm s" "\<forall>i m. \<not> own s i m" "n \<notin> dirty s" "n < disksize s"
  shows "blk s n = memdisk s n"
proof (cases "\<exists>i<30. caches s n i \<and> b_valid (bufs s i)")
  case True
  then obtain i where i: "i < 30" "caches s n i" "b_valid (bufs s i)" by blast
  then have "\<not> b_dirty (bufs s i)" "\<not> sl_locked (b_lock (bufs s i))"
    using assms(2,3) by (auto simp: dirty_def own_def)
  then have "bdata s i = memdisk s n"
    using bio_inv_buf_ok [OF calm_inv [OF assms(1)] i(1)] i(2,3) by (simp add: buf_ok_def caches_def)
  with blk_cached [OF calm_inv [OF assms(1)] i] show ?thesis by simp
next
  case False
  then show ?thesis by (intro blk_uncached [OF calm_inv [OF assms(1)]]) blast
qed

text \<open>The last two phases, which a commit and a recovery share: install, then clear the header.\<close>

definition install_writes :: "'a log_scheme \<Rightarrow> (nat \<times> bytes) list" where
  "install_writes s =
     inst_writes s (nat (lh_n s)) @ [(lg_start s, put32 (blk s (lg_start s)) 0 0)]"

lemma inst_writes_other:
  assumes "installable s" "b \<notin> lh_block s ` {..<nat (lh_n s)}"
  shows "apply_writes d (inst_writes s (nat (lh_n s))) b = d b"
  unfolding inst_writes_def using assms(2) by (rule apply_writes_other)

lemma rest_lh_n:
  fixes s s' :: "'a log_scheme"
  shows "rest s' = rest s \<Longrightarrow> rest (s'\<lparr>lh_n := n\<rparr>) = rest (s\<lparr>lh_n := n\<rparr>)"
  by (cases s; cases s') (simp add: rest_def)

lemma install_clear_spec:
  fixes s :: "'a log_scheme"
  assumes calm: "calm s" and none: "\<forall>i m. \<not> own s i m" and inst: "installable s"
  shows "wp (bnd (install_trans s) (\<lambda>s. write_head (s\<lparr>lh_n := 0\<rparr>)))
    (\<lambda>s'. calm s' \<and> (\<forall>i m. \<not> own s' i m) \<and>
       dirty s' = dirty s - lh_block s ` {..<nat (lh_n s)} - {lg_start s} \<and>
       blk s' = apply_writes (blk s) (install_writes s) \<and>
       memdisk s' = apply_writes (memdisk s) (install_writes s) \<and>
       wtrace s' = wtrace s @ install_writes s \<and> rest s' = rest (s\<lparr>lh_n := 0\<rparr>))"
  unfolding install_trans_def
proof (subst wp_bnd, rule wp_mono [OF install_upto_spec [OF calm none inst order_refl]], elim conjE)
  fix s1
  let ?n = "nat (lh_n s)"
  assume s1: "calm s1" "\<forall>i m. \<not> own s1 i m" "dirty s1 = dirty s - lh_block s ` {..<?n}"
    "blk s1 = apply_writes (blk s) (inst_writes s ?n)"
    "memdisk s1 = apply_writes (memdisk s) (inst_writes s ?n)"
    "wtrace s1 = wtrace s @ inst_writes s ?n" "rest s1 = rest s"
  note R = rest_log [OF s1(7)] and I = installableD [OF inst]
  have "card (dirty s1) < NBUF" using s1(3) I(3) card_mono [of "dirty s" "dirty s1"] by simp
  moreover have "lg_start s \<notin> lh_block s ` {..<?n}" using I(7) by fastforce
  then have "blk s1 (lg_start s) = blk s (lg_start s)"
    using s1(4) inst_writes_other [OF inst] by simp
  moreover have "rest (s1\<lparr>lh_n := 0\<rparr>) = rest (s\<lparr>lh_n := 0\<rparr>)"
    using s1(7) by (rule rest_lh_n)
  ultimately show "wp (write_head (s1\<lparr>lh_n := 0\<rparr>))
    (\<lambda>s'. calm s' \<and> (\<forall>i m. \<not> own s' i m) \<and>
       dirty s' = dirty s - lh_block s ` {..<?n} - {lg_start s} \<and>
       blk s' = apply_writes (blk s) (install_writes s) \<and>
       memdisk s' = apply_writes (memdisk s) (install_writes s) \<and>
       wtrace s' = wtrace s @ install_writes s \<and> rest s' = rest (s\<lparr>lh_n := 0\<rparr>))"
    using s1 R I(1,5)
    by (intro wp_mono [OF write_head_spec]) (auto simp: new_head_def install_writes_def)
qed

lemma log_inv_installable:
  fixes s s' :: "'a log_scheme"
  assumes inv: "log_inv s" and room: "card (dirty s) < NBUF" and s': "rest s' = rest s" "dirty s' = dirty s"
  shows "installable s'"
proof -
  note I = log_invD [OF inv] and A = log_area_inside [OF inv] and R = rest_log [OF s'(1)]
  have "\<forall>t<nat (lh_n s). lh_block s t < disksize s \<and>
      lh_block s t \<notin> {lg_start s .. lg_start s + nat (lh_n s)} \<and> lh_block s t \<in> dirty s"
    using I(9,10,11) A(1) by blast
  moreover have "\<forall>t<nat (lh_n s). lg_start s + t + 1 \<notin> dirty s"
    using I(10,12) by (metis Suc_eq_plus1 Suc_leI add.assoc)
  ultimately show ?thesis
    unfolding installable_def R s'(2) using I(1,2,7) A(2) room by blast
qed

lemma commit_spec:
  fixes s :: "'a log_scheme"
  assumes calm: "calm s" and none: "\<forall>i m. \<not> own s i m" and inv: "log_inv s"
    and room: "card (dirty s) < NBUF" and pos: "0 < lh_n s"
  shows "wp (commit s) (\<lambda>s'. calm s' \<and> (\<forall>i m. \<not> own s' i m) \<and> dirty s' = {} \<and>
     blk s' = apply_writes (blk s) (commit_writes s) \<and>
     memdisk s' = apply_writes (memdisk s) (commit_writes s) \<and>
     wtrace s' = wtrace s @ commit_writes s \<and> rest s' = rest (s\<lparr>lh_n := 0\<rparr>))"
    (is "wp _ ?Q")
proof -
  note I = log_invD [OF inv]
  let ?n = "nat (lh_n s)" and ?L = "lg_start s"
  have L: "?L < disksize s" "?L \<in> log_area s" using I(12,13) [of 0] by auto
  with I(10) have L': "?L \<notin> dirty s" by blast
  show ?thesis
    unfolding commit_def write_log_def
  proof (simp only: pos if_True, subst wp_bnd,
      rule wp_mono [OF write_upto_spec [OF calm none inv room order_refl]], elim conjE)
    fix s1
    assume s1: "calm s1" "\<forall>i m. \<not> own s1 i m" "dirty s1 = dirty s"
      "blk s1 = apply_writes (blk s) (log_writes s ?n)"
      "memdisk s1 = apply_writes (memdisk s) (log_writes s ?n)"
      "wtrace s1 = wtrace s @ log_writes s ?n" "rest s1 = rest s"
    note R1 = rest_log [OF s1(7)]
    have h1: "new_head s1 (blk s1 ?L) = commit_head s"
      using log_writes_other [of ?L s ?n "blk s"] R1 s1(4) by (simp add: commit_head_def new_head_def)
    show "wp (bnd (write_head s1) (\<lambda>s. bnd (install_trans s) (\<lambda>s. write_head (s\<lparr>lh_n := 0\<rparr>)))) ?Q"
    proof (subst wp_bnd, rule wp_mono [OF write_head_spec [OF s1(1,2)]],
        (use R1 I(1) L room s1 in simp_all)[3], elim conjE)
      fix s2
      assume "calm s2" "\<forall>i m. \<not> own s2 i m" "dirty s2 = dirty s1 - {lg_start s1}"
        "blk s2 = (blk s1)(lg_start s1 := new_head s1 (blk s1 (lg_start s1)))"
        "memdisk s2 = (memdisk s1)(lg_start s1 := new_head s1 (blk s1 (lg_start s1)))"
        "wtrace s2 = wtrace s1 @ [(lg_start s1, new_head s1 (blk s1 (lg_start s1)))]"
        "rest s2 = rest s1"
      then have s2: "calm s2" "\<forall>i m. \<not> own s2 i m" "dirty s2 = dirty s"
        "blk s2 = (blk s1)(?L := commit_head s)" "memdisk s2 = (memdisk s1)(?L := commit_head s)"
        "wtrace s2 = wtrace s1 @ [(?L, commit_head s)]" "rest s2 = rest s"
        using L' s1 R1 h1 by auto
      note R2 = rest_log [OF s2(7)]
      have inst: "installable s2"
        by (rule log_inv_installable [OF inv room s2(7,3)])
      have W: "install_writes s2 = home_writes s @ [(?L, put32 (commit_head s) 0 0)]"
        using log_writes_at [of _ ?n "blk s" s] R2 s2(4) s1(4)
        by (auto simp: install_writes_def inst_writes_def home_writes_def)
      show "wp (bnd (install_trans s2) (\<lambda>s. write_head (s\<lparr>lh_n := 0\<rparr>))) ?Q"
        by (rule wp_mono [OF install_clear_spec [OF s2(1,2) inst]])
          (use s2 s1 R2 I(8) rest_lh_n [OF s2(7)] in \<open>auto simp: W commit_writes_def\<close>)
    qed
  qed
qed

section \<open>A crash and the recovery after it\<close>

text \<open>The machine state at boot on the disk \<open>d\<close>: all memory zeroed, then \<^verbatim>\<open>binit\<close>.\<close>

definition reboot :: "(nat \<Rightarrow> bytes) \<Rightarrow> 'a log_scheme \<Rightarrow> 'a log_scheme" where
  "reboot d s = binit (s\<lparr>bufs := (\<lambda>_. zero_buf), memdisk := d, wtrace := [],
     lg_start := 0, lg_size := 0, lg_outstanding := 0, lg_committing := False, lg_dev := 0,
     lh_n := 0, lh_block := (\<lambda>_. 0)\<rparr>)"

definition head_ok :: "nat \<Rightarrow> nat \<Rightarrow> bytes \<Rightarrow> bool" where
  "head_ok sz start h \<longleftrightarrow> 0 \<le> hd_n h \<and> hd_n h \<le> int LOGSIZE \<and> start + nat (hd_n h) < sz \<and>
     inj_on (hd_block h) {..<nat (hd_n h)} \<and>
     (\<forall>t<nat (hd_n h). hd_block h t < sz \<and> hd_block h t \<notin> {start .. start + nat (hd_n h)})"

text \<open>The block writes of a recovery, and the disk it leaves.\<close>

definition recover_writes :: "nat \<Rightarrow> (nat \<Rightarrow> bytes) \<Rightarrow> (nat \<times> bytes) list" where
  "recover_writes start d =
     map (\<lambda>t. (hd_block (d start) t, d (start + t + 1))) [0..<nat (hd_n (d start))] @
     [(start, put32 (d start) 0 0)]"

definition recovered :: "nat \<Rightarrow> (nat \<Rightarrow> bytes) \<Rightarrow> nat \<Rightarrow> bytes" where
  "recovered start d = apply_writes d (recover_writes start d)"

lemma calm_fresh:
  assumes "bufs s = (\<lambda>_. zero_buf)"
  shows "calm (binit s)" "\<not> own (binit s) i m" "dirty (binit s) = {}"
proof -
  have b: "bufs (binit s) = (\<lambda>_. zero_buf)"
    using assms by (simp add: binit_def binit_loop zero_buf_def fun_eq_iff del: upt_rec_numeral)
  show "calm (binit s)" "\<not> own (binit s) i m" "dirty (binit s) = {}"
    using binit_inv(1) [OF assms]
    by (auto simp: calm_def own_def dirty_def b zero_buf_def initsleeplock_def)
qed

lemma reboot_spec:
  "calm (reboot d s)" "\<not> own (reboot d s) i m" "dirty (reboot d s) = {}" "blk (reboot d s) = d"
  "memdisk (reboot d s) = d" "disksize (reboot d s) = disksize s" "wtrace (reboot d s) = []"
  by (simp_all add: reboot_def calm_fresh binit_inv(2)) (simp_all add: binit_def binit_loop del: upt_rec_numeral)

lemma recover_spec:
  fixes s :: "'a log_scheme"
  assumes calm: "calm s" and none: "\<forall>i m. \<not> own s i m" and clean: "dirty s = {}"
    and d: "blk s = memdisk s" and dev: "lg_dev s = 1"
    and h: "head_ok (disksize s) (lg_start s) (memdisk s (lg_start s))"
  shows "wp (recover_from_log s) (\<lambda>s'. calm s' \<and> (\<forall>i m. \<not> own s' i m) \<and> dirty s' = {} \<and>
     blk s' = recovered (lg_start s) (memdisk s) \<and> memdisk s' = recovered (lg_start s) (memdisk s) \<and>
     wtrace s' = wtrace s @ recover_writes (lg_start s) (memdisk s) \<and> lh_n s' = 0 \<and>
     lg_start s' = lg_start s \<and> lg_size s' = lg_size s \<and> lg_outstanding s' = lg_outstanding s \<and>
     lg_committing s' = lg_committing s \<and> lg_dev s' = lg_dev s \<and> disksize s' = disksize s)"
  unfolding recover_from_log_def
proof (subst wp_bnd, rule wp_mono [OF read_head_spec [OF calm none dev]],
    (use h clean d in \<open>simp_all add: head_ok_def\<close>)[3], elim conjE)
  fix s1
  let ?h = "blk s (lg_start s)"
  assume s1: "calm s1" "\<forall>i m. \<not> own s1 i m" "dirty s1 = dirty s" "blk s1 = blk s"
    "memdisk s1 = memdisk s" "wtrace s1 = wtrace s" "lh_n s1 = hd_n ?h"
    "\<forall>t<nat (lh_n s1). lh_block s1 t = hd_block ?h t" "lg_start s1 = lg_start s"
    "lg_size s1 = lg_size s" "lg_outstanding s1 = lg_outstanding s"
    "lg_committing s1 = lg_committing s" "lg_dev s1 = lg_dev s" "disksize s1 = disksize s"
  have inj: "inj_on (lh_block s1) {..<nat (lh_n s1)} = inj_on (hd_block ?h) {..<nat (lh_n s1)}"
    using s1(8) by (intro inj_on_cong) simp
  have inst: "installable s1"
    unfolding installable_def inj using s1 h clean d dev by (auto simp: head_ok_def)
  have W: "install_writes s1 = recover_writes (lg_start s) (memdisk s)"
    using s1 d by (auto simp: install_writes_def inst_writes_def recover_writes_def)
  show "wp (bnd (install_trans s1) (\<lambda>s. write_head (s\<lparr>lh_n := 0\<rparr>)))
    (\<lambda>s'. calm s' \<and> (\<forall>i m. \<not> own s' i m) \<and> dirty s' = {} \<and>
     blk s' = recovered (lg_start s) (memdisk s) \<and> memdisk s' = recovered (lg_start s) (memdisk s) \<and>
     wtrace s' = wtrace s @ recover_writes (lg_start s) (memdisk s) \<and> lh_n s' = 0 \<and>
     lg_start s' = lg_start s \<and> lg_size s' = lg_size s \<and> lg_outstanding s' = lg_outstanding s \<and>
     lg_committing s' = lg_committing s \<and> lg_dev s' = lg_dev s \<and> disksize s' = disksize s)"
  proof (rule wp_mono [OF install_clear_spec [OF s1(1,2) inst]], elim conjE)
    fix s2
    assume s2: "calm s2" "\<forall>i m. \<not> own s2 i m"
      "dirty s2 = dirty s1 - lh_block s1 ` {..<nat (lh_n s1)} - {lg_start s1}"
      "blk s2 = apply_writes (blk s1) (install_writes s1)"
      "memdisk s2 = apply_writes (memdisk s1) (install_writes s1)"
      "wtrace s2 = wtrace s1 @ install_writes s1" "rest s2 = rest (s1\<lparr>lh_n := 0\<rparr>)"
    note R = rest_log [OF s2(7)]
    show "calm s2 \<and> (\<forall>i m. \<not> own s2 i m) \<and> dirty s2 = {} \<and>
     blk s2 = recovered (lg_start s) (memdisk s) \<and> memdisk s2 = recovered (lg_start s) (memdisk s) \<and>
     wtrace s2 = wtrace s @ recover_writes (lg_start s) (memdisk s) \<and> lh_n s2 = 0 \<and>
     lg_start s2 = lg_start s \<and> lg_size s2 = lg_size s \<and> lg_outstanding s2 = lg_outstanding s \<and>
     lg_committing s2 = lg_committing s \<and> lg_dev s2 = lg_dev s \<and> disksize s2 = disksize s"
      using s2 s1 clean d W R by (simp add: recovered_def)
  qed
qed

text \<open>A disk that \<^verbatim>\<open>initlog\<close> can start from.\<close>

definition bootable :: "nat \<Rightarrow> (nat \<Rightarrow> bytes) \<Rightarrow> bool" where
  "bootable sz d \<longleftrightarrow> 1 < sz \<and> (let start = sb_logstart (sb_of (d 1)) in head_ok sz start (d start))"

lemma initlog_spec:
  fixes s :: "'a log_scheme"
  assumes "bootable (disksize s) d" "start = sb_logstart (sb_of (d 1))"
  shows "wp (initlog 1 (reboot d s)) (\<lambda>s'. calm s' \<and> (\<forall>i m. \<not> own s' i m) \<and> dirty s' = {} \<and>
     blk s' = recovered start d \<and> memdisk s' = recovered start d \<and>
     wtrace s' = recover_writes start d \<and> lh_n s' = 0 \<and> lg_start s' = start \<and>
     lg_size s' = int (sb_nlog (sb_of (d 1))) \<and> lg_outstanding s' = 0 \<and> \<not> lg_committing s' \<and>
     lg_dev s' = 1 \<and> disksize s' = disksize s)"
    (is "wp _ ?Q")
proof -
  let ?r = "reboot d s"
  have r0: "lg_outstanding ?r = 0" "\<not> lg_committing ?r"
    by (simp_all add: reboot_def binit_def binit_loop del: upt_rec_numeral)
  note r = reboot_spec [of d s]
  have eq: "readsb 1 ?r = bnd (bnd (bread 1 1 ?r) (\<lambda>(i, s1). bnd (brelse i s1)
      (\<lambda>s2. Inr (bdata s1 i, s2)))) (\<lambda>(d, s). Inr (sb_of d, s))"
    by (simp add: readsb_def bnd_assoc split_def)
  have rd: "wp (readsb 1 ?r) (\<lambda>(sb, s1). sb = sb_of (d 1) \<and> calm s1 \<and> blk s1 = d \<and> dirty s1 = {} \<and>
      own s1 = own ?r \<and> memdisk s1 = d \<and> wtrace s1 = [] \<and> rest s1 = rest ?r)"
    unfolding eq
    by (subst wp_bnd, rule wp_mono [OF bc.read_block])
      (use r assms(1) in \<open>auto simp: bootable_def\<close>)
  have "wp (bnd (readsb 1 ?r) (\<lambda>(sb, s). recover_from_log
      (s\<lparr>lg_start := sb_logstart sb, lg_size := int (sb_nlog sb), lg_dev := 1\<rparr>))) ?Q"
  proof (subst wp_bnd, rule wp_mono [OF rd], unfold split_def, elim conjE)
    fix p :: "superblock \<times> 'a log_scheme"
    obtain sb s1 where p: "p = (sb, s1)" by (cases p)
    assume "fst p = sb_of (d 1)" "calm (snd p)" "blk (snd p) = d" "dirty (snd p) = {}"
      "own (snd p) = own ?r" "memdisk (snd p) = d" "wtrace (snd p) = []" "rest (snd p) = rest ?r"
    then have s1: "sb = sb_of (d 1)" "calm s1" "blk s1 = d" "dirty s1 = {}" "own s1 = own ?r"
      "memdisk s1 = d" "wtrace s1 = []" "rest s1 = rest ?r" by (simp_all add: p)
    note R = rest_log [OF s1(8)]
    let ?s = "s1\<lparr>lg_start := sb_logstart sb, lg_size := int (sb_nlog sb), lg_dev := 1\<rparr>"
    have v: "calm ?s" "blk ?s = d" "dirty ?s = {}" "\<forall>i m. \<not> own ?s i m"
      using view_cong [of ?s s1] s1 r(2) by simp_all
    have "wp (recover_from_log ?s) ?Q"
      by (rule wp_mono [OF recover_spec [OF v(1,4,3)]])
        (use v s1 R r r0 assms in \<open>auto simp: bootable_def Let_def\<close>)
    then show "wp (recover_from_log ((snd p)\<lparr>lg_start := sb_logstart (fst p),
      lg_size := int (sb_nlog (fst p)), lg_dev := 1\<rparr>)) ?Q" by (simp add: p)
  qed
  then show ?thesis by (simp add: initlog_def)
qed

section \<open>Crashes during a commit and during a recovery\<close>

lemma take_other:
  "b \<notin> fst ` set ws \<Longrightarrow> apply_writes d (take k ws) b = d b"
proof (induction ws arbitrary: d k)
  case (Cons w ws)
  then show ?case by (cases k; cases w) auto
qed simp

lemma put32_twice [simp]: "put32 (put32 d n v) n w = put32 d n w"
  by (simp add: put32_def fun_eq_iff)

lemma hd_n_clear [simp]: "hd_n (put32 d 0 0) = 0"
  by (simp add: hd_n_def)

lemma recovered_empty: "hd_n (d start) = 0 \<Longrightarrow> recovered start d = d(start := put32 (d start) 0 0)"
  by (simp add: recovered_def recover_writes_def)

lemma recovered_other:
  "b \<notin> hd_block (d start) ` {..<nat (hd_n (d start))} \<Longrightarrow> b \<noteq> start \<Longrightarrow> recovered start d b = d b"
  by (simp add: recovered_def recover_writes_def apply_writes_other)

lemma recovered_home:
  assumes "head_ok sz start (d start)" "t < nat (hd_n (d start))"
  shows "recovered start d (hd_block (d start) t) = d (start + t + 1)"
proof -
  have "hd_block (d start) t \<noteq> start" using assms by (auto simp: head_ok_def)
  then show ?thesis
    using assms apply_writes_in [of t "nat (hd_n (d start))" "hd_block (d start)" d "\<lambda>t. d (start + t + 1)"]
    by (simp add: recovered_def recover_writes_def head_ok_def)
qed

lemma head_ok_fixed:
  assumes "head_ok sz start (d start)"
    "\<And>b. b \<notin> hd_block (d start) ` {..<nat (hd_n (d start))} \<Longrightarrow> e b = d b"
  shows "e start = d start" "t < nat (hd_n (d start)) \<Longrightarrow> e (start + t + 1) = d (start + t + 1)"
proof -
  have "\<forall>t<nat (hd_n (d start)). hd_block (d start) t \<notin> {start .. start + nat (hd_n (d start))}"
    using assms(1) by (simp add: head_ok_def)
  then have *: "b \<in> {start .. start + nat (hd_n (d start))} \<Longrightarrow>
      b \<notin> hd_block (d start) ` {..<nat (hd_n (d start))}" for b by blast
  show "e start = d start" by (rule assms(2) [OF *]) simp
  show "e (start + t + 1) = d (start + t + 1)" if "t < nat (hd_n (d start))"
    by (rule assms(2) [OF *]) (use that in simp)
qed

text \<open>Two disks that differ at most in the home blocks of the same header recover alike.\<close>

lemma recovered_same:
  assumes h: "head_ok sz start (d start)"
    and e: "\<And>b. b \<notin> hd_block (d start) ` {..<nat (hd_n (d start))} \<Longrightarrow> e b = d b"
  shows "recovered start e = recovered start d"
proof
  fix b
  note F = head_ok_fixed [of sz start d e, OF h e]
  have he: "head_ok sz start (e start)" using h F(1) by simp
  show "recovered start e b = recovered start d b"
  proof (cases "b \<in> hd_block (d start) ` {..<nat (hd_n (d start))}")
    case True
    then obtain t where t: "t < nat (hd_n (d start))" "b = hd_block (d start) t" by auto
    then have "recovered start e b = e (start + t + 1)"
      using recovered_home [of sz start e t] he F(1) by simp
    also have "\<dots> = recovered start d b"
      using recovered_home [of sz start d t] h F(2) t by simp
    finally show ?thesis .
  next
    case False
    then show ?thesis
      using recovered_other [of b e start] recovered_other [of b d start] e [of b] F(1)
      by (cases "b = start") (simp_all add: recovered_def recover_writes_def)
  qed
qed

lemma recover_crash:
  assumes h: "head_ok sz start (d start)"
  shows "head_ok sz start (apply_writes d (take k (recover_writes start d)) start)"
    "recovered start (apply_writes d (take k (recover_writes start d))) = recovered start d"
proof -
  let ?n = "nat (hd_n (d start))" and ?D = "apply_writes d (take k (recover_writes start d))"
  consider (part) "k \<le> ?n" | (all) "k > ?n" by linarith
  then have "head_ok sz start (?D start) \<and> recovered start ?D = recovered start d"
  proof cases
    case part
    then have "?D = apply_writes d (take k (map (\<lambda>t. (hd_block (d start) t, d (start + t + 1))) [0..<?n]))"
      by (simp add: recover_writes_def)
    then have e: "?D b = d b" if "b \<notin> hd_block (d start) ` {..<?n}" for b
      using that by (simp only:) (rule take_other, auto)
    show ?thesis
      using recovered_same [of sz start d ?D, OF h] head_ok_fixed(1) [of sz start d ?D, OF h] e h by simp
  next
    case all
    then have D: "?D = recovered start d" by (simp add: recover_writes_def recovered_def)
    have c: "recovered start d start = put32 (d start) 0 0"
      by (simp add: recovered_def recover_writes_def)
    show ?thesis
      unfolding D using h c recovered_empty [of "recovered start d" start]
      by (auto simp: head_ok_def)
  qed
  then show "head_ok sz start (?D start)" "recovered start ?D = recovered start d" by blast+
qed

section \<open>A commit cut short\<close>

text \<open>
  The disk agrees with the log in memory: the superblock names the log region, and neither the
  superblock nor the region is written through the log.
\<close>

definition sb_ok :: "'a log_scheme \<Rightarrow> bool" where
  "sb_ok s \<longleftrightarrow> 1 < disksize s \<and> sb_logstart (sb_of (memdisk s 1)) = lg_start s \<and>
     int (sb_nlog (sb_of (memdisk s 1))) = lg_size s \<and> 1 \<notin> log_area s \<and> 1 \<notin> dirty s"

lemma commit_head_ok:
  assumes "log_inv s"
  shows "hd_n (commit_head s) = lh_n s"
    "t < nat (lh_n s) \<Longrightarrow> hd_block (commit_head s) t = lh_block s t"
    "hd_block (commit_head s) ` {..<nat (lh_n s)} = dirty s"
    "head_ok (disksize s) (lg_start s) (commit_head s)"
proof -
  note I = log_invD [OF assms] and A = log_area_inside [OF assms]
  have B: "t < nat (lh_n s) \<Longrightarrow> lh_block s t < disksize s" for t using I(9,11) by blast
  show n: "hd_n (commit_head s) = lh_n s"
    using I(2,3) by (simp add: commit_head_def new_head_def)
  show b: "hd_block (commit_head s) t = lh_block s t" if "t < nat (lh_n s)" for t
    using that B [OF that] I(6) by (simp add: commit_head_def new_head_def)
  then show im: "hd_block (commit_head s) ` {..<nat (lh_n s)} = dirty s"
    using I(8) by (metis (no_types, lifting) image_cong lessThan_iff)
  have "inj_on (hd_block (commit_head s)) {..<nat (lh_n s)}"
    using I(7) b by (simp add: inj_on_def)
  moreover have "\<forall>t<nat (lh_n s). lh_block s t < disksize s \<and>
      lh_block s t \<notin> {lg_start s .. lg_start s + nat (lh_n s)}"
    using I(9,10) A(1) B by blast
  ultimately show "head_ok (disksize s) (lg_start s) (commit_head s)"
    using I(2,3) A(2) b by (auto simp: head_ok_def n)
qed

lemma commit_writes_in:
  assumes "log_inv s"
  shows "fst ` set (commit_writes s) \<subseteq> log_area s \<union> dirty s"
    "fst ` set (log_writes s (nat (lh_n s))) \<subseteq> {lg_start s + 1 .. lg_start s + nat (lh_n s)}"
    "fst ` set (home_writes s) = dirty s"
proof -
  show l: "fst ` set (log_writes s (nat (lh_n s))) \<subseteq> {lg_start s + 1 .. lg_start s + nat (lh_n s)}"
    by (auto simp: log_writes_def)
  show h: "fst ` set (home_writes s) = dirty s"
    using log_invD(8) [OF assms] by (simp add: home_writes_def image_image lessThan_atLeast0)
  have "fst ` set (log_writes s (nat (lh_n s))) \<subseteq> log_area s" "lg_start s \<in> log_area s"
    using l log_area_inside(1) [OF assms] by force+
  then show "fst ` set (commit_writes s) \<subseteq> log_area s \<union> dirty s"
    using h by (auto simp: commit_writes_def)
qed

text \<open>The disk once the header is written, before anything is installed.\<close>

definition logged :: "'a log_scheme \<Rightarrow> nat \<Rightarrow> bytes" where
  "logged s = (apply_writes (memdisk s) (log_writes s (nat (lh_n s))))(lg_start s := commit_head s)"

lemma logged_recovers:
  assumes calm: "calm s" and none: "\<forall>i m. \<not> own s i m" and inv: "log_inv s"
    and b: "b \<notin> log_area s" "b < disksize s"
  shows "recovered (lg_start s) (logged s) b = blk s b"
proof -
  note H = commit_head_ok [OF inv]
  have start: "logged s (lg_start s) = commit_head s" by (simp add: logged_def)
  show ?thesis
  proof (cases "b \<in> dirty s")
    case True
    then obtain t where t: "t < nat (lh_n s)" "b = hd_block (commit_head s) t" using H(3) by auto
    then have "recovered (lg_start s) (logged s) b = logged s (lg_start s + t + 1)"
      using recovered_home [of "disksize s" "lg_start s" "logged s" t] H(1,4) by (simp add: start)
    also have "\<dots> = blk s b"
      using t log_writes_at [of t "nat (lh_n s)" "memdisk s" s] H(2) by (simp add: logged_def)
    finally show ?thesis .
  next
    case False
    have L: "b \<notin> {lg_start s .. lg_start s + nat (lh_n s)}" using b log_area_inside(1) [OF inv] by blast
    then have "recovered (lg_start s) (logged s) b = logged s b"
      using False H by (intro recovered_other) (auto simp: start)
    also have "\<dots> = memdisk s b"
      using L log_writes_other [of b s "nat (lh_n s)" "memdisk s"] by (auto simp: logged_def)
    also have "\<dots> = blk s b" using clean_blk [OF calm none False b(2)] by simp
    finally show ?thesis .
  qed
qed

lemma commit_cut:
  fixes s :: "'a log_scheme"
  assumes inv: "log_inv s"
  defines "n \<equiv> nat (lh_n s)" and "W \<equiv> commit_writes s"
  shows "k \<le> n \<Longrightarrow> take k W = take k (log_writes s n)"
    "n < k \<Longrightarrow> k \<le> n + n + 1 \<Longrightarrow>
      apply_writes (memdisk s) (take k W) = apply_writes (logged s) (take (k - n - 1) (home_writes s))"
    "n + n + 1 < k \<Longrightarrow> apply_writes (memdisk s) (take k W) =
      (apply_writes (logged s) (home_writes s))(lg_start s := put32 (commit_head s) 0 0)"
proof -
  have len: "length (log_writes s n) = n" "length (home_writes s) = n"
    by (simp_all add: log_writes_def home_writes_def n_def)
  show "k \<le> n \<Longrightarrow> take k W = take k (log_writes s n)"
    by (simp add: W_def commit_writes_def len n_def [symmetric])
  show "n < k \<Longrightarrow> k \<le> n + n + 1 \<Longrightarrow>
      apply_writes (memdisk s) (take k W) = apply_writes (logged s) (take (k - n - 1) (home_writes s))"
    by (simp add: W_def commit_writes_def len n_def [symmetric] logged_def take_Cons')
  show "n + n + 1 < k \<Longrightarrow> apply_writes (memdisk s) (take k W) =
      (apply_writes (logged s) (home_writes s))(lg_start s := put32 (commit_head s) 0 0)"
    by (simp add: W_def commit_writes_def len n_def [symmetric] logged_def take_Cons')
qed

lemma commit_crash_disk:
  fixes s :: "'a log_scheme"
  assumes calm: "calm s" and none: "\<forall>i m. \<not> own s i m" and inv: "log_inv s"
    and empty: "hd_n (memdisk s (lg_start s)) = 0"
  defines "D \<equiv> \<lambda>k. apply_writes (memdisk s) (take k (commit_writes s))"
  shows "head_ok (disksize s) (lg_start s) (D k (lg_start s))"
    "\<forall>b<disksize s. b \<notin> log_area s \<longrightarrow> recovered (lg_start s) (D k) b =
       (if k \<le> nat (lh_n s) then memdisk s b else blk s b)"
proof -
  let ?n = "nat (lh_n s)" and ?L = "lg_start s"
  note H = commit_head_ok [OF inv] and A = log_area_inside [OF inv] and W = commit_writes_in [OF inv]
  have LA: "?L \<in> log_area s" using A(1) by auto
  have ok0: "head_ok (disksize s) ?L h" if "hd_n h = 0" for h
    using that A(2) by (simp add: head_ok_def)
  consider (before) "k \<le> ?n" | (during) "?n < k" "k \<le> ?n + ?n + 1" | (after) "?n + ?n + 1 < k"
    by linarith
  then have "head_ok (disksize s) ?L (D k ?L) \<and> (\<forall>b<disksize s. b \<notin> log_area s \<longrightarrow>
      recovered ?L (D k) b = (if k \<le> ?n then memdisk s b else blk s b))"
  proof cases
    case before
    then have D: "D k = apply_writes (memdisk s) (take k (log_writes s ?n))"
      using commit_cut(1) [OF inv before] by (simp add: D_def)
    have other: "D k b = memdisk s b" if "b \<notin> {?L + 1 .. ?L + ?n}" for b
      unfolding D using that W(2) by (intro take_other) blast
    then have "D k ?L = memdisk s ?L" by simp
    moreover have "b \<notin> {?L + 1 .. ?L + ?n}" "b \<noteq> ?L" if "b \<notin> log_area s" for b
      using that subsetD [OF A(1), of b] LA by auto
    ultimately show ?thesis
      using ok0 empty before recovered_empty [of "D k" ?L] other by simp
  next
    case during
    then have D: "D k = apply_writes (logged s) (take (k - ?n - 1) (home_writes s))"
      using commit_cut(2) [OF inv] by (simp add: D_def)
    have L: "logged s ?L = commit_head s" by (simp add: logged_def)
    have h: "head_ok (disksize s) ?L (logged s ?L)" using H(4) L by simp
    have e: "D k b = logged s b" if "b \<notin> hd_block (logged s ?L) ` {..<nat (hd_n (logged s ?L))}" for b
      unfolding D using that H(1,3) W(3) by (intro take_other) (simp add: L)
    have "recovered ?L (D k) = recovered ?L (logged s)" by (rule recovered_same [of _ ?L "logged s" "D k", OF h e])
    then show ?thesis
      using head_ok_fixed(1) [of _ ?L "logged s" "D k", OF h e] h during
        logged_recovers [OF calm none inv] by simp
  next
    case after
    then have D: "D k = (apply_writes (logged s) (home_writes s))(?L := put32 (commit_head s) 0 0)"
      using commit_cut(3) [OF inv] by (simp add: D_def)
    have "recovered ?L (D k) b = blk s b" if b: "b \<notin> log_area s" "b < disksize s" for b
    proof -
      have L: "b \<notin> {?L .. ?L + ?n}" "b \<noteq> ?L" using b A(1) LA by auto
      have "recovered ?L (D k) b = apply_writes (logged s) (home_writes s) b"
        using recovered_empty [of "D k" ?L] D L(2) by simp
      also have "\<dots> = blk s b"
        using home_writes_at [OF inv, of b] home_writes_other [OF inv, of b] clean_blk [OF calm none _ b(2)]
          log_writes_other [of b s ?n "memdisk s"] L by (cases "b \<in> dirty s") (auto simp: logged_def)
      finally show ?thesis .
    qed
    then show ?thesis using ok0 after by (simp add: D)
  qed
  then show "head_ok (disksize s) ?L (D k ?L)" "\<forall>b<disksize s. b \<notin> log_area s \<longrightarrow>
      recovered ?L (D k) b = (if k \<le> ?n then memdisk s b else blk s b)" by blast+
qed

lemma commit_keeps_sb:
  assumes "log_inv s" "sb_ok s"
  shows "apply_writes (memdisk s) (take k (commit_writes s)) 1 = memdisk s 1"
  using commit_writes_in(1) [OF assms(1)] assms(2) by (intro take_other) (auto simp: sb_ok_def)

text \<open>
  C1. A commit is atomic with respect to crashes. Whatever number of block writes of a commit
  reach the disk before the machine stops, booting from that disk and running \<^verbatim>\<open>initlog\<close> returns,
  and every block outside the log region then reads as before the transaction if the header
  write was not among them, and as the transaction left it if it was. In particular a commit
  that has returned is durable.
\<close>

theorem commit_crash_atomic:
  fixes s :: "'a log_scheme"
  assumes "calm s" "\<forall>i m. \<not> own s i m" "log_inv s" "sb_ok s" "card (dirty s) < NBUF" "0 < lh_n s"
    and "hd_n (memdisk s (lg_start s)) = 0"
  shows "wp (commit s) (\<lambda>s'. \<exists>W. wtrace s' = wtrace s @ W \<and> memdisk s' = apply_writes (memdisk s) W \<and>
     length W = 2 * nat (lh_n s) + 2 \<and>
     (\<forall>k. wp (initlog 1 (reboot (apply_writes (memdisk s) (take k W)) s))
        (\<lambda>r. \<forall>b<disksize s. b \<notin> log_area s \<longrightarrow>
           blk r b = (if k \<le> nat (lh_n s) then memdisk s b else blk s b) \<and> memdisk r b = blk r b)))"
proof (rule wp_mono [OF commit_spec [OF assms(1,2,3,5,6)]], intro exI conjI allI)
  fix s' k
  let ?D = "apply_writes (memdisk s) (take k (commit_writes s))"
  note C = commit_crash_disk [OF assms(1,2,3,7), of k] and sb = commit_keeps_sb [OF assms(3,4), of k]
  have "sb_logstart (sb_of (?D 1)) = lg_start s" "1 < disksize s"
    using assms(4) sb by (simp_all add: sb_ok_def)
  then show "wp (initlog 1 (reboot ?D s)) (\<lambda>r. \<forall>b<disksize s. b \<notin> log_area s \<longrightarrow>
      blk r b = (if k \<le> nat (lh_n s) then memdisk s b else blk s b) \<and> memdisk r b = blk r b)"
    using C by (intro wp_mono [OF initlog_spec]) (auto simp: bootable_def)
qed (auto simp: commit_writes_def log_writes_def home_writes_def)

text \<open>
  C2. Recovery may itself be interrupted, any number of times: from a disk with a sane header,
  \<^verbatim>\<open>initlog\<close> returns, leaves the header empty, and if the machine stops after any number of the block
  writes of this recovery, the next boot recovers to exactly the same disk.
\<close>

theorem recovery_idempotent:
  fixes s :: "'a log_scheme"
  assumes "1 < disksize s" "start = sb_logstart (sb_of (d 1))" "head_ok (disksize s) start (d start)"
    and "start \<noteq> 1" "1 \<notin> hd_block (d start) ` {..<nat (hd_n (d start))}"
  shows "wp (initlog 1 (reboot d s)) (\<lambda>r. hd_n (memdisk r start) = 0 \<and> lh_n r = 0 \<and>
     memdisk r = apply_writes d (wtrace r) \<and>
     (\<forall>k. wp (initlog 1 (reboot (apply_writes d (take k (wtrace r))) s)) (\<lambda>r'. memdisk r' = memdisk r)))"
proof -
  have boot: "bootable (disksize s) d" using assms by (simp add: bootable_def)
  show ?thesis
  proof (rule wp_mono [OF initlog_spec [OF boot assms(2)]], intro conjI allI)
    fix r k
    assume *: "calm r \<and> (\<forall>i m. \<not> own r i m) \<and> dirty r = {} \<and> blk r = recovered start d \<and>
      memdisk r = recovered start d \<and> wtrace r = recover_writes start d \<and> lh_n r = 0 \<and>
      lg_start r = start \<and> lg_size r = int (sb_nlog (sb_of (d 1))) \<and> lg_outstanding r = 0 \<and>
      \<not> lg_committing r \<and> lg_dev r = 1 \<and> disksize r = disksize s"
    let ?D = "apply_writes d (take k (recover_writes start d))"
    have "?D 1 = d 1"
      using assms(4,5) by (intro take_other) (auto simp: recover_writes_def)
    then have "wp (initlog 1 (reboot ?D s)) (\<lambda>r'. memdisk r' = recovered start d)"
      using recover_crash [of _ start d k, OF assms(3)] assms(1,2)
      by (intro wp_mono [OF initlog_spec [where start = start]]) (simp_all add: bootable_def)
    with * show "wp (initlog 1 (reboot (apply_writes d (take k (wtrace r))) s)) (\<lambda>r'. memdisk r' = memdisk r)"
      by simp
  qed (auto simp: recovered_def recover_writes_def)
qed

section \<open>A concrete disk\<close>

text \<open>
  A disk of 100 blocks whose log has 30 blocks from block 2 on, and the state in which one
  transaction has written block 40 and is about to commit.
\<close>

definition ex_disk :: "nat \<Rightarrow> bytes" where
  "ex_disk n = (if n = 1 then put32 (put32 (\<lambda>_. 0) 12 30) 16 2 else (\<lambda>_. 0))"

definition ex_buf :: buf where
  "ex_buf = \<lparr>b_valid = True, b_dirty = True, b_dev = 1, b_blockno = 40,
     b_lock = initsleeplock, b_refcnt = 0, b_data = (\<lambda>_. 7)\<rparr>"

definition ex_log :: log where
  "ex_log = \<lparr>bufs = (\<lambda>_. zero_buf)(0 := ex_buf), lru = [0..<30], memdisk = ex_disk, disksize = 100,
     wtrace = [], cpid = 1, lg_start = 2, lg_size = 30, lg_outstanding = 0, lg_committing = False,
     lg_dev = 1, lh_n = 1, lh_block = (\<lambda>_. 40)\<rparr>"

lemma ex_sb: "sb_logstart (sb_of (ex_disk 1)) = 2" "sb_nlog (sb_of (ex_disk 1)) = 30"
  by (simp_all add: ex_disk_def sb_of_def get32_put32_other)

lemma ex_caches: "caches ex_log n i \<longleftrightarrow> i = 0 \<and> n = 40"
  by (auto simp: ex_log_def caches_def ex_buf_def zero_buf_def)

lemma ex_calm: "calm ex_log" "\<not> own ex_log i m" "dirty ex_log = {40}" "bio_inv ex_log"
proof -
  show i: "bio_inv ex_log"
    unfolding bio_inv_def ex_caches
    by (auto simp: ex_log_def buf_ok_def ex_buf_def zero_buf_def initsleeplock_def simp del: upt_rec_numeral)
  show "calm ex_log"
    unfolding calm_def using i by (auto simp: ex_log_def ex_buf_def zero_buf_def initsleeplock_def)
  show "\<not> own ex_log i m" "dirty ex_log = {40}"
    unfolding own_def dirty_def ex_caches
    by (auto simp: ex_log_def ex_buf_def zero_buf_def initsleeplock_def)
qed

lemma ex_blk: "blk ex_log 40 = (\<lambda>_. 7)"
  using blk_cached [OF ex_calm(4), of 0 40] ex_caches by (simp add: ex_log_def ex_buf_def)

lemma ex_log_ok: "log_inv ex_log" "sb_ok ex_log" "hd_n (memdisk ex_log (lg_start ex_log)) = 0"
proof -
  show "log_inv ex_log"
    by (simp add: log_inv_def ex_calm log_area_def) (auto simp: ex_log_def lessThan_Suc)
  show "sb_ok ex_log"
    by (simp add: sb_ok_def ex_calm log_area_def) (simp add: ex_log_def ex_sb)
  show "hd_n (memdisk ex_log (lg_start ex_log)) = 0"
    by (simp add: ex_log_def ex_disk_def hd_n_def get32_zero)
qed

theorem commit_crash_atomic_witness:
  "wp (commit ex_log) (\<lambda>s'. length (wtrace s') = 4 \<and>
     wp (initlog 1 (reboot (apply_writes ex_disk (take 1 (wtrace s'))) ex_log)) (\<lambda>r. blk r 40 = (\<lambda>_. 0)) \<and>
     wp (initlog 1 (reboot (apply_writes ex_disk (take 2 (wtrace s'))) ex_log)) (\<lambda>r. blk r 40 = (\<lambda>_. 7)))"
proof -
  have f: "lh_n ex_log = 1" "memdisk ex_log = ex_disk" "disksize ex_log = 100" "wtrace ex_log = []"
    "40 \<notin> log_area ex_log" "ex_disk 40 = (\<lambda>_. 0)"
    by (simp_all add: ex_log_def ex_disk_def log_area_def)
  have "wp (commit ex_log) (\<lambda>s'. \<exists>W. wtrace s' = wtrace ex_log @ W \<and>
     memdisk s' = apply_writes (memdisk ex_log) W \<and> length W = 2 * nat (lh_n ex_log) + 2 \<and>
     (\<forall>k. wp (initlog 1 (reboot (apply_writes (memdisk ex_log) (take k W)) ex_log))
        (\<lambda>r. \<forall>b<disksize ex_log. b \<notin> log_area ex_log \<longrightarrow>
           blk r b = (if k \<le> nat (lh_n ex_log) then memdisk ex_log b else blk ex_log b) \<and>
           memdisk r b = blk r b)))"
    using commit_crash_atomic [of ex_log] ex_calm ex_log_ok f(1) by simp
  then show ?thesis
  proof (rule wp_mono, elim exE conjE, intro conjI)
    fix s' W
    assume W: "wtrace s' = wtrace ex_log @ W" "length W = 2 * nat (lh_n ex_log) + 2"
      and r: "\<forall>k. wp (initlog 1 (reboot (apply_writes (memdisk ex_log) (take k W)) ex_log))
        (\<lambda>r. \<forall>b<disksize ex_log. b \<notin> log_area ex_log \<longrightarrow>
           blk r b = (if k \<le> nat (lh_n ex_log) then memdisk ex_log b else blk ex_log b) \<and>
           memdisk r b = blk r b)"
    show "length (wtrace s') = 4" using W f by simp
    show "wp (initlog 1 (reboot (apply_writes ex_disk (take 1 (wtrace s'))) ex_log)) (\<lambda>r. blk r 40 = (\<lambda>_. 0))"
      using spec [OF r, of 1] f W by (auto elim!: wp_mono)
    show "wp (initlog 1 (reboot (apply_writes ex_disk (take 2 (wtrace s'))) ex_log)) (\<lambda>r. blk r 40 = (\<lambda>_. 7))"
      using spec [OF r, of 2] f W ex_blk by (auto elim!: wp_mono)
  qed
qed

text \<open>A disk on which the crash came right after the header write of such a commit.\<close>

definition ex_crashed :: "nat \<Rightarrow> bytes" where
  "ex_crashed = ex_disk(3 := (\<lambda>_. 7), 2 := put32 (put32 (\<lambda>_. 0) 0 1) 4 40)"

lemma ex_crashed_head: "hd_n (ex_crashed 2) = 1" "hd_block (ex_crashed 2) 0 = 40"
  by (simp_all add: ex_crashed_def hd_n_def hd_block_def get32_put32_other)

theorem recovery_idempotent_witness:
  "head_ok 100 2 (ex_crashed 2) \<and> wp (initlog 1 (reboot ex_crashed ex_log)) (\<lambda>r. hd_n (memdisk r 2) = 0 \<and>
     (\<forall>k. wp (initlog 1 (reboot (apply_writes ex_crashed (take k (wtrace r))) ex_log))
        (\<lambda>r'. memdisk r' = memdisk r)))"
proof -
  have h: "head_ok 100 2 (ex_crashed 2)"
    by (simp add: head_ok_def ex_crashed_head lessThan_Suc)
  have z: "disksize ex_log = 100" by (simp add: ex_log_def)
  have sb: "sb_logstart (sb_of (ex_crashed 1)) = 2" using ex_sb by (simp add: ex_crashed_def)
  have "{..<nat (hd_n (ex_crashed 2))} = {0}" by (simp add: ex_crashed_head lessThan_Suc)
  then have "1 \<notin> hd_block (ex_crashed 2) ` {..<nat (hd_n (ex_crashed 2))}"
    using ex_crashed_head by simp
  then have "wp (initlog 1 (reboot ex_crashed ex_log)) (\<lambda>r. hd_n (memdisk r 2) = 0 \<and> lh_n r = 0 \<and>
     memdisk r = apply_writes ex_crashed (wtrace r) \<and>
     (\<forall>k. wp (initlog 1 (reboot (apply_writes ex_crashed (take k (wtrace r))) ex_log))
        (\<lambda>r'. memdisk r' = memdisk r)))"
    using recovery_idempotent [of ex_log 2 ex_crashed] h z sb by simp
  then show ?thesis using h by (auto elim!: wp_mono)
qed

end
