(* ===== verification/Log_Op.thy ===== *)
theory Log_Op
  imports Log_Crash
begin

text \<open>
  File system operations as transactions: \<^verbatim>\<open>log_write\<close>, \<^verbatim>\<open>begin_op\<close> and \<^verbatim>\<open>end_op\<close>. What the file
  system relies on between a \<^verbatim>\<open>begin_op\<close> and its \<^verbatim>\<open>end_op\<close> is the locale \<open>txn_store\<close>.
\<close>

section \<open>log_write\<close>

lemma log_index_le: "i \<le> n \<Longrightarrow> log_index f n b i \<le> n"
  by (induction f n b i rule: log_index.induct) (subst log_index.simps, simp)

lemma log_index_spec:
  "i \<le> n \<Longrightarrow> (log_index f n b i < n \<longrightarrow> f (log_index f n b i) = b) \<and>
     (\<forall>j. i \<le> j \<and> j < log_index f n b i \<longrightarrow> f j \<noteq> b)"
proof (induction f n b i rule: log_index.induct)
  case (1 f n b i)
  show ?case
  proof (cases "i < n \<and> f i \<noteq> b")
    case True
    then have e: "log_index f n b i = log_index f n b (i + 1)" by (simp add: log_index.simps [of f n b i])
    have IH: "log_index f n b (i + 1) < n \<longrightarrow> f (log_index f n b (i + 1)) = b"
      "\<forall>j. i + 1 \<le> j \<and> j < log_index f n b (i + 1) \<longrightarrow> f j \<noteq> b"
      using 1(1) [OF True] True by auto
    have "f j \<noteq> b" if "i \<le> j" "j < log_index f n b (i + 1)" for j
      using IH(2) that True by (cases "j = i") auto
    with IH(1) show ?thesis unfolding e by blast
  next
    case False
    then have "log_index f n b i = i" by (subst log_index.simps) auto
    with False show ?thesis by auto
  qed
qed

text \<open>Pinning a buffer the caller holds.\<close>

lemma pin_calm:
  fixes s :: "'a bio_scheme"
  assumes calm: "calm s" and o: "own s i n"
  defines "s' \<equiv> set_buf i ((bufs s i)\<lparr>b_dirty := True\<rparr>) s"
  shows "calm s'" "blk s' = blk s" "dirty s' = insert n (dirty s)" "own s' = own s"
    "memdisk s' = memdisk s" "wtrace s' = wtrace s" "rest s' = rest s"
proof -
  let ?b = "(bufs s i)\<lparr>b_dirty := True\<rparr>"
  have i: "i < NBUF" "caches s n i" "sl_locked (b_lock (bufs s i))" "b_valid (bufs s i)"
    using o own_valid [OF calm o] by (simp_all add: own_def)
  have c: "caches s' m j = caches s m j" for m j
    by (simp add: s'_def caches_def)
  have b: "bufs s' = (bufs s)(i := ?b)" by (simp add: s'_def)
  have ok: "buf_ok s ?b"
    using bio_inv_buf_ok [OF calm_inv [OF calm] i(1)] i(4) by (simp add: buf_ok_def)
  have "b_blockno ?b = n" using i(2) by (simp add: caches_def)
  then have "\<not> caches s (b_blockno ?b) j" if "j < NBUF" "j \<noteq> i" for j
    using own_unique [OF calm o _ that(1)] that(2) by metis
  then have inv': "bio_inv s'"
    unfolding s'_def by (intro bio_inv_set_buf [OF calm_inv [OF calm] ok])
  then show "calm s'" using calm i by (auto simp: calm_def b)
  show "blk s' = blk s"
  proof
    fix m
    have "caches s m i \<longleftrightarrow> m = n" using i(2) by (auto simp: caches_def)
    moreover have "b_dev (bufs s i) = 1" "b_blockno (bufs s i) = n" using i(2) by (simp_all add: caches_def)
    ultimately show "blk s' m = blk s m"
      using blk_set_buf [OF calm_inv [OF calm] inv' [unfolded s'_def] i(1), of m] own_data [OF calm o] i(4)
      unfolding s'_def by simp
  qed
  show "dirty s' = insert n (dirty s)"
  proof (rule set_eqI)
    fix m
    have "caches s m i \<longleftrightarrow> m = n" using i(2) by (auto simp: caches_def)
    then show "m \<in> dirty s' \<longleftrightarrow> m \<in> insert n (dirty s)"
      using i(1) unfolding dirty_def c b by (cases "m = n") (auto split: if_splits)
  qed
  show "own s' = own s" by (auto simp: fun_eq_iff own_def c b)
qed (simp_all add: s'_def rest_def)

text \<open>What an operation inside a transaction never changes: the disk, and the log but for its header.\<close>

definition fr :: "'a log_scheme \<Rightarrow> _" where
  "fr s = (memdisk s, wtrace s, disksize s, cpid s, lg_start s, lg_size s, lg_outstanding s,
     lg_committing s, lg_dev s, log.more s)"

lemma frD:
  assumes "fr s' = fr s"
  shows "memdisk s' = memdisk s" "wtrace s' = wtrace s" "disksize s' = disksize s" "cpid s' = cpid s"
    "lg_start s' = lg_start s" "lg_size s' = lg_size s" "lg_outstanding s' = lg_outstanding s"
    "lg_committing s' = lg_committing s" "lg_dev s' = lg_dev s" "log.more s' = log.more s"
    "log_area s' = log_area s"
  using assms by (simp_all add: fr_def log_area_def)

lemma fr_rest:
  fixes s s' :: "'a log_scheme"
  shows "rest s' = rest s \<Longrightarrow> memdisk s' = memdisk s \<Longrightarrow> wtrace s' = wtrace s \<Longrightarrow> fr s' = fr s"
  by (cases s; cases s') (simp add: fr_def rest_def)

lemma log_index_new:
  assumes "b \<notin> f ` {..<n}"
  shows "log_index f n b 0 = n"
proof (rule ccontr)
  assume "log_index f n b 0 \<noteq> n"
  with log_index_le [of 0 n f b] have l: "log_index f n b 0 < n" by simp
  with log_index_spec [of 0 n f b] have "f (log_index f n b 0) = b" by simp
  with l assms imageI [of "log_index f n b 0" "{..<n}" f] show False by simp
qed

lemma log_index_old:
  assumes "b \<in> f ` {..<n}"
  shows "log_index f n b 0 < n" "f (log_index f n b 0) = b"
proof -
  from assms obtain t where t: "t < n" "f t = b" by auto
  then have "\<not> t < log_index f n b 0" using log_index_spec [of 0 n f b] by auto
  then show "log_index f n b 0 < n" using t by linarith
  then show "f (log_index f n b 0) = b" using log_index_spec [of 0 n f b] by auto
qed

text \<open>
  The header after a \<^verbatim>\<open>log_write\<close>: unchanged when the block is listed (absorption), one entry longer
  otherwise.
\<close>

lemma log_header_step:
  fixes b :: nat
  assumes "inj_on f {..<n}"
  defines "i \<equiv> log_index f n b 0"
  defines "n' \<equiv> if i = n then n + 1 else n"
  shows "inj_on (f(i := b)) {..<n'}" "(f(i := b)) ` {..<n'} = insert b (f ` {..<n})"
    "n' = (if b \<in> f ` {..<n} then n else n + 1)"
proof -
  have "inj_on (f(i := b)) {..<n'} \<and> (f(i := b)) ` {..<n'} = insert b (f ` {..<n}) \<and>
    n' = (if b \<in> f ` {..<n} then n else n + 1)"
  proof (cases "b \<in> f ` {..<n}")
    case True
    note o = log_index_old [OF True, folded i_def]
    then have "f(i := b) = f" by auto
    with o True assms(1) show ?thesis by (simp add: n'_def insert_absorb)
  next
    case False
    then have "i = n" by (simp add: i_def log_index_new)
    with False assms(1) show ?thesis
      by (auto simp: n'_def lessThan_Suc inj_on_def image_iff)
  qed
  then show "inj_on (f(i := b)) {..<n'}" "(f(i := b)) ` {..<n'} = insert b (f ` {..<n})"
    "n' = (if b \<in> f ` {..<n} then n else n + 1)" by blast+
qed

lemma log_write_spec:
  fixes s :: "'a log_scheme"
  assumes calm: "calm s" and o: "own s b n" and inv: "log_inv s" and n: "n \<notin> log_area s"
    and room: "lh_n s < int LOGSIZE" "lh_n s < lg_size s - 1" and op: "0 < lg_outstanding s"
  shows "wp (log_write b s) (\<lambda>s'. calm s' \<and> own s' = own s \<and> blk s' = blk s \<and> log_inv s' \<and>
     dirty s' = insert n (dirty s) \<and> lh_n s' = (if n \<in> dirty s then lh_n s else lh_n s + 1) \<and>
     fr s' = fr s)"
proof -
  note I = log_invD [OF inv]
  have bn: "b_blockno (bufs s b) = n" "n < disksize s"
    using o own_valid [OF calm o] bio_inv_buf_ok [OF calm_inv [OF calm], of b]
    by (auto simp: own_def caches_def buf_ok_def)
  let ?N = "nat (lh_n s)"
  define i where "i = log_index (lh_block s) ?N n 0"
  define f where "f = (lh_block s)(i := n)"
  define n' where "n' = (if int i = lh_n s then lh_n s + 1 else lh_n s)"
  have nn: "nat n' = (if i = ?N then ?N + 1 else ?N)" "0 \<le> n'"
    using I(2) by (auto simp: n'_def nat_add_distrib)
  have st: "inj_on f {..<nat n'}" "f ` {..<nat n'} = insert n (dirty s)"
    "nat n' = (if n \<in> dirty s then ?N else ?N + 1)"
    unfolding nn(1) using log_header_step [OF I(7), of n, folded i_def f_def] I(8) by simp_all
  then have n'_eq: "n' = (if n \<in> dirty s then lh_n s else lh_n s + 1)"
    using I(2) nn(2) by (auto split: if_splits)
  define t where "t = s\<lparr>lh_block := f, lh_n := n'\<rparr>"
  have t: "calm t" "own t = own s" "blk t = blk s" "dirty t = dirty s" "bufs t = bufs s"
    by (simp_all add: t_def calm)
  define s' where "s' = set_buf b ((bufs t b)\<lparr>b_dirty := True\<rparr>) t"
  have e: "log_write b s = Inr s'"
    using room op by (simp add: log_write_def bn(1) Let_def s'_def t_def f_def n'_def i_def)
  note p = pin_calm [OF t(1), of b n, folded s'_def, unfolded t(2), OF o]
  have r: "lh_n s' = n'" "lh_block s' = f" "fr s' = fr s" "log_area s' = log_area s"
    using rest_log [OF p(7)] fr_rest [OF p(7,5,6)] by (simp_all add: t_def fr_def log_area_def)
  have "log_inv s'"
    unfolding log_inv_def frD [OF r(3)] r p(3) t(4)
  proof (intro conjI)
    show "insert n (dirty s) \<inter> log_area s = {}" using I(10) n by blast
    show "\<forall>b\<in>insert n (dirty s). b < disksize s" using I(11) bn(2) by blast
  qed (use I(1,4,5,6) st nn(2) n'_eq room I(3) in simp_all)
  then show ?thesis
    using p t r n'_eq by (simp add: e)
qed

section \<open>The interface of a transaction\<close>

text \<open>
  Block reads and logged writes as the file system uses them: \<open>get\<close> and \<open>rel\<close> take and drop a
  buffer, \<open>put\<close> overwrites a held buffer and logs it. \<open>dset\<close> is the set of blocks logged so far and
  \<open>slots\<close> how many more fit; buffers held count against it for further reads.
\<close>

locale txn_store =
  fixes ok :: "'s \<Rightarrow> bool" and blk :: "'s \<Rightarrow> nat \<Rightarrow> bytes" and own :: "'s \<Rightarrow> nat \<Rightarrow> nat \<Rightarrow> bool"
    and dset :: "'s \<Rightarrow> nat set" and slots :: "'s \<Rightarrow> int" and frame :: "'s \<Rightarrow> 'f"
    and nblk :: "'s \<Rightarrow> nat" and area :: "'s \<Rightarrow> nat set"
    and data :: "'s \<Rightarrow> nat \<Rightarrow> bytes" and get :: "nat \<Rightarrow> 's \<Rightarrow> (nat \<times> 's) res"
    and put :: "nat \<Rightarrow> bytes \<Rightarrow> 's \<Rightarrow> 's res" and rel :: "nat \<Rightarrow> 's \<Rightarrow> 's res"
  assumes get_law: "ok s \<Longrightarrow> n < nblk s \<Longrightarrow> \<forall>i. \<not> own s i n \<Longrightarrow>
      int (card {m. \<exists>i. own s i m}) \<le> slots s \<Longrightarrow>
      wp (get n s) (\<lambda>(i, s'). ok s' \<and> blk s' = blk s \<and> dset s' = dset s \<and> frame s' = frame s \<and>
           (\<forall>j m. own s' j m \<longleftrightarrow> own s j m \<or> j = i \<and> m = n))"
    and data_law: "ok s \<Longrightarrow> own s i n \<Longrightarrow> data s i = blk s n"
    and put_law: "ok s \<Longrightarrow> own s i n \<Longrightarrow> n \<notin> area s \<Longrightarrow> 0 < slots s \<Longrightarrow>
      wp (put i d s) (\<lambda>s'. ok s' \<and> blk s' = (blk s)(n := d) \<and> dset s' = insert n (dset s) \<and>
           own s' = own s \<and> frame s' = frame s)"
    and rel_law: "ok s \<Longrightarrow> own s i n \<Longrightarrow>
      wp (rel i s) (\<lambda>s'. ok s' \<and> blk s' = blk s \<and> dset s' = dset s \<and> frame s' = frame s \<and>
           (\<forall>j m. own s' j m \<longleftrightarrow> own s j m \<and> m \<noteq> n))"
    and frame_law: "frame s' = frame s \<Longrightarrow> nblk s' = nblk s \<and> area s' = area s"
    and slots_law: "ok s \<Longrightarrow> ok s' \<Longrightarrow> frame s' = frame s \<Longrightarrow>
      slots s' = slots s + int (card (dset s)) - int (card (dset s'))"
    and finite_law: "finite (dset s)"
begin

lemma slots_same: "ok s \<Longrightarrow> ok s' \<Longrightarrow> frame s' = frame s \<Longrightarrow> dset s' = dset s \<Longrightarrow> slots s' = slots s"
  using slots_law [of s s'] by simp

lemma slots_insert:
  "ok s \<Longrightarrow> ok s' \<Longrightarrow> frame s' = frame s \<Longrightarrow> dset s' = insert n (dset s) \<Longrightarrow> slots s - 1 \<le> slots s'"
  using slots_law [of s s'] finite_law [of s] by (simp add: card_insert_if split: if_splits)

text \<open>Read a block and let go of it.\<close>

lemma peek:
  assumes "ok s" "n < nblk s" "\<forall>i. \<not> own s i n" "int (card {m. \<exists>i. own s i m}) \<le> slots s"
  shows "wp (bnd (get n s) (\<lambda>(i, s1). bnd (rel i s1) (\<lambda>s2. Inr (data s1 i, s2))))
    (\<lambda>(d, s'). d = blk s n \<and> ok s' \<and> blk s' = blk s \<and> dset s' = dset s \<and> own s' = own s \<and>
       frame s' = frame s)"
proof (subst wp_bnd, rule wp_mono [OF get_law [OF assms]], clarify)
  fix i s1
  assume s1: "ok s1" "blk s1 = blk s" "dset s1 = dset s" "frame s1 = frame s"
    "\<forall>j m. own s1 j m \<longleftrightarrow> own s j m \<or> j = i \<and> m = n"
  then have o: "own s1 i n" by blast
  show "wp (bnd (rel i s1) (\<lambda>s2. Inr (data s1 i, s2)))
    (\<lambda>(d, s'). d = blk s n \<and> ok s' \<and> blk s' = blk s \<and> dset s' = dset s \<and> own s' = own s \<and>
       frame s' = frame s)"
    using s1 assms(3) data_law [OF s1(1) o]
    by (subst wp_bnd, intro wp_mono [OF rel_law [OF s1(1) o]]) (auto simp: fun_eq_iff)
qed

text \<open>Overwrite and log a held block, then let go of it.\<close>

lemma put_rel:
  assumes "ok s" "own s i n" "n \<notin> area s" "0 < slots s"
  shows "wp (bnd (put i d s) (rel i))
    (\<lambda>s'. ok s' \<and> blk s' = (blk s)(n := d) \<and> dset s' = insert n (dset s) \<and> frame s' = frame s \<and>
       (\<forall>j m. own s' j m \<longleftrightarrow> own s j m \<and> m \<noteq> n))"
proof (subst wp_bnd, rule wp_mono [OF put_law [OF assms]], elim conjE)
  fix s1
  assume s1: "ok s1" "blk s1 = (blk s)(n := d)" "dset s1 = insert n (dset s)" "own s1 = own s"
    "frame s1 = frame s"
  with assms(2) have o: "own s1 i n" by simp
  show "wp (rel i s1) (\<lambda>s'. ok s' \<and> blk s' = (blk s)(n := d) \<and> dset s' = insert n (dset s) \<and>
      frame s' = frame s \<and> (\<forall>j m. own s' j m \<longleftrightarrow> own s j m \<and> m \<noteq> n))"
    using s1 by (intro wp_mono [OF rel_law [OF s1(1) o]]) auto
qed

text \<open>Read, modify and log one block.\<close>

lemma update:
  assumes "ok s" "n < nblk s" "\<forall>i. \<not> own s i n" "int (card {m. \<exists>i. own s i m}) \<le> slots s"
    and "n \<notin> area s" "0 < slots s"
  shows "wp (bnd (get n s) (\<lambda>(i, s1). bnd (put i (f (data s1 i)) s1) (rel i)))
    (\<lambda>s'. ok s' \<and> blk s' = (blk s)(n := f (blk s n)) \<and> dset s' = insert n (dset s) \<and> own s' = own s \<and>
       frame s' = frame s)"
proof (subst wp_bnd, rule wp_mono [OF get_law [OF assms(1-4)]], clarify)
  fix i s1
  assume s1: "ok s1" "blk s1 = blk s" "dset s1 = dset s" "frame s1 = frame s"
    "\<forall>j m. own s1 j m \<longleftrightarrow> own s j m \<or> j = i \<and> m = n"
  then have o: "own s1 i n" by blast
  have a: "n \<notin> area s1" "0 < slots s1"
    using assms(5,6) frame_law [OF s1(4)] slots_same [OF assms(1) s1(1,4,3)] by simp_all
  show "wp (bnd (put i (f (data s1 i)) s1) (rel i))
    (\<lambda>s'. ok s' \<and> blk s' = (blk s)(n := f (blk s n)) \<and> dset s' = insert n (dset s) \<and> own s' = own s \<and>
       frame s' = frame s)"
    unfolding data_law [OF s1(1) o] s1(2)
  proof (rule wp_mono [OF put_rel [OF s1(1) o a]], elim conjE)
    fix s'
    assume s': "ok s'" "blk s' = (blk s1)(n := f (blk s n))" "dset s' = insert n (dset s1)"
      "frame s' = frame s1" "\<forall>j m. own s' j m \<longleftrightarrow> own s1 j m \<and> m \<noteq> n"
    have "own s' = own s"
    proof (intro ext)
      fix j m
      show "own s' j m = own s j m" using s'(5) s1(5) assms(3) by blast
    qed
    then show "ok s' \<and> blk s' = (blk s)(n := f (blk s n)) \<and> dset s' = insert n (dset s) \<and> own s' = own s \<and>
       frame s' = frame s" using s' s1 by simp
  qed
qed

end

definition txn :: "'a log_scheme \<Rightarrow> bool" where
  "txn s \<longleftrightarrow> calm s \<and> log_inv s \<and> 0 < lg_outstanding s \<and>
     (\<forall>i n. own s i n \<longrightarrow> n \<in> dirty s \<or> blk s n = memdisk s n)"

definition slots :: "'a log_scheme \<Rightarrow> int" where
  "slots s = min (int NBUF - 1) (lg_size s - 1) - lh_n s"

lemma finite_held [simp]: "finite {m. \<exists>i. own s i m}"
proof -
  have "{m. \<exists>i. own s i m} \<subseteq> (\<lambda>i. b_blockno (bufs s i)) ` {..<NBUF}"
    by (auto simp: own_def caches_def)
  then show ?thesis by (rule finite_subset) simp
qed

lemma log_inv_cong:
  fixes s s' :: "'a log_scheme"
  assumes "rest s' = rest s" "dirty s' = dirty s"
  shows "log_inv s' = log_inv s"
  using rest_log [OF assms(1)] assms(2) by (simp add: log_inv_def log_area_def)

lemma card_dirty: "log_inv s \<Longrightarrow> card (dirty s) = nat (lh_n s)"
  using card_image [OF log_invD(7)] log_invD(8) by (metis card_lessThan)

lemma slots_card:
  assumes "log_inv s" "int (card {m. \<exists>i. own s i m}) \<le> slots s"
  shows "card (dirty s \<union> {m. \<exists>i. own s i m}) < NBUF"
  using card_Un_le [of "dirty s" "{m. \<exists>i. own s i m}"] card_dirty [OF assms(1)] assms(2) log_invD(2) [OF assms(1)]
  by (simp add: slots_def)

lemma txn_frame:
  fixes s s' :: "'a log_scheme"
  assumes "rest s' = rest s" "dirty s' = dirty s" "memdisk s' = memdisk s" "wtrace s' = wtrace s" "log_inv s"
  shows "log_inv s'" "slots s' = slots s" "fr s' = fr s" "lg_outstanding s' = lg_outstanding s"
  using log_inv_cong [OF assms(1,2)] rest_log [OF assms(1)] assms fr_rest [OF assms(1,3,4)]
  by (simp_all add: slots_def)

lemma txn_get:
  fixes s :: "'a log_scheme"
  assumes ok: "txn s" and n: "n < disksize s" "\<forall>i. \<not> own s i n"
    and room: "int (card {m. \<exists>i. own s i m}) \<le> slots s"
  shows "wp (bread 1 n s) (\<lambda>(i, s'). txn s' \<and> blk s' = blk s \<and> dirty s' = dirty s \<and> fr s' = fr s \<and>
     (\<forall>j m. own s' j m \<longleftrightarrow> own s j m \<or> j = i \<and> m = n))"
proof -
  have calm: "calm s" "log_inv s" "0 < lg_outstanding s" using ok by (simp_all add: txn_def)
  show ?thesis
  proof (rule wp_mono [OF bc.get_law [OF calm(1) n disjI2 [OF slots_card [OF calm(2) room]]]], clarify)
    fix i and s' :: "'a log_scheme"
    assume *: "calm s'" "blk s' = blk s" "dirty s' = dirty s" "n \<notin> dirty s \<longrightarrow> blk s n = memdisk s n"
      "\<forall>j m. own s' j m \<longleftrightarrow> own s j m \<or> j = i \<and> m = n" "memdisk s' = memdisk s" "wtrace s' = wtrace s"
      "rest s' = rest s"
    show "txn s' \<and> blk s' = blk s \<and> dirty s' = dirty s \<and> fr s' = fr s \<and>
     (\<forall>j m. own s' j m \<longleftrightarrow> own s j m \<or> j = i \<and> m = n)"
      using * txn_frame [OF *(8,3,6,7) calm(2)] calm(3) ok unfolding txn_def by auto
  qed
qed

lemma txn_put:
  fixes s :: "'a log_scheme"
  assumes ok: "txn s" and o: "own s i n" and n: "n \<notin> log_area s" and room: "0 < slots s"
  shows "wp (log_write i (set_data i d s)) (\<lambda>s'. txn s' \<and> blk s' = (blk s)(n := d) \<and> dirty s' = insert n (dirty s) \<and>
     own s' = own s \<and> fr s' = fr s)"
proof -
  have calm: "calm s" "log_inv s" "0 < lg_outstanding s" using ok by (simp_all add: txn_def)
  let ?s = "set_data i d s"
  note d = set_data_calm [OF calm(1) o, of d]
  note f = txn_frame [OF d(7,3,5,6) calm(2)] and R = rest_log [OF d(7)]
  have o': "own ?s i n" using d(4) o by simp
  have "wp (log_write i ?s) (\<lambda>s'. calm s' \<and> own s' = own ?s \<and> blk s' = blk ?s \<and> log_inv s' \<and>
     dirty s' = insert n (dirty ?s) \<and> lh_n s' = (if n \<in> dirty ?s then lh_n ?s else lh_n ?s + 1) \<and>
     fr s' = fr ?s)"
    using room n calm(3) R f
    by (intro log_write_spec [OF d(1) o' f(1)]) (simp_all add: slots_def log_area_def)
  then show ?thesis
  proof (rule wp_mono, elim conjE)
    fix s'
    assume *: "calm s'" "own s' = own ?s" "blk s' = blk ?s" "log_inv s'" "dirty s' = insert n (dirty ?s)"
      "lh_n s' = (if n \<in> dirty ?s then lh_n ?s else lh_n ?s + 1)" "fr s' = fr ?s"
    have "m \<in> dirty s' \<or> blk s' m = memdisk s' m" if "own s' j m" for j m
      using that ok * d frD(1) [OF *(7)] unfolding txn_def by auto
    then have "txn s'" using * frD(7) [OF *(7)] f(4) calm(3) unfolding txn_def by auto
    then show "txn s' \<and> blk s' = (blk s)(n := d) \<and> dirty s' = insert n (dirty s) \<and> own s' = own s \<and> fr s' = fr s"
      using * d f by simp
  qed
qed

lemma txn_rel:
  fixes s :: "'a log_scheme"
  assumes ok: "txn s" and o: "own s i n"
  shows "wp (brelse i s) (\<lambda>s'. txn s' \<and> blk s' = blk s \<and> dirty s' = dirty s \<and> fr s' = fr s \<and>
     (\<forall>j m. own s' j m \<longleftrightarrow> own s j m \<and> m \<noteq> n))"
proof -
  have calm: "calm s" "log_inv s" "0 < lg_outstanding s" "n \<in> dirty s \<or> blk s n = memdisk s n"
    using ok o by (auto simp: txn_def)
  show ?thesis
  proof (rule wp_mono [OF bc.rel_law [OF calm(1) o calm(4)]], elim conjE)
    fix s'
    assume *: "calm s'" "blk s' = blk s" "dirty s' = dirty s" "\<forall>j m. own s' j m \<longleftrightarrow> own s j m \<and> m \<noteq> n"
      "memdisk s' = memdisk s" "wtrace s' = wtrace s" "rest s' = rest s"
    show "txn s' \<and> blk s' = blk s \<and> dirty s' = dirty s \<and> fr s' = fr s \<and>
     (\<forall>j m. own s' j m \<longleftrightarrow> own s j m \<and> m \<noteq> n)"
      using * txn_frame [OF *(7,3,5,6) calm(2)] calm(3) ok unfolding txn_def by auto
  qed
qed

lemma slots_dirty:
  fixes s s' :: "'a log_scheme"
  assumes "txn s" "txn s'" "lg_size s' = lg_size s"
  shows "slots s' = slots s + int (card (dirty s)) - int (card (dirty s'))"
  using assms card_dirty [of s] card_dirty [of s'] log_invD(2) [of s] log_invD(2) [of s']
  by (simp add: txn_def slots_def)

interpretation tx: txn_store txn blk own dirty slots fr disksize log_area bdata "bread 1"
  "\<lambda>i d s. log_write i (set_data i d s)" brelse
proof (unfold_locales, goal_cases)
  case (2 s i n)
  then show ?case by (simp add: txn_def own_data)
next
  case (5 s' s)
  then show ?case using frD(3,11) by blast
next
  case (6 s s')
  then show ?case using slots_dirty frD(6) by blast
qed (fact txn_get txn_put txn_rel finite_dirty)+

section \<open>Ending an operation\<close>

lemma log_inv_view [simp]:
  "log_area (s\<lparr>lg_committing := c\<rparr>) = log_area s" "log_area (s\<lparr>lg_outstanding := k\<rparr>) = log_area s"
  "log_inv (s\<lparr>lg_committing := c\<rparr>) = log_inv s" "log_inv (s\<lparr>lg_outstanding := k\<rparr>) = log_inv s"
  by (simp_all add: log_inv_def log_area_def)

lemma commit_home:
  fixes s s' :: "'a log_scheme"
  assumes inv: "log_inv s" and b: "b \<notin> log_area s"
  shows "apply_writes (blk s) (commit_writes s) b = blk s b"
proof -
  note A = log_area_inside [OF inv]
  have L: "b \<notin> {lg_start s .. lg_start s + nat (lh_n s)}" "b \<noteq> lg_start s"
    using b A(1) subsetD [OF A(1), of "lg_start s"] by auto
  then show ?thesis
    using home_writes_at [OF inv, of b] home_writes_other [OF inv, of b]
      log_writes_other [of b s "nat (lh_n s)" "blk s"]
    by (cases "b \<in> dirty s") (auto simp: commit_writes_def)
qed

text \<open>The state after a commit, in terms of the state \<open>u\<close> it started in.\<close>

lemma committed_state:
  fixes u s' :: "'a log_scheme"
  assumes u: "log_inv u" "0 < lh_n u"
    and s': "calm s'" "\<forall>i m. \<not> own s' i m" "dirty s' = {}" "blk s' = apply_writes (blk u) (commit_writes u)"
      "memdisk s' = apply_writes (memdisk u) (commit_writes u)" "rest s' = rest (u\<lparr>lh_n := 0\<rparr>)"
  shows "b \<notin> log_area u \<Longrightarrow> blk s' b = blk u b"
    "b < disksize u \<Longrightarrow> b \<notin> log_area u \<Longrightarrow> memdisk s' b = blk u b"
    "hd_n (memdisk s' (lg_start u)) = 0" "log_inv s'"
proof -
  note R = rest_log [OF s'(6)]
  show B: "blk s' b = blk u b" if "b \<notin> log_area u"
    using commit_home [OF u(1), of b] that by (simp add: s'(4))
  show "memdisk s' b = blk u b" if "b < disksize u" "b \<notin> log_area u"
  proof -
    have "blk s' b = memdisk s' b"
      by (rule clean_blk [OF s'(1,2)]) (use s'(3) R(8) that in simp_all)
    with B that show ?thesis by simp
  qed
  show "hd_n (memdisk s' (lg_start u)) = 0" unfolding s'(5) commit_writes_def by simp
  show "log_inv s'" unfolding log_inv_def s'(3) R using log_invD(1,4,5,6) [OF u(1)] u(2) by simp
qed

text \<open>
  C3. The last \<^verbatim>\<open>end_op\<close> of a group of operations commits: it returns, every block outside the log
  region then has its value of the cache on the disk, no buffer stays pinned, the log in memory
  and its header on the disk are empty, and the log accepts operations again. An \<^verbatim>\<open>end_op\<close> with
  others outstanding touches neither disk nor cache.
\<close>

theorem end_op_commits:
  fixes s :: "'a log_scheme"
  assumes "txn s" "\<forall>i n. \<not> own s i n" "\<not> lg_committing s" "card (dirty s) < NBUF"
  shows "if lg_outstanding s = 1 then
      wp (end_op s) (\<lambda>s'. calm s' \<and> (\<forall>i n. \<not> own s' i n) \<and> log_inv s' \<and> dirty s' = {} \<and> lh_n s' = 0 \<and>
        lg_outstanding s' = 0 \<and> \<not> lg_committing s' \<and> log.more s' = log.more s \<and>
        (\<forall>b<disksize s. b \<notin> log_area s \<longrightarrow> memdisk s' b = blk s b \<and> blk s' b = blk s b) \<and>
        (0 < lh_n s \<longrightarrow> hd_n (memdisk s' (lg_start s)) = 0))
    else end_op s = Inr (s\<lparr>lg_outstanding := lg_outstanding s - 1\<rparr>)"
proof (cases "lg_outstanding s = 1")
  case True
  have t: "calm s" "log_inv s" using assms(1) by (simp_all add: txn_def)
  define u where "u = s\<lparr>lg_outstanding := 0, lg_committing := True\<rparr>"
  have u: "calm u" "\<forall>i n. \<not> own u i n" "dirty u = dirty s" "blk u = blk s" "memdisk u = memdisk s"
    "lh_n u = lh_n s" "log_area u = log_area s" "disksize u = disksize s" "lg_start u = lg_start s"
    "log_inv u" "log.more u = log.more s" "lg_outstanding u = 0"
    using t assms(2) by (simp_all add: u_def log_area_def log_inv_def)
  have e: "end_op s = bnd (commit u) (\<lambda>s. Inr (s\<lparr>lg_committing := False\<rparr>))"
    using True assms(3) by (simp add: end_op_def Let_def u_def)
  show ?thesis
  proof (cases "0 < lh_n s")
    case False
    then have "dirty s = {}" "lh_n s = 0" using log_invD(2,8) [OF t(2)] by auto
    then show ?thesis
      using True False u t clean_blk [OF t(1) assms(2)]
      by (simp add: e commit_def log_inv_def log_area_def)
  next
    case pos: True
    have "wp (commit u) (\<lambda>s'. calm s' \<and> (\<forall>i m. \<not> own s' i m) \<and> dirty s' = {} \<and>
       blk s' = apply_writes (blk u) (commit_writes u) \<and>
       memdisk s' = apply_writes (memdisk u) (commit_writes u) \<and>
       wtrace s' = wtrace u @ commit_writes u \<and> rest s' = rest (u\<lparr>lh_n := 0\<rparr>))"
      using commit_spec [OF u(1,2,10)] assms(4) u pos by simp
    then have "wp (end_op s) (\<lambda>s'. calm s' \<and> (\<forall>i n. \<not> own s' i n) \<and> log_inv s' \<and> dirty s' = {} \<and> lh_n s' = 0 \<and>
        lg_outstanding s' = 0 \<and> \<not> lg_committing s' \<and> log.more s' = log.more s \<and>
        (\<forall>b<disksize s. b \<notin> log_area s \<longrightarrow> memdisk s' b = blk s b \<and> blk s' b = blk s b) \<and>
        (0 < lh_n s \<longrightarrow> hd_n (memdisk s' (lg_start s)) = 0))"
      unfolding e
    proof (subst wp_bnd, elim wp_mono, elim conjE)
      fix s'
      assume s': "calm s'" "\<forall>i m. \<not> own s' i m" "dirty s' = {}"
       "blk s' = apply_writes (blk u) (commit_writes u)"
       "memdisk s' = apply_writes (memdisk u) (commit_writes u)" "rest s' = rest (u\<lparr>lh_n := 0\<rparr>)"
      note R = rest_log [OF s'(6)] and C = committed_state [OF u(10) _ s']
      show "wp (Inr (s'\<lparr>lg_committing := False\<rparr>)) (\<lambda>s'. calm s' \<and> (\<forall>i n. \<not> own s' i n) \<and>
        log_inv s' \<and> dirty s' = {} \<and> lh_n s' = 0 \<and>
        lg_outstanding s' = 0 \<and> \<not> lg_committing s' \<and> log.more s' = log.more s \<and>
        (\<forall>b<disksize s. b \<notin> log_area s \<longrightarrow> memdisk s' b = blk s b \<and> blk s' b = blk s b) \<and>
        (0 < lh_n s \<longrightarrow> hd_n (memdisk s' (lg_start s)) = 0))"
        using s'(1-3) R(3,6,9) u C pos by simp
    qed
    with True show ?thesis by simp
  qed
next
  case False
  then show ?thesis using assms(3) by (simp add: end_op_def Let_def)
qed

theorem end_op_commits_witness:
  "wp (end_op (ex_log\<lparr>lg_outstanding := 1\<rparr>)) (\<lambda>s'. dirty s' = {} \<and> lg_outstanding s' = 0 \<and>
     memdisk s' 40 = (\<lambda>_. 7) \<and> hd_n (memdisk s' 2) = 0)"
proof -
  let ?s = "ex_log\<lparr>lg_outstanding := 1\<rparr>"
  have i: "log_inv ?s" using ex_log_ok(1) by simp
  have f: "lh_n ?s = 1" "disksize ?s = 100" "lg_start ?s = 2" "40 \<notin> log_area ?s" "\<not> lg_committing ?s"
    by (simp_all add: ex_log_def log_area_def)
  have t: "txn ?s" "\<forall>i n. \<not> own ?s i n" "card (dirty ?s) < NBUF" "blk ?s 40 = (\<lambda>_. 7)"
    using ex_calm ex_blk i by (simp_all add: txn_def)
  show ?thesis
    using end_op_commits [OF t(1,2) f(5) t(3)] f t(4) by (auto elim!: wp_mono)
qed

end
