(* ===== verification/Log_Reserve.thy ===== *)
theory Log_Reserve
  imports Log_Op
begin

text \<open>
  Log space reservation. Several file system operations run at the same time between their
  \<^verbatim>\<open>begin_op\<close> and \<^verbatim>\<open>end_op\<close>, each logging at most \<^verbatim>\<open>MAXOPBLOCKS\<close> blocks. A configuration is the kernel
  state and, for every process inside an operation, how many times it has called \<^verbatim>\<open>log_write\<close>.
\<close>

section \<open>Frames that hold of every outcome\<close>

lemma bread_rest: "wlp (bread d n s) (\<lambda>(i, s'). rest s' = rest s)"
  by (auto simp: bread_def bget_def iderw_def Let_def rest_def acquiresleep_def split: option.splits)

lemma bwrite_rest: "wlp (bwrite i s) (\<lambda>s'. rest s' = rest s)"
  by (auto simp: bwrite_def iderw_def Let_def rest_def)

lemma brelse_rest: "wlp (brelse i s) (\<lambda>s'. rest s' = rest s)"
  by (auto simp: brelse_def Let_def rest_def)

lemma write_head_rest:
  fixes s :: "'a log_scheme"
  shows "wlp (write_head s) (\<lambda>s'. rest s' = rest s)"
  unfolding write_head_def Let_def
  apply (subst wlp_bnd, rule wlp_mono [OF bread_rest], clarify)
  apply (subst wlp_bnd, rule wlp_mono [OF bwrite_rest], rule wlp_mono [OF brelse_rest])
  apply (auto simp: rest_def)
  done

lemma copy_rest:
  fixes s :: "'a log_scheme"
  shows "wlp (bnd (bread d n s) (\<lambda>(i, s1). bnd (bread d' m s1) (\<lambda>(j, s2).
     bnd (bwrite (c i j) (set_data (c i j) (bdata s2 (c' i j)) s2)) (\<lambda>s3.
     bnd (brelse (e i j) s3) (brelse (e' i j)))))) (\<lambda>s'. rest s' = rest s)"
proof (subst wlp_bnd, rule wlp_mono [OF bread_rest], clarify, subst wlp_bnd,
    rule wlp_mono [OF bread_rest], clarify)
  fix i s1 j s2
  assume *: "rest s1 = rest s" "rest s2 = rest s1"
  show "wlp (bnd (bwrite (c i j) (set_data (c i j) (bdata s2 (c' i j)) s2))
      (\<lambda>s3. bnd (brelse (e i j) s3) (brelse (e' i j)))) (\<lambda>s'. rest s' = rest s)"
    apply (subst wlp_bnd, rule wlp_mono [OF bwrite_rest])
    apply (subst wlp_bnd, rule wlp_mono [OF brelse_rest], rule wlp_mono [OF brelse_rest])
    using * apply (simp add: rest_def)
    done
qed

lemma write_upto_rest:
  fixes s :: "'a log_scheme"
  shows "wlp (write_upto k s) (\<lambda>s'. rest s' = rest s)"
proof (induction k)
  case (Suc k)
  show ?case
    unfolding write_upto.simps
  proof (subst wlp_bnd, rule wlp_mono [OF Suc.IH])
    fix s' :: "'a log_scheme"
    assume r: "rest s' = rest s"
    show "wlp (bnd (bread (lg_dev s') (lg_start s' + k + 1) s') (\<lambda>(i, s1).
        bnd (bread (lg_dev s') (lh_block s' k) s1) (\<lambda>(j, s2).
        bnd (bwrite i (set_data i (bdata s2 j) s2)) (\<lambda>s3. bnd (brelse j s3) (brelse i)))))
      (\<lambda>s'. rest s' = rest s)"
      unfolding r [symmetric] by (rule copy_rest [of "lg_dev s'" _ s' _ _ "\<lambda>i j. i" "\<lambda>i j. j" "\<lambda>i j. j" "\<lambda>i j. i"])
  qed
qed simp

lemma install_upto_rest:
  fixes s :: "'a log_scheme"
  shows "wlp (install_upto k s) (\<lambda>s'. rest s' = rest s)"
proof (induction k)
  case (Suc k)
  show ?case
    unfolding install_upto.simps
  proof (subst wlp_bnd, rule wlp_mono [OF Suc.IH])
    fix s' :: "'a log_scheme"
    assume r: "rest s' = rest s"
    show "wlp (bnd (bread (lg_dev s') (lg_start s' + k + 1) s') (\<lambda>(i, s1).
        bnd (bread (lg_dev s') (lh_block s' k) s1) (\<lambda>(j, s2).
        bnd (bwrite j (set_data j (bdata s2 i) s2)) (\<lambda>s3. bnd (brelse i s3) (brelse j)))))
      (\<lambda>s'. rest s' = rest s)"
      unfolding r [symmetric] by (rule copy_rest [of "lg_dev s'" _ s' _ _ "\<lambda>i j. j" "\<lambda>i j. i" "\<lambda>i j. i" "\<lambda>i j. j"])
  qed
qed simp

text \<open>However a commit ends, if it returns the log in memory is empty and only that has changed.\<close>

lemma commit_rest:
  fixes s :: "'a log_scheme"
  assumes "0 \<le> lh_n s"
  shows "wlp (commit s) (\<lambda>s'. rest s' = rest (s\<lparr>lh_n := 0\<rparr>))"
proof (cases "0 < lh_n s")
  case True
  then show ?thesis
    unfolding commit_def write_log_def install_trans_def
    apply (simp only: if_True)
    apply (subst wlp_bnd, rule wlp_mono [OF write_upto_rest])
    apply (subst wlp_bnd, rule wlp_mono [OF write_head_rest])
    apply (subst wlp_bnd, rule wlp_mono [OF install_upto_rest])
    apply (rule wlp_mono [OF write_head_rest])
    apply (erule trans, rule rest_lh_n, simp)
    done
next
  case False
  with assms have "s\<lparr>lh_n := 0\<rparr> = s" by (cases s) simp
  with False show ?thesis by (simp add: commit_def)
qed

section \<open>Concurrent operations\<close>

inductive op_step :: "'a log_scheme \<times> (nat \<Rightarrow> nat option) \<Rightarrow> 'a log_scheme \<times> (nat \<Rightarrow> nat option) \<Rightarrow> bool"
  where
  op_begin: "begin_op s = Inr s' \<Longrightarrow> p q = None \<Longrightarrow> op_step (s, p) (s', p(q \<mapsto> 0))"
| op_write: "p q = Some k \<Longrightarrow> k < MAXOPBLOCKS \<Longrightarrow> log_write b s = Inr s' \<Longrightarrow>
    op_step (s, p) (s', p(q \<mapsto> k + 1))"
| op_end: "p q = Some k \<Longrightarrow> end_op s = Inr s' \<Longrightarrow> op_step (s, p) (s', p(q := None))"
| op_cache: "rest s' = rest s \<Longrightarrow> op_step (s, p) (s', p)"

inductive_cases op_stepE: "op_step (s, p) (s', p')"

text \<open>The log writes the processes may still do.\<close>

definition op_left :: "(nat \<Rightarrow> nat option) \<Rightarrow> int" where
  "op_left p = (\<Sum>q\<in>dom p. int MAXOPBLOCKS - int (the (p q)))"

definition reserved :: "'a log_scheme \<Rightarrow> (nat \<Rightarrow> nat option) \<Rightarrow> bool" where
  "reserved s p \<longleftrightarrow> finite (dom p) \<and> lg_outstanding s = int (card (dom p)) \<and> \<not> lg_committing s \<and>
     0 \<le> lh_n s \<and> lh_n s + op_left p \<le> int LOGSIZE \<and> (\<forall>q k. p q = Some k \<longrightarrow> k \<le> MAXOPBLOCKS)"

lemma op_left_upd:
  assumes "finite (dom p)"
  shows "p q = None \<Longrightarrow> op_left (p(q \<mapsto> k)) = op_left p + (int MAXOPBLOCKS - int k)"
    "p q = Some j \<Longrightarrow> op_left (p(q \<mapsto> k)) = op_left p + int j - int k"
    "p q = Some j \<Longrightarrow> op_left (p(q := None)) = op_left p - (int MAXOPBLOCKS - int j)"
proof -
  have *: "(\<Sum>r\<in>dom p - {q}. int MAXOPBLOCKS - int (the ((p(q := x)) r))) =
      (\<Sum>r\<in>dom p - {q}. int MAXOPBLOCKS - int (the (p r)))" for x
    by (rule sum.cong) auto
  show "p q = None \<Longrightarrow> op_left (p(q \<mapsto> k)) = op_left p + (int MAXOPBLOCKS - int k)"
    using * [of "Some k"] assms by (simp add: op_left_def sum.insert_remove domIff)
  show "p q = Some j \<Longrightarrow> op_left (p(q \<mapsto> k)) = op_left p + int j - int k"
    using * [of "Some k"] assms sum.remove [OF assms, of q "\<lambda>r. int MAXOPBLOCKS - int (the (p r))"]
    by (simp add: op_left_def sum.insert_remove domI)
  show "p q = Some j \<Longrightarrow> op_left (p(q := None)) = op_left p - (int MAXOPBLOCKS - int j)"
    using * [of None] assms sum.remove [OF assms, of q "\<lambda>r. int MAXOPBLOCKS - int (the (p r))"]
    by (simp add: op_left_def domI)
qed

lemma op_left_le:
  assumes "finite (dom p)"
  shows "op_left p \<le> int (card (dom p)) * int MAXOPBLOCKS"
  unfolding op_left_def using sum_bounded_above [of "dom p" "\<lambda>q. int MAXOPBLOCKS - int (the (p q))" "int MAXOPBLOCKS"]
  by simp

lemma op_left_nonneg:
  "\<forall>q k. p q = Some k \<longrightarrow> k \<le> MAXOPBLOCKS \<Longrightarrow> 0 \<le> op_left p"
  unfolding op_left_def by (rule sum_nonneg) auto

lemma log_write_count:
  assumes "log_write b s = Inr s'" "0 \<le> lh_n s"
  shows "lh_n s \<le> lh_n s'" "lh_n s' \<le> lh_n s + 1" "lg_outstanding s' = lg_outstanding s"
    "lg_committing s' = lg_committing s" "lg_size s' = lg_size s"
  using assms by (auto simp: log_write_def Let_def set_buf_def split: if_splits)

lemma end_op_count:
  fixes s s' :: "'a log_scheme"
  assumes "end_op s = Inr s'" "0 \<le> lh_n s" "\<not> lg_committing s"
  shows "0 \<le> lh_n s' \<and> lh_n s' \<le> lh_n s \<and> lg_outstanding s' = lg_outstanding s - 1 \<and>
    \<not> lg_committing s' \<and> lg_size s' = lg_size s"
proof (cases "lg_outstanding s = 1")
  case True
  let ?u = "s\<lparr>lg_outstanding := 0, lg_committing := True\<rparr>"
  have e: "end_op s = bnd (commit ?u) (\<lambda>s. Inr (s\<lparr>lg_committing := False\<rparr>))"
    using True assms(3) by (simp add: end_op_def Let_def)
  obtain t where t: "commit ?u = Inr t" "s' = t\<lparr>lg_committing := False\<rparr>"
    using assms(1) unfolding e bnd_eq_Inr by auto
  then have "rest t = rest (?u\<lparr>lh_n := 0\<rparr>)" using commit_rest [of ?u] assms(2) by simp
  from rest_log [OF this] t(2) True assms(2) show ?thesis by simp
next
  case False
  then show ?thesis using assms by (auto simp: end_op_def Let_def)
qed

lemma reserved_step:
  fixes s s' :: "'a log_scheme"
  assumes "op_step (s, p) (s', p')" "reserved s p"
  shows "reserved s' p' \<and> lg_size s' = lg_size s"
proof -
  have r: "finite (dom p)" "lg_outstanding s = int (card (dom p))" "0 \<le> lh_n s" "\<not> lg_committing s"
    "lh_n s + op_left p \<le> int LOGSIZE" "\<forall>q k. p q = Some k \<longrightarrow> k \<le> MAXOPBLOCKS"
    using assms(2) by (simp_all add: reserved_def)
  from assms(1) show ?thesis
  proof cases
    case (op_begin q)
    have "lh_n s + (lg_outstanding s + 1) * int MAXOPBLOCKS \<le> int LOGSIZE"
      "s' = s\<lparr>lg_outstanding := lg_outstanding s + 1\<rparr>"
      using op_begin by (auto simp: begin_op_def split: if_splits)
    moreover have "card (dom p') = card (dom p) + 1" using op_begin r(1) by (simp add: domIff)
    ultimately show ?thesis
      using op_left_le [OF r(1)] op_left_upd(1) [OF r(1), of q 0] r op_begin
      by (auto simp: reserved_def algebra_simps)
  next
    case (op_write q k b)
    then have "dom p' = dom p" by auto
    then show ?thesis
      using r op_write log_write_count [OF op_write(4) r(3)] op_left_upd(2) [OF r(1), of q k "k + 1"]
      by (auto simp: reserved_def)
  next
    case (op_end q k)
    have d: "int (card (dom p')) = int (card (dom p)) - 1"
      using op_end(1,2) r(1) card_Suc_Diff1 [OF r(1), of q] by (simp add: domI)
    have k: "k \<le> MAXOPBLOCKS" using r(6) op_end(2) by blast
    note E = end_op_count [OF op_end(3) r(3,4)]
    have "lh_n s' + op_left p' \<le> int LOGSIZE"
      using r(5) k E op_left_upd(3) [OF r(1) op_end(2)] op_end(1) by simp
    then show ?thesis
      using r d op_end(1) E by (auto simp: reserved_def)
  next
    case op_cache
    then show ?thesis using assms(2) rest_log [OF op_cache(2)] by (simp add: reserved_def)
  qed
qed

lemma reserved_reachable:
  assumes "op_step\<^sup>*\<^sup>* c c'" "reserved (fst c) (snd c)"
  shows "reserved (fst c') (snd c') \<and> lg_size (fst c') = lg_size (fst c)"
  using assms
proof (induction rule: rtranclp_induct)
  case (step y z)
  then show ?case using reserved_step [of "fst y" "snd y" "fst z" "snd z"] by simp
qed simp

text \<open>The log when no operation is running.\<close>

definition log_idle :: "'a log_scheme \<Rightarrow> bool" where
  "log_idle s \<longleftrightarrow> lg_outstanding s = 0 \<and> \<not> lg_committing s \<and> lh_n s = 0"

lemma idle_reserved: "log_idle s \<Longrightarrow> reserved s (\<lambda>_. None)"
  by (simp add: log_idle_def reserved_def op_left_def)

text \<open>
  C4. The reservation in \<^verbatim>\<open>begin_op\<close> is enough. However operations interleave from an idle log, as long
  as each calls \<^verbatim>\<open>log_write\<close> at most \<^verbatim>\<open>MAXOPBLOCKS\<close> times, the log holds at most \<^verbatim>\<open>LOGSIZE\<close> blocks, and
  an operation with calls left finds that \<^verbatim>\<open>log_write\<close> returns, provided the log region is larger
  than \<^verbatim>\<open>LOGSIZE\<close>.
\<close>

theorem log_space_reserved:
  fixes s0 s :: "'a log_scheme"
  assumes "log_idle s0" "lg_size s0 > int LOGSIZE" "op_step\<^sup>*\<^sup>* (s0, \<lambda>_. None) (s, p)"
  shows "lh_n s \<le> int LOGSIZE \<and> (\<forall>q k b. p q = Some k \<and> k < MAXOPBLOCKS \<longrightarrow> (\<exists>s'. log_write b s = Inr s'))"
proof -
  have R: "reserved s p" "lg_size s > int LOGSIZE"
    using reserved_reachable [OF assms(3)] idle_reserved [OF assms(1)] assms(2) by simp_all
  then have r: "finite (dom p)" "lg_outstanding s = int (card (dom p))" "lh_n s + op_left p \<le> int LOGSIZE"
    "\<forall>q k. p q = Some k \<longrightarrow> k \<le> MAXOPBLOCKS" by (simp_all add: reserved_def)
  have "\<exists>s'. log_write b s = Inr s'" if "p q = Some k" "k < MAXOPBLOCKS" for q k b
  proof -
    have "op_left (p(q := None)) = op_left p - (int MAXOPBLOCKS - int k)"
      using op_left_upd(3) [OF r(1) that(1)] .
    moreover have "0 \<le> op_left (p(q := None))" using r(4) by (intro op_left_nonneg) auto
    ultimately have "lh_n s < int LOGSIZE" using r(3) that(2) by linarith
    moreover have "card (dom p) > 0" using r(1) that(1) by (auto simp: card_gt_0_iff)
    ultimately show ?thesis using R(2) r(2) by (simp add: log_write_def Let_def)
  qed
  then show ?thesis using r(3) op_left_nonneg [OF r(4)] by auto
qed

section \<open>A log region of LOGSIZE blocks\<close>

text \<open>
  The region \<^verbatim>\<open>mkfs\<close> lays out has \<^verbatim>\<open>LOGSIZE\<close> blocks, one of which is the header. The states below
  hold one buffer per block, \<open>k\<close> of them logged.
\<close>

definition log_filled :: "nat \<Rightarrow> log \<Rightarrow> bool" where
  "log_filled k s \<longleftrightarrow> lh_n s = int k \<and> lg_size s = int LOGSIZE \<and> \<not> lg_committing s \<and>
     lh_block s ` {..<k} \<subseteq> {..<k} \<and> (\<forall>b. b_blockno (bufs s b) = b)"

lemma log_filled_write:
  assumes "log_filled k s" "k < 29" "0 < lg_outstanding s"
  shows "\<exists>s'. log_write k s = Inr s' \<and> log_filled (k + 1) s' \<and> lg_outstanding s' = lg_outstanding s"
proof -
  have s: "lh_n s = int k" "lg_size s = int LOGSIZE" "\<not> lg_committing s"
    "lh_block s ` {..<k} \<subseteq> {..<k}" "\<forall>b. b_blockno (bufs s b) = b"
    using assms(1) by (simp_all add: log_filled_def)
  have i: "log_index (lh_block s) k k 0 = k"
    using s(4) by (intro log_index_new) auto
  let ?s = "s\<lparr>lh_block := (lh_block s)(k := k), lh_n := int k + 1\<rparr>"
  have "log_write k s = Inr (set_buf k ((bufs s k)\<lparr>b_dirty := True\<rparr>) ?s)"
    using s(1,2,5) assms(2,3) i by (simp add: log_write_def Let_def)
  moreover have "((lh_block s)(k := k)) ` {..<k + 1} \<subseteq> {..<k + 1}"
  proof
    fix x
    assume "x \<in> ((lh_block s)(k := k)) ` {..<k + 1}"
    then obtain t where t: "t < k + 1" "x = ((lh_block s)(k := k)) t" unfolding image_iff by blast
    then show "x \<in> {..<k + 1}" using subsetD [OF s(4) imageI, of t] by (cases "t = k") auto
  qed
  then have "log_filled (k + 1) (set_buf k ((bufs s k)\<lparr>b_dirty := True\<rparr>) ?s)"
    using s by (simp add: log_filled_def set_buf_def)
  moreover have "lg_outstanding (set_buf k ((bufs s k)\<lparr>b_dirty := True\<rparr>) ?s) = lg_outstanding s"
    by (simp add: set_buf_def)
  ultimately show ?thesis by blast
qed

lemma log_filled_writes:
  assumes "log_filled k s" "0 < lg_outstanding s" "p q = Some j" "j + m \<le> MAXOPBLOCKS" "k + m \<le> 29"
  shows "\<exists>s'. op_step\<^sup>*\<^sup>* (s, p) (s', p(q \<mapsto> j + m)) \<and> log_filled (k + m) s' \<and>
    lg_outstanding s' = lg_outstanding s"
  using assms(4,5)
proof (induction m)
  case 0
  have "p(q \<mapsto> j) = p" using assms(3) by auto
  then show ?case using assms(1) by (auto intro!: exI [of _ s])
next
  case (Suc m)
  have le: "j + m \<le> MAXOPBLOCKS" "k + m \<le> 29" using Suc.prems by simp_all
  from Suc.IH [OF le] obtain s1 where s1: "op_step\<^sup>*\<^sup>* (s, p) (s1, p(q \<mapsto> j + m))" "log_filled (k + m) s1"
    "lg_outstanding s1 = lg_outstanding s" by blast
  obtain s2 where s2: "log_write (k + m) s1 = Inr s2" "log_filled (k + m + 1) s2"
    "lg_outstanding s2 = lg_outstanding s1"
    using log_filled_write [OF s1(2)] Suc.prems s1(3) assms(2) by auto
  have "op_step (s1, p(q \<mapsto> j + m)) (s2, (p(q \<mapsto> j + m))(q \<mapsto> j + m + 1))"
    using Suc.prems s2(1) by (intro op_write [where b = "k + m"]) auto
  then have "op_step\<^sup>*\<^sup>* (s, p) (s2, p(q \<mapsto> j + Suc m))"
    using s1(1) by (auto intro: rtranclp.rtrancl_into_rtrancl simp: One_nat_def)
  moreover have "log_filled (k + Suc m) s2" using s2(2) by (simp add: One_nat_def)
  ultimately show ?case using s2(3) s1(3) by metis
qed

definition ex_full :: log where
  "ex_full = ex_log\<lparr>bufs := (\<lambda>i. zero_buf\<lparr>b_blockno := i\<rparr>), lh_n := 0\<rparr>"

lemma ex_full_facts: "log_idle ex_full" "log_filled 0 ex_full" "lg_size ex_full = int LOGSIZE"
  by (simp_all add: ex_full_def ex_log_def log_idle_def log_filled_def)

lemma filled_begin:
  assumes "log_filled k s" "int k + (lg_outstanding s + 1) * 10 \<le> 30" "p q = None"
  shows "op_step (s, p) (s\<lparr>lg_outstanding := lg_outstanding s + 1\<rparr>, p(q \<mapsto> 0))"
    "log_filled k (s\<lparr>lg_outstanding := lg_outstanding s + 1\<rparr>)"
  using assms by (auto intro!: op_begin simp: begin_op_def log_filled_def)

text \<open>
  C5. With the region that \<^verbatim>\<open>mkfs\<close> lays out, of exactly \<^verbatim>\<open>LOGSIZE\<close> blocks, the reservation is one block
  short: from an idle log, operations that each respect \<^verbatim>\<open>MAXOPBLOCKS\<close> and were all admitted by
  \<^verbatim>\<open>begin_op\<close> can make the kernel panic in \<^verbatim>\<open>log_write\<close>.
\<close>

theorem log_space_short:
  "\<exists>s p q k b. op_step\<^sup>*\<^sup>* (ex_full, \<lambda>_. None) (s, p) \<and> log_idle ex_full \<and> lg_size ex_full = int LOGSIZE \<and>
     p q = Some k \<and> k < MAXOPBLOCKS \<and> log_write b s = Inl (Panic ''too big a transaction'')"
proof -
  let ?up = "\<lambda>s :: log. s\<lparr>lg_outstanding := lg_outstanding s + 1\<rparr>"
  let ?p0 = "(\<lambda>_. None) :: nat \<Rightarrow> nat option"
  let ?s0 = "ex_full" and ?s1 = "?up ex_full" and ?s2 = "?up (?up ex_full)" and ?s3 = "?up (?up (?up ex_full))"
  let ?p1 = "?p0(0 \<mapsto> 0)"
  let ?p2 = "?p1(1 \<mapsto> 0)"
  let ?p3 = "?p2(2 \<mapsto> 0)"
  have o: "lg_outstanding ex_full = 0" by (simp add: ex_full_def ex_log_def)
  note b1 = filled_begin [of 0 ?s0 ?p0 0] and b2 = filled_begin [of 0 ?s1 ?p1 1]
    and b3 = filled_begin [of 0 ?s2 ?p2 2]
  have f1: "op_step (?s0, ?p0) (?s1, ?p1)" "log_filled 0 ?s1" using b1 ex_full_facts(2) o by simp_all
  have f2: "op_step (?s1, ?p1) (?s2, ?p2)" "log_filled 0 ?s2" using b2 f1(2) o by simp_all
  have f3: "op_step (?s2, ?p2) (?s3, ?p3)" "log_filled 0 ?s3" using b3 f2(2) o by simp_all
  have reach: "op_step\<^sup>*\<^sup>* (?s0, ?p0) (?s3, ?p3)"
    using f1(1) f2(1) f3(1) by (meson rtranclp.rtrancl_into_rtrancl rtranclp.rtrancl_refl)
  define s3 where "s3 = ?s3"
  define p3 where "p3 = ?p3"
  have s3: "lg_outstanding s3 = 3" "log_filled 0 s3" using o f3(2) by (simp_all add: s3_def)
  define pa where "pa = p3(0 \<mapsto> 10)"
  define pb where "pb = pa(1 \<mapsto> 10)"
  define pc where "pc = pb(2 \<mapsto> 9)"
  have p: "p3 0 = Some 0" "pa 1 = Some 0" "pb 2 = Some 0" "pc 2 = Some 9"
    by (simp_all add: p3_def pa_def pb_def pc_def)
  obtain a where a: "op_step\<^sup>*\<^sup>* (s3, p3) (a, pa)" "log_filled 10 a" "lg_outstanding a = 3"
    using log_filled_writes [of 0 s3 p3 0 0 10] s3 p(1) unfolding pa_def by auto
  obtain b where b: "op_step\<^sup>*\<^sup>* (a, pa) (b, pb)" "log_filled 20 b" "lg_outstanding b = 3"
    using log_filled_writes [of 10 a pa 1 0 10] a p(2) unfolding pb_def by auto
  obtain c where c: "op_step\<^sup>*\<^sup>* (b, pb) (c, pc)" "log_filled 29 c"
    using log_filled_writes [of 20 b pb 2 0 9] b p(3) unfolding pc_def by auto
  have "op_step\<^sup>*\<^sup>* (?s0, ?p0) (c, pc)"
    using reach [folded s3_def p3_def] a(1) b(1) c(1) by (meson rtranclp_trans)
  moreover have "log_write 0 c = Inl (Panic ''too big a transaction'')"
    using c(2) by (simp add: log_filled_def log_write_def)
  moreover have "(9::nat) < MAXOPBLOCKS" by simp
  ultimately show ?thesis using ex_full_facts(1,3) p(4) by blast
qed

theorem log_space_reserved_witness:
  "\<exists>s s'. op_step\<^sup>*\<^sup>* (ex_full\<lparr>lg_size := 31\<rparr>, \<lambda>_. None) (s, [5 \<mapsto> 0]) \<and> log_write 3 s = Inr s'"
proof -
  let ?s = "ex_full\<lparr>lg_size := 31\<rparr>"
  have i: "log_idle ?s" "lg_size ?s > int LOGSIZE" by (simp_all add: log_idle_def ex_full_def ex_log_def)
  have "op_step (?s, \<lambda>_. None) (?s\<lparr>lg_outstanding := 1\<rparr>, (\<lambda>_. None)(5 \<mapsto> 0))"
    by (rule op_begin) (simp_all add: begin_op_def ex_full_def ex_log_def)
  then have r: "op_step\<^sup>*\<^sup>* (?s, \<lambda>_. None) (?s\<lparr>lg_outstanding := 1\<rparr>, [5 \<mapsto> 0])" by simp
  have "\<exists>s'. log_write 3 (?s\<lparr>lg_outstanding := 1\<rparr>) = Inr s'"
    using log_space_reserved [OF i r] by simp
  with r show ?thesis by blast
qed

end
