(* ===== verification/Fs_Block.thy ===== *)
theory Fs_Block
  imports Log_Op
begin

text \<open>
  The state of the file system (\<^verbatim>\<open>fs.c\<close>, \<^verbatim>\<open>file.h\<close>) and its block allocator: \<^verbatim>\<open>bzero\<close>, \<^verbatim>\<open>balloc\<close>, \<^verbatim>\<open>bfree\<close>.
\<close>

section \<open>State\<close>

abbreviation (input) "NDIRECT \<equiv> (12::nat)"
abbreviation (input) "NINDIRECT \<equiv> (128::nat)"
abbreviation (input) "NINODE \<equiv> (50::nat)"
abbreviation (input) "BPB \<equiv> (4096::nat)"
abbreviation (input) "IPB \<equiv> (8::nat)"

record inode =
  ip_dev :: nat
  ip_inum :: nat
  ip_ref :: int
  ip_lock :: sleeplock
  ip_valid :: bool
  ip_type :: u16
  ip_major :: u16
  ip_minor :: u16
  ip_nlink :: u16
  ip_size :: u32
  ip_addrs :: "nat \<Rightarrow> u32"

text \<open>The globals of \<^verbatim>\<open>fs.c\<close>: the superblock copy \<^verbatim>\<open>sb\<close> and the inode cache; an inode pointer is a slot.\<close>

record fs = log +
  fsb :: superblock
  icache :: "nat \<Rightarrow> inode"

section \<open>Operations\<close>

definition bzero :: "nat \<Rightarrow> nat \<Rightarrow> 'a fs_scheme \<Rightarrow> 'a fs_scheme res" where
  "bzero dev bno s =
     bnd (bread dev bno s) (\<lambda>(bp, s1).
     bnd (log_write bp (set_data bp (\<lambda>i. if i < BSIZE then 0 else bdata s1 bp i) s1)) (brelse bp))"

text \<open>
  \<open>balloc_loop dev n b\<close>: the last \<open>n\<close> rounds of the outer loop of \<^verbatim>\<open>balloc\<close>, from block \<open>b\<close> on. The
  inner loop stops at the first clear bit.
\<close>

primrec balloc_loop :: "nat \<Rightarrow> nat \<Rightarrow> nat \<Rightarrow> 'a fs_scheme \<Rightarrow> (nat \<times> 'a fs_scheme) res" where
  "balloc_loop dev 0 b s = Inl (Panic ''balloc: out of blocks'')"
| "balloc_loop dev (Suc n) b s =
     bnd (bread dev (b div BPB + sb_bmapstart (fsb s)) s) (\<lambda>(bp, s1).
     case find (\<lambda>bi. \<not> bit (bdata s1 bp (bi div 8)) (bi mod 8)) [0..<min BPB (sb_size (fsb s) - b)] of
       Some bi \<Rightarrow>
         bnd (log_write bp (set_data bp
                ((bdata s1 bp)(bi div 8 := set_bit (bi mod 8) (bdata s1 bp (bi div 8)))) s1)) (\<lambda>s2.
         bnd (brelse bp s2) (\<lambda>s3.
         bnd (bzero dev (b + bi) s3) (\<lambda>s4.
         Inr (b + bi, s4))))
     | None \<Rightarrow> bnd (brelse bp s1) (balloc_loop dev n (b + BPB)))"

definition balloc :: "nat \<Rightarrow> 'a fs_scheme \<Rightarrow> (nat \<times> 'a fs_scheme) res" where
  "balloc dev s = balloc_loop dev ((sb_size (fsb s) + BPB - 1) div BPB) 0 s"

definition bfree :: "nat \<Rightarrow> nat \<Rightarrow> 'a fs_scheme \<Rightarrow> 'a fs_scheme res" where
  "bfree dev b s =
     bnd (readsb dev s) (\<lambda>(sb, s0).
     let s0 = s0\<lparr>fsb := sb\<rparr> in
     bnd (bread dev (b div BPB + sb_bmapstart (fsb s0)) s0) (\<lambda>(bp, s1).
     let bi = b mod BPB in
     if \<not> bit (bdata s1 bp (bi div 8)) (bi mod 8) then Inl (Panic ''freeing free block'')
     else bnd (log_write bp (set_data bp
                 ((bdata s1 bp)(bi div 8 := unset_bit (bi mod 8) (bdata s1 bp (bi div 8)))) s1))
            (brelse bp)))"

section \<open>The free map\<close>

definition bused :: "'a fs_scheme \<Rightarrow> nat \<Rightarrow> bool" where
  "bused s b = bit (blk s (b div BPB + sb_bmapstart (fsb s)) ((b mod BPB) div 8)) (b mod BPB mod 8)"

text \<open>
  The layout \<^verbatim>\<open>mkfs\<close> promises: the map and inode blocks lie on the disk outside the log region, and
  all blocks that are not data blocks are marked in use.
\<close>

definition bmap_blocks :: "'a fs_scheme \<Rightarrow> nat set" where
  "bmap_blocks s = {sb_bmapstart (fsb s) .. (sb_size (fsb s) - 1) div BPB + sb_bmapstart (fsb s)}"

definition inode_blocks :: "'a fs_scheme \<Rightarrow> nat set" where
  "inode_blocks s = {sb_inodestart (fsb s) .. sb_ninodes (fsb s) div IPB + sb_inodestart (fsb s)}"

definition meta :: "'a fs_scheme \<Rightarrow> nat set" where
  "meta s = {0, 1} \<union> log_area s \<union> inode_blocks s \<union> bmap_blocks s"

definition layout :: "'a fs_scheme \<Rightarrow> bool" where
  "layout s \<longleftrightarrow> 0 < sb_size (fsb s) \<and> sb_size (fsb s) \<le> disksize s \<and>
     (\<forall>b\<in>meta s. b < sb_size (fsb s) \<and> bused s b) \<and>
     1 \<notin> log_area s \<union> inode_blocks s \<union> bmap_blocks s \<and>
     log_area s \<inter> (inode_blocks s \<union> bmap_blocks s) = {} \<and> inode_blocks s \<inter> bmap_blocks s = {} \<and>
     sb_of (blk s 1) = fsb s"

lemma fr_fs:
  fixes s s' :: "'a fs_scheme"
  assumes "fr s' = fr s"
  shows "fsb s' = fsb s" "icache s' = icache s" "fs.more s' = fs.more s" "log_area s' = log_area s"
    "disksize s' = disksize s" "memdisk s' = memdisk s" "bmap_blocks s' = bmap_blocks s"
    "inode_blocks s' = inode_blocks s" "meta s' = meta s"
proof -
  note D = frD [OF assms]
  have m: "log.more s' = log.more s" by (rule D)
  show f: "fsb s' = fsb s" "icache s' = icache s" "fs.more s' = fs.more s"
    using m by (cases s, cases s', simp)+
  show "log_area s' = log_area s" "disksize s' = disksize s" "memdisk s' = memdisk s" by (rule D)+
  then show "bmap_blocks s' = bmap_blocks s" "inode_blocks s' = inode_blocks s" "meta s' = meta s"
    using f by (simp_all add: bmap_blocks_def inode_blocks_def meta_def)
qed

lemma layoutD:
  assumes "layout s"
  shows "0 < sb_size (fsb s)" "sb_size (fsb s) \<le> disksize s"
    "b \<in> meta s \<Longrightarrow> b < sb_size (fsb s)" "b \<in> meta s \<Longrightarrow> bused s b"
    "b < sb_size (fsb s) \<Longrightarrow> b div BPB + sb_bmapstart (fsb s) \<in> bmap_blocks s"
    "b \<in> bmap_blocks s \<Longrightarrow> b \<in> meta s \<and> b \<notin> log_area s"
    "b \<in> inode_blocks s \<Longrightarrow> b \<in> meta s \<and> b \<notin> log_area s" "sb_of (blk s 1) = fsb s"
    "b \<in> log_area s \<Longrightarrow> b \<in> meta s"
proof -
  show "b div BPB + sb_bmapstart (fsb s) \<in> bmap_blocks s" if "b < sb_size (fsb s)"
    using that by (auto simp: bmap_blocks_def intro: div_le_mono)
qed (use assms in \<open>auto simp: layout_def meta_def\<close>)

lemma bused_cong:
  assumes "fsb s' = fsb s" "\<And>n. n \<in> bmap_blocks s \<Longrightarrow> blk s' n = blk s n" "layout s" "b < sb_size (fsb s)"
  shows "bused s' b = bused s b"
  using assms(2) [OF layoutD(5) [OF assms(3,4)]] assms(1) by (simp add: bused_def)

text \<open>What \<^verbatim>\<open>balloc\<close> promises of the block it returns.\<close>

definition allocated :: "'a fs_scheme \<Rightarrow> nat \<Rightarrow> 'a fs_scheme \<Rightarrow> bool" where
  "allocated s b s' \<longleftrightarrow> b < sb_size (fsb s) \<and> \<not> bused s b \<and> (\<forall>c<b. bused s c) \<and>
     (\<forall>c < sb_size (fsb s). bused s' c = (c = b \<or> bused s c)) \<and> (\<forall>i<BSIZE. blk s' b i = 0) \<and>
     (\<forall>n. n \<notin> bmap_blocks s \<and> n \<noteq> b \<longrightarrow> blk s' n = blk s n) \<and>
     fr s' = fr s \<and> txn s' \<and> own s' = own s \<and>
     dirty s' = dirty s \<union> {b, b div BPB + sb_bmapstart (fsb s)}"

lemma bzero_spec:
  fixes s :: "'a fs_scheme"
  assumes "txn s" "b < disksize s" "b \<notin> held s" "int (card (held s)) \<le> slots s" "b \<notin> log_area s" "0 < slots s"
  shows "wp (bzero 1 b s) (\<lambda>s'. txn s' \<and> blk s' = (blk s)(b := (\<lambda>i. if i < BSIZE then 0 else blk s b i)) \<and>
     dirty s' = insert b (dirty s) \<and> own s' = own s \<and> fr s' = fr s)"
  unfolding bzero_def
  using tx.update [of s b "\<lambda>d i. if i < BSIZE then 0 else d i"] assms by (simp add: held_def)

lemma map_bit:
  assumes "b mod BPB = 0" "bi < BPB"
  shows "(b + bi) div BPB = b div BPB" "(b + bi) mod BPB = bi"
  using assms by (auto simp: div_add1_eq mod_add_eq [symmetric] simp flip: mod_add_left_eq)

lemma bit_set_map:
  fixes d :: bytes
  shows "bit ((d(bi div 8 := set_bit (bi mod 8) (d (bi div 8)))) (c div 8)) (c mod 8) \<longleftrightarrow>
    c = bi \<or> bit (d (c div 8)) (c mod 8)"
    "bit ((d(bi div 8 := unset_bit (bi mod 8) (d (bi div 8)))) (c div 8)) (c mod 8) \<longleftrightarrow>
    c \<noteq> bi \<and> bit (d (c div 8)) (c mod 8)"
proof -
  have e: "c = bi \<longleftrightarrow> c div 8 = bi div 8 \<and> c mod 8 = bi mod 8"
    by (metis div_mult_mod_eq)
  have l: "bi mod 8 < 8" "c mod 8 < 8" by simp_all
  show "bit ((d(bi div 8 := set_bit (bi mod 8) (d (bi div 8)))) (c div 8)) (c mod 8) \<longleftrightarrow>
    c = bi \<or> bit (d (c div 8)) (c mod 8)"
    using e l by (auto simp: bit_simps)
  show "bit ((d(bi div 8 := unset_bit (bi mod 8) (d (bi div 8)))) (c div 8)) (c mod 8) \<longleftrightarrow>
    c \<noteq> bi \<and> bit (d (c div 8)) (c mod 8)"
    using e l by (auto simp: bit_simps)
qed

text \<open>
  Room in the log: for the whole free map, for \<open>k\<close> more blocks, and for the buffers held while they
  are written.
\<close>

definition fits :: "nat \<Rightarrow> 'a fs_scheme \<Rightarrow> bool" where
  "fits k s \<longleftrightarrow> int (card (bmap_blocks s - dirty s)) + int k + int (card (held s)) < slots s"

lemma finite_bmap_blocks [simp]: "finite (bmap_blocks s)"
  by (simp add: bmap_blocks_def)

lemma fitsD:
  assumes "fits k s"
  shows "0 < slots s" "int (card (held s)) \<le> slots s" "int (card {m. \<exists>i. own s i m}) \<le> slots s"
    "int (card (held s)) + 1 \<le> slots s"
  using assms by (simp_all add: fits_def held_def)

lemma fits_step:
  fixes s s' :: "'a fs_scheme"
  assumes t: "txn s" "txn s'" "lg_size s' = lg_size s" "bmap_blocks s' = bmap_blocks s"
    and h: "card (held s') \<le> card (held s) + i"
    and d: "dirty s \<subseteq> dirty s'" "dirty s' \<subseteq> dirty s \<union> bmap_blocks s \<union> X"
    and X: "finite X" "card X \<le> j" and f: "fits (k + i + j) s"
  shows "fits k s'"
proof -
  let ?B = "bmap_blocks s" and ?N = "dirty s' - dirty s"
  have "card (dirty s') = card (dirty s) + card ?N"
    using card_Diff_subset [OF _ d(1)] card_mono [OF _ d(1)] by simp
  moreover have "card ?N \<le> card (?N \<inter> ?B) + card X"
  proof -
    have "(?N \<inter> ?B) \<union> (?N - ?B) = ?N" by blast
    then have "card ?N \<le> card (?N \<inter> ?B) + card (?N - ?B)"
      using card_Un_le [of "?N \<inter> ?B" "?N - ?B"] by (simp only:)
    moreover have "card (?N - ?B) \<le> card X" using d(2) X(1) by (intro card_mono) auto
    ultimately show ?thesis by linarith
  qed
  moreover have "card (?B - dirty s) = card (?B - dirty s') + card (?N \<inter> ?B)"
  proof -
    have "card ((?B - dirty s') \<union> (?N \<inter> ?B)) = card (?B - dirty s') + card (?N \<inter> ?B)"
      by (rule card_Un_disjoint) auto
    moreover have "(?B - dirty s') \<union> (?N \<inter> ?B) = ?B - dirty s" using d(1) by auto
    ultimately show ?thesis by (simp only:)
  qed
  ultimately show ?thesis
    using slots_dirty [OF t(1-3)] f X(2) h unfolding fits_def t(4) by linarith
qed

text \<open>
  What a caller of the allocator provides: buffers it holds are of blocks in use and not of the
  map, and the log has room for a new block.
\<close>

definition alloc_ready :: "'a fs_scheme \<Rightarrow> bool" where
  "alloc_ready s \<longleftrightarrow> txn s \<and> layout s \<and> held s \<inter> bmap_blocks s = {} \<and>
     (\<forall>m\<in>held s. m < sb_size (fsb s) \<longrightarrow> bused s m) \<and> fits 1 s"

text \<open>Marking block \<open>b + bi\<close> in its map block and zeroing it.\<close>

lemma mark_block:
  fixes s s1 :: "'a fs_scheme"
  assumes ready: "alloc_ready s" and b: "b mod BPB = 0" "bi < BPB" "b + bi < sb_size (fsb s)"
    and free: "\<not> bused s (b + bi)" "\<forall>c<b + bi. bused s c"
    and s1: "txn s1" "blk s1 = blk s" "dirty s1 = dirty s" "fr s1 = fr s"
      "\<forall>j m. own s1 j m \<longleftrightarrow> own s j m \<or> j = i \<and> m = b div BPB + sb_bmapstart (fsb s)"
  shows "wp (bnd (log_write i (set_data i
             ((bdata s1 i)(bi div 8 := set_bit (bi mod 8) (bdata s1 i (bi div 8)))) s1)) (\<lambda>s2.
         bnd (brelse i s2) (\<lambda>s3. bnd (bzero 1 (b + bi) s3) (\<lambda>s4. Inr (b + bi, s4)))))
    (\<lambda>(c, s'). allocated s c s')"
proof -
  let ?B = "b div BPB + sb_bmapstart (fsb s)" and ?c = "b + bi"
  let ?d = "(blk s ?B)(bi div 8 := set_bit (bi mod 8) (blk s ?B (bi div 8)))"
  have L: "layout s" and T: "txn s" and R: "fits 1 s"
    and H: "held s \<inter> bmap_blocks s = {}" "\<forall>m\<in>held s. m < sb_size (fsb s) \<longrightarrow> bused s m"
    using ready by (auto simp: alloc_ready_def)
  have dv: "?c div BPB = b div BPB" "?c mod BPB = bi" by (rule map_bit [OF b(1,2)])+
  have B: "?B \<in> bmap_blocks s" "?B \<notin> log_area s" "?B \<notin> held s"
    using layoutD(5) [OF L b(3)] dv(1) layoutD(6) [OF L] H(1) by auto
  have C: "?c \<notin> meta s" "?c \<notin> held s" "?c < disksize s" "?c \<notin> log_area s" "?c \<notin> bmap_blocks s"
  proof -
    show 1: "?c \<notin> meta s" using free(1) layoutD(4) [OF L] by blast
    then show "?c \<notin> log_area s" "?c \<notin> bmap_blocks s" by (simp_all add: meta_def)
    show "?c \<notin> held s" using H(2) b(3) free(1) by blast
    show "?c < disksize s" using b(3) layoutD(2) [OF L] by linarith
  qed
  have o: "own s1 i ?B" using s1(5) by blast
  have d: "bdata s1 i = blk s ?B" using tx.data_law [OF s1(1) o] s1(2) by simp
  have new: "bused s4 x \<longleftrightarrow> x = ?c \<or> bused s x"
    if "blk s4 = (blk s)(?B := ?d, ?c := z)" "fsb s4 = fsb s" "x < sb_size (fsb s)"
    for s4 :: "'a fs_scheme" and x z
  proof -
    let ?X = "x div BPB + sb_bmapstart (fsb s)"
    have "?X \<noteq> ?c" using layoutD(5) [OF L that(3)] C(5) by metis
    then have X: "blk s4 ?X = ((blk s)(?B := ?d)) ?X" by (simp add: that(1))
    show ?thesis
    proof (cases "x div BPB = b div BPB")
      case True
      have "x = ?c \<longleftrightarrow> x mod BPB = bi" using True dv by (metis div_mult_mod_eq)
      then show ?thesis
        using X True bit_set_map(1) [of "blk s ?B" bi "x mod BPB"] by (simp add: bused_def that(2))
    next
      case False
      then have "x \<noteq> ?c" using dv(1) by blast
      then show ?thesis using X False by (simp add: bused_def that(2))
    qed
  qed
  have put: "wp (bnd (log_write i (set_data i ?d s1)) (brelse i))
    (\<lambda>s'. txn s' \<and> blk s' = (blk s)(?B := ?d) \<and> dirty s' = insert ?B (dirty s) \<and> fr s' = fr s \<and> own s' = own s)"
  proof (rule wp_mono [OF tx.put_rel [OF s1(1) o]], goal_cases)
    case (3 s')
    then have o': "\<forall>j m. own s' j m \<longleftrightarrow> own s1 j m \<and> m \<noteq> ?B" by (elim conjE)
    have "own s' = own s"
    proof (intro ext)
      fix j m
      show "own s' j m = own s j m" using o' s1(5) B(3) unfolding held_def by blast
    qed
    with 3 show ?case unfolding s1(2-4) by blast
  next
    case 1
    then show ?case using B(2) fr_fs(4) [OF s1(4)] by simp
  next
    case 2
    then show ?case using fitsD(1) [OF R] tx.slots_same [OF T s1(1,4,3)] by simp
  qed
  show ?thesis
    unfolding d bnd_assoc [symmetric]
  proof (subst wp_bnd, subst wp_bnd, rule wp_mono [OF put], elim conjE)
    fix s3 :: "'a fs_scheme"
    assume s3: "txn s3" "blk s3 = (blk s)(?B := ?d)" "dirty s3 = insert ?B (dirty s)" "fr s3 = fr s" "own s3 = own s"
    then have h: "held s3 = held s" by (simp add: held_def)
    have "fits 1 s3"
    proof (rule fits_step [OF T s3(1) frD(6) [OF s3(4)] fr_fs(7) [OF s3(4)], where X = "{}" and i = 0 and j = 0])
      show "dirty s \<subseteq> dirty s3" "dirty s3 \<subseteq> dirty s \<union> bmap_blocks s \<union> {}" using s3(3) B(1) by auto
    qed (use R h in simp_all)
    note R3 = fitsD [OF this]
    have "wp (bzero 1 ?c s3) (\<lambda>s'. txn s' \<and>
        blk s' = (blk s3)(?c := (\<lambda>i. if i < BSIZE then 0 else blk s3 ?c i)) \<and>
        dirty s' = insert ?c (dirty s3) \<and> own s' = own s3 \<and> fr s' = fr s3)"
      by (rule bzero_spec) (use s3(1) C R3(1,2) h fr_fs(4,5) [OF s3(4)] in simp_all)
    then show "wp (bzero 1 ?c s3) (\<lambda>s4. wp (Inr (?c, s4)) (\<lambda>(c, s'). allocated s c s'))"
    proof (rule wp_mono, elim conjE)
      fix s4 :: "'a fs_scheme"
      assume s4: "txn s4" "blk s4 = (blk s3)(?c := (\<lambda>i. if i < BSIZE then 0 else blk s3 ?c i))"
        "dirty s4 = insert ?c (dirty s3)" "own s4 = own s3" "fr s4 = fr s3"
      have e4: "blk s4 = (blk s)(?B := ?d, ?c := (\<lambda>i. if i < BSIZE then 0 else blk s3 ?c i))"
        using s4(2) s3(2) by (simp only:)
      have f4: "fsb s4 = fsb s" using fr_fs(1) [OF s4(5)] fr_fs(1) [OF s3(4)] by simp
      have "\<forall>c < sb_size (fsb s). bused s4 c = (c = ?c \<or> bused s c)"
        using new [OF e4 f4] by blast
      moreover have "dirty s4 = dirty s \<union> {?c, ?c div BPB + sb_bmapstart (fsb s)}"
        unfolding dv(1) s4(3) s3(3) by auto
      moreover have "\<forall>n. n \<notin> bmap_blocks s \<and> n \<noteq> ?c \<longrightarrow> blk s4 n = blk s n" "\<forall>i<BSIZE. blk s4 ?c i = 0"
        unfolding e4 using B(1) by auto
      moreover have "fr s4 = fr s" "own s4 = own s" using s4 s3 by simp_all
      ultimately have "allocated s ?c s4" unfolding allocated_def using s4(1) b(3) free by (intro conjI)
      then show "wp (Inr (?c, s4)) (\<lambda>(c, s'). allocated s c s')" by simp
    qed
  qed
qed

lemma layout_cong:
  fixes s s' :: "'a fs_scheme"
  assumes "blk s' = blk s" "fr s' = fr s"
  shows "layout s' = layout s" "bused s' = bused s"
proof -
  show b: "bused s' = bused s" by (rule ext) (simp add: bused_def assms(1) fr_fs [OF assms(2)])
  show "layout s' = layout s" by (simp add: layout_def b assms(1) fr_fs [OF assms(2)])
qed

lemma alloc_ready_cong:
  fixes s s' :: "'a fs_scheme"
  assumes "alloc_ready s" "txn s'" "blk s' = blk s" "dirty s' = dirty s" "fr s' = fr s" "own s' = own s"
  shows "alloc_ready s'"
proof -
  have h: "held s' = held s" using assms(6) by (simp add: held_def)
  moreover have "fits 1 s'"
    using assms(1,4) h tx.slots_same [OF _ assms(2,5,4)] fr_fs(7) [OF assms(5)]
    by (simp add: alloc_ready_def fits_def)
  ultimately show ?thesis
    using assms layout_cong [OF assms(3,5)] fr_fs [OF assms(5)] by (simp add: alloc_ready_def)
qed

lemma allocated_cong:
  fixes s s0 :: "'a fs_scheme"
  assumes "allocated s b s'" "blk s = blk s0" "dirty s = dirty s0" "fr s = fr s0" "own s = own s0"
  shows "allocated s0 b s'"
  using assms(1)
  unfolding allocated_def fr_fs(1,7) [OF assms(4)] layout_cong(2) [OF assms(2,4)] assms(2-5) .

text \<open>The bits the inner loop looks at are those of \<open>bused\<close>.\<close>

lemma find_map_bit:
  assumes "b mod BPB = 0"
  shows "find (\<lambda>bi. \<not> bit (blk s (b div BPB + sb_bmapstart (fsb s)) (bi div 8)) (bi mod 8)) [0..<min BPB n] =
    find (\<lambda>bi. \<not> bused s (b + bi)) [0..<min BPB n]"
  by (rule find_cong) (use assms map_bit [OF assms] in \<open>auto simp: bused_def\<close>)

lemma find_upt_Some:
  "find P [0..<n] = Some i \<Longrightarrow> i < n \<and> P i \<and> (\<forall>j<i. \<not> P j)"
  by (auto simp: find_Some_iff)

lemma find_upt_None: "find P [0..<n] = None \<Longrightarrow> j < n \<Longrightarrow> \<not> P j"
  by (auto simp: find_None_iff)

lemma balloc_loop_spec:
  fixes s :: "'a fs_scheme"
  assumes "alloc_ready s" "b mod BPB = 0" "\<forall>c<b. c < sb_size (fsb s) \<longrightarrow> bused s c"
    "sb_size (fsb s) \<le> b + n * BPB" "f < sb_size (fsb s)" "\<not> bused s f"
  shows "wp (balloc_loop 1 n b s) (\<lambda>(c, s'). allocated s c s')"
  using assms
proof (induction n arbitrary: b s)
  case 0
  then show ?case by (metis add.right_neutral less_le_trans mult_zero_left)
next
  case (Suc n)
  let ?B = "b div BPB + sb_bmapstart (fsb s)"
  have A: "txn s" "layout s" "held s \<inter> bmap_blocks s = {}" "fits 1 s"
    using Suc.prems(1) by (auto simp: alloc_ready_def)
  have bs: "b < sb_size (fsb s)" using Suc.prems(3,5,6) by (meson linorder_not_less order.strict_trans2)
  have B: "?B \<in> bmap_blocks s" using layoutD(5) [OF A(2) bs] .
  then have B': "?B < disksize s" "\<forall>i. \<not> own s i ?B" "int (card {m. \<exists>i. own s i m}) \<le> slots s"
    using layoutD(2) [OF A(2)] layoutD(3) [OF A(2)] layoutD(6) [OF A(2)] A(3) fitsD(3) [OF A(4)]
    by (fastforce simp: held_def)+
  show ?case
    unfolding balloc_loop.simps
  proof (subst wp_bnd, rule wp_mono [OF tx.get_law [OF A(1) B']], clarify)
    fix i and s1 :: "'a fs_scheme"
    assume s1: "txn s1" "blk s1 = blk s" "dirty s1 = dirty s" "fr s1 = fr s"
      "\<forall>j m. own s1 j m \<longleftrightarrow> own s j m \<or> j = i \<and> m = ?B"
    have o: "own s1 i ?B" using s1(5) by blast
    have d: "bdata s1 i = blk s ?B" using tx.data_law [OF s1(1) o] s1(2) by simp
    let ?m = "min BPB (sb_size (fsb s) - b)"
    show "wp (case find (\<lambda>bi. \<not> bit (bdata s1 i (bi div 8)) (bi mod 8)) [0..<?m] of
        Some bi \<Rightarrow> bnd (log_write i (set_data i
             ((bdata s1 i)(bi div 8 := set_bit (bi mod 8) (bdata s1 i (bi div 8)))) s1)) (\<lambda>s2.
         bnd (brelse i s2) (\<lambda>s3. bnd (bzero 1 (b + bi) s3) (\<lambda>s4. Inr (b + bi, s4))))
      | None \<Rightarrow> bnd (brelse i s1) (balloc_loop 1 n (b + BPB))) (\<lambda>(c, s'). allocated s c s')"
    proof (cases "find (\<lambda>bi. \<not> bused s (b + bi)) [0..<?m]")
      case None
      have used: "\<forall>c<b + BPB. c < sb_size (fsb s) \<longrightarrow> bused s c"
      proof (intro allI impI)
        fix c assume "c < b + BPB" "c < sb_size (fsb s)"
        then have "b \<le> c \<Longrightarrow> c - b < ?m" by (simp add: less_diff_conv2 diff_less_mono)
        then show "bused s c"
          using Suc.prems(3) find_upt_None [OF None, of "c - b"] \<open>c < sb_size (fsb s)\<close>
          by (cases "c < b") simp_all
      qed
      have "wp (bnd (brelse i s1) (balloc_loop 1 n (b + BPB))) (\<lambda>(c, s'). allocated s c s')"
      proof (subst wp_bnd, rule wp_mono [OF tx.rel_law [OF s1(1) o]], elim conjE)
        fix s2 :: "'a fs_scheme"
        assume s2: "txn s2" "blk s2 = blk s1" "dirty s2 = dirty s1" "fr s2 = fr s1"
          "\<forall>j m. own s2 j m \<longleftrightarrow> own s1 j m \<and> m \<noteq> ?B"
        have e: "blk s2 = blk s" "dirty s2 = dirty s" "fr s2 = fr s" "own s2 = own s"
          using s2 s1 B'(2) by (auto intro!: ext)
        note c = layout_cong [OF e(1,3)] fr_fs(1) [OF e(3)]
        have "wp (balloc_loop 1 n (b + BPB) s2) (\<lambda>(c, s'). allocated s2 c s')"
          using Suc.prems(2,4,5,6) used alloc_ready_cong [OF Suc.prems(1) s2(1) e]
          by (intro Suc.IH) (simp_all add: c)
        then show "wp (balloc_loop 1 n (b + BPB) s2) (\<lambda>(c, s'). allocated s c s')"
          by (rule wp_mono) (use allocated_cong [OF _ e] in auto)
      qed
      then show ?thesis using None find_map_bit [OF Suc.prems(2), of s] by (simp add: d)
    next
      case (Some bi)
      note F = find_upt_Some [OF Some]
      have "\<forall>c<b + bi. bused s c"
      proof (intro allI impI)
        fix c assume "c < b + bi"
        then show "bused s c" using Suc.prems(3) F bs by (cases "c < b") (auto dest: spec [of _ "c - b"])
      qed
      moreover have "bi < BPB" "b + bi < sb_size (fsb s)" "\<not> bused s (b + bi)" using F by auto
      ultimately show ?thesis
        using mark_block [OF Suc.prems(1,2) _ _ _ _ s1, of bi] Some find_map_bit [OF Suc.prems(2), of s]
        by (simp add: d)
    qed
  qed
qed

lemma balloc_allocated:
  fixes s :: "'a fs_scheme"
  assumes "alloc_ready s" "f < sb_size (fsb s)" "\<not> bused s f"
  shows "wp (balloc 1 s) (\<lambda>(b, s'). allocated s b s')"
proof -
  have "sb_size (fsb s) \<le> (sb_size (fsb s) + BPB - 1) div BPB * BPB"
    using div_mult_mod_eq [of "sb_size (fsb s) + BPB - 1" BPB] mod_less_divisor [of BPB "sb_size (fsb s) + BPB - 1"]
    by linarith
  then show ?thesis
    unfolding balloc_def using assms by (intro balloc_loop_spec) auto
qed

lemma allocatedD:
  assumes "allocated s b s'"
  shows "b < sb_size (fsb s)" "\<not> bused s b" "c < sb_size (fsb s) \<Longrightarrow> bused s' c \<longleftrightarrow> c = b \<or> bused s c"
    "i < BSIZE \<Longrightarrow> blk s' b i = 0" "n \<notin> bmap_blocks s \<Longrightarrow> n \<noteq> b \<Longrightarrow> blk s' n = blk s n"
    "fr s' = fr s" "txn s'" "own s' = own s" "dirty s' = dirty s \<union> {b, b div BPB + sb_bmapstart (fsb s)}"
    "held s' = held s"
  using assms by (auto simp: allocated_def held_def)

lemma allocated_layout:
  fixes s s' :: "'a fs_scheme"
  assumes "layout s" "allocated s b s'"
  shows "layout s'" "b \<notin> meta s" "b \<noteq> 0"
proof -
  note A = allocatedD [OF assms(2)] and L = layoutD [OF assms(1)]
  show b: "b \<notin> meta s" using A(2) L(4) by blast
  then show "b \<noteq> 0" by (auto simp: meta_def)
  have "1 \<notin> bmap_blocks s" "1 \<noteq> b" using assms(1) b by (auto simp: layout_def meta_def)
  then have "sb_of (blk s' 1) = fsb s" using A(5) L(8) by simp
  then show "layout s'"
    using assms(1) A(3) fr_fs [OF A(6)] by (auto simp: layout_def)
qed

text \<open>
  C6. \<^verbatim>\<open>balloc\<close> inside a transaction, on a file system with a free block: it returns the lowest free
  block, marks exactly that one in use, zeroes it, changes no block but it and the free map,
  writes nothing to the disk, logs at most two blocks, and keeps the layout.
\<close>

theorem balloc_correct:
  fixes s :: "'a fs_scheme"
  assumes "alloc_ready s" "\<exists>f < sb_size (fsb s). \<not> bused s f"
  shows "wp (balloc 1 s) (\<lambda>(b, s'). b < sb_size (fsb s) \<and> \<not> bused s b \<and> (\<forall>c<b. bused s c) \<and> b \<notin> meta s \<and>
     (\<forall>c < sb_size (fsb s). bused s' c \<longleftrightarrow> c = b \<or> bused s c) \<and> (\<forall>i<BSIZE. blk s' b i = 0) \<and>
     (\<forall>n. n \<notin> bmap_blocks s \<and> n \<noteq> b \<longrightarrow> blk s' n = blk s n) \<and> memdisk s' = memdisk s \<and>
     card (dirty s') \<le> card (dirty s) + 2 \<and> held s' = held s \<and> txn s' \<and> layout s')"
proof -
  have L: "layout s" using assms(1) by (simp add: alloc_ready_def)
  obtain f where f: "f < sb_size (fsb s)" "\<not> bused s f" using assms(2) by blast
  show ?thesis
  proof (rule wp_mono [OF balloc_allocated [OF assms(1) f]], clarify)
    fix b s'
    assume a: "allocated s b s'"
    note A = allocatedD [OF a] and AL = allocated_layout [OF L a]
    have "\<forall>c<b. bused s c" using a by (simp add: allocated_def)
    then show "b < sb_size (fsb s) \<and> \<not> bused s b \<and> (\<forall>c<b. bused s c) \<and> b \<notin> meta s \<and>
     (\<forall>c < sb_size (fsb s). bused s' c \<longleftrightarrow> c = b \<or> bused s c) \<and> (\<forall>i<BSIZE. blk s' b i = 0) \<and>
     (\<forall>n. n \<notin> bmap_blocks s \<and> n \<noteq> b \<longrightarrow> blk s' n = blk s n) \<and> memdisk s' = memdisk s \<and>
     card (dirty s') \<le> card (dirty s) + 2 \<and> held s' = held s \<and> txn s' \<and> layout s'"
      using A AL fr_fs(6) [OF A(6)] by (simp add: card_insert_if)
  qed
qed

section \<open>Freeing a block\<close>

text \<open>What \<^verbatim>\<open>bfree\<close> promises.\<close>

definition freed :: "'a fs_scheme \<Rightarrow> nat \<Rightarrow> 'a fs_scheme \<Rightarrow> bool" where
  "freed s b s' \<longleftrightarrow> (\<forall>c < sb_size (fsb s). bused s' c \<longleftrightarrow> c \<noteq> b \<and> bused s c) \<and>
     (\<forall>n. n \<notin> bmap_blocks s \<longrightarrow> blk s' n = blk s n) \<and>
     fr s' = fr s \<and> txn s' \<and> own s' = own s \<and>
     dirty s' = insert (b div BPB + sb_bmapstart (fsb s)) (dirty s)"

lemma readsb_txn:
  fixes s :: "'a fs_scheme"
  assumes "txn s" "1 < disksize s" "1 \<notin> held s" "int (card (held s)) \<le> slots s"
  shows "wp (readsb 1 s) (\<lambda>(sb, s'). sb = sb_of (blk s 1) \<and> txn s' \<and> blk s' = blk s \<and>
     dirty s' = dirty s \<and> own s' = own s \<and> fr s' = fr s)"
proof -
  have eq: "readsb 1 s = bnd (bnd (bread 1 1 s) (\<lambda>(i, s1). bnd (brelse i s1)
      (\<lambda>s2. Inr (bdata s1 i, s2)))) (\<lambda>(d, s). Inr (sb_of d, s))"
    by (simp add: readsb_def bnd_assoc split_def)
  show ?thesis
    unfolding eq
    by (subst wp_bnd, rule wp_mono [OF tx.peek]) (use assms in \<open>auto simp: held_def\<close>)
qed

lemma bused_unset:
  fixes s s' :: "'a fs_scheme"
  assumes "fsb s' = fsb s" "B = b div BPB + sb_bmapstart (fsb s)"
    "blk s' = (blk s)(B := (blk s B)(b mod BPB div 8 :=
       unset_bit (b mod BPB mod 8) (blk s B (b mod BPB div 8))))"
  shows "bused s' c \<longleftrightarrow> c \<noteq> b \<and> bused s c"
proof (cases "c div BPB = b div BPB")
  case True
  then have "c = b \<longleftrightarrow> c mod BPB = b mod BPB" by (metis div_mult_mod_eq)
  then show ?thesis
    using assms True bit_set_map(2) [of "blk s B" "b mod BPB" "c mod BPB"] by (simp add: bused_def)
next
  case False
  then show ?thesis using assms by (auto simp: bused_def)
qed

lemma bfree_freed:
  fixes s :: "'a fs_scheme"
  assumes T: "txn s" and L: "layout s" and H: "held s \<inter> bmap_blocks s = {}" "1 \<notin> held s"
    and R: "fits k s"
    and b: "b < sb_size (fsb s)" "bused s b"
  shows "wp (bfree 1 b s) (\<lambda>s'. freed s b s')"
proof -
  let ?B = "b div BPB + sb_bmapstart (fsb s)" and ?bi = "b mod BPB"
  let ?f = "\<lambda>d::bytes. d(?bi div 8 := unset_bit (?bi mod 8) (d (?bi div 8)))"
  have B: "?B \<in> bmap_blocks s" using layoutD(5) [OF L b(1)] .
  then have B': "?B < disksize s" "?B \<notin> log_area s" "?B \<notin> held s"
    using layoutD(2) [OF L] layoutD(3) [OF L, of ?B] layoutD(6) [OF L B] H(1) by auto
  have one: "1 < disksize s" using layoutD(2) [OF L] layoutD(3) [OF L, of 1] by (simp add: meta_def)
  show ?thesis
    unfolding bfree_def
  proof (subst wp_bnd, rule wp_mono [OF readsb_txn [OF T one H(2) fitsD(2) [OF R]]], clarify)
    fix s0 :: "'a fs_scheme"
    assume s0: "txn s0" "blk s0 = blk s" "dirty s0 = dirty s" "own s0 = own s" "fr s0 = fr s"
    note sl = tx.slots_same [OF T s0(1,5,3)]
    have e: "s0\<lparr>fsb := sb_of (blk s 1)\<rparr> = s0" using layoutD(8) [OF L] fr_fs(1) [OF s0(5)] by simp
    have h: "held s0 = held s" using s0(4) by (simp add: held_def)
    have f: "fsb s0 = fsb s" "disksize s0 = disksize s" "log_area s0 = log_area s" using fr_fs [OF s0(5)] by simp_all
    have g: "?B < disksize s0" "\<forall>i. \<not> own s0 i ?B" "int (card {m. \<exists>i. own s0 i m}) \<le> slots s0"
      using B' fitsD(3) [OF R] s0 f h sl by (auto simp: held_def)
    show "wp (let s0 = s0\<lparr>fsb := sb_of (blk s 1)\<rparr> in
       bnd (bread 1 (b div BPB + sb_bmapstart (fsb s0)) s0) (\<lambda>(bp, s1). let bi = b mod BPB in
         if \<not> bit (bdata s1 bp (bi div 8)) (bi mod 8) then Inl (Panic ''freeing free block'')
         else bnd (log_write bp (set_data bp
                 ((bdata s1 bp)(bi div 8 := unset_bit (bi mod 8) (bdata s1 bp (bi div 8)))) s1))
            (brelse bp))) (freed s b)"
      unfolding e Let_def f
    proof (subst wp_bnd, rule wp_mono [OF tx.get_law [OF s0(1) g]], clarify)
      fix i and s1 :: "'a fs_scheme"
      assume s1: "txn s1" "blk s1 = blk s0" "dirty s1 = dirty s0" "fr s1 = fr s0"
        "\<forall>j m. own s1 j m \<longleftrightarrow> own s0 j m \<or> j = i \<and> m = ?B"
      have o: "own s1 i ?B" using s1(5) by blast
      have d: "bdata s1 i = blk s ?B" using tx.data_law [OF s1(1) o] s1(2) s0(2) by simp
      have bit: "bit (blk s ?B (?bi div 8)) (?bi mod 8)" using b(2) by (simp add: bused_def)
      have a: "?B \<notin> log_area s1" "0 < slots s1" 
        using B'(2) fr_fs(4) [OF s1(4)] f fitsD(1) [OF R] sl tx.slots_same [OF s0(1) s1(1,4,3)] by simp_all
      have "wp (bnd (log_write i (set_data i (?f (blk s ?B)) s1)) (brelse i)) (freed s b)"
      proof (rule wp_mono [OF tx.put_rel [OF s1(1) o a]], elim conjE)
        fix s' :: "'a fs_scheme"
        assume s': "txn s'" "blk s' = (blk s1)(?B := ?f (blk s ?B))" "dirty s' = insert ?B (dirty s1)"
          "fr s' = fr s1" "\<forall>j m. own s' j m \<longleftrightarrow> own s1 j m \<and> m \<noteq> ?B"
        have "own s' = own s" using s'(5) s1(5) s0(4) g(2) by (auto intro!: ext)
        moreover have "bused s' c \<longleftrightarrow> c \<noteq> b \<and> bused s c" for c
          using f(1) fr_fs(1) [OF s'(4)] fr_fs(1) [OF s1(4)] s'(2) s1(2) s0(2)
          by (intro bused_unset [where B = ?B]) simp_all
        ultimately show "freed s b s'"
          using s' s1 s0 B by (auto simp: freed_def)
      qed
      then show "wp (if \<not> bit (bdata s1 i (b mod BPB div 8)) (b mod BPB mod 8) then Inl (Panic ''freeing free block'')
         else bnd (log_write i (set_data i
                 ((bdata s1 i)(b mod BPB div 8 := unset_bit (b mod BPB mod 8) (bdata s1 i (b mod BPB div 8)))) s1))
            (brelse i)) (freed s b)"
        unfolding d using bit by simp
    qed
  qed
qed

section \<open>A concrete file system\<close>

text \<open>
  100 blocks: log from 2, inode blocks from 32, free map in 35, blocks from 36 on free; a
  transaction has begun and has logged nothing.
\<close>

definition ex_sblk :: superblock where
  "ex_sblk = \<lparr>sb_size = 100, sb_nblocks = 64, sb_ninodes = 16, sb_nlog = 30, sb_logstart = 2,
     sb_inodestart = 32, sb_bmapstart = 35\<rparr>"

definition ex_map :: bytes where
  "ex_map i = (if i < 4 then 255 else if i = 4 then 15 else 0)"

definition ex_sb_bytes :: bytes where
  "ex_sb_bytes = put32 (put32 (put32 (put32 (put32 (put32 (put32 (\<lambda>_. 0) 0 100) 4 64) 8 16) 12 30) 16 2) 20 32) 24 35"

definition ex_fdisk :: "nat \<Rightarrow> bytes" where
  "ex_fdisk n = (if n = 1 then ex_sb_bytes else if n = 35 then ex_map else (\<lambda>_. 0))"

definition ex_inode :: inode where
  "ex_inode = \<lparr>ip_dev = 0, ip_inum = 0, ip_ref = 0, ip_lock = initsleeplock, ip_valid = False, ip_type = 0,
     ip_major = 0, ip_minor = 0, ip_nlink = 0, ip_size = 0, ip_addrs = (\<lambda>_. 0)\<rparr>"

definition ex_fs :: fs where
  "ex_fs = \<lparr>bufs = (\<lambda>_. zero_buf), lru = [0..<30], memdisk = ex_fdisk, disksize = 100,
     wtrace = [], cpid = 1, lg_start = 2, lg_size = 30, lg_outstanding = 1, lg_committing = False,
     lg_dev = 1, lh_n = 0, lh_block = (\<lambda>_. 0), fsb = ex_sblk, icache = (\<lambda>_. ex_inode)\<rparr>"

lemma ex_fs_simps [simp]:
  "memdisk ex_fs = ex_fdisk" "disksize ex_fs = 100" "lg_start ex_fs = 2" "lg_size ex_fs = 30"
  "lg_outstanding ex_fs = 1" "\<not> lg_committing ex_fs" "lh_n ex_fs = 0" "fsb ex_fs = ex_sblk" "lg_dev ex_fs = 1"
  "icache ex_fs = (\<lambda>_. ex_inode)" "cpid ex_fs = 1"
  by (simp_all add: ex_fs_def)

lemma ex_fs_calm: "calm ex_fs" "\<not> own ex_fs i m" "dirty ex_fs = {}" "blk ex_fs = ex_fdisk" "held ex_fs = {}"
proof -
  have b: "bufs ex_fs = (\<lambda>_. zero_buf)" and l: "lru ex_fs = [0..<30]" by (simp_all add: ex_fs_def)
  have c: "\<not> caches ex_fs n i" for n i by (simp add: caches_def b zero_buf_def)
  have i: "bio_inv ex_fs"
    unfolding bio_inv_def l using c by (auto simp: b buf_ok_def zero_buf_def simp del: upt_rec_numeral)
  show "calm ex_fs" unfolding calm_def using i by (simp add: b zero_buf_def)
  show o: "\<not> own ex_fs i m" for i m by (simp add: own_def c)
  show "dirty ex_fs = {}" by (simp add: dirty_def c)
  show "blk ex_fs = ex_fdisk" using blk_uncached [OF i] c by auto
  show "held ex_fs = {}" by (simp add: held_def o)
qed

lemma ex_fs_txn: "log_inv ex_fs" "txn ex_fs" "slots ex_fs = 29"
  by (simp_all add: log_inv_def txn_def slots_def ex_fs_calm)

lemma ex_fs_blocks:
  "bmap_blocks ex_fs = {35}" "inode_blocks ex_fs = {32..34}" "log_area ex_fs = {2..<32}"
  by (auto simp: bmap_blocks_def inode_blocks_def log_area_def ex_sblk_def)

lemma ex_map_bits: "\<forall>b\<in>set [0..<36]. bit (ex_map (b div 8)) (b mod 8)" "\<not> bit (ex_map 4) 4"
  by code_simp+

lemma ex_bused: "b < 36 \<Longrightarrow> bused ex_fs b" "\<not> bused ex_fs 36"
  using ex_map_bits by (simp_all add: bused_def ex_fs_calm ex_sblk_def ex_fdisk_def)

lemma ex_sb_of: "sb_of ex_sb_bytes = ex_sblk"
  by (simp add: sb_of_def ex_sb_bytes_def ex_sblk_def get32_put32_other)

lemma ex_fs_ready: "layout ex_fs" "alloc_ready ex_fs"
proof -
  show l: "layout ex_fs"
    using ex_bused(1)
    by (auto simp: layout_def meta_def ex_fs_blocks ex_fs_calm ex_fdisk_def ex_sb_of) (auto simp: ex_sblk_def)
  show "alloc_ready ex_fs"
    using l by (simp add: alloc_ready_def ex_fs_txn ex_fs_calm fits_def ex_fs_blocks)
qed

theorem balloc_correct_witness:
  "wp (balloc 1 ex_fs) (\<lambda>(b, s'). b = 36 \<and> bused s' 36 \<and> \<not> bused ex_fs 36)"
proof -
  have s: "sb_size (fsb ex_fs) = 100" by (simp add: ex_sblk_def)
  then have "\<exists>f < sb_size (fsb ex_fs). \<not> bused ex_fs f" using ex_bused(2) by (intro exI [of _ 36]) simp
  from balloc_correct [OF ex_fs_ready(2) this] show ?thesis
  proof (rule wp_mono, clarify)
    fix b and s' :: fs
    assume *: "\<not> bused ex_fs b" "\<forall>c<b. bused ex_fs c"
      "\<forall>c < sb_size (fsb ex_fs). bused s' c \<longleftrightarrow> c = b \<or> bused ex_fs c"
    have "b = 36" using * ex_bused by (metis linorder_neqE_nat)
    then show "b = 36 \<and> bused s' 36 \<and> \<not> bused ex_fs 36" using * s by simp
  qed
qed

end
