(* ===== verification/Fs_Inode.thy ===== *)
theory Fs_Inode
  imports Fs_Block
begin

text \<open>
  Inodes (\<^verbatim>\<open>fs.c\<close>): the disk layout of an inode, the inode cache, and the block map of a file.
\<close>

section \<open>Inodes on the disk\<close>

text \<open>
  \<^verbatim>\<open>struct dinode\<close> is 64 bytes: four shorts, the size, and \<^verbatim>\<open>NDIRECT+1\<close> block addresses.
\<close>

definition IBLOCK :: "nat \<Rightarrow> superblock \<Rightarrow> nat" where
  "IBLOCK i sb = i div IPB + sb_inodestart sb"

definition dip_off :: "nat \<Rightarrow> nat" where
  "dip_off inum = inum mod IPB * 64"

primrec put_addrs :: "bytes \<Rightarrow> nat \<Rightarrow> nat \<Rightarrow> (nat \<Rightarrow> u32) \<Rightarrow> bytes" where
  "put_addrs d p 0 a = d"
| "put_addrs d p (Suc i) a = put32 (put_addrs d p i a) (p + 4 * i) (a i)"

definition put_dinode :: "inode \<Rightarrow> nat \<Rightarrow> bytes \<Rightarrow> bytes" where
  "put_dinode ip p d =
     put_addrs (put32 (put16 (put16 (put16 (put16 d p (ip_type ip)) (p + 2) (ip_major ip))
       (p + 4) (ip_minor ip)) (p + 6) (ip_nlink ip)) (p + 8) (ip_size ip)) (p + 12) (NDIRECT + 1) (ip_addrs ip)"

definition get_dinode :: "bytes \<Rightarrow> nat \<Rightarrow> inode \<Rightarrow> inode" where
  "get_dinode d p ip = ip\<lparr>ip_type := get16 d p, ip_major := get16 d (p + 2), ip_minor := get16 d (p + 4),
     ip_nlink := get16 d (p + 6), ip_size := get32 d (p + 8),
     ip_addrs := (\<lambda>i. if i \<le> NDIRECT then get32 d (p + 12 + 4 * i) else ip_addrs ip i)\<rparr>"

section \<open>Operations\<close>

definition upd_inode :: "nat \<Rightarrow> (inode \<Rightarrow> inode) \<Rightarrow> 'a fs_scheme \<Rightarrow> 'a fs_scheme" where
  "upd_inode ip f s = s\<lparr>icache := (icache s)(ip := f (icache s ip))\<rparr>"

definition iinit :: "nat \<Rightarrow> 'a fs_scheme \<Rightarrow> 'a fs_scheme res" where
  "iinit dev s =
     bnd (readsb dev (fold (\<lambda>i. upd_inode i (\<lambda>x. x\<lparr>ip_lock := initsleeplock\<rparr>)) [0..<NINODE] s))
       (\<lambda>(sb, s). Inr (s\<lparr>fsb := sb\<rparr>))"

definition iget :: "nat \<Rightarrow> nat \<Rightarrow> 'a fs_scheme \<Rightarrow> (nat \<times> 'a fs_scheme) res" where
  "iget dev inum s =
     (case find (\<lambda>i. ip_ref (icache s i) > 0 \<and> ip_dev (icache s i) = dev \<and> ip_inum (icache s i) = inum)
             [0..<NINODE] of
        Some ip \<Rightarrow> Inr (ip, upd_inode ip (\<lambda>x. x\<lparr>ip_ref := ip_ref x + 1\<rparr>) s)
      | None \<Rightarrow>
          (case find (\<lambda>i. ip_ref (icache s i) = 0) [0..<NINODE] of
             Some ip \<Rightarrow> Inr (ip, upd_inode ip
               (\<lambda>x. x\<lparr>ip_dev := dev, ip_inum := inum, ip_ref := 1, ip_valid := False\<rparr>) s)
           | None \<Rightarrow> Inl (Panic ''iget: no inodes'')))"

definition zero_range :: "nat \<Rightarrow> nat \<Rightarrow> bytes \<Rightarrow> bytes" where
  "zero_range p n d = (\<lambda>i. if p \<le> i \<and> i < p + n then 0 else d i)"

text \<open>\<open>ialloc_loop dev type n inum\<close>: the last \<open>n\<close> rounds of the loop of \<^verbatim>\<open>ialloc\<close>.\<close>

primrec ialloc_loop :: "nat \<Rightarrow> u16 \<Rightarrow> nat \<Rightarrow> nat \<Rightarrow> 'a fs_scheme \<Rightarrow> (nat \<times> 'a fs_scheme) res" where
  "ialloc_loop dev ty 0 inum s = Inl (Panic ''ialloc: no inodes'')"
| "ialloc_loop dev ty (Suc n) inum s =
     bnd (bread dev (IBLOCK inum (fsb s)) s) (\<lambda>(bp, s1).
     if get16 (bdata s1 bp) (dip_off inum) = 0 then
       bnd (log_write bp (set_data bp
              (put16 (zero_range (dip_off inum) 64 (bdata s1 bp)) (dip_off inum) ty) s1)) (\<lambda>s2.
       bnd (brelse bp s2) (iget dev inum))
     else bnd (brelse bp s1) (ialloc_loop dev ty n (inum + 1)))"

definition ialloc :: "nat \<Rightarrow> u16 \<Rightarrow> 'a fs_scheme \<Rightarrow> (nat \<times> 'a fs_scheme) res" where
  "ialloc dev ty s = ialloc_loop dev ty (sb_ninodes (fsb s) - 1) 1 s"

definition iupdate :: "nat \<Rightarrow> 'a fs_scheme \<Rightarrow> 'a fs_scheme res" where
  "iupdate ip s =
     bnd (bread (ip_dev (icache s ip)) (IBLOCK (ip_inum (icache s ip)) (fsb s)) s) (\<lambda>(bp, s1).
     bnd (log_write bp (set_data bp
            (put_dinode (icache s ip) (dip_off (ip_inum (icache s ip))) (bdata s1 bp)) s1))
       (brelse bp))"

definition idup :: "nat \<Rightarrow> 'a fs_scheme \<Rightarrow> nat \<times> 'a fs_scheme" where
  "idup ip s = (ip, upd_inode ip (\<lambda>x. x\<lparr>ip_ref := ip_ref x + 1\<rparr>) s)"

definition ilock :: "nat \<Rightarrow> 'a fs_scheme \<Rightarrow> 'a fs_scheme res" where
  "ilock ip s =
     (if ip_ref (icache s ip) < 1 then Inl (Panic ''ilock'')
      else bnd (acquiresleep (cpid s) (ip_lock (icache s ip))) (\<lambda>lk.
        let s1 = upd_inode ip (\<lambda>x. x\<lparr>ip_lock := lk\<rparr>) s in
        if \<not> ip_valid (icache s1 ip) then
          bnd (bread (ip_dev (icache s1 ip)) (IBLOCK (ip_inum (icache s1 ip)) (fsb s1)) s1) (\<lambda>(bp, s2).
          let s3 = upd_inode ip (get_dinode (bdata s2 bp) (dip_off (ip_inum (icache s2 ip)))) s2 in
          bnd (brelse bp s3) (\<lambda>s4.
          let s5 = upd_inode ip (\<lambda>x. x\<lparr>ip_valid := True\<rparr>) s4 in
          if ip_type (icache s5 ip) = 0 then Inl (Panic ''ilock: no type'') else Inr s5))
        else Inr s1))"

definition iunlock :: "nat \<Rightarrow> 'a fs_scheme \<Rightarrow> 'a fs_scheme res" where
  "iunlock ip s =
     (if \<not> holdingsleep (ip_lock (icache s ip)) \<or> ip_ref (icache s ip) < 1 then Inl (Panic ''iunlock'')
      else Inr (upd_inode ip (\<lambda>x. x\<lparr>ip_lock := releasesleep (ip_lock x)\<rparr>) s))"

definition bmap :: "nat \<Rightarrow> nat \<Rightarrow> 'a fs_scheme \<Rightarrow> (nat \<times> 'a fs_scheme) res" where
  "bmap ip bn s =
     (if bn < NDIRECT then
        if ip_addrs (icache s ip) bn = 0 then
          bnd (balloc (ip_dev (icache s ip)) s) (\<lambda>(addr, s).
          Inr (addr, upd_inode ip (\<lambda>x. x\<lparr>ip_addrs := (ip_addrs x)(bn := of_nat addr)\<rparr>) s))
        else Inr (unat (ip_addrs (icache s ip) bn), s)
      else let bn = bn - NDIRECT in
      if bn < NINDIRECT then
        bnd (if ip_addrs (icache s ip) NDIRECT = 0 then
               bnd (balloc (ip_dev (icache s ip)) s) (\<lambda>(addr, s).
               Inr (addr, upd_inode ip (\<lambda>x. x\<lparr>ip_addrs := (ip_addrs x)(NDIRECT := of_nat addr)\<rparr>) s))
             else Inr (unat (ip_addrs (icache s ip) NDIRECT), s)) (\<lambda>(addr, s).
        bnd (bread (ip_dev (icache s ip)) addr s) (\<lambda>(bp, s1).
        if get32 (bdata s1 bp) (4 * bn) = 0 then
          bnd (balloc (ip_dev (icache s1 ip)) s1) (\<lambda>(addr, s2).
          bnd (log_write bp (set_data bp (put32 (bdata s2 bp) (4 * bn) (of_nat addr)) s2)) (\<lambda>s3.
          bnd (brelse bp s3) (\<lambda>s4. Inr (addr, s4))))
        else
          bnd (brelse bp s1) (\<lambda>s2. Inr (unat (get32 (bdata s1 bp) (4 * bn)), s2))))
      else Inl (Panic ''bmap: out of range''))"

text \<open>\<open>free_direct k\<close>, \<open>free_indirect bp k\<close>: the first \<open>k\<close> rounds of the two loops of \<^verbatim>\<open>itrunc\<close>.\<close>

primrec free_direct :: "nat \<Rightarrow> nat \<Rightarrow> 'a fs_scheme \<Rightarrow> 'a fs_scheme res" where
  "free_direct ip 0 s = Inr s"
| "free_direct ip (Suc i) s =
     bnd (free_direct ip i s) (\<lambda>s.
     if ip_addrs (icache s ip) i \<noteq> 0 then
       bnd (bfree (ip_dev (icache s ip)) (unat (ip_addrs (icache s ip) i)) s) (\<lambda>s.
       Inr (upd_inode ip (\<lambda>x. x\<lparr>ip_addrs := (ip_addrs x)(i := 0)\<rparr>) s))
     else Inr s)"

primrec free_indirect :: "nat \<Rightarrow> nat \<Rightarrow> nat \<Rightarrow> 'a fs_scheme \<Rightarrow> 'a fs_scheme res" where
  "free_indirect ip bp 0 s = Inr s"
| "free_indirect ip bp (Suc j) s =
     bnd (free_indirect ip bp j s) (\<lambda>s.
     if get32 (bdata s bp) (4 * j) \<noteq> 0 then
       bfree (ip_dev (icache s ip)) (unat (get32 (bdata s bp) (4 * j))) s
     else Inr s)"

definition itrunc :: "nat \<Rightarrow> 'a fs_scheme \<Rightarrow> 'a fs_scheme res" where
  "itrunc ip s =
     bnd (free_direct ip NDIRECT s) (\<lambda>s.
     bnd (if ip_addrs (icache s ip) NDIRECT \<noteq> 0 then
            bnd (bread (ip_dev (icache s ip)) (unat (ip_addrs (icache s ip) NDIRECT)) s) (\<lambda>(bp, s).
            bnd (free_indirect ip bp NINDIRECT s) (\<lambda>s.
            bnd (brelse bp s) (\<lambda>s.
            bnd (bfree (ip_dev (icache s ip)) (unat (ip_addrs (icache s ip) NDIRECT)) s) (\<lambda>s.
            Inr (upd_inode ip (\<lambda>x. x\<lparr>ip_addrs := (ip_addrs x)(NDIRECT := 0)\<rparr>) s)))))
          else Inr s) (\<lambda>s.
     iupdate ip (upd_inode ip (\<lambda>x. x\<lparr>ip_size := 0\<rparr>) s)))"

definition iput :: "nat \<Rightarrow> 'a fs_scheme \<Rightarrow> 'a fs_scheme res" where
  "iput ip s =
     bnd (acquiresleep (cpid s) (ip_lock (icache s ip))) (\<lambda>lk.
     let s1 = upd_inode ip (\<lambda>x. x\<lparr>ip_lock := lk\<rparr>) s in
     bnd (if ip_valid (icache s1 ip) \<and> ip_nlink (icache s1 ip) = 0 \<and> ip_ref (icache s1 ip) = 1 then
            bnd (itrunc ip s1) (\<lambda>s2.
            bnd (iupdate ip (upd_inode ip (\<lambda>x. x\<lparr>ip_type := 0\<rparr>) s2)) (\<lambda>s3.
            Inr (upd_inode ip (\<lambda>x. x\<lparr>ip_valid := False\<rparr>) s3)))
          else Inr s1) (\<lambda>s4.
     Inr (upd_inode ip (\<lambda>x. x\<lparr>ip_lock := releasesleep (ip_lock x), ip_ref := ip_ref x - 1\<rparr>) s4)))"

definition iunlockput :: "nat \<Rightarrow> 'a fs_scheme \<Rightarrow> 'a fs_scheme res" where
  "iunlockput ip s = bnd (iunlock ip s) (iput ip)"

section \<open>The disk layout of an inode\<close>

lemma put_addrs_other: "i < p \<or> p + 4 * n \<le> i \<Longrightarrow> put_addrs d p n a i = d i"
  by (induction n) (auto simp: put32_other)

lemma get32_put_addrs: "k < n \<Longrightarrow> get32 (put_addrs d p n a) (p + 4 * k) = a k"
proof (induction n)
  case (Suc n)
  then show ?case by (cases "k = n") (simp_all add: get32_put32_other)
qed simp

lemma get_put_addrs_other:
  "b + 2 \<le> p \<Longrightarrow> get16 (put_addrs d p n a) b = get16 d b"
  "b + 4 \<le> p \<Longrightarrow> get32 (put_addrs d p n a) b = get32 d b"
  by (simp_all add: get16_def get32_def put_addrs_other)

lemma put_dinode_other: "i < p \<or> p + 64 \<le> i \<Longrightarrow> put_dinode ip p d i = d i"
  unfolding put_dinode_def by (auto simp: put_addrs_other put32_other put16_other)

lemma get_put_dinode:
  "get16 (put_dinode ip p d) p = ip_type ip" "get16 (put_dinode ip p d) (p + 2) = ip_major ip"
  "get16 (put_dinode ip p d) (p + 4) = ip_minor ip" "get16 (put_dinode ip p d) (p + 6) = ip_nlink ip"
  "get32 (put_dinode ip p d) (p + 8) = ip_size ip"
  "i \<le> NDIRECT \<Longrightarrow> get32 (put_dinode ip p d) (p + 12 + 4 * i) = ip_addrs ip i"
proof -
  show "i \<le> NDIRECT \<Longrightarrow> get32 (put_dinode ip p d) (p + 12 + 4 * i) = ip_addrs ip i"
    unfolding put_dinode_def by (rule get32_put_addrs) simp
qed (simp_all add: put_dinode_def get_put_addrs_other get16_put32_other get16_put16_other)

text \<open>Two inodes of a block lie in different 64-byte slots.\<close>

lemma dip_off_apart:
  assumes "i div IPB = j div IPB" "i \<noteq> j"
  shows "dip_off i + 64 \<le> dip_off j \<or> dip_off j + 64 \<le> dip_off i"
proof -
  have "i mod IPB \<noteq> j mod IPB" using assms by (metis div_mult_mod_eq)
  then show ?thesis unfolding dip_off_def by (cases "i mod IPB < j mod IPB") auto
qed

lemma dip_off_le: "dip_off i + 64 \<le> BSIZE"
  using mod_less_divisor [of IPB i] by (simp add: dip_off_def)

lemma get_dinode_cong:
  assumes "\<And>i. p \<le> i \<Longrightarrow> i < p + 64 \<Longrightarrow> d' i = d i"
  shows "get_dinode d' p = get_dinode d p"
proof (rule ext)
  fix ip :: inode
  have "get16 d' p = get16 d p" "get16 d' (p + 2) = get16 d (p + 2)" "get16 d' (p + 4) = get16 d (p + 4)"
    "get16 d' (p + 6) = get16 d (p + 6)" "get32 d' (p + 8) = get32 d (p + 8)"
    using assms by (simp_all add: get16_def get32_def)
  moreover have "(\<lambda>i. if i \<le> NDIRECT then get32 d' (p + 12 + 4 * i) else ip_addrs ip i) =
      (\<lambda>i. if i \<le> NDIRECT then get32 d (p + 12 + 4 * i) else ip_addrs ip i)"
    using assms by (simp add: get32_def fun_eq_iff)
  ultimately show "get_dinode d' p ip = get_dinode d p ip"
    by (simp only: get_dinode_def)
qed

section \<open>Inode cache updates\<close>

lemma upd_inode_view [simp]:
  "bufs (upd_inode ip f s) = bufs s" "lru (upd_inode ip f s) = lru s"
  "memdisk (upd_inode ip f s) = memdisk s" "disksize (upd_inode ip f s) = disksize s"
  "wtrace (upd_inode ip f s) = wtrace s" "cpid (upd_inode ip f s) = cpid s"
  "lg_start (upd_inode ip f s) = lg_start s" "lg_size (upd_inode ip f s) = lg_size s"
  "lg_outstanding (upd_inode ip f s) = lg_outstanding s"
  "lg_committing (upd_inode ip f s) = lg_committing s" "lg_dev (upd_inode ip f s) = lg_dev s"
  "lh_n (upd_inode ip f s) = lh_n s" "lh_block (upd_inode ip f s) = lh_block s"
  "fsb (upd_inode ip f s) = fsb s" "fs.more (upd_inode ip f s) = fs.more s"
  "icache (upd_inode ip f s) = (icache s)(ip := f (icache s ip))"
  by (simp_all add: upd_inode_def)

lemma upd_inode_txn [simp]:
  "calm (upd_inode ip f s) = calm s" "blk (upd_inode ip f s) = blk s" "own (upd_inode ip f s) = own s"
  "dirty (upd_inode ip f s) = dirty s" "log_area (upd_inode ip f s) = log_area s"
  "log_inv (upd_inode ip f s) = log_inv s" "txn (upd_inode ip f s) = txn s"
  "slots (upd_inode ip f s) = slots s" "held (upd_inode ip f s) = held s"
proof -
  show v: "calm (upd_inode ip f s) = calm s" "blk (upd_inode ip f s) = blk s" "own (upd_inode ip f s) = own s"
    "dirty (upd_inode ip f s) = dirty s" by (rule view_cong; simp)+
  show a: "log_area (upd_inode ip f s) = log_area s" by (simp add: log_area_def)
  show l: "log_inv (upd_inode ip f s) = log_inv s" by (simp add: log_inv_def v a)
  show "txn (upd_inode ip f s) = txn s" by (simp add: txn_def v l)
  show "slots (upd_inode ip f s) = slots s" by (simp add: slots_def)
  show "held (upd_inode ip f s) = held s" by (simp add: held_def v)
qed

lemma upd_inode_fs [simp]:
  "bused (upd_inode ip f s) = bused s" "bmap_blocks (upd_inode ip f s) = bmap_blocks s"
  "inode_blocks (upd_inode ip f s) = inode_blocks s" "meta (upd_inode ip f s) = meta s"
  "layout (upd_inode ip f s) = layout s" "fits k (upd_inode ip f s) = fits k s"
proof -
  show b: "bused (upd_inode ip f s) = bused s" by (simp add: bused_def fun_eq_iff)
  show m: "bmap_blocks (upd_inode ip f s) = bmap_blocks s" "inode_blocks (upd_inode ip f s) = inode_blocks s"
    by (simp_all add: bmap_blocks_def inode_blocks_def)
  then show m2: "meta (upd_inode ip f s) = meta s" by (simp add: meta_def)
  show "layout (upd_inode ip f s) = layout s" by (simp add: layout_def b m m2)
  show "fits k (upd_inode ip f s) = fits k s" by (simp add: fits_def m)
qed

text \<open>What inode operations leave alone.\<close>

definition frs :: "'a fs_scheme \<Rightarrow> _" where
  "frs s = (memdisk s, wtrace s, disksize s, cpid s, lg_start s, lg_size s, lg_outstanding s,
     lg_committing s, lg_dev s, fsb s, fs.more s)"

lemma frs_fr:
  fixes s s' :: "'a fs_scheme"
  shows "fr s' = fr s \<longleftrightarrow> frs s' = frs s \<and> icache s' = icache s"
  by (cases s; cases s') (auto simp: fr_def frs_def)

lemma frs_upd [simp]: "frs (upd_inode ip f s) = frs s"
  by (simp add: frs_def)

lemma frsD:
  fixes s s' :: "'a fs_scheme"
  assumes "frs s' = frs s"
  shows "fsb s' = fsb s" "disksize s' = disksize s" "memdisk s' = memdisk s" "log_area s' = log_area s"
    "bmap_blocks s' = bmap_blocks s" "inode_blocks s' = inode_blocks s" "meta s' = meta s" "cpid s' = cpid s"
    "lg_size s' = lg_size s" "fs.more s' = fs.more s" "wtrace s' = wtrace s"
  using assms by (simp_all add: frs_def log_area_def bmap_blocks_def inode_blocks_def meta_def)

end
