(* ===== verification/Fs_Bmap.thy ===== *)
theory Fs_Bmap
  imports Fs_Inode
begin

text \<open>
  The block map of an inode and \<^verbatim>\<open>bmap\<close>. The address slots of an inode are numbered 0 to 140: the
  direct ones, the indirect block (12), and the entries of the indirect block.
\<close>

section \<open>Address slots\<close>

lemma get32_zero_at: "(\<And>i. p \<le> i \<Longrightarrow> i < p + 4 \<Longrightarrow> d i = 0) \<Longrightarrow> get32 d p = 0"
  using get32_cong [of p d "\<lambda>_. 0"] by (simp add: get32_zero)

definition slot_addr :: "'a fs_scheme \<Rightarrow> (nat \<Rightarrow> u32) \<Rightarrow> nat \<Rightarrow> u32" where
  "slot_addr s A k =
     (if k \<le> NDIRECT then A k
      else if A NDIRECT = 0 then 0
      else get32 (blk s (unat (A NDIRECT))) (4 * (k - NDIRECT - 1)))"

text \<open>The slot of block \<open>bn\<close> of the file.\<close>

definition slot_of :: "nat \<Rightarrow> nat" where
  "slot_of bn = (if bn < NDIRECT then bn else bn + 1)"

definition inode_blks :: "'a fs_scheme \<Rightarrow> (nat \<Rightarrow> u32) \<Rightarrow> nat set" where
  "inode_blks s A = {unat (slot_addr s A k) | k. k \<le> 140 \<and> slot_addr s A k \<noteq> 0}"

text \<open>A sound block map: allocated data blocks, no block twice.\<close>

definition map_ok :: "'a fs_scheme \<Rightarrow> (nat \<Rightarrow> u32) \<Rightarrow> bool" where
  "map_ok s A \<longleftrightarrow>
     (\<forall>k\<le>140. slot_addr s A k \<noteq> 0 \<longrightarrow> unat (slot_addr s A k) < sb_size (fsb s) \<and>
        bused s (unat (slot_addr s A k)) \<and> unat (slot_addr s A k) \<notin> meta s) \<and>
     (\<forall>k\<le>140. \<forall>l\<le>140. slot_addr s A k \<noteq> 0 \<and> slot_addr s A k = slot_addr s A l \<longrightarrow> k = l)"

lemma map_okD:
  assumes "map_ok s A" "k \<le> 140" "slot_addr s A k \<noteq> 0"
  shows "unat (slot_addr s A k) < sb_size (fsb s)" "bused s (unat (slot_addr s A k))"
    "unat (slot_addr s A k) \<notin> meta s" "l \<le> 140 \<Longrightarrow> slot_addr s A k = slot_addr s A l \<Longrightarrow> k = l"
  using assms unfolding map_ok_def by blast+

lemma map_ok_ind:
  assumes "map_ok s A" "A NDIRECT \<noteq> 0"
  shows "unat (A NDIRECT) < sb_size (fsb s)" "bused s (unat (A NDIRECT))" "unat (A NDIRECT) \<notin> meta s"
  using map_okD(1-3) [OF assms(1), of NDIRECT] assms(2) by (simp_all add: slot_addr_def)

lemma map_ok_intro:
  assumes "\<And>k. k \<le> 140 \<Longrightarrow> slot_addr s' A' k = (if k = j then v else slot_addr s A k)"
    and "map_ok s A" "j \<le> 140"
    and "\<And>k. k \<le> 140 \<Longrightarrow> slot_addr s A k \<noteq> 0 \<Longrightarrow> bused s' (unat (slot_addr s A k))"
    and "v \<noteq> 0 \<Longrightarrow> unat v < sb_size (fsb s) \<and> bused s' (unat v) \<and> unat v \<notin> meta s \<and> \<not> bused s (unat v)"
    and "fsb s' = fsb s" "meta s' = meta s"
  shows "map_ok s' A'"
  unfolding map_ok_def
proof (intro conjI allI impI)
  fix k assume k: "k \<le> 140" "slot_addr s' A' k \<noteq> 0"
  have "unat (slot_addr s' A' k) < sb_size (fsb s') \<and> bused s' (unat (slot_addr s' A' k)) \<and>
    unat (slot_addr s' A' k) \<notin> meta s'"
  proof (cases "k = j")
    case True
    then have "slot_addr s' A' k = v" using assms(1) [OF k(1)] by simp
    then show ?thesis using k(2) assms(5-7) by simp
  next
    case False
    then have e: "slot_addr s' A' k = slot_addr s A k" using assms(1) [OF k(1)] by simp
    show ?thesis
      unfolding e using map_okD(1,3) [OF assms(2) k(1)] assms(4) [OF k(1)] k(2) assms(6,7) e by simp
  qed
  then show "unat (slot_addr s' A' k) < sb_size (fsb s')" "bused s' (unat (slot_addr s' A' k))"
    "unat (slot_addr s' A' k) \<notin> meta s'" by blast+
next
  fix k l assume kl: "k \<le> 140" "l \<le> 140" "slot_addr s' A' k \<noteq> 0 \<and> slot_addr s' A' k = slot_addr s' A' l"
  have new: "slot_addr s A m \<noteq> v" if "m \<le> 140" "v \<noteq> 0" for m
  proof
    assume "slot_addr s A m = v"
    then show False using map_okD(2) [OF assms(2) that(1)] that(2) assms(5) by simp
  qed
  note e = assms(1) [OF kl(1)] assms(1) [OF kl(2)]
  show "k = l"
  proof (cases "k = j")
    case k: True
    show ?thesis
    proof (rule ccontr)
      assume "k \<noteq> l"
      with k e kl(3) have "v \<noteq> 0 \<and> slot_addr s A l = v" by auto
      with new [OF kl(2)] show False by blast
    qed
  next
    case k: False
    then have ek: "slot_addr s' A' k = slot_addr s A k" using e(1) by simp
    have "l \<noteq> j"
    proof
      assume "l = j"
      with ek e(2) kl(3) have "v \<noteq> 0 \<and> slot_addr s A k = v" by auto
      with new [OF kl(1)] show False by blast
    qed
    then have "slot_addr s' A' l = slot_addr s A l" using e(2) by simp
    then show ?thesis using map_okD(4) [OF assms(2) kl(1) _ kl(2)] ek kl(3) by metis
  qed
qed

text \<open>A new block for a slot of the inode itself.\<close>

lemma slot_direct:
  fixes s s' :: "'a fs_scheme"
  assumes L: "layout s" and M: "map_ok s A" and al: "allocated s b s'" and j: "j \<le> NDIRECT" "A j = 0"
    and k: "k \<le> 140" and v: "unat v = b"
  shows "slot_addr s' (A(j := v)) k = (if k = j then v else slot_addr s A k)"
proof -
  note P = allocatedD [OF al]
  consider "k \<le> NDIRECT" | (ind) "NDIRECT < k" "j \<noteq> NDIRECT" | (new) "NDIRECT < k" "j = NDIRECT" by linarith
  then show ?thesis
  proof cases
    case ind
    have "blk s' (unat (A NDIRECT)) = blk s (unat (A NDIRECT))" if "A NDIRECT \<noteq> 0"
    proof (rule P(5))
      show "unat (A NDIRECT) \<notin> bmap_blocks s" using map_ok_ind(3) [OF M that] by (simp add: meta_def)
      show "unat (A NDIRECT) \<noteq> b" using map_ok_ind(2) [OF M that] P(2) by metis
    qed
    then show ?thesis using ind j by (auto simp: slot_addr_def)
  next
    case new
    have "4 * (k - NDIRECT - 1) + 4 \<le> BSIZE" using new k by simp
    then have "get32 (blk s' b) (4 * (k - NDIRECT - 1)) = 0" using P(4) by (intro get32_zero_at) auto
    then show ?thesis using new j v by (simp add: slot_addr_def)
  qed (use j in \<open>auto simp: slot_addr_def\<close>)
qed

end
