(* ===== verification/Cstring.thy ===== *)
theory Cstring
  imports Prelude
begin

text \<open>
  Memory and string routines: \<^verbatim>\<open>string.c\<close> of the kernel, \<^verbatim>\<open>util.c\<close>, and the string part of the user
  library \<^verbatim>\<open>ulib.c\<close>. Memory is a map from addresses to bytes; a routine takes it and returns it
  updated. A scan that only a NUL stops is a \<open>partial_function\<close>: running on forever is \<open>None\<close>.
\<close>

section \<open>string.c\<close>

text \<open>The string instructions \<^verbatim>\<open>stosb\<close> and \<^verbatim>\<open>stosl\<close> of \<^verbatim>\<open>x86.h\<close>, \<open>n\<close> rounds.\<close>

primrec stosb :: "bytes \<Rightarrow> nat \<Rightarrow> u8 \<Rightarrow> nat \<Rightarrow> bytes" where
  "stosb m a v 0 = m"
| "stosb m a v (Suc n) = stosb (m(a := v)) (a + 1) v n"

primrec stosl :: "bytes \<Rightarrow> nat \<Rightarrow> u32 \<Rightarrow> nat \<Rightarrow> bytes" where
  "stosl m a v 0 = m"
| "stosl m a v (Suc n) = stosl (put32 m a v) (a + 4) v n"

definition memset :: "bytes \<Rightarrow> nat \<Rightarrow> u32 \<Rightarrow> nat \<Rightarrow> bytes" where
  "memset m dst c n =
     (if dst mod 4 = 0 \<and> n mod 4 = 0 then
        let c = c AND 0xFF in
        stosl m dst (push_bit 24 c OR push_bit 16 c OR push_bit 8 c OR c) (n div 4)
      else stosb m dst (ucast c) n)"

primrec memcmp :: "bytes \<Rightarrow> nat \<Rightarrow> nat \<Rightarrow> nat \<Rightarrow> int" where
  "memcmp m s1 s2 0 = 0"
| "memcmp m s1 s2 (Suc n) =
     (if m s1 \<noteq> m s2 then uint (m s1) - uint (m s2) else memcmp m (s1 + 1) (s2 + 1) n)"

text \<open>The two copy loops of \<^verbatim>\<open>memmove\<close>; the first runs from the end down.\<close>

primrec copy_down :: "bytes \<Rightarrow> nat \<Rightarrow> nat \<Rightarrow> nat \<Rightarrow> bytes" where
  "copy_down m d s 0 = m"
| "copy_down m d s (Suc n) = copy_down (m(d + n := m (s + n))) d s n"

primrec copy_up :: "bytes \<Rightarrow> nat \<Rightarrow> nat \<Rightarrow> nat \<Rightarrow> bytes" where
  "copy_up m d s 0 = m"
| "copy_up m d s (Suc n) = copy_up (m(d := m s)) (d + 1) (s + 1) n"

definition memmove :: "bytes \<Rightarrow> nat \<Rightarrow> nat \<Rightarrow> nat \<Rightarrow> bytes" where
  "memmove m dst src n =
     (if src < dst \<and> src + n > dst then copy_down m dst src n else copy_up m dst src n)"

definition memcpy :: "bytes \<Rightarrow> nat \<Rightarrow> nat \<Rightarrow> nat \<Rightarrow> bytes" where
  "memcpy m dst src n = memmove m dst src n"

fun strncmp :: "bytes \<Rightarrow> nat \<Rightarrow> nat \<Rightarrow> nat \<Rightarrow> int" where
  "strncmp m p q n =
     (if n > 0 \<and> m p \<noteq> 0 \<and> m p = m q then strncmp m (p + 1) (q + 1) (n - 1)
      else if n = 0 then 0 else uint (m p) - uint (m q))"

declare strncmp.simps [simp del]

text \<open>\<^verbatim>\<open>strncpy\<close>: copy up to and including a NUL, then pad; both within \<open>n\<close> bytes.\<close>

primrec strncpy :: "bytes \<Rightarrow> nat \<Rightarrow> nat \<Rightarrow> nat \<Rightarrow> bytes" where
  "strncpy m s t 0 = m"
| "strncpy m s t (Suc n) =
     (if m t \<noteq> 0 then strncpy (m(s := m t)) (s + 1) (t + 1) n
      else stosb (m(s := 0)) (s + 1) 0 n)"

primrec safe_loop :: "bytes \<Rightarrow> nat \<Rightarrow> nat \<Rightarrow> nat \<Rightarrow> bytes \<times> nat" where
  "safe_loop m s t 0 = (m, s)"
| "safe_loop m s t (Suc n) =
     (if m t \<noteq> 0 then safe_loop (m(s := m t)) (s + 1) (t + 1) n else (m(s := 0), s + 1))"

definition safestrcpy :: "bytes \<Rightarrow> nat \<Rightarrow> nat \<Rightarrow> int \<Rightarrow> bytes" where
  "safestrcpy m s t n =
     (if n \<le> 0 then m
      else let (m, s) = safe_loop m s t (nat (n - 1)) in m(s := 0))"

partial_function (option) strlen_from :: "bytes \<Rightarrow> nat \<Rightarrow> nat \<Rightarrow> nat option" where
  "strlen_from m s n = (if m (s + n) \<noteq> 0 then strlen_from m s (n + 1) else Some n)"

definition strlen :: "bytes \<Rightarrow> nat \<Rightarrow> nat option" where
  "strlen m s = strlen_from m s 0"

section \<open>util.c and ulib.c\<close>

partial_function (option) strcmp :: "bytes \<Rightarrow> nat \<Rightarrow> nat \<Rightarrow> int option" where
  "strcmp m p q =
     (if m p \<noteq> 0 \<and> m p = m q then strcmp m (p + 1) (q + 1) else Some (uint (m p) - uint (m q)))"

text \<open>\<^verbatim>\<open>atoi\<close> on 32-bit integers; characters above 127 are negative and not digits.\<close>

definition is_digit :: "u8 \<Rightarrow> bool" where
  "is_digit c \<longleftrightarrow> 48 \<le> c \<and> c \<le> 57"

partial_function (option) atoi_from :: "bytes \<Rightarrow> nat \<Rightarrow> u32 \<Rightarrow> u32 option" where
  "atoi_from m s n = (if is_digit (m s) then atoi_from m (s + 1) (n * 10 + ucast (m s) - 48) else Some n)"

definition atoi :: "bytes \<Rightarrow> nat \<Rightarrow> u32 option" where
  "atoi m s = atoi_from m s 0"

text \<open>\<^verbatim>\<open>strcpy\<close> and \<^verbatim>\<open>strchr\<close> of \<^verbatim>\<open>ulib.c\<close>; \<^verbatim>\<open>strchr\<close> returns a null pointer as \<open>None\<close> inside.\<close>

partial_function (option) strcpy :: "bytes \<Rightarrow> nat \<Rightarrow> nat \<Rightarrow> bytes option" where
  "strcpy m s t = (if m t \<noteq> 0 then strcpy (m(s := m t)) (s + 1) (t + 1) else Some (m(s := m t)))"

partial_function (option) strchr :: "bytes \<Rightarrow> nat \<Rightarrow> u8 \<Rightarrow> nat option option" where
  "strchr m s c = (if m s \<noteq> 0 then if m s = c then Some (Some s) else strchr m (s + 1) c else Some None)"

section \<open>Reference definitions\<close>

definition mem_fill :: "bytes \<Rightarrow> nat \<Rightarrow> u8 \<Rightarrow> nat \<Rightarrow> bytes" where
  "mem_fill m a v n = (\<lambda>i. if a \<le> i \<and> i < a + n then v else m i)"

definition mem_copy :: "bytes \<Rightarrow> nat \<Rightarrow> nat \<Rightarrow> nat \<Rightarrow> bytes" where
  "mem_copy m d s n = (\<lambda>i. if d \<le> i \<and> i < d + n then m (s + (i - d)) else m i)"

text \<open>The bytes of the string at \<open>s\<close>: \<open>cs\<close>, NUL-terminated.\<close>

definition cstr_at :: "bytes \<Rightarrow> nat \<Rightarrow> u8 list \<Rightarrow> bool" where
  "cstr_at m s cs \<longleftrightarrow> (\<forall>i<length cs. m (s + i) = cs ! i \<and> cs ! i \<noteq> 0) \<and> m (s + length cs) = 0"

lemma stosb_fill: "stosb m a v n = mem_fill m a v n"
  by (induction n arbitrary: m a) (auto simp: mem_fill_def fun_eq_iff)

lemma rep_byte:
  fixes c :: u32
  defines "w \<equiv> push_bit 24 (c AND 0xFF) OR push_bit 16 (c AND 0xFF) OR push_bit 8 (c AND 0xFF) OR (c AND 0xFF)"
  shows "ucast w = (ucast c :: u8)" "ucast (drop_bit 8 w) = (ucast c :: u8)"
    "ucast (drop_bit 16 w) = (ucast c :: u8)" "ucast (drop_bit 24 w) = (ucast c :: u8)"
proof -
  have m: "(0xFF :: u32) = mask 8" by (simp add: mask_eq_exp_minus_1)
  show "ucast w = (ucast c :: u8)"
    by (rule bit_word_eqI) (auto simp: w_def m bit_simps)
  show "ucast (drop_bit 8 w) = (ucast c :: u8)"
    by (rule bit_word_eqI) (auto simp: w_def m bit_simps)
  show "ucast (drop_bit 16 w) = (ucast c :: u8)"
    by (rule bit_word_eqI) (auto simp: w_def m bit_simps)
  show "ucast (drop_bit 24 w) = (ucast c :: u8)"
    by (rule bit_word_eqI) (auto simp: w_def m bit_simps)
qed

lemma stosl_fill:
  assumes "ucast v = x" "ucast (drop_bit 8 v) = x" "ucast (drop_bit 16 v) = x" "ucast (drop_bit 24 v) = x"
  shows "stosl m a v n = mem_fill m a x (4 * n)"
proof (induction n arbitrary: m a)
  case (Suc n)
  have "put32 m a v = mem_fill m a x 4"
    using assms by (auto simp: put32_def mem_fill_def fun_eq_iff)
  with Suc show ?case by (auto simp: mem_fill_def fun_eq_iff)
qed (auto simp: mem_fill_def fun_eq_iff)

lemma memset_fill: "memset m dst c n = mem_fill m dst (ucast c) n"
proof (cases "dst mod 4 = 0 \<and> n mod 4 = 0")
  case True
  then have "4 * (n div 4) = n" by auto
  with True show ?thesis
    using stosl_fill [OF rep_byte, of m dst c "n div 4"] unfolding memset_def Let_def by metis
qed (auto simp: memset_def stosb_fill)

lemma copy_up_eq: "d \<le> s \<or> s + n \<le> d \<Longrightarrow> copy_up m d s n = mem_copy m d s n"
proof (induction n arbitrary: m d s)
  case (Suc n)
  have "copy_up m d s (Suc n) = mem_copy (m(d := m s)) (d + 1) (s + 1) n"
    unfolding copy_up.simps by (rule Suc.IH) (use Suc.prems in auto)
  also have "\<dots> = mem_copy m d s (Suc n)"
    using Suc.prems by (auto simp: mem_copy_def fun_eq_iff Suc_diff_le)
  finally show ?case .
qed (auto simp: mem_copy_def fun_eq_iff)

lemma copy_down_eq: "s \<le> d \<Longrightarrow> copy_down m d s n = mem_copy m d s n"
proof (induction n arbitrary: m)
  case (Suc n)
  then have "copy_down m d s (Suc n) = mem_copy (m(d + n := m (s + n))) d s n" by simp
  also have "\<dots> = mem_copy m d s (Suc n)"
    using Suc.prems by (auto simp: mem_copy_def fun_eq_iff less_Suc_eq)
  finally show ?case .
qed (auto simp: mem_copy_def fun_eq_iff)

lemma memmove_copy: "memmove m dst src n = mem_copy m dst src n"
  unfolding memmove_def using copy_up_eq [of dst src n m] copy_down_eq [of src dst m n] by auto

section \<open>Strings\<close>

lemma uint_inj [simp]: "uint (a :: u8) = uint b \<longleftrightarrow> a = b" "uint a = 0 \<longleftrightarrow> a = 0"
  by (simp_all add: word_uint_eq_iff)

lemma cstr_at_Nil [simp]: "cstr_at m s [] \<longleftrightarrow> m s = 0"
  by (simp add: cstr_at_def)

lemma cstr_at_Cons [simp]: "cstr_at m s (c # cs) \<longleftrightarrow> c \<noteq> 0 \<and> m s = c \<and> cstr_at m (s + 1) cs"
  unfolding cstr_at_def by (auto simp: nth_Cons less_Suc_eq_0_disj One_nat_def)

lemma strlen_from_eq:
  "cstr_at m s cs \<Longrightarrow> i \<le> length cs \<Longrightarrow> strlen_from m s i = Some (length cs)"
proof (induction "length cs - i" arbitrary: i)
  case 0
  then show ?case by (subst strlen_from.simps) (simp add: cstr_at_def)
next
  case (Suc k)
  then have "i < length cs" by simp
  then have "m (s + i) \<noteq> 0" using Suc.prems by (simp add: cstr_at_def)
  then show ?case using Suc by (subst strlen_from.simps) simp
qed

lemma strlen_eq: "cstr_at m s cs \<Longrightarrow> strlen m s = Some (length cs)"
  by (simp add: strlen_def strlen_from_eq)

text \<open>The order of strings by their unsigned bytes, a proper prefix being less.\<close>

abbreviation str_less :: "u8 list \<Rightarrow> u8 list \<Rightarrow> bool" where
  "str_less xs ys \<equiv> (xs, ys) \<in> lexord {(a, b). a < b}"

text \<open>The sign of \<open>r\<close> tells the order of \<open>xs\<close> and \<open>ys\<close>.\<close>

definition sign_of_order :: "int \<Rightarrow> u8 list \<Rightarrow> u8 list \<Rightarrow> bool" where
  "sign_of_order r xs ys \<longleftrightarrow> (r < 0 \<longleftrightarrow> str_less xs ys) \<and> (r = 0 \<longleftrightarrow> xs = ys) \<and> (0 < r \<longleftrightarrow> str_less ys xs)"

lemma sign_same [simp]: "sign_of_order r (x # xs) (x # ys) = sign_of_order r xs ys"
  by (simp add: sign_of_order_def)

lemma sign_first:
  assumes "x \<noteq> y" shows "sign_of_order (uint x - uint y) (x # xs) (y # ys)"
  using assms by (auto simp: sign_of_order_def word_less_def)

lemma sign_nil [simp]: "sign_of_order 0 [] []" "x \<noteq> 0 \<Longrightarrow> sign_of_order (uint x) (x # xs) []"
  "x \<noteq> 0 \<Longrightarrow> sign_of_order (- uint x) [] (x # xs)"
  by (auto simp: sign_of_order_def word_less_def less_le)

lemma strcmp_eq:
  "cstr_at m p xs \<Longrightarrow> cstr_at m q ys \<Longrightarrow> \<exists>r. strcmp m p q = Some r \<and> sign_of_order r xs ys"
proof (induction xs arbitrary: p q ys)
  case Nil
  then show ?case by (subst strcmp.simps) (cases ys; auto)
next
  case (Cons x xs)
  show ?case
  proof (cases "m q = x")
    case True
    then obtain ys' where ys: "ys = x # ys'" using Cons.prems by (cases ys) auto
    then obtain r where "strcmp m (p + 1) (q + 1) = Some r" "sign_of_order r xs ys'"
      using Cons.IH [of "p + 1" "q + 1" ys'] Cons.prems by auto
    then show ?thesis using Cons.prems True ys by (subst strcmp.simps) auto
  next
    case False
    then show ?thesis using Cons.prems by (subst strcmp.simps) (cases ys; auto intro: sign_first)
  qed
qed

lemma strncmp_eq:
  "cstr_at m p xs \<Longrightarrow> cstr_at m q ys \<Longrightarrow> sign_of_order (strncmp m p q n) (take n xs) (take n ys)"
proof (induction n arbitrary: p q xs ys)
  case 0
  then show ?case by (simp add: strncmp.simps)
next
  case (Suc n)
  show ?case
  proof (cases "m p \<noteq> 0 \<and> m p = m q")
    case True
    then obtain x xs' ys' where e: "xs = x # xs'" "ys = x # ys'"
      using Suc.prems by (cases xs; cases ys) auto
    then show ?thesis using Suc.IH [of "p + 1" xs' "q + 1" ys'] Suc.prems True
      by (subst strncmp.simps) auto
  next
    case False
    then have "strncmp m p q (Suc n) = uint (m p) - uint (m q)" by (subst strncmp.simps) auto
    then show ?thesis using False Suc.prems by (cases xs; cases ys) (auto intro: sign_first)
  qed
qed

definition digits_val :: "u8 list \<Rightarrow> nat \<Rightarrow> nat" where
  "digits_val ds n = foldl (\<lambda>n d. n * 10 + (unat d - 48)) n ds"

lemma atoi_from_eq:
  "(\<forall>i<length ds. m (s + i) = ds ! i \<and> is_digit (ds ! i)) \<Longrightarrow> \<not> is_digit (m (s + length ds)) \<Longrightarrow>
   atoi_from m s (of_nat n) = Some (of_nat (digits_val ds n))"
proof (induction ds arbitrary: s n)
  case Nil
  then show ?case by (subst atoi_from.simps) (simp add: digits_val_def)
next
  case (Cons d ds)
  have d: "m s = d" "is_digit d" using Cons.prems(1) by auto
  have "\<forall>i<length ds. m (s + 1 + i) = ds ! i \<and> is_digit (ds ! i)"
    using Cons.prems(1) by (auto simp: nth_Cons less_Suc_eq_0_disj One_nat_def)
  moreover have "\<not> is_digit (m (s + 1 + length ds))" using Cons.prems(2) by (simp add: One_nat_def)
  ultimately have "atoi_from m (s + 1) (of_nat (n * 10 + (unat d - 48))) =
      Some (of_nat (digits_val ds (n * 10 + (unat d - 48))))" by (rule Cons.IH)
  moreover have "of_nat n * 10 + ucast d - 48 = (of_nat (n * 10 + (unat d - 48)) :: u32)"
  proof -
    have "48 \<le> unat d" using d(2) by (simp add: is_digit_def word_le_nat_alt)
    moreover have "(ucast d :: u32) = of_nat (unat d)" by (simp add: word_eq_iff_unsigned unsigned_ucast_eq)
    ultimately show ?thesis by (simp add: of_nat_diff)
  qed
  ultimately show ?case using d by (subst atoi_from.simps) (simp only: digits_val_def if_True foldl.simps)
qed

lemma safe_loop_spec:
  assumes "safe_loop m s t n = (m', s')"
  shows "s \<le> s' \<and> s' \<le> s + n \<and> (\<forall>i. i < s \<or> s' \<le> i \<longrightarrow> m' i = m i)"
  using assms
proof (induction n arbitrary: m s t)
  case (Suc n)
  show ?case
  proof (cases "m t = 0")
    case False
    then have "safe_loop (m(s := m t)) (s + 1) (t + 1) n = (m', s')" using Suc.prems by simp
    from Suc.IH [OF this] show ?thesis by auto
  next
    case True
    then show ?thesis using Suc.prems by auto
  qed
qed simp

text \<open>
  C11. \<^verbatim>\<open>memset\<close>, whose word-at-a-time path applies to aligned areas, and \<^verbatim>\<open>memmove\<close>, whatever the overlap
  of the two areas, do what their contracts say: fill the area with the byte, and copy the bytes
  the source held before the call; all other memory is unchanged.
\<close>

theorem memset_memmove_correct:
  "memset m dst c n = mem_fill m dst (ucast c) n \<and> memmove m dst src n = mem_copy m dst src n"
  by (intro conjI memset_fill memmove_copy)

text \<open>
  C12. On NUL-terminated strings the scans end: \<^verbatim>\<open>strlen\<close> returns the length, \<^verbatim>\<open>strcmp\<close> returns a value that is
  negative, zero or positive as the first string is less than, equal to or greater than the second in the
  lexicographic order of unsigned bytes, and \<^verbatim>\<open>strncmp\<close> does the same for the first \<open>n\<close> characters.
\<close>

theorem string_scans_correct:
  assumes "cstr_at m p xs" "cstr_at m q ys"
  shows "strlen m p = Some (length xs) \<and>
    (\<exists>r. strcmp m p q = Some r \<and> (r < 0 \<longleftrightarrow> str_less xs ys) \<and> (r = 0 \<longleftrightarrow> xs = ys) \<and> (0 < r \<longleftrightarrow> str_less ys xs)) \<and>
    (strncmp m p q n < 0 \<longleftrightarrow> str_less (take n xs) (take n ys)) \<and> (strncmp m p q n = 0 \<longleftrightarrow> take n xs = take n ys) \<and>
    (0 < strncmp m p q n \<longleftrightarrow> str_less (take n ys) (take n xs))"
  using strlen_eq [OF assms(1)] strcmp_eq [OF assms] strncmp_eq [OF assms] unfolding sign_of_order_def by blast

definition ex_mem :: bytes where
  "ex_mem = (\<lambda>i. if i < 3 then 97 else if i = 10 \<or> i = 11 then 97 else 0)"

theorem string_scans_correct_witness:
  "strlen ex_mem 0 = Some 3 \<and> (\<exists>r. strcmp ex_mem 0 10 = Some r \<and> 0 < r) \<and> strncmp ex_mem 0 10 2 = 0 \<and> strncmp ex_mem 10 0 3 < 0"
proof -
  have c: "cstr_at ex_mem 0 [97, 97, 97]" "cstr_at ex_mem 10 [97, 97]"
    by (simp_all add: ex_mem_def)
  from string_scans_correct [OF c, of 2] string_scans_correct [OF c(2,1), of 3] show ?thesis
    by (auto simp: numeral_2_eq_2 numeral_3_eq_3)
qed

text \<open>
  C13. \<^verbatim>\<open>safestrcpy\<close> with a positive size writes only inside its buffer and leaves a NUL there, for
  every source, terminated or not.
\<close>

theorem safestrcpy_bounded:
  assumes "0 < n"
  shows "(\<forall>i. i < s \<or> s + nat n \<le> i \<longrightarrow> safestrcpy m s t n i = m i) \<and>
    (\<exists>i. s \<le> i \<and> i < s + nat n \<and> safestrcpy m s t n i = 0)"
proof -
  obtain m' s' where l: "safe_loop m s t (nat (n - 1)) = (m', s')" by fastforce
  from safe_loop_spec [OF l] have b: "s \<le> s'" "s' < s + nat n" "\<forall>i. i < s \<or> s' \<le> i \<longrightarrow> m' i = m i"
    using assms by auto
  have e: "safestrcpy m s t n = m'(s' := 0)" using assms l by (simp add: safestrcpy_def)
  show ?thesis unfolding e using b by (auto intro!: exI [of _ s'])
qed

theorem safestrcpy_bounded_witness:
  "\<exists>i. 20 \<le> i \<and> i < 24 \<and> safestrcpy (\<lambda>_. 65) 20 0 4 i = 0"
  using safestrcpy_bounded [of 4 20 "\<lambda>_. 65" 0] by auto

end
