(* ===== verification/Fs_File.thy ===== *)
theory Fs_File
  imports Fs_Bmap Cstring
begin

text \<open>
  Files, directories and path names (\<^verbatim>\<open>fs.c\<close>): \<^verbatim>\<open>stati\<close>, \<^verbatim>\<open>readi\<close>, \<^verbatim>\<open>writei\<close>, \<^verbatim>\<open>dirlookup\<close>,
  \<^verbatim>\<open>dirlink\<close>, \<^verbatim>\<open>skipelem\<close> and \<^verbatim>\<open>namex\<close>. A path is the list of its bytes before the NUL; a name
  is the array of \<^verbatim>\<open>DIRSIZ\<close> bytes of the caller. The device switch is an argument: for a device
  file \<open>dev major\<close> is its read (or write) function, if it has one.
\<close>

section \<open>Reading and writing\<close>

definition T_DIR :: u16 where "T_DIR = 1"
definition T_FILE :: u16 where "T_FILE = 2"
definition T_DEV :: u16 where "T_DEV = 3"
definition NDEV :: nat where "NDEV = 10"
definition DIRSIZ :: nat where "DIRSIZ = 14"
definition MAXFILE :: nat where "MAXFILE = NDIRECT + NINDIRECT"

record stat =
  st_dev :: nat
  st_ino :: nat
  st_type :: u16
  st_nlink :: u16
  st_size :: u32

definition stati :: "nat \<Rightarrow> 'a fs_scheme \<Rightarrow> stat" where
  "stati ip s = \<lparr>st_dev = ip_dev (icache s ip), st_ino = ip_inum (icache s ip), st_type = ip_type (icache s ip),
     st_nlink = ip_nlink (icache s ip), st_size = ip_size (icache s ip)\<rparr>"

text \<open>The first test of \<^verbatim>\<open>readi\<close> and \<^verbatim>\<open>writei\<close>: the device function, or \<^verbatim>\<open>None\<close> for \<open>-1\<close>.\<close>

definition device :: "(nat \<Rightarrow> 'f option) \<Rightarrow> nat \<Rightarrow> 'a fs_scheme \<Rightarrow> 'f option" where
  "device devsw ip s =
     (let major = ip_major (icache s ip) in
      if major <s 0 \<or> unat major \<ge> NDEV then None else devsw (unat major))"

text \<open>The loops run over whole blocks; \<open>n\<close> is the number of bytes left.\<close>

function readi_loop :: "nat \<Rightarrow> nat \<Rightarrow> nat \<Rightarrow> 'a fs_scheme \<Rightarrow> (u8 list \<times> 'a fs_scheme) res" where
  "readi_loop ip off n s =
     (if n = 0 then Inr ([], s)
      else
        bnd (bmap ip (off div BSIZE) s) (\<lambda>(addr, s1).
        bnd (bread (ip_dev (icache s1 ip)) addr s1) (\<lambda>(bp, s2).
        let m = min n (BSIZE - off mod BSIZE);
            data = map (\<lambda>k. bdata s2 bp (off mod BSIZE + k)) [0..<m]
        in bnd (brelse bp s2) (\<lambda>s3.
           bnd (readi_loop ip (off + m) (n - m) s3) (\<lambda>(rest, s4). Inr (data @ rest, s4))))))"
  by pat_completeness auto
termination
  by (relation "measure (\<lambda>(ip, off, n, s). n)") (auto simp: min_def)

definition readi ::
  "(nat \<Rightarrow> (nat \<Rightarrow> nat \<Rightarrow> 'a fs_scheme \<Rightarrow> (int \<times> u8 list \<times> 'a fs_scheme) res) option) \<Rightarrow>
   nat \<Rightarrow> u32 \<Rightarrow> u32 \<Rightarrow> 'a fs_scheme \<Rightarrow> (int \<times> u8 list \<times> 'a fs_scheme) res" where
  "readi devsw ip off n s =
     (if ip_type (icache s ip) = T_DEV then
        (case device devsw ip s of None \<Rightarrow> Inr (-1, [], s) | Some f \<Rightarrow> f ip (unat n) s)
      else if off > ip_size (icache s ip) \<or> off + n < off then Inr (-1, [], s)
      else
        let n = (if off + n > ip_size (icache s ip) then ip_size (icache s ip) - off else n)
        in bnd (readi_loop ip (unat off) (unat n) s) (\<lambda>(data, s). Inr (sint n, data, s)))"

definition put_bytes :: "bytes \<Rightarrow> nat \<Rightarrow> u8 list \<Rightarrow> bytes" where
  "put_bytes d p src = (\<lambda>i. if p \<le> i \<and> i < p + length src then src ! (i - p) else d i)"

function writei_loop :: "nat \<Rightarrow> nat \<Rightarrow> u8 list \<Rightarrow> 'a fs_scheme \<Rightarrow> 'a fs_scheme res" where
  "writei_loop ip off src s =
     (if src = [] then Inr s
      else
        bnd (bmap ip (off div BSIZE) s) (\<lambda>(addr, s1).
        bnd (bread (ip_dev (icache s1 ip)) addr s1) (\<lambda>(bp, s2).
        let m = min (length src) (BSIZE - off mod BSIZE);
            s3 = set_data bp (put_bytes (bdata s2 bp) (off mod BSIZE) (take m src)) s2
        in bnd (log_write bp s3) (\<lambda>s4.
           bnd (brelse bp s4) (\<lambda>s5. writei_loop ip (off + m) (drop m src) s5)))))"
  by pat_completeness auto
termination
  by (relation "measure (\<lambda>(ip, off, src, s). length src)") (auto simp: min_def)

definition writei ::
  "(nat \<Rightarrow> (nat \<Rightarrow> u8 list \<Rightarrow> 'a fs_scheme \<Rightarrow> (int \<times> 'a fs_scheme) res) option) \<Rightarrow>
   nat \<Rightarrow> u8 list \<Rightarrow> u32 \<Rightarrow> u32 \<Rightarrow> 'a fs_scheme \<Rightarrow> (int \<times> 'a fs_scheme) res" where
  "writei devsw ip src off n s =
     (if ip_type (icache s ip) = T_DEV then
        (case device devsw ip s of None \<Rightarrow> Inr (-1, s) | Some f \<Rightarrow> f ip (take (unat n) src) s)
      else if off > ip_size (icache s ip) \<or> off + n < off then Inr (-1, s)
      else if off + n > of_nat (MAXFILE * BSIZE) then Inr (-1, s)
      else
        bnd (writei_loop ip (unat off) (take (unat n) src) s) (\<lambda>s.
        bnd (if n > 0 \<and> off + n > ip_size (icache s ip)
             then iupdate ip (upd_inode ip (\<lambda>x. x\<lparr>ip_size := off + n\<rparr>) s) else Inr s) (\<lambda>s.
        Inr (sint n, s))))"

declare readi_loop.simps [simp del] writei_loop.simps [simp del]

section \<open>Directories\<close>

text \<open>\<^verbatim>\<open>struct dirent\<close>: 16 bytes, the inode number and the name.\<close>

definition de_inum :: "u8 list \<Rightarrow> u16" where
  "de_inum de = get16 (\<lambda>i. de ! i) 0"

definition de_name :: "u8 list \<Rightarrow> bytes" where
  "de_name de = (\<lambda>i. de ! (2 + i))"

text \<open>\<^verbatim>\<open>namecmp(s, t)\<close>: the two arrays side by side for \<^const>\<open>strncmp\<close>.\<close>

definition namecmp :: "bytes \<Rightarrow> bytes \<Rightarrow> int" where
  "namecmp a b = strncmp (\<lambda>i. if i < DIRSIZ then a i else b (i - DIRSIZ)) 0 DIRSIZ DIRSIZ"

text \<open>The entry at \<open>off\<close>; a short read panics.\<close>

definition read_dirent :: "string \<Rightarrow> nat \<Rightarrow> nat \<Rightarrow> 'a fs_scheme \<Rightarrow> (u8 list \<times> 'a fs_scheme) res" where
  "read_dirent msg dp off s =
     bnd (readi (\<lambda>_. None) dp (of_nat off) 16 s) (\<lambda>(r, de, s).
     if r \<noteq> 16 then Inl (Panic msg) else Inr (de, s))"

text \<open>The loops over the entries, with the number of entries as fuel.\<close>

primrec dirlookup_loop ::
  "nat \<Rightarrow> nat \<Rightarrow> bytes \<Rightarrow> nat \<Rightarrow> 'a fs_scheme \<Rightarrow> ((nat \<times> nat) option \<times> 'a fs_scheme) res" where
  "dirlookup_loop 0 dp name off s =
     (if off < unat (ip_size (icache s dp)) then Inl (Fault ''fuel'') else Inr (None, s))"
| "dirlookup_loop (Suc fuel) dp name off s =
     (if off < unat (ip_size (icache s dp)) then
        bnd (read_dirent ''dirlookup read'' dp off s) (\<lambda>(de, s).
        if de_inum de = 0 then dirlookup_loop fuel dp name (off + 16) s
        else if namecmp name (de_name de) = 0 then
          bnd (iget (ip_dev (icache s dp)) (unat (de_inum de)) s) (\<lambda>(ip, s). Inr (Some (ip, off), s))
        else dirlookup_loop fuel dp name (off + 16) s)
      else Inr (None, s))"

abbreviation entries :: "nat \<Rightarrow> 'a fs_scheme \<Rightarrow> nat" where
  "entries dp s \<equiv> unat (ip_size (icache s dp)) div 16 + 1"

definition dirlookup :: "nat \<Rightarrow> bytes \<Rightarrow> 'a fs_scheme \<Rightarrow> ((nat \<times> nat) option \<times> 'a fs_scheme) res" where
  "dirlookup dp name s =
     (if ip_type (icache s dp) \<noteq> T_DIR then Inl (Panic ''dirlookup not DIR'')
      else dirlookup_loop (entries dp s) dp name 0 s)"

primrec dirfree_loop :: "nat \<Rightarrow> nat \<Rightarrow> nat \<Rightarrow> 'a fs_scheme \<Rightarrow> (nat \<times> 'a fs_scheme) res" where
  "dirfree_loop 0 dp off s =
     (if off < unat (ip_size (icache s dp)) then Inl (Fault ''fuel'') else Inr (off, s))"
| "dirfree_loop (Suc fuel) dp off s =
     (if off < unat (ip_size (icache s dp)) then
        bnd (read_dirent ''dirlink read'' dp off s) (\<lambda>(de, s).
        if de_inum de = 0 then Inr (off, s) else dirfree_loop fuel dp (off + 16) s)
      else Inr (off, s))"

text \<open>The 16 bytes of the new entry: \<^verbatim>\<open>strncpy\<close> into \<^verbatim>\<open>de.name\<close> (the uninitialised entry is all
  overwritten), then the inode number.\<close>

definition mk_dirent :: "bytes \<Rightarrow> u32 \<Rightarrow> u8 list" where
  "mk_dirent name inum =
     (let m = strncpy (\<lambda>i. if i < DIRSIZ then 0 else name (i - DIRSIZ)) 0 DIRSIZ DIRSIZ
      in [ucast inum, ucast (drop_bit 8 inum)] @ map m [0..<DIRSIZ])"

definition dirlink :: "nat \<Rightarrow> bytes \<Rightarrow> u32 \<Rightarrow> 'a fs_scheme \<Rightarrow> (int \<times> 'a fs_scheme) res" where
  "dirlink dp name inum s =
     bnd (dirlookup dp name s) (\<lambda>(found, s).
     case found of
       Some (ip, off) \<Rightarrow> bnd (iput ip s) (\<lambda>s. Inr (-1, s))
     | None \<Rightarrow>
         bnd (dirfree_loop (entries dp s) dp 0 s) (\<lambda>(off, s).
         bnd (writei (\<lambda>_. None) dp (mk_dirent name inum) (of_nat off) 16 s) (\<lambda>(r, s).
         if r \<noteq> 16 then Inl (Panic ''dirlink'') else Inr (0, s))))"

section \<open>Path names\<close>

abbreviation slash :: u8 where
  "slash \<equiv> 0x2F"

text \<open>\<^verbatim>\<open>skipelem\<close>: the rest of the path and the array \<^verbatim>\<open>name\<close>, of which the element overwrites
  the first bytes.\<close>

definition skipelem :: "u8 list \<Rightarrow> bytes \<Rightarrow> (u8 list \<times> bytes) option" where
  "skipelem path name =
     (let path = dropWhile (\<lambda>c. c = slash) path in
      if path = [] then None
      else
        let s = takeWhile (\<lambda>c. c \<noteq> slash) path;
            path = dropWhile (\<lambda>c. c \<noteq> slash) path;
            name = (if length s \<ge> DIRSIZ then put_bytes name 0 (take DIRSIZ s)
                    else (put_bytes name 0 s)(length s := 0))
        in Some (dropWhile (\<lambda>c. c = slash) path, name))"

lemma skipelem_shorter:
  assumes "skipelem path name = Some (p', name')"
  shows "length p' < length path"
proof -
  let ?p = "dropWhile (\<lambda>c. c = slash) path"
  have n: "?p \<noteq> []" and r: "p' = dropWhile (\<lambda>c. c = slash) (dropWhile (\<lambda>c. c \<noteq> slash) ?p)"
    using assms by (auto simp: skipelem_def Let_def split: if_splits)
  have "hd ?p \<noteq> slash" using hd_dropWhile [OF n] by simp
  then have "dropWhile (\<lambda>c. c \<noteq> slash) ?p = dropWhile (\<lambda>c. c \<noteq> slash) (tl ?p)" using n by (cases ?p) auto
  then have "length p' \<le> length (tl ?p)"
    unfolding r by (simp only:) (rule order_trans [OF length_dropWhile_le length_dropWhile_le])
  also have "\<dots> < length ?p" using n by simp
  also have "\<dots> \<le> length path" by (rule length_dropWhile_le)
  finally show ?thesis .
qed

function namex_loop ::
  "bool \<Rightarrow> u8 list \<Rightarrow> bytes \<Rightarrow> nat \<Rightarrow> 'a fs_scheme \<Rightarrow> (nat option \<times> bytes \<times> 'a fs_scheme) res" where
  "namex_loop nameiparent path name ip s =
     (case skipelem path name of
        None \<Rightarrow>
          if nameiparent then bnd (iput ip s) (\<lambda>s. Inr (None, name, s)) else Inr (Some ip, name, s)
      | Some (path, name) \<Rightarrow>
          bnd (ilock ip s) (\<lambda>s.
          if ip_type (icache s ip) \<noteq> T_DIR then bnd (iunlockput ip s) (\<lambda>s. Inr (None, name, s))
          else if nameiparent \<and> path = [] then bnd (iunlock ip s) (\<lambda>s. Inr (Some ip, name, s))
          else
            bnd (dirlookup ip name s) (\<lambda>(found, s).
            case found of
              None \<Rightarrow> bnd (iunlockput ip s) (\<lambda>s. Inr (None, name, s))
            | Some (nxt, off) \<Rightarrow>
                bnd (iunlockput ip s) (\<lambda>s. namex_loop nameiparent path name nxt s))))"
  by pat_completeness auto
termination
  by (relation "measure (\<lambda>(np, path, name, ip, s). length path)") (auto dest: skipelem_shorter)

declare namex_loop.simps [simp del]

definition ROOTDEV :: nat where "ROOTDEV = 1"
definition ROOTINO :: nat where "ROOTINO = 1"

text \<open>\<open>cwd\<close> is the current directory of the calling process.\<close>

definition namex :: "nat \<Rightarrow> u8 list \<Rightarrow> bool \<Rightarrow> bytes \<Rightarrow> 'a fs_scheme \<Rightarrow> (nat option \<times> bytes \<times> 'a fs_scheme) res" where
  "namex cwd path nameiparent name s =
     bnd (if path \<noteq> [] \<and> hd path = slash then iget ROOTDEV ROOTINO s else Inr (idup cwd s)) (\<lambda>(ip, s).
     namex_loop nameiparent path name ip s)"

text \<open>\<^verbatim>\<open>namei\<close> starts with an uninitialised array \<^verbatim>\<open>name\<close>.\<close>

definition namei :: "bytes \<Rightarrow> nat \<Rightarrow> u8 list \<Rightarrow> 'a fs_scheme \<Rightarrow> (nat option \<times> 'a fs_scheme) res" where
  "namei name0 cwd path s = bnd (namex cwd path False name0 s) (\<lambda>(ip, name, s). Inr (ip, s))"

definition nameiparent :: "nat \<Rightarrow> u8 list \<Rightarrow> bytes \<Rightarrow> 'a fs_scheme \<Rightarrow> (nat option \<times> bytes \<times> 'a fs_scheme) res" where
  "nameiparent cwd path name s = namex cwd path True name s"

section \<open>What a path means\<close>

text \<open>The elements of a path: the non-empty parts between slashes.\<close>

fun split_path :: "u8 list \<Rightarrow> u8 list list" where
  "split_path [] = [[]]"
| "split_path (c # cs) =
     (if c = slash then [] # split_path cs
      else (case split_path cs of [] \<Rightarrow> [[c]] | w # ws \<Rightarrow> (c # w) # ws))"

definition path_elems :: "u8 list \<Rightarrow> u8 list list" where
  "path_elems path = filter (\<lambda>w. w \<noteq> []) (split_path path)"

lemma split_path_nonempty: "split_path p \<noteq> []"
  by (induction p) (auto split: list.split)

lemma split_path_word: "slash \<notin> set w \<Longrightarrow> split_path w = [w]"
  by (induction w) auto

lemma split_path_first: "slash \<notin> set w \<Longrightarrow> split_path (w @ slash # r) = w # split_path r"
  by (induction w) auto

lemma path_elems_slash [simp]: "path_elems (slash # p) = path_elems p"
  by (simp add: path_elems_def)

lemma path_elems_strip [simp]: "path_elems (dropWhile (\<lambda>c. c = slash) p) = path_elems p"
  by (induction p) auto

lemma path_elems_cons:
  assumes "p \<noteq> []" "hd p \<noteq> slash"
  shows "path_elems p = takeWhile (\<lambda>c. c \<noteq> slash) p # path_elems (dropWhile (\<lambda>c. c \<noteq> slash) p)"
proof -
  let ?w = "takeWhile (\<lambda>c. c \<noteq> slash) p" and ?r = "dropWhile (\<lambda>c. c \<noteq> slash) p"
  have w: "slash \<notin> set ?w" by (auto dest: set_takeWhileD)
  have n: "?w \<noteq> []" using assms by (cases p) auto
  show ?thesis
  proof (cases ?r)
    case Nil
    then have "p = ?w" by (metis takeWhile_dropWhile_id append_Nil2)
    then have "split_path p = [?w]" using split_path_word [OF w] by simp
    then show ?thesis using n unfolding Nil by (simp add: path_elems_def)
  next
    case (Cons c r)
    then have "c = slash" using hd_dropWhile [of "\<lambda>c. c \<noteq> slash" p] by simp
    then have "p = ?w @ slash # r" using Cons by (metis takeWhile_dropWhile_id)
    then have "split_path p = ?w # split_path r" using split_path_first [OF w, of r] by simp
    then show ?thesis using n Cons \<open>c = slash\<close> by (simp add: path_elems_def)
  qed
qed

lemma path_elems_empty: "path_elems p = [] \<longleftrightarrow> dropWhile (\<lambda>c. c = slash) p = []"
proof
  assume e: "path_elems p = []"
  show "dropWhile (\<lambda>c. c = slash) p = []"
  proof (rule ccontr)
    assume n: "dropWhile (\<lambda>c. c = slash) p \<noteq> []"
    have "hd (dropWhile (\<lambda>c. c = slash) p) \<noteq> slash" using hd_dropWhile [OF n] by simp
    from path_elems_cons [OF n this] e show False by simp
  qed
next
  assume "dropWhile (\<lambda>c. c = slash) p = []"
  then have "path_elems p = path_elems []" using path_elems_strip [of p] by (simp only:)
  then show "path_elems p = []" by (simp add: path_elems_def)
qed

text \<open>C29. \<^verbatim>\<open>skipelem\<close> takes the first element off a path: it returns 0 exactly when the path has no
  element; otherwise the rest has the remaining elements and is empty exactly when there are none,
  and \<^verbatim>\<open>name\<close> holds the first 14 bytes of the element, with a NUL after a shorter one. No other byte
  of \<^verbatim>\<open>name\<close> is written: at most 14 are.\<close>

theorem skipelem_path:
  "case path_elems path of
     [] \<Rightarrow> skipelem path name = None
   | e # es \<Rightarrow> \<exists>rest' name'. skipelem path name = Some (rest', name') \<and> path_elems rest' = es
       \<and> (rest' = [] \<longleftrightarrow> es = [])
       \<and> name' = (\<lambda>i. if i < length e \<and> i < DIRSIZ then e ! i else if i = length e \<and> i < DIRSIZ then 0 else name i)"
proof (cases "dropWhile (\<lambda>c. c = slash) path = []")
  case True
  then show ?thesis by (simp add: path_elems_empty [THEN iffD2] skipelem_def)
next
  case False
  let ?p = "dropWhile (\<lambda>c. c = slash) path"
  let ?w = "takeWhile (\<lambda>c. c \<noteq> slash) ?p" and ?r = "dropWhile (\<lambda>c. c \<noteq> slash) ?p"
  have "hd ?p \<noteq> slash" using hd_dropWhile [OF False] by simp
  from path_elems_cons [OF False this] have e: "path_elems path = ?w # path_elems ?r" by simp
  define w where "w = ?w"
  define nm where "nm = (if length w \<ge> DIRSIZ then put_bytes name 0 (take DIRSIZ w)
    else (put_bytes name 0 w)(length w := 0))"
  have k: "skipelem path name = Some (dropWhile (\<lambda>c. c = slash) ?r, nm)"
    unfolding skipelem_def Let_def nm_def w_def using False by (simp only: if_False)
  have "nm = (\<lambda>i. if i < length w \<and> i < DIRSIZ then w ! i else if i = length w \<and> i < DIRSIZ then 0 else name i)"
    by (auto simp: nm_def put_bytes_def fun_eq_iff)
  moreover have "path_elems (dropWhile (\<lambda>c. c = slash) ?r) = path_elems ?r" by (rule path_elems_strip)
  moreover have "dropWhile (\<lambda>c. c = slash) ?r = [] \<longleftrightarrow> path_elems ?r = []"
    using path_elems_empty [of ?r] by (rule sym)
  ultimately show ?thesis unfolding e w_def [symmetric] k list.case
    by - (rule exI [of _ "dropWhile (\<lambda>c. c = slash) ?r"], rule exI [of _ nm],
      simp only: simp_thms)
qed

end
