(* ===== verification/Fs_Data.thy ===== *)
theory Fs_Data
  imports Fs_File
begin

text \<open>
  The contents of files. A file in the cache is a sequence of bytes spread over the blocks of its
  block map; \<^verbatim>\<open>readi\<close> reads from this sequence and \<^verbatim>\<open>writei\<close> updates and extends it, allocating
  blocks as it goes.
\<close>

section \<open>The bytes of a file\<close>

definition fblock :: "nat \<Rightarrow> 'a fs_scheme \<Rightarrow> nat \<Rightarrow> u32" where
  "fblock ip s bn = slot_addr s (ip_addrs (icache s ip)) (slot_of bn)"

definition fbyte :: "nat \<Rightarrow> 'a fs_scheme \<Rightarrow> nat \<Rightarrow> u8" where
  "fbyte ip s i = blk s (unat (fblock ip s (i div BSIZE))) (i mod BSIZE)"

text \<open>Nobody holds a buffer, and the block map of the inode is sound.\<close>

definition inode_ready :: "nat \<Rightarrow> 'a fs_scheme \<Rightarrow> bool" where
  "inode_ready ip s \<longleftrightarrow> txn s \<and> layout s \<and> held s = {} \<and> ip_dev (icache s ip) = 1 \<and>
     map_ok s (ip_addrs (icache s ip))"

lemma inode_readyD:
  assumes "inode_ready ip s"
  shows "txn s" "layout s" "held s = {}" "\<not> own s i n" "ip_dev (icache s ip) = 1"
    "map_ok s (ip_addrs (icache s ip))" "{m. \<exists>i. own s i m} = {}"
  using assms by (auto simp: inode_ready_def held_def)

text \<open>The blocks of the first \<open>n\<close> bytes are allocated.\<close>

definition mapped :: "nat \<Rightarrow> 'a fs_scheme \<Rightarrow> nat \<Rightarrow> bool" where
  "mapped ip s n \<longleftrightarrow> (\<forall>bn. BSIZE * bn < n \<longrightarrow> bn < 140 \<and> fblock ip s bn \<noteq> 0)"

lemma mappedD:
  assumes "mapped ip s n" "i < n"
  shows "i div BSIZE < 140 \<and> fblock ip s (i div BSIZE) \<noteq> 0"
proof -
  have "BSIZE * (i div BSIZE) \<le> i" by simp
  then have "BSIZE * (i div BSIZE) < n" using assms(2) by linarith
  then show ?thesis using assms(1) unfolding mapped_def by blast
qed

lemma slot_of_le: "bn < 140 \<Longrightarrow> slot_of bn \<le> 140"
  by (simp add: slot_of_def)

lemma fblock_ok:
  assumes "inode_ready ip s" "bn < 140" "fblock ip s bn \<noteq> 0"
  shows "unat (fblock ip s bn) < disksize s" "unat (fblock ip s bn) \<notin> meta s" "unat (fblock ip s bn) \<notin> log_area s"
    "bused s (unat (fblock ip s bn))" "unat (fblock ip s bn) < sb_size (fsb s)"
proof -
  note M = map_okD [OF inode_readyD(6) [OF assms(1)] slot_of_le [OF assms(2)] assms(3) [unfolded fblock_def]]
  show "unat (fblock ip s bn) < disksize s" "unat (fblock ip s bn) < sb_size (fsb s)"
    using M(1) layoutD(2) [OF inode_readyD(2) [OF assms(1)]] by (simp_all add: fblock_def)
  show "unat (fblock ip s bn) \<notin> meta s" "unat (fblock ip s bn) \<notin> log_area s"
    using M(3) by (simp_all add: fblock_def meta_def)
  show "bused s (unat (fblock ip s bn))" using M(2) by (simp add: fblock_def)
qed

text \<open>Nothing a file system operation sees has changed.\<close>

definition same :: "'a fs_scheme \<Rightarrow> 'a fs_scheme \<Rightarrow> bool" where
  "same s s' \<longleftrightarrow> txn s' \<and> blk s' = blk s \<and> dirty s' = dirty s \<and> own s' = own s \<and> fr s' = fr s"

lemma same_refl: "txn s \<Longrightarrow> same s s"
  by (simp add: same_def)

lemma same_trans: "same s t \<Longrightarrow> same t u \<Longrightarrow> same s u"
  by (simp add: same_def)

lemma same_fs:
  fixes s s' :: "'a fs_scheme"
  assumes "same s s'"
  shows "icache s' = icache s" "fsb s' = fsb s" "slot_addr s' = slot_addr s" "fblock ip s' = fblock ip s"
    "fbyte ip s' = fbyte ip s" "layout s' = layout s" "bused s' = bused s" "meta s' = meta s"
    "disksize s' = disksize s" "held s' = held s" "log_area s' = log_area s"
proof -
  have b: "blk s' = blk s" "fr s' = fr s" "own s' = own s" using assms by (auto simp: same_def)
  show i: "icache s' = icache s" "fsb s' = fsb s" "meta s' = meta s" "disksize s' = disksize s"
    "log_area s' = log_area s"
    by (rule fr_fs [OF b(2)])+
  show a: "slot_addr s' = slot_addr s" by (simp add: slot_addr_def b(1) fun_eq_iff)
  show f: "fblock ip s' = fblock ip s" by (simp add: fblock_def a i fun_eq_iff)
  show "fbyte ip s' = fbyte ip s" by (simp add: fbyte_def f b(1) fun_eq_iff)
  show "layout s' = layout s" "bused s' = bused s" by (rule layout_cong [OF b(1,2)])+
  show "held s' = held s" by (simp add: held_def b(3))
qed

lemma same_ready:
  fixes s s' :: "'a fs_scheme"
  assumes "same s s'" "inode_ready ip s"
  shows "inode_ready ip s'" "slots s' = slots s"
proof -
  have b: "txn s'" "fr s' = fr s" "dirty s' = dirty s" using assms(1) by (auto simp: same_def)
  have "map_ok s' A = map_ok s A" for A
    unfolding map_ok_def same_fs(2,3,7,8) [OF assms(1)] ..
  then show "inode_ready ip s'"
    using assms(2) same_fs [OF assms(1)] b(1) by (simp add: inode_ready_def)
  show "slots s' = slots s" by (rule tx.slots_same [OF inode_readyD(1) [OF assms(2)] b])
qed

section \<open>Reading\<close>

lemma peek_same:
  fixes s :: "'a fs_scheme"
  assumes "inode_ready ip s" "n < disksize s" "0 \<le> slots s"
  shows "wp (bread 1 n s) (\<lambda>(bp, s1). bdata s1 bp = blk s n \<and> icache s1 = icache s \<and>
    wp (brelse bp s1) (\<lambda>s2. same s s2))"
proof (rule wp_mono [OF tx.get_law [of s n]])
  note R = inode_readyD [OF assms(1)]
  show "txn s" "n < disksize s" "\<forall>i. \<not> own s i n" "int (card {m. \<exists>i. own s i m}) \<le> slots s"
    using R assms by simp_all
  fix x
  assume x: "case x of (i, s') \<Rightarrow> txn s' \<and> blk s' = blk s \<and> dirty s' = dirty s \<and> fr s' = fr s \<and>
    (\<forall>j m. own s' j m \<longleftrightarrow> own s j m \<or> j = i \<and> m = n)"
  obtain bp s1 where [simp]: "x = (bp, s1)" by (cases x)
  from x have s1: "txn s1" "blk s1 = blk s" "dirty s1 = dirty s" "fr s1 = fr s"
    "\<And>j m. own s1 j m \<longleftrightarrow> j = bp \<and> m = n" using R(4) by auto
  then have o: "own s1 bp n" by simp
  have "wp (brelse bp s1) (\<lambda>s2. same s s2)"
    by (rule wp_mono [OF tx.rel_law [OF s1(1) o]]) (use s1 R(4) in \<open>auto simp: same_def fun_eq_iff\<close>)
  then show "case x of (bp, s1) \<Rightarrow> bdata s1 bp = blk s n \<and> icache s1 = icache s \<and>
    wp (brelse bp s1) (\<lambda>s2. same s s2)"
    using tx.data_law [OF s1(1) o] s1(2) fr_fs(2) [OF s1(4)] by simp
qed

lemma bmap_mapped:
  fixes s :: "'a fs_scheme"
  assumes "inode_ready ip s" "bn < 140" "fblock ip s bn \<noteq> 0" "0 \<le> slots s"
  shows "wp (bmap ip bn s) (\<lambda>(a, s'). a = unat (fblock ip s bn) \<and> same s s')"
proof (cases "bn < NDIRECT")
  case True
  then show ?thesis using assms(3) same_refl [OF inode_readyD(1) [OF assms(1)]]
    by (simp add: bmap_def fblock_def slot_of_def slot_addr_def)
next
  case False
  let ?A = "ip_addrs (icache s ip)"
  have A: "?A NDIRECT \<noteq> 0" "fblock ip s bn = get32 (blk s (unat (?A NDIRECT))) (4 * (bn - NDIRECT))"
    using False assms(3) by (auto simp: fblock_def slot_of_def slot_addr_def split: if_splits)
  have "unat (?A NDIRECT) < disksize s"
    using map_ok_ind(1) [OF inode_readyD(6) [OF assms(1)] A(1)] layoutD(2) [OF inode_readyD(2) [OF assms(1)]] by simp
  from peek_same [OF assms(1) this assms(4)] show ?thesis
    unfolding bmap_def Let_def using False A assms(2,3) inode_readyD(5) [OF assms(1)]
    by (auto elim!: wp_mono)
qed

lemma fbyte_block:
  assumes "k < BSIZE - off mod BSIZE"
  shows "fbyte ip s (off + k) = blk s (unat (fblock ip s (off div BSIZE))) (off mod BSIZE + k)"
proof -
  have k: "off mod BSIZE + k < BSIZE" using assms by simp
  have e: "off + k = (off mod BSIZE + k) + off div BSIZE * BSIZE" using div_mult_mod_eq [of off BSIZE] by linarith
  have "(off + k) div BSIZE = off div BSIZE"
    by (subst e, subst div_mult_self1) (use k in simp_all)
  moreover have "(off + k) mod BSIZE = off mod BSIZE + k"
    by (subst e, subst mod_mult_self1) (use k in simp)
  ultimately have "(off + k) div BSIZE = off div BSIZE" "(off + k) mod BSIZE = off mod BSIZE + k" by blast+
  then show ?thesis by (simp add: fbyte_def)
qed

lemma readi_loop_bytes:
  fixes s :: "'a fs_scheme"
  assumes "inode_ready ip s" "mapped ip s (off + n)" "0 \<le> slots s"
  shows "wp (readi_loop ip off n s) (\<lambda>(d, s'). d = map (fbyte ip s) [off..<off + n] \<and> same s s')"
  using assms
proof (induction n arbitrary: off s rule: less_induct)
  case (less n)
  note R = less.prems(1) and S = less.prems(3)
  show ?case
  proof (cases "n = 0")
    case True
    then show ?thesis using same_refl [OF inode_readyD(1) [OF R]] by (subst readi_loop.simps) simp
  next
    case False
    define m where "m = min n (BSIZE - off mod BSIZE)"
    let ?b = "fblock ip s (off div BSIZE)"
    have m: "0 < m" "m \<le> n" "n - m < n" "m \<le> BSIZE - off mod BSIZE" using False by (auto simp: m_def)
    have b: "off div BSIZE < 140" "?b \<noteq> 0"
      using mappedD [OF less.prems(2), of off] False by simp_all
    have data: "map (\<lambda>k. blk s (unat ?b) (off mod BSIZE + k)) [0..<m] = map (fbyte ip s) [off..<off + m]"
      using m(4) by (intro nth_equalityI) (simp_all add: fbyte_block)
    have join: "map (fbyte ip s) [off..<off + m] @ map (fbyte ip s) [off + m..<off + n] = map (fbyte ip s) [off..<off + n]"
    proof -
      have "off + m + (n - m) = off + n" using m(2) by simp
      with upt_add_eq_append [of off "off + m" "n - m"] have "[off..<off + n] = [off..<off + m] @ [off + m..<off + n]"
        by (simp only: le_add1)
      then show ?thesis by (simp only: map_append)
    qed
    have tail: "wp (readi_loop ip (off + m) (n - m) s3)
        (\<lambda>(d, s'). d = map (fbyte ip s) [off + m..<off + n] \<and> same s s')" if "same s s3" for s3
    proof -
      have e: "off + m + (n - m) = off + n" using m(2) by simp
      have "mapped ip s3 (off + n)" using less.prems(2) unfolding mapped_def same_fs(4) [OF that] .
      then have "wp (readi_loop ip (off + m) (n - m) s3)
        (\<lambda>(d, s'). d = map (fbyte ip s3) [off + m..<off + n] \<and> same s3 s')"
        using less.IH [OF m(3) same_ready(1) [OF that R], of "off + m"] S same_ready(2) [OF that R] unfolding e by simp
      then show ?thesis
        unfolding same_fs(5) [OF that] by (rule wp_mono) (clarify, intro conjI refl same_trans [OF that])
    qed
    have read: "wp (bread 1 (unat ?b) s1) (\<lambda>(bp, s2).
        bdata s2 bp = blk s (unat ?b) \<and> wp (brelse bp s2) (\<lambda>s3. same s s3))" if "same s s1" for s1
    proof -
      have "unat ?b < disksize s1" using fblock_ok(1) [OF R b] same_fs(9) [OF that] by simp
      then have "wp (bread 1 (unat ?b) s1) (\<lambda>(bp, s2). bdata s2 bp = blk s1 (unat ?b) \<and> icache s2 = icache s1 \<and>
          wp (brelse bp s2) (\<lambda>s3. same s1 s3))"
        using peek_same [OF same_ready(1) [OF that R]] S same_ready(2) [OF that R] by simp
      then show ?thesis
      proof (rule wp_mono, clarify)
        fix bp s2 assume a: "bdata s2 bp = blk s1 (unat ?b)" "wp (brelse bp s2) (\<lambda>s3. same s1 s3)"
        have "blk s1 = blk s" using that by (simp add: same_def)
        moreover have "wp (brelse bp s2) (same s)" using a(2) by (rule wp_mono) (rule same_trans [OF that])
        ultimately show "bdata s2 bp = blk s (unat ?b) \<and> wp (brelse bp s2) (same s)" using a(1) by simp
      qed
    qed
    show ?thesis
    proof (subst readi_loop.simps, simp only: False if_False, subst wp_bnd, rule wp_mono [OF bmap_mapped [OF R b S]], clarify)
      fix s1
      assume s1: "same s s1"
      have dev: "ip_dev (icache s1 ip) = 1" using same_fs(1) [OF s1] inode_readyD(5) [OF R] by simp
      show "wp (bnd (bread (ip_dev (icache s1 ip)) (unat ?b) s1) (\<lambda>(bp, s2).
          let m = min n (BSIZE - off mod BSIZE); data = map (\<lambda>k. bdata s2 bp (off mod BSIZE + k)) [0..<m]
          in bnd (brelse bp s2) (\<lambda>s3. bnd (readi_loop ip (off + m) (n - m) s3) (\<lambda>(r, s4). Inr (data @ r, s4)))))
        (\<lambda>(d, s'). d = map (fbyte ip s) [off..<off + n] \<and> same s s')"
        unfolding dev Let_def m_def [symmetric]
      proof (subst wp_bnd, rule wp_mono [OF read [OF s1]], clarify)
        fix bp s2
        assume s2: "bdata s2 bp = blk s (unat ?b)" "wp (brelse bp s2) (same s)"
        show "wp (bnd (brelse bp s2) (\<lambda>s3. bnd (readi_loop ip (off + m) (n - m) s3)
            (\<lambda>(r, s4). Inr (map (\<lambda>k. bdata s2 bp (off mod BSIZE + k)) [0..<m] @ r, s4))))
          (\<lambda>(d, s'). d = map (fbyte ip s) [off..<off + n] \<and> same s s')"
          unfolding s2(1) data
        proof (subst wp_bnd, rule wp_mono [OF s2(2)], subst wp_bnd)
          fix s3
          assume s3: "same s s3"
          show "wp (readi_loop ip (off + m) (n - m) s3) (\<lambda>x. wp (case x of (r, s4) \<Rightarrow>
              Inr (map (fbyte ip s) [off..<off + m] @ r, s4)) (\<lambda>(d, s'). d = map (fbyte ip s) [off..<off + n] \<and> same s s'))"
            by (rule wp_mono [OF tail [OF s3]]) (use join in auto)
        qed
      qed
    qed
  qed
qed

lemma mapped_size: "mapped ip s n \<Longrightarrow> n \<le> 140 * BSIZE"
proof (rule ccontr)
  assume "mapped ip s n" "\<not> n \<le> 140 * BSIZE"
  then have "BSIZE * 140 < n" by simp
  with \<open>mapped ip s n\<close> show False unfolding mapped_def by blast
qed

lemma sint_below_half: "unat n < 2 ^ 31 \<Longrightarrow> sint n = int (unat n)" for n :: u32
proof -
  assume n: "unat n < 2 ^ 31"
  have e: "int (unat n) = uint n" by (rule uint_nat [symmetric])
  have "int (unat n) < int (2 ^ 31)" using n by (simp only: of_nat_less_iff)
  then have u: "uint n < 2 ^ 31" "0 \<le> uint n" unfolding e by simp_all
  have "sint n = signed_take_bit 31 (uint n)" by (simp only: sint_uint) simp
  also have "\<dots> = uint n" using u(1) order_trans [OF _ u(2), of "- (2 ^ 31)"] by (intro signed_take_bit_int_eq_self) simp_all
  finally show ?thesis by (simp only: uint_nat)
qed

end
