(* ===== verification/Fs_Grow.thy ===== *)
theory Fs_Grow
  imports Fs_Data
begin

text \<open>
  \<^verbatim>\<open>bmap\<close> with allocation: the inode gets the blocks it lacks, its other blocks and all other
  blocks in use keep their place and contents, as long as there is room in the log and on the disk.
\<close>

section \<open>Filling a slot of the block map\<close>

definition free_blocks :: "'a fs_scheme \<Rightarrow> nat set" where
  "free_blocks s = {b. b < sb_size (fsb s) \<and> \<not> bused s b}"

lemma finite_free [simp]: "finite (free_blocks s)"
  by (simp add: free_blocks_def)

text \<open>The blocks that change, apart from the free map, when slot \<open>j\<close> gets block \<open>a\<close>.\<close>

definition slot_ext :: "(nat \<Rightarrow> u32) \<Rightarrow> nat \<Rightarrow> nat \<Rightarrow> nat set" where
  "slot_ext A j a = {a} \<union> (if NDIRECT < j then {unat (A NDIRECT)} else {})"

definition slot_set :: "nat \<Rightarrow> nat \<Rightarrow> nat \<Rightarrow> 'a fs_scheme \<Rightarrow> 'a fs_scheme \<Rightarrow> bool" where
  "slot_set ip j a s s' \<longleftrightarrow>
     (let A = ip_addrs (icache s ip); A' = ip_addrs (icache s' ip) in
      inode_ready ip s' \<and> frs s' = frs s \<and>
      icache s' = (icache s)(ip := (icache s ip)\<lparr>ip_addrs := A'\<rparr>) \<and>
      (\<forall>k\<le>140. slot_addr s' A' k = (if k = j then of_nat a else slot_addr s A k)) \<and>
      unat (of_nat a :: u32) = a \<and> a \<noteq> 0 \<and> a \<in> free_blocks s \<and> free_blocks s' = free_blocks s - {a} \<and>
      (\<forall>n. n \<notin> bmap_blocks s \<union> slot_ext A j a \<longrightarrow> blk s' n = blk s n) \<and>
      dirty s \<subseteq> dirty s' \<and> dirty s' \<subseteq> dirty s \<union> bmap_blocks s \<union> slot_ext A j a)"

lemma layout_size: "layout s \<Longrightarrow> sb_size (fsb s) < 2 ^ 32"
proof -
  assume "layout s"
  from arg_cong [OF layoutD(8) [OF this], where f = sb_size] have "sb_size (fsb s) = unat (get32 (blk s 1) 0)"
    by (simp add: sb_of_def)
  also have "\<dots> < 2 ^ 32" using unsigned_less [of "get32 (blk s 1) 0", where ?'a = nat] by simp
  finally show ?thesis .
qed

lemma word_block: "layout s \<Longrightarrow> b < sb_size (fsb s) \<Longrightarrow> unat (of_nat b :: u32) = b"
  using layout_size [of s] by (simp add: unat_of_nat take_bit_eq_mod)

lemma allocated_free:
  assumes "allocated s b s'"
  shows "b \<in> free_blocks s" "free_blocks s' = free_blocks s - {b}"
  using allocatedD [OF assms] fr_fs(1) [OF allocatedD(6) [OF assms]] by (auto simp: free_blocks_def)

lemma alloc_map_block: "allocated s b s' \<Longrightarrow> layout s \<Longrightarrow> b div BPB + sb_bmapstart (fsb s) \<in> bmap_blocks s"
  by (rule layoutD(5)) (auto dest: allocatedD(1))

lemma slot_addr_upd: "slot_addr (upd_inode ip f s) = slot_addr s"
  by (simp add: slot_addr_def fun_eq_iff)

text \<open>A slot in the inode.\<close>

lemma alloc_inode_slot:
  fixes s :: "'a fs_scheme"
  assumes R: "inode_ready ip s" and F: "fits 1 s" "free_blocks s \<noteq> {}" and j: "j \<le> NDIRECT" "ip_addrs (icache s ip) j = 0"
  shows "wp (bnd (balloc (ip_dev (icache s ip)) s) (\<lambda>(addr, s).
      Inr (addr, upd_inode ip (\<lambda>x. x\<lparr>ip_addrs := (ip_addrs x)(j := of_nat addr)\<rparr>) s))) (\<lambda>(a, s'). slot_set ip j a s s')"
proof -
  note D = inode_readyD [OF R]
  let ?A = "ip_addrs (icache s ip)"
  obtain f where f: "f < sb_size (fsb s)" "\<not> bused s f" using F(2) by (auto simp: free_blocks_def)
  have "alloc_ready s" using D F(1) by (simp add: alloc_ready_def)
  from balloc_allocated [OF this f] show ?thesis
    unfolding D(5)
  proof (subst wp_bnd, elim wp_mono, clarify)
    fix a s1
    assume al: "allocated s a s1"
    note P = allocatedD [OF al] and L = allocated_layout [OF D(2) al] and fr = fr_fs [OF P(6)]
    let ?s = "upd_inode ip (\<lambda>x. x\<lparr>ip_addrs := (ip_addrs x)(j := of_nat a)\<rparr>) s1"
    have w: "unat (of_nat a :: u32) = a" by (rule word_block [OF D(2) P(1)])
    have A': "ip_addrs (icache ?s ip) = ?A(j := of_nat a)" using fr(2) by simp
    have sl: "slot_addr ?s (?A(j := of_nat a)) k = (if k = j then of_nat a else slot_addr s ?A k)" if "k \<le> 140" for k
      unfolding slot_addr_upd using slot_direct [OF D(2,6) al j that w] .
    have "map_ok ?s (?A(j := of_nat a))"
    proof (rule map_ok_intro [where j = j and v = "of_nat a", OF sl D(6)])
      show "j \<le> 140" using j by simp
      show "bused ?s (unat (slot_addr s ?A k))" if "k \<le> 140" "slot_addr s ?A k \<noteq> 0" for k
        using map_okD(1,2) [OF D(6) that] P(3) by simp
      show "unat (of_nat a :: u32) < sb_size (fsb s) \<and> bused ?s (unat (of_nat a :: u32)) \<and> unat (of_nat a :: u32) \<notin> meta s \<and>
        \<not> bused s (unat (of_nat a :: u32))"
        unfolding w using P(1-3) L(2) by simp
    qed (use fr in simp_all)
    then have "inode_ready ip ?s" using D L(1) P(7,10) fr(2) A' by (simp add: inode_ready_def)
    moreover have "dirty s1 \<subseteq> dirty s \<union> bmap_blocks s \<union> {a}" "dirty s \<subseteq> dirty s1"
      using P(9) alloc_map_block [OF al D(2)] by auto
    moreover have "frs ?s = frs s" using P(6) by (simp add: frs_fr)
    moreover have "free_blocks ?s = free_blocks s - {a}"
      using allocated_free(2) [OF al] by (simp add: free_blocks_def)
    moreover have "\<forall>n. n \<notin> bmap_blocks s \<union> {a} \<longrightarrow> blk s1 n = blk s n" using P(5) by simp
    ultimately have "slot_set ip j a s ?s"
      unfolding slot_set_def Let_def A' using w L(3) allocated_free(1) [OF al] sl j fr(2)
      by (simp add: slot_ext_def)
    then show "wp (Inr (a, ?s)) (\<lambda>(a, s'). slot_set ip j a s s')" by simp
  qed
qed

text \<open>Changes outside the metadata keep the layout and the free map.\<close>

lemma layout_kept:
  fixes s s' :: "'a fs_scheme"
  assumes L: "layout s" and f: "frs s' = frs s" and m: "\<And>n. n \<in> insert 1 (bmap_blocks s) \<Longrightarrow> blk s' n = blk s n"
  shows "layout s'" "b < sb_size (fsb s) \<Longrightarrow> bused s' b = bused s b" "free_blocks s' = free_blocks s"
proof -
  note F = frsD [OF f]
  show u: "bused s' b = bused s b" if "b < sb_size (fsb s)" for b
    by (rule bused_cong [OF F(1) _ L that]) (use m in blast)
  have "blk s' 1 = blk s 1" by (rule m) simp
  then show "layout s'" using L u layoutD(3) [OF L] unfolding layout_def F by auto
  show "free_blocks s' = free_blocks s" using u F(1) by (auto simp: free_blocks_def)
qed

lemma layout_meta:
  fixes s s' :: "'a fs_scheme"
  assumes "layout s" "frs s' = frs s" and m: "\<And>n. n \<in> meta s \<Longrightarrow> blk s' n = blk s n"
  shows "layout s'" "b < sb_size (fsb s) \<Longrightarrow> bused s' b = bused s b" "free_blocks s' = free_blocks s"
proof -
  have "insert 1 (bmap_blocks s) \<subseteq> meta s" by (auto simp: meta_def)
  then have "blk s' n = blk s n" if "n \<in> insert 1 (bmap_blocks s)" for n using m that by blast
  from layout_kept [OF assms(1,2) this] show "layout s'"
    "b < sb_size (fsb s) \<Longrightarrow> bused s' b = bused s b" "free_blocks s' = free_blocks s" by blast+
qed

text \<open>An entry of the indirect block.\<close>

lemma slot_indirect:
  assumes "A NDIRECT \<noteq> 0" "e < NINDIRECT" "blk s' (unat (A NDIRECT)) = put32 (blk s (unat (A NDIRECT))) (4 * e) v"
  shows "slot_addr s' A k = (if k = e + NDIRECT + 1 then v else slot_addr s A k)"
proof (cases "k \<le> NDIRECT")
  case False
  then consider "k = e + NDIRECT + 1" | "k - NDIRECT - 1 < e" | "e < k - NDIRECT - 1" by linarith
  then show ?thesis using False assms(1,3) by cases (auto simp: slot_addr_def get32_put32_other)
qed (auto simp: slot_addr_def)

definition ind_alloc :: "nat \<Rightarrow> nat \<Rightarrow> nat \<Rightarrow> 'a fs_scheme \<Rightarrow> (nat \<times> 'a fs_scheme) res" where
  "ind_alloc ip e bp s1 =
     bnd (balloc (ip_dev (icache s1 ip)) s1) (\<lambda>(addr, s2).
     bnd (log_write bp (set_data bp (put32 (bdata s2 bp) (4 * e) (of_nat addr)) s2)) (\<lambda>s3.
     bnd (brelse bp s3) (\<lambda>s4. Inr (addr, s4))))"

lemma ind_allocated:
  fixes s s1 s2 s4 :: "'a fs_scheme"
  assumes R: "inode_ready ip s" and A: "ip_addrs (icache s ip) NDIRECT \<noteq> 0" "e < NINDIRECT"
    and s1: "txn s1" "blk s1 = blk s" "dirty s1 = dirty s" "fr s1 = fr s" and al: "allocated s1 a s2"
    and s4: "txn s4" "blk s4 = (blk s2)(unat (ip_addrs (icache s ip) NDIRECT) :=
        put32 (blk s (unat (ip_addrs (icache s ip) NDIRECT))) (4 * e) (of_nat a))"
      "dirty s4 = insert (unat (ip_addrs (icache s ip) NDIRECT)) (dirty s2)" "fr s4 = fr s2" "held s4 = {}"
  shows "slot_set ip (e + NDIRECT + 1) a s s4"
proof -
  let ?A = "ip_addrs (icache s ip)" let ?ib = "unat (?A NDIRECT)" and ?j = "e + NDIRECT + 1"
  note D = inode_readyD [OF R] and I = map_ok_ind [OF inode_readyD(6) [OF R] A(1)]
  note lc = layout_cong [OF s1(2,4)] and F1 = fr_fs [OF s1(4)] and P = allocatedD [OF al]
  have L1: "layout s1" using D(2) lc(1) by simp
  note L = allocated_layout [OF L1 al]
  have f: "fr s4 = fr s" "frs s4 = frs s" "icache s4 = icache s" "frs s4 = frs s2"
    using s4(4) P(6) s1(4) by (simp_all add: frs_fr)
  have ib: "?ib \<noteq> a" "?ib \<notin> bmap_blocks s" using I(2,3) P(2) lc(2) by (auto simp: meta_def)
  have w: "unat (of_nat a :: u32) = a" by (rule word_block [OF L1 P(1)])
  have m: "meta s2 = meta s" using fr_fs(9) [OF P(6)] F1(9) by simp
  have M: "blk s4 n = blk s2 n" if "n \<in> meta s2" for n using that I(3) m s4(2) by auto
  note LM = layout_meta [OF L(1) f(4) M]
  have sl: "slot_addr s4 ?A k = (if k = ?j then of_nat a else slot_addr s ?A k)" for k
    by (rule slot_indirect [where A = ?A, OF A]) (simp add: s4(2))
  have u: "bused s4 c \<longleftrightarrow> c = a \<or> bused s c" if "c < sb_size (fsb s)" for c
    using LM(2) [of c] P(3) [of c] that F1(1) fr_fs(1) [OF P(6)] lc(2) by simp
  have "map_ok s4 ?A"
  proof (rule map_ok_intro [where j = ?j and v = "of_nat a", OF sl D(6)])
    show "?j \<le> 140" using A(2) by simp
    show "bused s4 (unat (slot_addr s ?A k))" if "k \<le> 140" "slot_addr s ?A k \<noteq> 0" for k
      using map_okD(1,2) [OF D(6) that] u by blast
    show "unat (of_nat a :: u32) < sb_size (fsb s) \<and> bused s4 (unat (of_nat a :: u32)) \<and>
        unat (of_nat a :: u32) \<notin> meta s \<and> \<not> bused s (unat (of_nat a :: u32))"
      unfolding w using P(1,2) u L(2) F1 lc(2) by simp
  qed (use fr_fs [OF f(1)] in simp_all)
  then have "inode_ready ip s4" using D LM(1) s4(1,5) f(3) by (simp add: inode_ready_def)
  moreover have "dirty s4 \<subseteq> dirty s \<union> bmap_blocks s \<union> {a, ?ib}" "dirty s \<subseteq> dirty s4"
    using P(9) alloc_map_block [OF al L1] s4(3) s1(3) F1(7) by auto
  moreover have "free_blocks s4 = free_blocks s - {a}" "a \<in> free_blocks s"
    using LM(3) allocated_free [OF al] lc(2) F1(1) by (simp_all add: free_blocks_def)
  moreover have "\<forall>n. n \<notin> bmap_blocks s \<union> {a, ?ib} \<longrightarrow> blk s4 n = blk s n"
    using P(5) s4(2) s1(2) F1(7) by auto
  ultimately show ?thesis
    unfolding slot_set_def Let_def using f(2,3) sl w L(3) by (auto simp: slot_ext_def)
qed

lemma alloc_indirect_slot:
  fixes s :: "'a fs_scheme"
  assumes R: "inode_ready ip s" and F: "fits 2 s" "free_blocks s \<noteq> {}"
    and A: "ip_addrs (icache s ip) NDIRECT \<noteq> 0" "e < NINDIRECT"
  shows "wp (bread 1 (unat (ip_addrs (icache s ip) NDIRECT)) s)
    (\<lambda>(bp, s1). wp (ind_alloc ip e bp s1) (\<lambda>(a, s'). slot_set ip (e + NDIRECT + 1) a s s'))"
proof -
  let ?A = "ip_addrs (icache s ip)" let ?ib = "unat (?A NDIRECT)"
  note D = inode_readyD [OF R] and I = map_ok_ind [OF inode_readyD(6) [OF R] A(1)] and FD = fitsD [OF F(1)]
  have ib: "?ib < disksize s" "?ib \<notin> log_area s" "?ib \<notin> bmap_blocks s"
    using I(1,3) layoutD(2) [OF D(2)] by (auto simp: meta_def)
  show ?thesis
  proof (rule wp_mono [OF tx.get_law [OF D(1) ib(1)]], goal_cases)
    case (3 x)
    obtain bp s1 where x: "x = (bp, s1)" by (cases x)
    with 3 have s1: "txn s1" "blk s1 = blk s" "dirty s1 = dirty s" "fr s1 = fr s"
      "\<And>j m. own s1 j m \<longleftrightarrow> j = bp \<and> m = ?ib" using D(4) by auto
    note F1 = fr_fs [OF s1(4)] and lc = layout_cong [OF s1(2,4)]
    have h: "held s1 = {?ib}" using s1(5) by (auto simp: held_def)
    have fit: "fits 1 s1"
      by (rule fits_step [OF D(1) s1(1) frD(6) [OF s1(4)] F1(7), where X = "{}" and i = 1 and j = 0])
        (use F(1) h D(3) s1(3) in simp_all)
    have rd: "alloc_ready s1" using s1(1) D(2) lc h I ib(3) fit F1 by (simp add: alloc_ready_def)
    obtain f where f: "f < sb_size (fsb s1)" "\<not> bused s1 f" using F(2) F1(1) lc(2) by (auto simp: free_blocks_def)
    have dev: "ip_dev (icache s1 ip) = 1" using D(5) F1(2) by simp
    have "wp (ind_alloc ip e bp s1) (\<lambda>(a, s'). slot_set ip (e + NDIRECT + 1) a s s')"
      unfolding ind_alloc_def dev
    proof (subst wp_bnd, rule wp_mono [OF balloc_allocated [OF rd f]], clarify)
      fix a s2
      assume al: "allocated s1 a s2"
      note P = allocatedD [OF al] and F2 = fr_fs [OF allocatedD(6) [OF al]]
      have o: "own s2 bp ?ib" using P(8) s1(5) by simp
      have ne: "?ib \<noteq> a" using I(2) P(2) lc(2) by auto
      have d: "bdata s2 bp = blk s ?ib"
        using tx.data_law [OF P(7) o] P(5) [of ?ib] ib(3) F1(7) ne s1(2) by simp
      have "fits 0 s2"
        by (rule fits_step [OF s1(1) P(7) frD(6) [OF P(6)] F2(7), where X = "{a}" and i = 0 and j = 1])
          (use P(9,10) alloc_map_block [OF al] D(2) lc(1) fit in auto)
      then have sl: "0 < slots s2" by (rule fitsD(1))
      have la: "?ib \<notin> log_area s2" using ib(2) F1(4) F2(4) by simp
      show "wp (bnd (log_write bp (set_data bp (put32 (bdata s2 bp) (4 * e) (of_nat a)) s2))
          (\<lambda>s3. bnd (brelse bp s3) (\<lambda>s4. Inr (a, s4)))) (\<lambda>(a, s'). slot_set ip (e + NDIRECT + 1) a s s')"
        unfolding d bnd_assoc [symmetric]
      proof (subst wp_bnd, rule wp_mono [OF tx.put_rel [OF P(7) o la sl]], elim conjE)
        fix s4
        assume s4: "txn s4" "blk s4 = (blk s2)(?ib := put32 (blk s ?ib) (4 * e) (of_nat a))"
          "dirty s4 = insert ?ib (dirty s2)" "fr s4 = fr s2" "\<forall>j m. own s4 j m \<longleftrightarrow> own s2 j m \<and> m \<noteq> ?ib"
        have "held s4 = {}" using s4(5) P(8) s1(5) by (auto simp: held_def)
        from ind_allocated [OF R A s1(1-4) al s4(1-4) this]
        show "wp (Inr (a, s4)) (\<lambda>(a, s'). slot_set ip (e + NDIRECT + 1) a s s')" by simp
      qed
    qed
    then show ?case by (simp add: x)
  qed (use D(4) FD(3) in simp_all)
qed

section \<open>Growing a file\<close>

text \<open>The indirect block, once there is one.\<close>

definition indset :: "nat \<Rightarrow> 'a fs_scheme \<Rightarrow> nat set" where
  "indset ip s = (if ip_addrs (icache s ip) NDIRECT = 0 then {} else {unat (ip_addrs (icache s ip) NDIRECT)})"

lemma card_indset: "card (indset ip s) = (if indset ip s = {} then 0 else 1)"
  by (simp add: indset_def)

text \<open>
  The step from \<open>s\<close> to \<open>s'\<close> gives blocks to the inode, those of \<open>Y\<close> to the file and perhaps one as
  the indirect block; nothing else that is in use changes.
\<close>

definition extends :: "nat \<Rightarrow> nat set \<Rightarrow> 'a fs_scheme \<Rightarrow> 'a fs_scheme \<Rightarrow> bool" where
  "extends ip Y s s' \<longleftrightarrow>
     (let A = ip_addrs (icache s ip); A' = ip_addrs (icache s' ip) in
      inode_ready ip s' \<and> frs s' = frs s \<and> icache s' = (icache s)(ip := (icache s ip)\<lparr>ip_addrs := A'\<rparr>) \<and>
      (\<forall>k\<le>140. slot_addr s A k \<noteq> 0 \<longrightarrow> slot_addr s' A' k = slot_addr s A k) \<and>
      (\<forall>k\<le>140. slot_addr s' A' k = slot_addr s A k \<or> unat (slot_addr s' A' k) \<in> free_blocks s) \<and>
      (\<forall>n < sb_size (fsb s). bused s n \<and> n \<notin> bmap_blocks s \<union> indset ip s \<longrightarrow> blk s' n = blk s n) \<and>
      free_blocks s' \<subseteq> free_blocks s \<and> indset ip s' \<subseteq> indset ip s \<union> free_blocks s \<and>
      card (free_blocks s) + card (indset ip s) \<le> card (free_blocks s') + card Y + card (indset ip s') \<and>
      dirty s \<subseteq> dirty s' \<and> dirty s' \<subseteq> dirty s \<union> bmap_blocks s \<union> indset ip s' \<union> Y)"

lemma extendsD:
  assumes "extends ip Y s s'"
  shows "inode_ready ip s'" "frs s' = frs s"
    "icache s' = (icache s)(ip := (icache s ip)\<lparr>ip_addrs := ip_addrs (icache s' ip)\<rparr>)"
    "k \<le> 140 \<Longrightarrow> slot_addr s (ip_addrs (icache s ip)) k \<noteq> 0 \<Longrightarrow>
       slot_addr s' (ip_addrs (icache s' ip)) k = slot_addr s (ip_addrs (icache s ip)) k"
    "n < sb_size (fsb s) \<Longrightarrow> bused s n \<Longrightarrow> n \<notin> bmap_blocks s \<Longrightarrow> n \<notin> indset ip s \<Longrightarrow> blk s' n = blk s n"
    "free_blocks s' \<subseteq> free_blocks s"
    "card (free_blocks s) + card (indset ip s) \<le> card (free_blocks s') + card Y + card (indset ip s')"
    "dirty s \<subseteq> dirty s'" "dirty s' \<subseteq> dirty s \<union> bmap_blocks s \<union> indset ip s' \<union> Y"
    "indset ip s' \<subseteq> indset ip s \<union> free_blocks s"
    "k \<le> 140 \<Longrightarrow> slot_addr s' (ip_addrs (icache s' ip)) k = slot_addr s (ip_addrs (icache s ip)) k \<or>
       unat (slot_addr s' (ip_addrs (icache s' ip)) k) \<in> free_blocks s"
  using assms unfolding extends_def Let_def by blast+

lemma extends_ind: "extends ip Y s s' \<Longrightarrow> indset ip s \<noteq> {} \<Longrightarrow> indset ip s' = indset ip s"
  using extendsD(4) [of ip Y s s' NDIRECT] by (auto simp: indset_def slot_addr_def split: if_splits)

lemma extends_used:
  assumes "extends ip Y s s'" "n < sb_size (fsb s)" "bused s n"
  shows "bused s' n"
  using extendsD(6) [OF assms(1)] assms(2,3) frsD(1) [OF extendsD(2) [OF assms(1)]]
  by (auto simp: free_blocks_def)

lemma extends_trans:
  fixes s t u :: "'a fs_scheme"
  assumes st: "extends ip {} s t" and tu: "extends ip Y t u"
  shows "extends ip Y s u"
proof -
  note S = extendsD [OF st] and T = extendsD [OF tu] and F = frsD [OF extendsD(2) [OF st]]
  have ind: "indset ip s \<subseteq> indset ip t" "indset ip t \<subseteq> indset ip u"
    using extends_ind [OF st] extends_ind [OF tu] by auto
  have frame: "blk u n = blk s n" if n: "n < sb_size (fsb s)" "bused s n" "n \<notin> bmap_blocks s \<union> indset ip s" for n
  proof (cases "n \<in> indset ip t")
    case True
    then show ?thesis using S(10) n by (auto simp: free_blocks_def)
  next
    case False
    then show ?thesis using S(5) [of n] T(5) [of n] n extends_used [OF st n(1,2)] F(1,5) by simp
  qed
  have slots: "slot_addr u (ip_addrs (icache u ip)) k = slot_addr s (ip_addrs (icache s ip)) k"
    if "k \<le> 140" "slot_addr s (ip_addrs (icache s ip)) k \<noteq> 0" for k
    using S(4) [OF that] T(4) [OF that(1)] that(2) by simp
  have new: "slot_addr u (ip_addrs (icache u ip)) k = slot_addr s (ip_addrs (icache s ip)) k \<or>
    unat (slot_addr u (ip_addrs (icache u ip)) k) \<in> free_blocks s" if "k \<le> 140" for k
    using S(11) [OF that] T(11) [OF that] S(6) by auto
  have "dirty u \<subseteq> dirty s \<union> bmap_blocks s \<union> indset ip u \<union> Y" using S(9) T(9) F(5) ind(2) by auto
  moreover have "indset ip u \<subseteq> indset ip s \<union> free_blocks s" using S(10) T(10) S(6) by auto
  moreover have "icache u = (icache s)(ip := (icache s ip)\<lparr>ip_addrs := ip_addrs (icache u ip)\<rparr>)"
  proof -
    obtain B C where "icache t = (icache s)(ip := (icache s ip)\<lparr>ip_addrs := B\<rparr>)"
      "icache u = (icache t)(ip := (icache t ip)\<lparr>ip_addrs := C\<rparr>)" using S(3) T(3) by blast
    then show ?thesis by simp
  qed
  moreover have "card (free_blocks s) + card (indset ip s) \<le> card (free_blocks u) + card Y + card (indset ip u)"
    using S(7) T(7) by simp
  moreover have "free_blocks u \<subseteq> free_blocks s" "dirty s \<subseteq> dirty u" "frs u = frs s" "inode_ready ip u"
    using S T by auto
  ultimately show ?thesis
    unfolding extends_def Let_def using frame slots new by blast
qed

text \<open>Where a slot that was empty gets a block.\<close>

lemma slot_set_extends:
  fixes s s' :: "'a fs_scheme"
  assumes ss: "slot_set ip j a s s'" and R: "inode_ready ip s" and j: "j \<le> 140"
    and e: "slot_addr s (ip_addrs (icache s ip)) j = 0" "NDIRECT < j \<Longrightarrow> ip_addrs (icache s ip) NDIRECT \<noteq> 0"
  shows "extends ip (if j = NDIRECT then {} else {a}) s s'"
proof -
  let ?A = "ip_addrs (icache s ip)" and ?A' = "ip_addrs (icache s' ip)" and ?Y = "if j = NDIRECT then {} else {a}"
  from ss have S: "inode_ready ip s'" "frs s' = frs s" "icache s' = (icache s)(ip := (icache s ip)\<lparr>ip_addrs := ?A'\<rparr>)"
    "\<And>k. k \<le> 140 \<Longrightarrow> slot_addr s' ?A' k = (if k = j then of_nat a else slot_addr s ?A k)"
    "unat (of_nat a :: u32) = a" "a \<noteq> 0" "a \<in> free_blocks s" "free_blocks s' = free_blocks s - {a}"
    "\<And>n. n \<notin> bmap_blocks s \<union> slot_ext ?A j a \<Longrightarrow> blk s' n = blk s n"
    "dirty s \<subseteq> dirty s'" "dirty s' \<subseteq> dirty s \<union> bmap_blocks s \<union> slot_ext ?A j a"
    unfolding slot_set_def Let_def by blast+
  have w: "of_nat a \<noteq> (0 :: u32)" using S(5,6) by (metis unat_0)
  have ind: "indset ip s' = (if j = NDIRECT then {a} else indset ip s)"
    using S(4) [of NDIRECT] S(5) w by (auto simp: indset_def slot_addr_def split: if_splits)
  have i0: "indset ip s = {}" if "j = NDIRECT" using e(1) that by (simp add: indset_def slot_addr_def)
  have ex: "slot_ext ?A j a \<subseteq> {a} \<union> indset ip s" using e(2) by (auto simp: slot_ext_def indset_def)
  have "card (free_blocks s) = card (free_blocks s') + 1"
    using S(7,8) card_Suc_Diff1 [of "free_blocks s" a] by simp
  then have "card (free_blocks s) + card (indset ip s) \<le> card (free_blocks s') + card ?Y + card (indset ip s')"
    using ind i0 by auto
  moreover have "slot_addr s' ?A' k = slot_addr s ?A k" if "k \<le> 140" "slot_addr s ?A k \<noteq> 0" for k
    using S(4) [OF that(1)] that(2) e(1) by auto
  moreover have "slot_addr s' ?A' k = slot_addr s ?A k \<or> unat (slot_addr s' ?A' k) \<in> free_blocks s" if "k \<le> 140" for k
    using S(4) [OF that] S(5,7) by auto
  moreover have "blk s' n = blk s n" if "n < sb_size (fsb s)" "bused s n" "n \<notin> bmap_blocks s \<union> indset ip s" for n
    by (rule S(9)) (use that ex S(7) in \<open>auto simp: free_blocks_def\<close>)
  moreover have "dirty s' \<subseteq> dirty s \<union> bmap_blocks s \<union> indset ip s' \<union> ?Y" using S(11) ex ind i0 by auto
  moreover have "indset ip s' \<subseteq> indset ip s \<union> free_blocks s" using ind S(7) by auto
  ultimately show ?thesis unfolding extends_def Let_def using S(1-3,8,10) by blast
qed

lemma same_extends:
  fixes s s' :: "'a fs_scheme"
  assumes "same s s'" "inode_ready ip s"
  shows "extends ip Y s s'"
proof -
  note F = same_fs [OF assms(1)]
  have "frs s' = frs s" "dirty s' = dirty s" "blk s' = blk s" using assms(1) by (simp_all add: same_def frs_fr)
  moreover have "indset ip s' = indset ip s" "free_blocks s' = free_blocks s" using F by (simp_all add: indset_def free_blocks_def)
  ultimately show ?thesis
    unfolding extends_def Let_def using F(1,3) same_ready(1) [OF assms] by auto
qed

text \<open>
  Room for \<open>k\<close> more blocks of the file, and for the indirect block if it is not there yet: in the
  log, and on the disk.
\<close>

definition log_room :: "nat \<Rightarrow> nat \<Rightarrow> 'a fs_scheme \<Rightarrow> bool" where
  "log_room ip k s \<longleftrightarrow> fits (k + (if indset ip s \<noteq> {} \<and> indset ip s \<subseteq> dirty s then 0 else 1)) s"

definition disk_room :: "nat \<Rightarrow> nat \<Rightarrow> 'a fs_scheme \<Rightarrow> bool" where
  "disk_room ip k s \<longleftrightarrow> k + 1 \<le> card (free_blocks s) + card (indset ip s)"

lemma fits_mono: "fits k s \<Longrightarrow> j \<le> k \<Longrightarrow> fits j s"
  by (simp add: fits_def)

lemma log_room_fits: "log_room ip k s \<Longrightarrow> j \<le> k \<Longrightarrow> fits j s"
  unfolding log_room_def by (erule fits_mono) simp

lemma disk_room_step:
  assumes "extends ip Y s s'" "card Y \<le> j" "disk_room ip (k + j) s"
  shows "disk_room ip k s'"
  using extendsD(7) [OF assms(1)] assms(2,3) by (simp add: disk_room_def)

lemma disk_room_free: "disk_room ip 1 s \<Longrightarrow> free_blocks s \<noteq> {}"
  by (auto simp: disk_room_def card_indset split: if_splits)

lemma log_room_step:
  fixes s s' :: "'a fs_scheme"
  assumes t: "txn s" "txn s'" "frs s' = frs s" and h: "held s = {}" "held s' = {}"
    and d: "dirty s \<subseteq> dirty s'" "dirty s' \<subseteq> dirty s \<union> bmap_blocks s \<union> indset ip s' \<union> Y"
    and i: "indset ip s \<noteq> {} \<Longrightarrow> indset ip s' = indset ip s"
    and Y: "finite Y" "card Y \<le> j" and r: "log_room ip (k + j) s"
  shows "log_room ip k s'"
proof -
  note F = frsD [OF t(3)]
  have fin: "finite (indset ip s')" by (simp add: indset_def)
  show ?thesis
  proof (cases "indset ip s' \<noteq> {} \<and> indset ip s' \<subseteq> dirty s' \<and> \<not> indset ip s' \<subseteq> dirty s")
    case True
    then have "fits (k + j + 1) s" using r i unfolding log_room_def by (auto split: if_splits)
    moreover have "card (indset ip s' \<union> Y) \<le> j + 1"
      using card_Un_le [of "indset ip s'" Y] Y(2) card_indset [of ip s'] by (simp split: if_splits)
    ultimately have "fits k s'"
      by (intro fits_step [OF t(1,2) F(9,5), where X = "indset ip s' \<union> Y" and i = 0 and j = "j + 1"])
        (use h d Y(1) fin in \<open>auto simp: ac_simps\<close>)
    then show ?thesis using True by (simp add: log_room_def)
  next
    case False
    let ?f = "\<lambda>u. if indset ip u \<noteq> {} \<and> indset ip u \<subseteq> dirty u then 0 else 1 :: nat"
    have le: "?f s' \<le> ?f s" using i d(1) by auto
    have "dirty s' \<subseteq> dirty s \<union> bmap_blocks s \<union> Y"
    proof
      fix n assume n: "n \<in> dirty s'"
      show "n \<in> dirty s \<union> bmap_blocks s \<union> Y"
      proof (cases "n \<in> indset ip s'")
        case True
        then have "indset ip s' = {n}" by (auto simp: indset_def split: if_splits)
        then show ?thesis using False n by auto
      qed (use n d(2) in auto)
    qed
    moreover have "fits (k + ?f s' + 0 + j) s"
      by (rule fits_mono [OF r [unfolded log_room_def]]) (use le in linarith)
    ultimately have "fits (k + ?f s') s'"
      by (intro fits_step [OF t(1,2) F(9,5), where X = Y and i = 0 and j = j]) (use h d(1) Y in simp_all)
    then show ?thesis by (simp only: log_room_def)
  qed
qed

lemma extends_log_room:
  fixes s s' :: "'a fs_scheme"
  assumes "extends ip Y s s'" "inode_ready ip s" "finite Y" "card Y \<le> j" "log_room ip (k + j) s"
  shows "log_room ip k s'"
  using log_room_step [OF inode_readyD(1) [OF assms(2)] _ extendsD(2) [OF assms(1)] inode_readyD(3) [OF assms(2)] _
      extendsD(8,9) [OF assms(1)] extends_ind [OF assms(1)] assms(3,4,5)]
    inode_readyD [OF extendsD(1) [OF assms(1)]] by blast

text \<open>\<^verbatim>\<open>bmap\<close> of any block of a file within the limits, there or not.\<close>

definition grown :: "nat \<Rightarrow> nat \<Rightarrow> nat \<Rightarrow> 'a fs_scheme \<Rightarrow> 'a fs_scheme \<Rightarrow> bool" where
  "grown ip bn a s s' \<longleftrightarrow> extends ip {a} s s' \<and> fblock ip s' bn \<noteq> 0 \<and> a = unat (fblock ip s' bn)"

lemma slot_set_grown:
  fixes s s' :: "'a fs_scheme"
  assumes ss: "slot_set ip (slot_of bn) a s s'" and R: "inode_ready ip s" and bn: "bn < 140" "fblock ip s bn = 0"
    and e: "NDIRECT \<le> bn \<Longrightarrow> ip_addrs (icache s ip) NDIRECT \<noteq> 0"
  shows "grown ip bn a s s'"
proof -
  have j: "slot_of bn \<noteq> NDIRECT" "NDIRECT < slot_of bn \<Longrightarrow> NDIRECT \<le> bn" by (auto simp: slot_of_def split: if_splits)
  have "extends ip {a} s s'"
    using slot_set_extends [OF ss R slot_of_le [OF bn(1)]] bn(2) e j by (simp add: fblock_def)
  moreover have "fblock ip s' bn = of_nat a" "unat (of_nat a :: u32) = a" "a \<noteq> 0"
    using ss slot_of_le [OF bn(1)] by (auto simp: slot_set_def Let_def fblock_def)
  ultimately show ?thesis unfolding grown_def by (metis unat_0)
qed

lemma bmap_indirect:
  fixes s :: "'a fs_scheme"
  assumes R: "inode_ready ip s" and F: "fits 2 s" "free_blocks s \<noteq> {}"
    and A: "ip_addrs (icache s ip) NDIRECT \<noteq> 0" and bn: "NDIRECT \<le> bn" "bn < 140" "fblock ip s bn = 0"
  shows "wp (bread (ip_dev (icache s ip)) (unat (ip_addrs (icache s ip) NDIRECT)) s) (\<lambda>(bp, s1).
    get32 (bdata s1 bp) (4 * (bn - NDIRECT)) = 0 \<and> wp (ind_alloc ip (bn - NDIRECT) bp s1) (\<lambda>(a, s'). grown ip bn a s s'))"
proof -
  let ?ib = "unat (ip_addrs (icache s ip) NDIRECT)"
  note D = inode_readyD [OF R]
  have z: "get32 (blk s ?ib) (4 * (bn - NDIRECT)) = 0"
    using bn A by (simp add: fblock_def slot_of_def slot_addr_def)
  have "?ib < disksize s" using map_ok_ind(1) [OF D(6) A] layoutD(2) [OF D(2)] by simp
  from wp_conj [OF peek_same [OF R this] alloc_indirect_slot [OF R F A, of "bn - NDIRECT"]]
  have "wp (bread 1 ?ib s) (\<lambda>x. (case x of (bp, s1) \<Rightarrow> bdata s1 bp = blk s ?ib \<and> icache s1 = icache s \<and>
      wp (brelse bp s1) (\<lambda>s2. same s s2)) \<and> (case x of (bp, s1) \<Rightarrow>
      wp (ind_alloc ip (bn - NDIRECT) bp s1) (\<lambda>(a, s'). slot_set ip (bn - NDIRECT + NDIRECT + 1) a s s')))"
    using fitsD(1) [OF F(1)] bn by simp
  then show ?thesis
    unfolding D(5)
  proof (rule wp_mono, clarify, intro conjI)
    fix bp s1
    assume b: "bdata s1 bp = blk s ?ib" "wp (ind_alloc ip (bn - NDIRECT) bp s1)
      (\<lambda>(a, s'). slot_set ip (bn - NDIRECT + NDIRECT + 1) a s s')"
    show "get32 (bdata s1 bp) (4 * (bn - NDIRECT)) = 0" using b(1) z by simp
    have "slot_of bn = bn - NDIRECT + NDIRECT + 1" using bn(1) by (simp add: slot_of_def)
    with b(2) show "wp (ind_alloc ip (bn - NDIRECT) bp s1) (\<lambda>(a, s'). grown ip bn a s s')"
      using slot_set_grown [OF _ R bn(2,3) A] by (intro wp_mono [OF b(2)]) auto
  qed
qed

lemma bmap_eq:
  "bmap ip bn s =
     (if bn < NDIRECT then
        if ip_addrs (icache s ip) bn = 0 then
          bnd (balloc (ip_dev (icache s ip)) s) (\<lambda>(addr, s).
          Inr (addr, upd_inode ip (\<lambda>x. x\<lparr>ip_addrs := (ip_addrs x)(bn := of_nat addr)\<rparr>) s))
        else Inr (unat (ip_addrs (icache s ip) bn), s)
      else if bn - NDIRECT < NINDIRECT then
        bnd (if ip_addrs (icache s ip) NDIRECT = 0 then
               bnd (balloc (ip_dev (icache s ip)) s) (\<lambda>(addr, s).
               Inr (addr, upd_inode ip (\<lambda>x. x\<lparr>ip_addrs := (ip_addrs x)(NDIRECT := of_nat addr)\<rparr>) s))
             else Inr (unat (ip_addrs (icache s ip) NDIRECT), s)) (\<lambda>(addr, s).
        bnd (bread (ip_dev (icache s ip)) addr s) (\<lambda>(bp, s1).
        if get32 (bdata s1 bp) (4 * (bn - NDIRECT)) = 0 then ind_alloc ip (bn - NDIRECT) bp s1
        else bnd (brelse bp s1) (\<lambda>s2. Inr (unat (get32 (bdata s1 bp) (4 * (bn - NDIRECT))), s2))))
      else Inl (Panic ''bmap: out of range''))"
  unfolding bmap_def ind_alloc_def Let_def ..

lemma grown_trans: "extends ip {} s t \<Longrightarrow> grown ip bn a t u \<Longrightarrow> grown ip bn a s u"
  by (auto simp: grown_def dest: extends_trans)

lemma bmap_grows:
  fixes s :: "'a fs_scheme"
  assumes R: "inode_ready ip s" and bn: "bn < 140" and room: "log_room ip 2 s" "disk_room ip 1 s"
  shows "wp (bmap ip bn s) (\<lambda>(a, s'). grown ip bn a s s')"
proof -
  let ?A = "ip_addrs (icache s ip)"
  have F: "fits 2 s" "fits 1 s" "free_blocks s \<noteq> {}"
    using log_room_fits [OF room(1)] disk_room_free [OF room(2)] by simp_all
  have ind: "wp (bread (ip_dev (icache t ip)) (unat (ip_addrs (icache t ip) NDIRECT)) t) (\<lambda>x. wp (case x of (bp, s1) \<Rightarrow>
      if get32 (bdata s1 bp) (4 * (bn - NDIRECT)) = 0 then ind_alloc ip (bn - NDIRECT) bp s1
      else bnd (brelse bp s1) (\<lambda>s2. Inr (unat (get32 (bdata s1 bp) (4 * (bn - NDIRECT))), s2)))
      (\<lambda>(a, s'). grown ip bn a s s'))"
    if t: "extends ip {} s t" "inode_ready ip t" "fblock ip t bn = 0" "ip_addrs (icache t ip) NDIRECT \<noteq> 0" "NDIRECT \<le> bn" for t
  proof -
    have "log_room ip 2 t" "disk_room ip 1 t"
      using extends_log_room [OF t(1) R, of 0 2] disk_room_step [OF t(1), of 0 1] room by simp_all
    then have "fits 2 t" "free_blocks t \<noteq> {}"
      using log_room_fits disk_room_free by blast+
    from bmap_indirect [OF t(2) this t(4,5) bn t(3)] show ?thesis
    proof (rule wp_mono, clarify)
      fix bp s1
      assume z: "get32 (bdata s1 bp) (4 * (bn - NDIRECT)) = 0"
        "wp (ind_alloc ip (bn - NDIRECT) bp s1) (\<lambda>(a, s'). grown ip bn a t s')"
      have "wp (ind_alloc ip (bn - NDIRECT) bp s1) (\<lambda>(a, s'). grown ip bn a s s')"
        by (rule wp_mono [OF z(2)]) (auto dest: grown_trans [OF t(1)])
      with z(1) show "wp (if get32 (bdata s1 bp) (4 * (bn - NDIRECT)) = 0 then ind_alloc ip (bn - NDIRECT) bp s1
        else bnd (brelse bp s1) (\<lambda>s2. Inr (unat (get32 (bdata s1 bp) (4 * (bn - NDIRECT))), s2)))
        (\<lambda>(a, s'). grown ip bn a s s')" by simp
    qed
  qed
  consider (there) "fblock ip s bn \<noteq> 0" | (direct) "fblock ip s bn = 0" "bn < NDIRECT"
    | (entry) "fblock ip s bn = 0" "NDIRECT \<le> bn" "?A NDIRECT \<noteq> 0" | (both) "fblock ip s bn = 0" "NDIRECT \<le> bn" "?A NDIRECT = 0"
    by linarith
  then show ?thesis
  proof cases
    case there
    show ?thesis
      by (rule wp_mono [OF bmap_mapped [OF R bn there]])
        (use there fitsD(1) [OF F(1)] same_extends [OF _ R] in \<open>auto simp: grown_def same_fs(4)\<close>)
  next
    case direct
    have j: "bn \<le> NDIRECT" "?A bn = 0" "slot_of bn = bn" using direct by (simp_all add: fblock_def slot_of_def slot_addr_def)
    have "wp (bmap ip bn s) (\<lambda>(a, s'). slot_set ip bn a s s')"
      unfolding bmap_eq using direct(2) j(2) alloc_inode_slot [OF R F(2,3) j(1,2)] by simp
    then show ?thesis
      by (rule wp_mono) (use slot_set_grown [OF _ R bn direct(1)] j(3) direct(2) in auto)
  next
    case entry
    show ?thesis
      unfolding bmap_eq using entry bn ind [OF same_extends [OF same_refl R] R entry(1,3,2)] inode_readyD(1) [OF R] by simp
  next
    case both
    have a0: "wp (bnd (balloc (ip_dev (icache s ip)) s) (\<lambda>(addr, s).
        Inr (addr, upd_inode ip (\<lambda>x. x\<lparr>ip_addrs := (ip_addrs x)(NDIRECT := of_nat addr)\<rparr>) s))) (\<lambda>(a, s'). slot_set ip NDIRECT a s s')"
      by (rule alloc_inode_slot [OF R F(2,3) _ both(3)]) simp
    have "wp (bread (ip_dev (icache t ip)) a t) (\<lambda>x. wp (case x of (bp, s1) \<Rightarrow>
        if get32 (bdata s1 bp) (4 * (bn - NDIRECT)) = 0 then ind_alloc ip (bn - NDIRECT) bp s1
        else bnd (brelse bp s1) (\<lambda>s2. Inr (unat (get32 (bdata s1 bp) (4 * (bn - NDIRECT))), s2)))
        (\<lambda>(a, s'). grown ip bn a s s'))" if st: "slot_set ip NDIRECT a s t" for a t
    proof -
      have x: "extends ip {} s t"
        using slot_set_extends [OF st R] both(3) by (simp add: slot_addr_def)
      have sl: "\<And>k. k \<le> 140 \<Longrightarrow> slot_addr t (ip_addrs (icache t ip)) k = (if k = NDIRECT then of_nat a else slot_addr s ?A k)"
        and w: "unat (of_nat a :: u32) = a" "a \<noteq> 0" using st unfolding slot_set_def Let_def by blast+
      have A: "ip_addrs (icache t ip) NDIRECT = of_nat a" using sl [of NDIRECT] by (simp add: slot_addr_def)
      have "of_nat a \<noteq> (0 :: u32)" using w by (metis unat_0)
      moreover have "fblock ip t bn = 0"
        using sl [OF slot_of_le [OF bn]] both(1,2) by (simp add: fblock_def slot_of_def split: if_splits)
      ultimately show ?thesis using ind [OF x extendsD(1) [OF x] _ _ both(2)] A w(1) by simp
    qed
    note next_step = this
    have c: "\<not> bn < NDIRECT" "bn - NDIRECT < NINDIRECT" using both bn by auto
    show ?thesis
      unfolding bmap_eq if_not_P [OF c(1)] if_P [OF c(2)] if_P [OF both(3)] wp_bnd [of "bnd _ _"]
      by (rule wp_mono [OF a0]) (clarify, unfold wp_bnd, rule next_step)
  qed
qed

end
