(* ===== verification/Fs_Write.thy ===== *)
theory Fs_Write
  imports Fs_Grow
begin

text \<open>
  \<^verbatim>\<open>writei\<close>: the file afterwards has the new bytes at the given offset and its other bytes as
  before, and no block of another file has changed. With \<^verbatim>\<open>readi\<close> this gives that what was written
  is read back.
\<close>

section \<open>Writing into one block\<close>

definition block_written :: "nat \<Rightarrow> nat \<Rightarrow> nat \<Rightarrow> u8 list \<Rightarrow> 'a fs_scheme \<Rightarrow> 'a fs_scheme \<Rightarrow> bool" where
  "block_written ip bn p bs s s' \<longleftrightarrow>
     inode_ready ip s' \<and> frs s' = frs s \<and>
     icache s' = (icache s)(ip := (icache s ip)\<lparr>ip_addrs := ip_addrs (icache s' ip)\<rparr>) \<and>
     fblock ip s' bn \<noteq> 0 \<and> (\<forall>k<140. fblock ip s k \<noteq> 0 \<longrightarrow> fblock ip s' k = fblock ip s k) \<and>
     (\<exists>d. blk s' (unat (fblock ip s' bn)) = put_bytes d p bs \<and>
        (fblock ip s bn \<noteq> 0 \<longrightarrow> d = blk s (unat (fblock ip s bn)))) \<and>
     (\<forall>k<140. k \<noteq> bn \<and> fblock ip s k \<noteq> 0 \<longrightarrow> blk s' (unat (fblock ip s k)) = blk s (unat (fblock ip s k))) \<and>
     (\<forall>n < sb_size (fsb s). bused s n \<and> n \<notin> bmap_blocks s \<union> inode_blks s (ip_addrs (icache s ip)) \<longrightarrow> blk s' n = blk s n) \<and>
     (\<forall>n < sb_size (fsb s). bused s n \<longrightarrow> bused s' n) \<and>
     inode_blks s' (ip_addrs (icache s' ip)) \<subseteq> inode_blks s (ip_addrs (icache s ip)) \<union> free_blocks s"

lemma slot_of_inj: "slot_of a = slot_of b \<Longrightarrow> a = b"
  by (auto simp: slot_of_def split: if_splits)

lemma slot_of_ind: "slot_of bn \<noteq> NDIRECT"
  by (simp add: slot_of_def)

lemma fblock_distinct:
  assumes "inode_ready ip s" "j < 140" "k < 140" "fblock ip s j \<noteq> 0" "unat (fblock ip s j) = unat (fblock ip s k)"
  shows "j = k"
proof -
  have "fblock ip s j = fblock ip s k" using assms(5) by (simp only: word_unat_eq_iff)
  then show ?thesis
    using map_okD(4) [OF inode_readyD(6) [OF assms(1)] slot_of_le [OF assms(2)] _ slot_of_le [OF assms(3)]] assms(4)
    by (auto simp: fblock_def dest: slot_of_inj)
qed

lemma fblock_not_ind:
  assumes "inode_ready ip s" "k < 140" "fblock ip s k \<noteq> 0"
  shows "unat (fblock ip s k) \<notin> indset ip s"
proof
  assume "unat (fblock ip s k) \<in> indset ip s"
  then have "unat (fblock ip s k) = unat (slot_addr s (ip_addrs (icache s ip)) NDIRECT)"
    by (auto simp: indset_def slot_addr_def split: if_splits)
  then have "fblock ip s k = slot_addr s (ip_addrs (icache s ip)) NDIRECT" by (simp only: word_unat_eq_iff)
  then have "slot_of k = NDIRECT"
    using map_okD(4) [OF inode_readyD(6) [OF assms(1)] slot_of_le [OF assms(2)], of NDIRECT] assms(3) by (simp add: fblock_def)
  then show False using slot_of_ind by blast
qed

lemma fblock_inode_blks: "k < 140 \<Longrightarrow> fblock ip s k \<noteq> 0 \<Longrightarrow> unat (fblock ip s k) \<in> inode_blks s (ip_addrs (icache s ip))"
  unfolding inode_blks_def fblock_def using slot_of_le by blast

lemma indset_inode_blks: "indset ip s \<subseteq> inode_blks s (ip_addrs (icache s ip))"
  by (auto simp: indset_def inode_blks_def slot_addr_def intro!: exI [of _ NDIRECT])

text \<open>Overwriting a data block leaves the block map alone.\<close>

lemma overwrite_ready:
  fixes s s' :: "'a fs_scheme"
  assumes R: "inode_ready ip s" and k: "k < 140" "fblock ip s k \<noteq> 0"
    and s': "txn s'" "blk s' = (blk s)(unat (fblock ip s k) := d)" "own s' = own s" "fr s' = fr s"
  shows "inode_ready ip s'" "slot_addr s' (ip_addrs (icache s ip)) = slot_addr s (ip_addrs (icache s ip))"
    "free_blocks s' = free_blocks s" "b < sb_size (fsb s) \<Longrightarrow> bused s' b = bused s b"
proof -
  note D = inode_readyD [OF R] and F = fr_fs [OF s'(4)]
  let ?A = "ip_addrs (icache s ip)"
  have f: "frs s' = frs s" using s'(4) by (simp add: frs_fr)
  have m: "blk s' n = blk s n" if "n \<in> meta s" for n using that fblock_ok(2) [OF R k] s'(2) by auto
  note L = layout_meta [OF D(2) f m]
  show sl: "slot_addr s' ?A = slot_addr s ?A"
  proof -
    have "blk s' (unat (?A NDIRECT)) = blk s (unat (?A NDIRECT))" if "?A NDIRECT \<noteq> 0"
      using fblock_not_ind [OF R k] s'(2) that by (simp add: indset_def)
    then show ?thesis by (intro ext) (simp add: slot_addr_def)
  qed
  show "free_blocks s' = free_blocks s" by (rule L(3))
  show "b < sb_size (fsb s) \<Longrightarrow> bused s' b = bused s b" by (rule L(2))
  have "map_ok s' ?A" unfolding map_ok_def sl F
    using map_okD [OF D(6)] L(2) by blast
  then show "inode_ready ip s'" using D L(1) s'(1,3) F(2) by (simp add: inode_ready_def held_def)
qed

lemma grown_written:
  fixes s s1 s' :: "'a fs_scheme"
  assumes R: "inode_ready ip s" and bn: "bn < 140" and g: "grown ip bn a s s1"
    and s': "txn s'" "blk s' = (blk s1)(a := put_bytes (blk s1 a) p bs)" "own s' = own s1" "fr s' = fr s1"
  shows "block_written ip bn p bs s s'"
proof -
  have x: "extends ip {a} s s1" and b: "fblock ip s1 bn \<noteq> 0" "a = unat (fblock ip s1 bn)"
    using g by (auto simp: grown_def)
  note X = extendsD [OF x] and R1 = extendsD(1) [OF x]
  note O = overwrite_ready [OF R1 bn b(1) s'(1) s'(2) [unfolded b(2)] s'(3,4)]
  have ic: "icache s' = icache s1" by (rule fr_fs(2) [OF s'(4)])
  have fb: "fblock ip s' = fblock ip s1" using O(2) ic by (simp add: fblock_def fun_eq_iff)
  have keep: "fblock ip s1 k = fblock ip s k" if "k < 140" "fblock ip s k \<noteq> 0" for k
    using X(4) [OF slot_of_le [OF that(1)]] that(2) by (simp add: fblock_def)
  have frame1: "blk s1 (unat (fblock ip s k)) = blk s (unat (fblock ip s k))" if "k < 140" "fblock ip s k \<noteq> 0" for k
    by (rule X(5)) (use fblock_ok [OF R that] fblock_not_ind [OF R that] in \<open>auto simp: meta_def\<close>)
  have data: "\<exists>d. blk s' (unat (fblock ip s' bn)) = put_bytes d p bs \<and>
      (fblock ip s bn \<noteq> 0 \<longrightarrow> d = blk s (unat (fblock ip s bn)))"
    using s'(2) b(2) fb keep [OF bn] frame1 [OF bn] by auto
  have other: "blk s' (unat (fblock ip s k)) = blk s (unat (fblock ip s k))" if "k < 140" "k \<noteq> bn" "fblock ip s k \<noteq> 0" for k
  proof -
    have "unat (fblock ip s k) \<noteq> a"
      using fblock_distinct [OF R1 that(1) bn] keep [OF that(1,3)] that b(2) by auto
    then show ?thesis using s'(2) frame1 [OF that(1,3)] by simp
  qed
  have blks: "inode_blks s' (ip_addrs (icache s' ip)) \<subseteq> inode_blks s (ip_addrs (icache s ip)) \<union> free_blocks s"
    using X(11) O(2) ic by (auto simp: inode_blks_def) (metis (no_types))
  have "blk s' n = blk s n" if n: "n < sb_size (fsb s)" "bused s n" "n \<notin> bmap_blocks s \<union> inode_blks s (ip_addrs (icache s ip))" for n
  proof -
    have "n \<notin> indset ip s" using n(3) indset_inode_blks by blast
    then have "blk s1 n = blk s n" using X(5) n by simp
    moreover have "n \<noteq> a"
    proof
      assume "n = a"
      then have "n \<in> inode_blks s' (ip_addrs (icache s' ip))"
        using fblock_inode_blks [OF bn, of ip s'] b fb by simp
      then show False using blks n by (auto simp: free_blocks_def)
    qed
    ultimately show ?thesis using s'(2) by simp
  qed
  moreover have "bused s' n" if "n < sb_size (fsb s)" "bused s n" for n
    using extends_used [OF x that] O(4) [of n] that(1) frsD(1) [OF X(2)] by simp
  moreover have "frs s' = frs s" using X(2) s'(4) by (simp add: frs_fr)
  ultimately show ?thesis
    unfolding block_written_def using O(1) X(3) ic fb b(1) keep data other blks by auto
qed

lemma write_piece:
  fixes s :: "'a fs_scheme"
  assumes R: "inode_ready ip s" and bn: "bn < 140" and room: "log_room ip (k + 2) s" "disk_room ip (m + 1) s"
  shows "wp (bmap ip bn s) (\<lambda>(addr, s1).
    wp (bnd (bread (ip_dev (icache s1 ip)) addr s1) (\<lambda>(bp, s2).
        bnd (log_write bp (set_data bp (put_bytes (bdata s2 bp) p bs) s2)) (brelse bp)))
      (\<lambda>s'. block_written ip bn p bs s s' \<and> log_room ip (k + 1) s' \<and> disk_room ip m s'))"
proof -
  have r: "log_room ip 2 s" using room(1) unfolding log_room_def by (rule fits_mono) simp
  have r': "disk_room ip 1 s" using room(2) by (simp add: disk_room_def)
  show ?thesis
  proof (rule wp_mono [OF bmap_grows [OF R bn r r']], clarify)
    fix a s1
    assume g: "grown ip bn a s s1"
    then have x: "extends ip {a} s s1" and b: "fblock ip s1 bn \<noteq> 0" "a = unat (fblock ip s1 bn)"
      by (auto simp: grown_def)
    note X = extendsD [OF x] and D = inode_readyD [OF R] and D1 = inode_readyD [OF extendsD(1) [OF x]]
    note ok = fblock_ok [OF X(1) bn b(1), folded b(2)]
    have rm: "log_room ip (k + 1 + 1) s" using room(1) by (simp only: add.assoc one_add_one)
    have "log_room ip (k + 1) s1" by (rule extends_log_room [OF x R _ _ rm]) simp_all
    then have "fits 1 s1" by (rule log_room_fits) simp
    then have sl: "0 < slots s1" by (rule fitsD(1))
    have u: "wp (bnd (bread 1 a s1) (\<lambda>(bp, s2). bnd (log_write bp (set_data bp (put_bytes (bdata s2 bp) p bs) s2)) (brelse bp)))
      (\<lambda>s'. txn s' \<and> blk s' = (blk s1)(a := put_bytes (blk s1 a) p bs) \<and> dirty s' = insert a (dirty s1) \<and>
         own s' = own s1 \<and> fr s' = fr s1)"
      by (rule tx.update) (use D1 ok sl in simp_all)
    show "wp (bnd (bread (ip_dev (icache s1 ip)) a s1) (\<lambda>(bp, s2).
        bnd (log_write bp (set_data bp (put_bytes (bdata s2 bp) p bs) s2)) (brelse bp)))
      (\<lambda>s'. block_written ip bn p bs s s' \<and> log_room ip (k + 1) s' \<and> disk_room ip m s')"
      unfolding D1(5)
    proof (rule wp_mono [OF u], elim conjE, intro conjI)
      fix s'
      assume s': "txn s'" "blk s' = (blk s1)(a := put_bytes (blk s1 a) p bs)" "dirty s' = insert a (dirty s1)"
        "own s' = own s1" "fr s' = fr s1"
      show "block_written ip bn p bs s s'" by (rule grown_written [OF R bn g s'(1,2,4,5)])
      have i: "indset ip s' = indset ip s1" using fr_fs(2) [OF s'(5)] by (simp add: indset_def)
      have h: "held s' = {}" using D1(3) s'(4) by (simp add: held_def)
      have f: "frs s' = frs s" using s'(5) X(2) by (simp add: frs_fr)
      show "log_room ip (k + 1) s'"
        by (rule log_room_step [OF D(1) s'(1) f D(3) h _ _ _ _ _ rm, where Y = "{a}"])
          (use X(8,9) s'(3) i extends_ind [OF x] in auto)
      have "free_blocks s' = free_blocks s1"
        using overwrite_ready(3) [OF X(1) bn b(1) s'(1) s'(2) [unfolded b(2)] s'(4,5)] .
      then show "disk_room ip m s'"
        using disk_room_step [OF x, of 1 m] room(2) i by (simp add: disk_room_def)
    qed
  qed
qed

section \<open>The loop\<close>

text \<open>\<open>s'\<close> is \<open>s\<close> with \<open>src\<close> written at offset \<open>off\<close> of the file, which had \<open>M\<close> bytes mapped.\<close>

definition written :: "nat \<Rightarrow> nat \<Rightarrow> nat \<Rightarrow> u8 list \<Rightarrow> 'a fs_scheme \<Rightarrow> 'a fs_scheme \<Rightarrow> bool" where
  "written ip M off src s s' \<longleftrightarrow>
     inode_ready ip s' \<and> frs s' = frs s \<and>
     icache s' = (icache s)(ip := (icache s ip)\<lparr>ip_addrs := ip_addrs (icache s' ip)\<rparr>) \<and>
     mapped ip s' (max M (off + length src)) \<and>
     (\<forall>i < max M (off + length src). fbyte ip s' i =
        (if off \<le> i \<and> i < off + length src then src ! (i - off) else fbyte ip s i)) \<and>
     (\<forall>n < sb_size (fsb s). bused s n \<and> n \<notin> bmap_blocks s \<union> inode_blks s (ip_addrs (icache s ip)) \<longrightarrow> blk s' n = blk s n) \<and>
     (\<forall>n < sb_size (fsb s). bused s n \<longrightarrow> bused s' n) \<and>
     inode_blks s' (ip_addrs (icache s' ip)) \<subseteq> inode_blks s (ip_addrs (icache s ip)) \<union> free_blocks s"

lemma in_block:
  fixes off i m :: nat
  assumes "m \<le> BSIZE - off mod BSIZE"
  shows "off \<le> i \<and> i < off + m \<longleftrightarrow> i div BSIZE = off div BSIZE \<and> off mod BSIZE \<le> i mod BSIZE \<and> i mod BSIZE < off mod BSIZE + m"
proof -
  have e: "off = off div BSIZE * BSIZE + off mod BSIZE" "i = i div BSIZE * BSIZE + i mod BSIZE" by simp_all
  have l: "off mod BSIZE < BSIZE" "i mod BSIZE < BSIZE" by simp_all
  show ?thesis
  proof
    assume h: "off \<le> i \<and> i < off + m"
    have "i div BSIZE \<le> off div BSIZE"
    proof (rule ccontr)
      assume "\<not> ?thesis"
      then have "(off div BSIZE + 1) * BSIZE \<le> i div BSIZE * BSIZE" by (intro mult_right_mono) simp_all
      then have "off div BSIZE * BSIZE + BSIZE \<le> i div BSIZE * BSIZE" by (simp only: add_mult_distrib mult_1)
      then show False using h e l assms by linarith
    qed
    moreover have "off div BSIZE \<le> i div BSIZE" using h by (intro div_le_mono) simp
    ultimately have q: "i div BSIZE = off div BSIZE" by simp
    then show "i div BSIZE = off div BSIZE \<and> off mod BSIZE \<le> i mod BSIZE \<and> i mod BSIZE < off mod BSIZE + m"
      using h e by linarith
  next
    assume "i div BSIZE = off div BSIZE \<and> off mod BSIZE \<le> i mod BSIZE \<and> i mod BSIZE < off mod BSIZE + m"
    then show "off \<le> i \<and> i < off + m" using e by linarith
  qed
qed

lemma block_written_written:
  fixes s s' :: "'a fs_scheme"
  assumes bw: "block_written ip (off div BSIZE) (off mod BSIZE) src s s'" and M: "mapped ip s M" "off \<le> M"
    and m: "0 < length src" "length src \<le> BSIZE - off mod BSIZE" and q: "off div BSIZE < 140"
  shows "written ip M off src s s'"
proof -
  let ?q = "off div BSIZE" and ?p = "off mod BSIZE"
  have B1: "fblock ip s' ?q \<noteq> 0"
    and B2: "\<forall>k<140. fblock ip s k \<noteq> 0 \<longrightarrow> fblock ip s' k = fblock ip s k"
    and B5: "\<forall>k<140. k \<noteq> ?q \<and> fblock ip s k \<noteq> 0 \<longrightarrow> blk s' (unat (fblock ip s k)) = blk s (unat (fblock ip s k))"
    and ex: "\<exists>d. blk s' (unat (fblock ip s' ?q)) = put_bytes d ?p src \<and>
      (fblock ip s ?q \<noteq> 0 \<longrightarrow> d = blk s (unat (fblock ip s ?q)))"
    using bw unfolding block_written_def by - (elim conjE, assumption)+
  from ex obtain d where B3: "blk s' (unat (fblock ip s' ?q)) = put_bytes d ?p src"
    and B4: "fblock ip s ?q \<noteq> 0 \<longrightarrow> d = blk s (unat (fblock ip s ?q))" by blast
  have map: "bn < 140 \<and> fblock ip s' bn \<noteq> 0" if h: "BSIZE * bn < max M (off + length src)" for bn
  proof (cases "BSIZE * bn < M")
    case True
    then show ?thesis using M(1) B2 by (simp add: mapped_def)
  next
    case False
    then have "off \<le> BSIZE * bn \<and> BSIZE * bn < off + length src" using h M(2) by linarith
    then have "BSIZE * bn div BSIZE = ?q" using in_block [OF m(2)] by blast
    then show ?thesis using B1 q by simp
  qed
  have byte: "fbyte ip s' i = (if off \<le> i \<and> i < off + length src then src ! (i - off) else fbyte ip s i)"
    if h: "i < max M (off + length src)" for i
  proof (cases "off \<le> i \<and> i < off + length src")
    case True
    then have c: "i div BSIZE = ?q" "?p \<le> i mod BSIZE" "i mod BSIZE < ?p + length src" using in_block [OF m(2)] by blast+
    have "i - off = i mod BSIZE - ?p"
      using c(1,2) div_mult_mod_eq [of i BSIZE] div_mult_mod_eq [of off BSIZE] True by linarith
    then show ?thesis using True c B3 by (simp add: fbyte_def put_bytes_def)
  next
    case False
    then have i: "i < M" using h M(2) by linarith
    note k = mappedD [OF M(1) i]
    show ?thesis
    proof (cases "i div BSIZE = ?q")
      case True
      then have "\<not> (?p \<le> i mod BSIZE \<and> i mod BSIZE < ?p + length src)" using False in_block [OF m(2)] by blast
      then show ?thesis using False True k B3 B4 by (auto simp: fbyte_def put_bytes_def)
    next
      case other: False
      then show ?thesis using False k B2 B5 by (auto simp: fbyte_def)
    qed
  qed
  show ?thesis
    using bw unfolding written_def block_written_def mapped_def
    by - (elim conjE, intro conjI, (assumption | use map byte in blast)+)
qed

lemma written_trans:
  fixes s t u :: "'a fs_scheme"
  assumes st: "written ip M off xs s t" and tu: "written ip (max M (off + length xs)) (off + length xs) ys t u"
    and M: "off \<le> M"
  shows "written ip M off (xs @ ys) s u"
proof -
  let ?M = "max M (off + length xs)" and ?A = "\<lambda>s. ip_addrs (icache s ip)"
  from st have S: "frs t = frs s" "icache t = (icache s)(ip := (icache s ip)\<lparr>ip_addrs := ?A t\<rparr>)"
    "\<And>i. i < ?M \<Longrightarrow> fbyte ip t i = (if off \<le> i \<and> i < off + length xs then xs ! (i - off) else fbyte ip s i)"
    "\<And>n. n < sb_size (fsb s) \<Longrightarrow> bused s n \<Longrightarrow> n \<notin> bmap_blocks s \<union> inode_blks s (?A s) \<Longrightarrow> blk t n = blk s n"
    "\<And>n. n < sb_size (fsb s) \<Longrightarrow> bused s n \<Longrightarrow> bused t n" "inode_blks t (?A t) \<subseteq> inode_blks s (?A s) \<union> free_blocks s"
    unfolding written_def by blast+
  from tu have T: "inode_ready ip u" "frs u = frs t" "icache u = (icache t)(ip := (icache t ip)\<lparr>ip_addrs := ?A u\<rparr>)"
    "mapped ip u (max ?M (off + length xs + length ys))"
    "\<And>i. i < max ?M (off + length xs + length ys) \<Longrightarrow> fbyte ip u i =
      (if off + length xs \<le> i \<and> i < off + length xs + length ys then ys ! (i - (off + length xs)) else fbyte ip t i)"
    "\<And>n. n < sb_size (fsb t) \<Longrightarrow> bused t n \<Longrightarrow> n \<notin> bmap_blocks t \<union> inode_blks t (?A t) \<Longrightarrow> blk u n = blk t n"
    "\<And>n. n < sb_size (fsb t) \<Longrightarrow> bused t n \<Longrightarrow> bused u n" "inode_blks u (?A u) \<subseteq> inode_blks t (?A t) \<union> free_blocks t"
    unfolding written_def by blast+
  note F = frsD [OF S(1)]
  have mx: "max ?M (off + length xs + length ys) = max M (off + length (xs @ ys))" by simp
  have byte: "fbyte ip u i = (if off \<le> i \<and> i < off + length (xs @ ys) then (xs @ ys) ! (i - off) else fbyte ip s i)"
    if "i < max M (off + length (xs @ ys))" for i
    using T(5) [of i] S(3) [of i] that M by (auto simp: nth_append)
  have fr: "free_blocks t \<subseteq> free_blocks s" using S(5) F(1) by (auto simp: free_blocks_def)
  have frame: "blk u n = blk s n"
    if n: "n < sb_size (fsb s)" "bused s n" "n \<notin> bmap_blocks s \<union> inode_blks s (?A s)" for n
  proof -
    have "n \<notin> inode_blks t (?A t)" using S(6) n by (auto simp: free_blocks_def)
    then show ?thesis using S(4,5) [OF n(1,2)] T(6) [of n] n F(1,5) by simp
  qed
  obtain B C where "icache t = (icache s)(ip := (icache s ip)\<lparr>ip_addrs := B\<rparr>)"
    "icache u = (icache t)(ip := (icache t ip)\<lparr>ip_addrs := C\<rparr>)" using S(2) T(3) by blast
  then have "icache u = (icache s)(ip := (icache s ip)\<lparr>ip_addrs := ?A u\<rparr>)" by simp
  moreover have "inode_blks u (?A u) \<subseteq> inode_blks s (?A s) \<union> free_blocks s" using T(8) S(6) fr by blast
  moreover have "frs u = frs s" using T(2) S(1) by simp
  moreover have "bused u n" if "n < sb_size (fsb s)" "bused s n" for n using S(5) [OF that] T(7) [of n] that(1) F(1) by simp
  ultimately show ?thesis
    unfolding written_def using T(1) T(4) [unfolded mx] byte frame by blast
qed

end
