(* ===== verification/Fs_Rw.thy ===== *)
theory Fs_Rw
  imports Fs_Write
begin

text \<open>
  \<^verbatim>\<open>writei\<close> and \<^verbatim>\<open>readi\<close> as operations on the bytes of a file: what a write changes, what a read
  returns, and that a read after a write returns what was written.
\<close>

section \<open>The loop of writei\<close>

text \<open>The number of blocks that \<open>n\<close> bytes at offset \<open>off\<close> touch.\<close>

definition nblk :: "nat \<Rightarrow> nat \<Rightarrow> nat" where
  "nblk off n = (if n = 0 then 0 else (off mod BSIZE + n + (BSIZE - 1)) div BSIZE)"

lemma nblk_step:
  assumes "0 < n" "m = min n (BSIZE - off mod BSIZE)"
  shows "nblk off n = nblk (off + m) (n - m) + 1"
proof (cases "n \<le> BSIZE - off mod BSIZE")
  case True
  then have "m = n" using assms(2) by simp
  moreover have "(off mod BSIZE + n + (BSIZE - 1)) div BSIZE = 1"
    by (rule div_nat_eqI) (use True assms(1) in simp_all)
  ultimately show ?thesis using assms(1) by (simp add: nblk_def)
next
  case False
  then have m: "m = BSIZE - off mod BSIZE" using assms(2) by simp
  have l: "off mod BSIZE < BSIZE" by simp
  have "off + m = (off div BSIZE + 1) * BSIZE"
    using div_mult_mod_eq [of off BSIZE] l unfolding m add_mult_distrib by linarith
  then have z: "(off + m) mod BSIZE = 0" by (simp only: mod_mult_self2_is_0)
  have "off mod BSIZE + n + (BSIZE - 1) = (n - m + (BSIZE - 1)) + BSIZE" using False l unfolding m by linarith
  then have "(off mod BSIZE + n + (BSIZE - 1)) div BSIZE = (n - m + (BSIZE - 1)) div BSIZE + 1"
    by (simp only: div_add_self2)
  moreover have "n - m \<noteq> 0" using False l m by linarith
  ultimately show ?thesis using assms(1) z by (simp add: nblk_def)
qed

lemma written_refl:
  assumes "inode_ready ip s" "mapped ip s M" "off \<le> M"
  shows "written ip M off [] s s"
  using assms by (auto simp: written_def max_absorb1)

lemma writei_loop_step:
  fixes s :: "'a fs_scheme"
  assumes "src \<noteq> []" "m = min (length src) (BSIZE - off mod BSIZE)"
    and "wp (bmap ip (off div BSIZE) s) (\<lambda>(addr, s1).
      wp (bnd (bread (ip_dev (icache s1 ip)) addr s1) (\<lambda>(bp, s2).
        bnd (log_write bp (set_data bp (put_bytes (bdata s2 bp) (off mod BSIZE) (take m src)) s2)) (brelse bp)))
      (\<lambda>s'. wp (writei_loop ip (off + m) (drop m src) s') Q))"
  shows "wp (writei_loop ip off src s) Q"
  using assms by (subst writei_loop.simps) (simp add: Let_def case_prod_unfold)

lemma writei_loop_bytes:
  fixes s :: "'a fs_scheme"
  assumes "inode_ready ip s" "mapped ip s M" "off \<le> M" "off + length src \<le> 140 * BSIZE"
    and "log_room ip (k + nblk off (length src) + 1) s" "disk_room ip (d + nblk off (length src)) s"
  shows "wp (writei_loop ip off src s) (\<lambda>s'. written ip M off src s s' \<and> log_room ip (k + 1) s' \<and> disk_room ip d s')"
  using assms
proof (induct "length src" arbitrary: src off s M rule: less_induct)
  case less
  show ?case
  proof (cases "src = []")
    case True
    then show ?thesis using less.prems written_refl
      by (subst writei_loop.simps) (simp add: nblk_def)
  next
    case False
    define m where m: "m = min (length src) (BSIZE - off mod BSIZE)"
    have l: "off mod BSIZE < BSIZE" by simp
    have m0: "0 < m" "m \<le> length src" "m \<le> BSIZE - off mod BSIZE" using m False l by auto
    have nb: "nblk off (length src) = nblk (off + m) (length (drop m src)) + 1"
      using nblk_step [OF _ m] False by simp
    have q: "off div BSIZE < 140"
      by (rule less_mult_imp_div_less) (use less.prems(4) length_greater_0_conv [of src] False in linarith)
    have lr: "log_room ip (k + nblk (off + m) (length (drop m src)) + 2) s"
      and dr: "disk_room ip (d + nblk (off + m) (length (drop m src)) + 1) s"
      using less.prems(5,6) unfolding nb by (simp_all only: add.assoc one_add_one)
    show ?thesis
    proof (rule writei_loop_step [OF False m], rule wp_mono [OF write_piece [OF less.prems(1) q lr dr]], clarify,
        rule wp_mono, assumption, elim conjE)
      fix s1
      assume b: "block_written ip (off div BSIZE) (off mod BSIZE) (take m src) s s1"
        and r1: "log_room ip (k + nblk (off + m) (length (drop m src)) + 1) s1"
        "disk_room ip (d + nblk (off + m) (length (drop m src))) s1"
      have w: "written ip M off (take m src) s s1"
        by (rule block_written_written [OF b less.prems(2,3) _ _ q]) (use m0 in simp_all)
      then have i1: "inode_ready ip s1" "mapped ip s1 (max M (off + m))" using m0(2) by (simp_all add: written_def)
      have "wp (writei_loop ip (off + m) (drop m src) s1) (\<lambda>s'. written ip (max M (off + m)) (off + m) (drop m src) s1 s' \<and>
          log_room ip (k + 1) s' \<and> disk_room ip d s')"
        by (rule less.hyps [OF _ i1 _ _ r1]) (use m0 False less.prems(4) in auto)
      then show "wp (writei_loop ip (off + m) (drop m src) s1)
          (\<lambda>s'. written ip M off src s s' \<and> log_room ip (k + 1) s' \<and> disk_room ip d s')"
        by (rule wp_mono) (use written_trans [OF w _ less.prems(3), of "drop m src"] m0(2) in auto)
    qed
  qed
qed

section \<open>Writing the inode back\<close>

text \<open>A change of the inode block leaves the file and the free map alone.\<close>

lemma inode_block_ready:
  fixes s s' :: "'a fs_scheme"
  assumes R: "inode_ready ip s" and b: "b \<in> inode_blocks s"
    and s': "txn s'" "blk s' = (blk s)(b := d)" "own s' = own s" "fr s' = fr s"
  shows "inode_ready ip s'" "fblock ip s' = fblock ip s" "free_blocks s' = free_blocks s"
    "mapped ip s n \<Longrightarrow> i < n \<Longrightarrow> fbyte ip s' i = fbyte ip s i"
    "inode_blks s' (ip_addrs (icache s ip)) = inode_blks s (ip_addrs (icache s ip))"
    "\<forall>n < sb_size (fsb s). bused s' n = bused s n"
proof -
  note D = inode_readyD [OF R] and F = fr_fs [OF s'(4)]
  let ?A = "ip_addrs (icache s ip)"
  have f: "frs s' = frs s" using s'(4) by (simp add: frs_fr)
  have m: "b \<in> meta s" using b by (simp add: meta_def)
  have "b \<notin> insert 1 (bmap_blocks s)" using b D(2) unfolding layout_def by blast
  then have "blk s' n = blk s n" if "n \<in> insert 1 (bmap_blocks s)" for n using that s'(2) by auto
  note L = layout_kept [OF D(2) f this]
  have sl: "slot_addr s' ?A = slot_addr s ?A"
  proof -
    have "unat (?A NDIRECT) \<noteq> b" if "?A NDIRECT \<noteq> 0"
      using map_okD(3) [OF D(6), of NDIRECT] that m by (auto simp: slot_addr_def)
    then show ?thesis by (intro ext) (simp add: slot_addr_def s'(2))
  qed
  show fb: "fblock ip s' = fblock ip s" using sl F(2) by (simp add: fblock_def fun_eq_iff)
  show "free_blocks s' = free_blocks s" by (rule L(3))
  show "\<forall>n < sb_size (fsb s). bused s' n = bused s n" using L(2) by blast
  show "inode_blks s' ?A = inode_blks s ?A" by (simp add: inode_blks_def sl)
  show "fbyte ip s' i = fbyte ip s i" if "mapped ip s n" "i < n"
  proof -
    have "unat (fblock ip s (i div BSIZE)) \<noteq> b" using fblock_ok(2) [OF R] mappedD [OF that] m by blast
    then show ?thesis by (simp add: fbyte_def fb s'(2))
  qed
  have "map_ok s' ?A" unfolding map_ok_def sl F using map_okD [OF D(6)] L(2) by blast
  then show "inode_ready ip s'" using D L(1) s'(1,3) F(2) by (simp add: inode_ready_def held_def)
qed

lemma iupdate_writes:
  fixes s :: "'a fs_scheme"
  assumes R: "inode_ready ip s" and n: "ip_inum (icache s ip) \<le> sb_ninodes (fsb s)" and sl: "0 < slots s"
  shows "wp (iupdate ip s) (\<lambda>s'. txn s' \<and>
    blk s' = (blk s)(IBLOCK (ip_inum (icache s ip)) (fsb s) :=
      put_dinode (icache s ip) (dip_off (ip_inum (icache s ip))) (blk s (IBLOCK (ip_inum (icache s ip)) (fsb s)))) \<and>
    dirty s' = insert (IBLOCK (ip_inum (icache s ip)) (fsb s)) (dirty s) \<and> own s' = own s \<and> fr s' = fr s)"
proof -
  note D = inode_readyD [OF R]
  have b: "IBLOCK (ip_inum (icache s ip)) (fsb s) \<in> inode_blocks s"
    using n by (auto simp: IBLOCK_def inode_blocks_def intro: div_le_mono)
  then have "IBLOCK (ip_inum (icache s ip)) (fsb s) < disksize s" "IBLOCK (ip_inum (icache s ip)) (fsb s) \<notin> log_area s"
    using layoutD(2,3,7) [OF D(2)] by (meson less_le_trans)+
  then show ?thesis unfolding iupdate_def D(5) by (intro tx.update) (use D sl in simp_all)
qed

section \<open>writei\<close>

text \<open>\<open>s'\<close> is \<open>s\<close> with \<open>src\<close> stored at offset \<open>off\<close> of file \<open>ip\<close>: its size, its bytes, the inode on disk, and all other blocks in use.\<close>

definition iblock :: "nat \<Rightarrow> 'a fs_scheme \<Rightarrow> nat" where
  "iblock ip s = IBLOCK (ip_inum (icache s ip)) (fsb s)"

definition fsize :: "nat \<Rightarrow> 'a fs_scheme \<Rightarrow> nat" where
  "fsize ip s = unat (ip_size (icache s ip))"

definition stored :: "nat \<Rightarrow> nat \<Rightarrow> u8 list \<Rightarrow> 'a fs_scheme \<Rightarrow> 'a fs_scheme \<Rightarrow> bool" where
  "stored ip off src s s' \<longleftrightarrow>
     inode_ready ip s' \<and> frs s' = frs s \<and>
     icache s' = (icache s)(ip := (icache s ip)\<lparr>ip_size := ip_size (icache s' ip), ip_addrs := ip_addrs (icache s' ip)\<rparr>) \<and>
     fsize ip s' = max (fsize ip s) (off + length src) \<and> mapped ip s' (fsize ip s') \<and>
     (\<forall>i < fsize ip s'. fbyte ip s' i =
        (if off \<le> i \<and> i < off + length src then src ! (i - off) else fbyte ip s i)) \<and>
     blk s' (iblock ip s) = (if fsize ip s < off + length src
        then put_dinode (icache s' ip) (dip_off (ip_inum (icache s ip))) (blk s (iblock ip s)) else blk s (iblock ip s)) \<and>
     (\<forall>n < sb_size (fsb s). bused s n \<and> n \<noteq> iblock ip s \<and> n \<notin> bmap_blocks s \<union> inode_blks s (ip_addrs (icache s ip)) \<longrightarrow>
        blk s' n = blk s n) \<and>
     (\<forall>n < sb_size (fsb s). bused s n \<longrightarrow> bused s' n)"

lemma writtenD:
  assumes "written ip M off src s s'"
  shows "inode_ready ip s'" "frs s' = frs s"
    "icache s' = (icache s)(ip := (icache s ip)\<lparr>ip_addrs := ip_addrs (icache s' ip)\<rparr>)"
    "mapped ip s' (max M (off + length src))"
    "i < max M (off + length src) \<Longrightarrow> fbyte ip s' i = (if off \<le> i \<and> i < off + length src then src ! (i - off) else fbyte ip s i)"
    "n < sb_size (fsb s) \<Longrightarrow> bused s n \<Longrightarrow> n \<notin> bmap_blocks s \<union> inode_blks s (ip_addrs (icache s ip)) \<Longrightarrow> blk s' n = blk s n"
    "n < sb_size (fsb s) \<Longrightarrow> bused s n \<Longrightarrow> bused s' n"
  using assms unfolding written_def by blast+

lemma writtenI:
  assumes "written ip M off src s s'"
  shows "ip_size (icache s' ip) = ip_size (icache s ip)" "ip_inum (icache s' ip) = ip_inum (icache s ip)"
    "fsb s' = fsb s" "iblock ip s' = iblock ip s"
proof -
  obtain B where "icache s' = (icache s)(ip := (icache s ip)\<lparr>ip_addrs := B\<rparr>)" using writtenD(3) [OF assms] by blast
  then show i: "ip_size (icache s' ip) = ip_size (icache s ip)" "ip_inum (icache s' ip) = ip_inum (icache s ip)" by simp_all
  show "fsb s' = fsb s" using frsD(1) [OF writtenD(2) [OF assms]] .
  then show "iblock ip s' = iblock ip s" using i by (simp add: iblock_def)
qed

text \<open>The block of the inode is neither a map block nor a block of the file.\<close>

lemma iblock_ok:
  assumes R: "inode_ready ip s" and n: "ip_inum (icache s ip) \<le> sb_ninodes (fsb s)"
  shows "iblock ip s \<in> inode_blocks s" "iblock ip s < sb_size (fsb s)" "bused s (iblock ip s)"
    "iblock ip s \<notin> bmap_blocks s \<union> inode_blks s (ip_addrs (icache s ip))"
proof -
  note D = inode_readyD [OF R]
  show b: "iblock ip s \<in> inode_blocks s"
    using n by (auto simp: iblock_def IBLOCK_def inode_blocks_def intro: div_le_mono)
  then have m: "iblock ip s \<in> meta s" by (simp add: meta_def)
  then show "iblock ip s < sb_size (fsb s)" "bused s (iblock ip s)" using layoutD(3,4) [OF D(2)] by blast+
  have "iblock ip s \<notin> bmap_blocks s" using b D(2) unfolding layout_def by blast
  moreover have "iblock ip s \<notin> inode_blks s (ip_addrs (icache s ip))"
    using map_okD(3) [OF D(6)] m unfolding inode_blks_def mem_Collect_eq by metis
  ultimately show "iblock ip s \<notin> bmap_blocks s \<union> inode_blks s (ip_addrs (icache s ip))" by blast
qed

lemma stored_kept:
  assumes R: "inode_ready ip s" and n: "ip_inum (icache s ip) \<le> sb_ninodes (fsb s)"
    and w: "written ip (fsize ip s) off src s s'" and z: "off + length src \<le> fsize ip s"
  shows "stored ip off src s s'"
proof -
  note W = writtenD [OF w] and I = writtenI [OF w] and ib = iblock_ok [OF R n]
  have fs: "fsize ip s' = fsize ip s" by (simp add: fsize_def I(1))
  obtain B where B: "icache s' = (icache s)(ip := (icache s ip)\<lparr>ip_addrs := B\<rparr>)" using W(3) by blast
  have "icache s' = (icache s)(ip := (icache s ip)\<lparr>ip_size := ip_size (icache s' ip), ip_addrs := ip_addrs (icache s' ip)\<rparr>)"
    unfolding B by simp
  moreover have "blk s' (iblock ip s) = blk s (iblock ip s)" by (rule W(6) [OF ib(2-4)])
  ultimately show ?thesis
    unfolding stored_def using W(1,2,4-7) fs z by (simp add: max_absorb1)
qed

lemma map_ok_upd: "map_ok (upd_inode ip f s) = map_ok s"
  by (simp add: map_ok_def slot_addr_upd fun_eq_iff)

lemma stored_grown:
  fixes s s1 s' :: "'a fs_scheme"
  assumes R: "inode_ready ip s" and n: "ip_inum (icache s ip) \<le> sb_ninodes (fsb s)"
    and w: "written ip (fsize ip s) off src s s1" and z: "fsize ip s < off + length src" "unat v = off + length src"
    and s2: "s2 = upd_inode ip (\<lambda>x. x\<lparr>ip_size := v\<rparr>) s1"
    and s': "txn s'" "blk s' = (blk s2)(iblock ip s :=
      put_dinode (icache s2 ip) (dip_off (ip_inum (icache s ip))) (blk s2 (iblock ip s)))" "own s' = own s2" "fr s' = fr s2"
  shows "stored ip off src s s'" "free_blocks s' = free_blocks s1"
proof -
  note W = writtenD [OF w] and I = writtenI [OF w] and ib = iblock_ok [OF R n] and F = frsD [OF W(2)]
  note D1 = inode_readyD [OF W(1)]
  have R2: "inode_ready ip s2"
    using D1 by (simp add: s2 inode_ready_def map_ok_upd)
  have b2: "iblock ip s \<in> inode_blocks s2" using ib(1) F(6) by (simp add: s2)
  note U = inode_block_ready [OF R2 b2 s']
  have fb: "fblock ip s2 = fblock ip s1" by (simp add: s2 fblock_def slot_addr_upd fun_eq_iff)
  then have by2: "fbyte ip s2 = fbyte ip s1" by (simp add: s2 fbyte_def fun_eq_iff)
  have m1: "mapped ip s2 (off + length src)" using W(4) z(1) fb by (simp add: mapped_def max_absorb2)
  have f': "frs s' = frs s" "icache s' = icache s2" using s'(4) W(2) by (simp_all add: frs_fr s2)
  obtain B where B: "icache s1 = (icache s)(ip := (icache s ip)\<lparr>ip_addrs := B\<rparr>)" using W(3) by blast
  have ic: "icache s' = (icache s)(ip := (icache s ip)\<lparr>ip_size := ip_size (icache s' ip), ip_addrs := ip_addrs (icache s' ip)\<rparr>)"
    unfolding f'(2) by (cases "icache s ip") (simp add: s2 B)
  have fz: "fsize ip s' = off + length src" using z(2) unfolding fsize_def f'(2) by (simp add: s2)
  have ind: "blk s2 (iblock ip s) = blk s (iblock ip s)" using W(6) [OF ib(2-4)] by (simp add: s2)
  have byte: "fbyte ip s' i = (if off \<le> i \<and> i < off + length src then src ! (i - off) else fbyte ip s i)"
    if "i < off + length src" for i
    using U(4) [OF m1 that] W(5) [of i] that by2 by simp
  have keep: "blk s' k = blk s k"
    if "k < sb_size (fsb s)" "bused s k" "k \<noteq> iblock ip s" "k \<notin> bmap_blocks s \<union> inode_blks s (ip_addrs (icache s ip))" for k
    using W(6) [OF that(1,2,4)] that(3) s'(2) by (simp add: s2)
  have used: "bused s' k" if "k < sb_size (fsb s)" "bused s k" for k
    using U(6) W(7) [OF that] that(1) F(1) by (simp add: s2)
  have mp: "mapped ip s' (fsize ip s')" using m1 U(2) unfolding mapped_def fz by simp
  show "stored ip off src s s'"
    unfolding stored_def
  proof (intro conjI allI impI)
    show "blk s' (iblock ip s) = (if fsize ip s < off + length src
        then put_dinode (icache s' ip) (dip_off (ip_inum (icache s ip))) (blk s (iblock ip s)) else blk s (iblock ip s))"
      using z(1) s'(2) ind f'(2) by simp
    show "fsize ip s' = max (fsize ip s) (off + length src)" using fz z(1) by simp
  qed (use U(1) f' ic mp byte keep used fz in auto)
  show "free_blocks s' = free_blocks s1" using U(3) by (simp add: s2 free_blocks_def)
qed

lemma size_stored:
  fixes s s1 :: "'a fs_scheme"
  assumes R: "inode_ready ip s" and n: "ip_inum (icache s ip) \<le> sb_ninodes (fsb s)"
    and w: "written ip (fsize ip s) off src s s1" and z: "fsize ip s < off + length src" "unat v = off + length src"
    and r: "log_room ip (k + 1) s1" "disk_room ip d s1"
  shows "wp (iupdate ip (upd_inode ip (\<lambda>x. x\<lparr>ip_size := v\<rparr>) s1))
    (\<lambda>s'. stored ip off src s s' \<and> log_room ip k s' \<and> disk_room ip d s')"
proof -
  define s2 where s2: "s2 = upd_inode ip (\<lambda>x. x\<lparr>ip_size := v\<rparr>) s1"
  note W = writtenD [OF w] and I = writtenI [OF w]
  note D1 = inode_readyD [OF W(1)]
  have R2: "inode_ready ip s2" using D1 by (simp add: s2 inode_ready_def map_ok_upd)
  have ib: "IBLOCK (ip_inum (icache s2 ip)) (fsb s2) = iblock ip s" "ip_inum (icache s2 ip) = ip_inum (icache s ip)"
    using I by (simp_all add: s2 iblock_def)
  have "fits 1 s1" using r(1) by (rule log_room_fits) simp
  then have sl: "0 < slots s2" using fitsD(1) by (simp add: s2)
  have n2: "ip_inum (icache s2 ip) \<le> sb_ninodes (fsb s2)" using n I by (simp add: s2)
  show ?thesis
    unfolding s2 [symmetric]
  proof (rule wp_mono [OF iupdate_writes [OF R2 n2 sl, unfolded ib(1), unfolded ib(2)]], elim conjE, intro conjI)
    fix s'
    assume s': "txn s'" "blk s' = (blk s2)(iblock ip s :=
        put_dinode (icache s2 ip) (dip_off (ip_inum (icache s ip))) (blk s2 (iblock ip s)))"
      "dirty s' = insert (iblock ip s) (dirty s2)" "own s' = own s2" "fr s' = fr s2"
    show "stored ip off src s s'" by (rule stored_grown [OF R n w z s2 s'(1,2,4,5)])
    have ic: "icache s' = icache s2" "frs s' = frs s1" using s'(5) by (simp_all add: frs_fr s2)
    have x: "indset ip s' = indset ip s1" by (simp add: indset_def ic s2)
    have h: "held s' = {}" using D1(3) s'(4) by (simp add: held_def s2)
    show "log_room ip k s'"
      by (rule log_room_step [OF D1(1) s'(1) ic(2) D1(3) h _ _ _ _ _ r(1), where Y = "{iblock ip s}"])
        (use x s'(3) in \<open>auto simp: s2\<close>)
    show "disk_room ip d s'"
      using r(2) x stored_grown(2) [OF R n w z s2 s'(1,2,4,5)] by (simp add: disk_room_def)
  qed
qed

lemma write_bounds:
  fixes off n :: u32
  assumes "unat off + unat n \<le> 140 * BSIZE"
  shows "unat (off + n) = unat off + unat n" "\<not> off + n < off" "\<not> off + n > of_nat (MAXFILE * BSIZE)" "sint n = int (unat n)"
proof -
  have l: "unat off + unat n < 2 ^ 32" using assms by simp
  show u: "unat (off + n) = unat off + unat n"
    by (subst unat_word_ariths) (use l in simp)
  show "\<not> off + n < off" using u by (simp add: word_less_nat_alt)
  have "unat (of_nat (MAXFILE * BSIZE) :: u32) = 140 * BSIZE" by (simp add: MAXFILE_def)
  then show "\<not> off + n > of_nat (MAXFILE * BSIZE)" using u assms by (simp only: word_less_nat_alt not_less)
  show "sint n = int (unat n)" by (rule sint_below_half) (use assms in simp)
qed

lemma write_bounds_iff:
  fixes off n :: u32
  assumes "\<not> off + n < off" "\<not> off + n > of_nat (MAXFILE * BSIZE)"
  shows "unat off + unat n \<le> 140 * BSIZE"
proof -
  have u: "unat (off + n) = unat off + unat n" using assms(1) unfolding not_less by (simp only: unat_plus_simple)
  have "unat (of_nat (MAXFILE * BSIZE) :: u32) = 140 * BSIZE" by (simp add: MAXFILE_def)
  then show ?thesis using assms(2) u by (simp only: word_less_nat_alt not_less)
qed

lemma writei_stored:
  fixes s :: "'a fs_scheme"
  assumes R: "inode_ready ip s" and ty: "ip_type (icache s ip) \<noteq> T_DEV" and M: "mapped ip s (fsize ip s)"
    and i: "ip_inum (icache s ip) \<le> sb_ninodes (fsb s)"
    and off: "off \<le> ip_size (icache s ip)" "unat off + unat n \<le> 140 * BSIZE" and len: "length src = unat n"
    and room: "log_room ip (k + nblk (unat off) (unat n) + 1) s" "disk_room ip (d + nblk (unat off) (unat n)) s"
  shows "wp (writei devsw ip src off n s) (\<lambda>(r, s'). r = int (unat n) \<and> stored ip (unat off) src s s' \<and>
    log_room ip k s' \<and> disk_room ip d s')"
proof -
  note B = write_bounds [OF off(2)]
  have o: "unat off \<le> fsize ip s" using off(1) by (simp add: word_le_nat_alt fsize_def)
  have "wp (writei_loop ip (unat off) src s) (\<lambda>s'. written ip (fsize ip s) (unat off) src s s' \<and>
      log_room ip (k + 1) s' \<and> disk_room ip d s')"
    by (rule writei_loop_bytes [OF R M o]) (use off(2) len room in simp_all)
  then have "wp (writei_loop ip (unat off) src s) (\<lambda>s1.
      wp (if n > 0 \<and> off + n > ip_size (icache s1 ip)
          then iupdate ip (upd_inode ip (\<lambda>x. x\<lparr>ip_size := off + n\<rparr>) s1) else Inr s1)
        (\<lambda>s'. stored ip (unat off) src s s' \<and> log_room ip k s' \<and> disk_room ip d s'))"
  proof (rule wp_mono, elim conjE)
    fix s1
    assume w: "written ip (fsize ip s) (unat off) src s s1" and r: "log_room ip (k + 1) s1" "disk_room ip d s1"
    note W = writtenD [OF w] and I = writtenI [OF w]
    have c: "(n > 0 \<and> off + n > ip_size (icache s1 ip)) \<longleftrightarrow> fsize ip s < unat off + length src"
      using o B(1) len by (auto simp: I word_less_nat_alt fsize_def)
    show "wp (if n > 0 \<and> off + n > ip_size (icache s1 ip)
          then iupdate ip (upd_inode ip (\<lambda>x. x\<lparr>ip_size := off + n\<rparr>) s1) else Inr s1)
        (\<lambda>s'. stored ip (unat off) src s s' \<and> log_room ip k s' \<and> disk_room ip d s')"
    proof (cases "fsize ip s < unat off + length src")
      case False
      have "log_room ip k s1" using r(1) unfolding log_room_def by (rule fits_mono) simp
      then show ?thesis unfolding c if_not_P [OF False] using False r(2) stored_kept [OF R i w] by simp
    next
      case True
      then show ?thesis unfolding c using size_stored [OF R i w True _ r] B(1) len by simp
    qed
  qed
  then show ?thesis
    using ty off(1) B(2-4) len unfolding writei_def by (simp add: not_less [symmetric])
qed

section \<open>readi\<close>

lemma readi_bytes:
  fixes s :: "'a fs_scheme"
  assumes R: "inode_ready ip s" and ty: "ip_type (icache s ip) \<noteq> T_DEV" and M: "mapped ip s (fsize ip s)"
    and sl: "0 \<le> slots s" and off: "off \<le> ip_size (icache s ip)" "\<not> off + n < off"
  shows "wp (readi devsw ip off n s) (\<lambda>(r, data, s'). r = int (length data) \<and>
    data = map (fbyte ip s) [unat off..<min (unat off + unat n) (fsize ip s)] \<and> same s s')"
proof -
  let ?z = "ip_size (icache s ip)"
  define m where m: "m = (if off + n > ?z then ?z - off else n)"
  have o: "unat off \<le> fsize ip s" using off(1) by (simp add: word_le_nat_alt fsize_def)
  have u: "unat (off + n) = unat off + unat n"
    using off(2) unfolding not_less by (simp only: unat_plus_simple)
  have sub: "unat (?z - off) = fsize ip s - unat off" using off(1) by (simp add: unat_sub fsize_def)
  have e: "unat off + unat m = min (unat off + unat n) (fsize ip s)"
    using o u sub by (auto simp: m word_less_nat_alt fsize_def)
  have le: "unat off + unat m \<le> fsize ip s" unfolding e by simp
  have mm: "mapped ip s (unat off + unat m)" using M le unfolding mapped_def by (meson less_le_trans)
  have "sint m = int (unat m)" by (rule sint_below_half) (use mapped_size [OF M] le in simp)
  then have "wp (bnd (readi_loop ip (unat off) (unat m) s) (\<lambda>(data, s). Inr (sint m, data, s))) (\<lambda>(r, data, s').
      r = int (length data) \<and> data = map (fbyte ip s) [unat off..<unat off + unat m] \<and> same s s')"
    by (subst wp_bnd, intro wp_mono [OF readi_loop_bytes [OF R mm sl]]) auto
  then show ?thesis using ty off unfolding readi_def Let_def m [symmetric] e by (simp add: not_less [symmetric])
qed

section \<open>Reading what was written\<close>

lemma storedD:
  assumes "stored ip off src s s'"
  shows "inode_ready ip s'" "fsize ip s' = max (fsize ip s) (off + length src)" "mapped ip s' (fsize ip s')"
    "i < fsize ip s' \<Longrightarrow> fbyte ip s' i = (if off \<le> i \<and> i < off + length src then src ! (i - off) else fbyte ip s i)"
    "ip_type (icache s' ip) = ip_type (icache s ip)"
proof -
  show "inode_ready ip s'" "fsize ip s' = max (fsize ip s) (off + length src)" "mapped ip s' (fsize ip s')"
    "i < fsize ip s' \<Longrightarrow> fbyte ip s' i = (if off \<le> i \<and> i < off + length src then src ! (i - off) else fbyte ip s i)"
    using assms unfolding stored_def by blast+
  obtain z A where "icache s' = (icache s)(ip := (icache s ip)\<lparr>ip_size := z, ip_addrs := A\<rparr>)"
    using assms unfolding stored_def by blast
  then show "ip_type (icache s' ip) = ip_type (icache s ip)" by simp
qed

lemma stored_read:
  assumes "stored ip off src s s'" "off \<le> fsize ip s"
  shows "map (fbyte ip s') [off..<min (off + length src) (fsize ip s')] = src"
proof -
  note D = storedD [OF assms(1)]
  have "min (off + length src) (fsize ip s') = off + length src" using D(2) by simp
  then show ?thesis using D(2,4) by (intro nth_equalityI) simp_all
qed

section \<open>An empty file\<close>

definition ex_file :: fs where
  "ex_file = upd_inode 0 (\<lambda>x. x\<lparr>ip_dev := 1, ip_inum := 1, ip_type := T_FILE\<rparr>) ex_fs"

lemma ex_file_ready:
  "inode_ready 0 ex_file" "mapped 0 ex_file (fsize 0 ex_file)" "ip_type (icache ex_file 0) \<noteq> T_DEV"
  "ip_inum (icache ex_file 0) \<le> sb_ninodes (fsb ex_file)" "ip_size (icache ex_file 0) = 0"
proof -
  have "slot_addr ex_fs (ip_addrs ex_inode) k = 0" for k by (simp add: slot_addr_def ex_inode_def)
  then have "map_ok ex_fs (ip_addrs ex_inode)" by (simp add: map_ok_def)
  then show "inode_ready 0 ex_file"
    by (simp add: inode_ready_def ex_file_def map_ok_upd ex_fs_txn ex_fs_ready ex_fs_calm)
  show "ip_size (icache ex_file 0) = 0" by (simp add: ex_file_def ex_inode_def)
  then show "mapped 0 ex_file (fsize 0 ex_file)" by (simp add: mapped_def fsize_def)
  show "ip_type (icache ex_file 0) \<noteq> T_DEV" "ip_inum (icache ex_file 0) \<le> sb_ninodes (fsb ex_file)"
    by (simp_all add: ex_file_def ex_sblk_def T_FILE_def T_DEV_def)
qed

lemma ex_bused_37: "\<not> bused ex_fs 37"
proof -
  have "\<not> bit (ex_map 4) 5" by code_simp
  then show ?thesis by (simp add: bused_def ex_fs_calm ex_sblk_def ex_fdisk_def)
qed

lemma ex_file_room: "log_room 0 2 ex_file" "disk_room 0 1 ex_file"
proof -
  have i: "indset 0 ex_file = {}" by (simp add: indset_def ex_file_def ex_inode_def)
  show "log_room 0 2 ex_file"
    by (simp add: log_room_def i) (simp add: ex_file_def fits_def ex_fs_txn ex_fs_calm ex_fs_blocks)
  have "{36, 37} \<subseteq> free_blocks ex_file"
    using ex_bused(2) ex_bused_37 by (simp add: free_blocks_def ex_file_def ex_sblk_def)
  then have "card {36, 37 :: nat} \<le> card (free_blocks ex_file)" by (intro card_mono) simp_all
  then show "disk_room 0 1 ex_file" by (simp add: disk_room_def i)
qed

section \<open>The theorems\<close>

text \<open>
  C8. \<^verbatim>\<open>writei\<close> on a file whose bytes up to its size are mapped, with room in the log and on the disk for the
  blocks it touches, returns \<open>n\<close> and stores \<open>src\<close>: the file has \<open>src\<close> at \<open>off\<close> and its old bytes elsewhere, the
  size is the maximum of the old one and the end of the write, the inode on disk is the one in the cache when
  the size grew, and every block in use outside this file, the free map and the inode block is untouched. An
  offset behind the end, a sum that wraps around and an end behind the largest file give -1 and change nothing.
\<close>

theorem writei_correct:
  fixes s :: "'a fs_scheme"
  assumes "inode_ready ip s" "ip_type (icache s ip) \<noteq> T_DEV" "mapped ip s (fsize ip s)"
    and "ip_inum (icache s ip) \<le> sb_ninodes (fsb s)" "length src = unat n"
    and "log_room ip (nblk (unat off) (unat n) + 1) s" "disk_room ip (nblk (unat off) (unat n)) s"
  shows "if off > ip_size (icache s ip) \<or> off + n < off \<or> off + n > of_nat (MAXFILE * BSIZE)
    then writei devsw ip src off n s = Inr (-1, s)
    else wp (writei devsw ip src off n s) (\<lambda>(r, s'). r = int (unat n) \<and> stored ip (unat off) src s s')"
proof (cases "off > ip_size (icache s ip) \<or> off + n < off \<or> off + n > of_nat (MAXFILE * BSIZE)")
  case True
  then show ?thesis using assms(2) by (auto simp: writei_def)
next
  case False
  then have o: "off \<le> ip_size (icache s ip)" by (simp add: not_less)
  have l: "unat off + unat n \<le> 140 * BSIZE" using False by (intro write_bounds_iff) simp_all
  show ?thesis unfolding if_not_P [OF False]
    by (rule wp_mono [OF writei_stored [OF assms(1-4) o l assms(5), of 0 0, unfolded add_0, OF assms(6,7)]]) auto
qed

theorem writei_correct_witness:
  "wp (writei (\<lambda>_. None) 0 [7, 8, 9] 0 3 ex_file) (\<lambda>(r, s'). r = 3 \<and> fsize 0 s' = 3 \<and> fbyte 0 s' 1 = 8)"
proof -
  have "wp (writei (\<lambda>_. None) 0 [7, 8, 9] 0 3 ex_file) (\<lambda>(r, s'). r = int (unat (3 :: u32)) \<and> stored 0 (unat (0 :: u32)) [7, 8, 9] ex_file s')"
    using writei_correct [OF ex_file_ready(1,3,2,4), of "[7, 8, 9]" 3 0 "\<lambda>_. None"] ex_file_room ex_file_ready(5)
    by (simp add: nblk_def MAXFILE_def)
  then show ?thesis
  proof (rule wp_mono, clarify, intro conjI)
    fix s'
    assume "stored 0 (unat (0 :: u32)) [7, 8, 9] ex_file s'"
    note D = storedD [OF this]
    have z: "fsize 0 ex_file = 0" using ex_file_ready(5) by (simp add: fsize_def)
    show "fsize 0 s' = 3" using D(2) z by simp
    then show "fbyte 0 s' 1 = 8" using D(4) [of 1] by simp
  qed simp
qed

text \<open>
  C9. \<^verbatim>\<open>readi\<close> returns the bytes of the file from \<open>off\<close> to the end of the request or of the file, whichever comes
  first, with their number, and changes nothing but which blocks are cached. An offset behind the end and a sum
  that wraps around give -1.
\<close>

theorem readi_correct:
  fixes s :: "'a fs_scheme"
  assumes "inode_ready ip s" "ip_type (icache s ip) \<noteq> T_DEV" "mapped ip s (fsize ip s)" "0 \<le> slots s"
  shows "if off > ip_size (icache s ip) \<or> off + n < off then readi devsw ip off n s = Inr (-1, [], s)
    else wp (readi devsw ip off n s) (\<lambda>(r, data, s'). r = int (length data) \<and>
      data = map (fbyte ip s) [unat off..<min (unat off + unat n) (fsize ip s)] \<and> same s s')"
proof (cases "off > ip_size (icache s ip) \<or> off + n < off")
  case True
  then show ?thesis using assms(2) by (auto simp: readi_def)
next
  case False
  then show ?thesis unfolding if_not_P [OF False] by (intro readi_bytes assms) (simp_all add: not_less)
qed

theorem readi_correct_witness:
  "wp (readi (\<lambda>_. None) 0 0 10 ex_file) (\<lambda>(r, data, s'). r = 0 \<and> data = [])"
proof -
  have z: "fsize 0 ex_file = 0" using ex_file_ready(5) by (simp add: fsize_def)
  have "0 \<le> slots ex_file" by (simp add: ex_file_def ex_fs_txn)
  from readi_correct [OF ex_file_ready(1,3,2) this, of 0 10 "\<lambda>_. None"] show ?thesis
    by (simp add: z) (erule wp_mono, auto)
qed

text \<open>
  C7. Reading back what was written: \<^verbatim>\<open>readi\<close> at the offset and with the length of a \<^verbatim>\<open>writei\<close> returns exactly the
  bytes given to it.
\<close>

theorem writei_readi:
  fixes s :: "'a fs_scheme"
  assumes R: "inode_ready ip s" and ty: "ip_type (icache s ip) \<noteq> T_DEV" and M: "mapped ip s (fsize ip s)"
    and i: "ip_inum (icache s ip) \<le> sb_ninodes (fsb s)"
    and off: "off \<le> ip_size (icache s ip)" "unat off + unat n \<le> 140 * BSIZE" and len: "length src = unat n"
    and room: "log_room ip (nblk (unat off) (unat n) + 1) s" "disk_room ip (nblk (unat off) (unat n)) s"
  shows "wp (bnd (writei wdev ip src off n s) (\<lambda>(w, s1). readi rdev ip off n s1))
    (\<lambda>(r, data, s'). r = int (unat n) \<and> data = src)"
proof (subst wp_bnd,
    rule wp_mono [OF writei_stored [OF R ty M i off len, of 0 0, unfolded add_0, OF room]], clarify)
  fix w s1
  assume st: "stored ip (unat off) src s s1" and r: "log_room ip 0 s1"
  note D = storedD [OF st]
  have o: "unat off \<le> fsize ip s" using off(1) by (simp add: word_le_nat_alt fsize_def)
  have "fits 0 s1" using r by (rule log_room_fits) simp
  then have sl: "0 \<le> slots s1" using fitsD(1) by fastforce
  have o1: "off \<le> ip_size (icache s1 ip)" using D(2) o by (simp add: word_le_nat_alt fsize_def)
  have ty1: "ip_type (icache s1 ip) \<noteq> T_DEV" using ty D(5) by simp
  show "wp (readi rdev ip off n s1) (\<lambda>(r, data, s'). r = int (unat n) \<and> data = src)"
    by (rule wp_mono [OF readi_bytes [OF D(1) ty1 D(3) sl o1 write_bounds(2) [OF off(2)]]])
      (use stored_read [OF st o] len in auto)
qed

theorem writei_readi_witness:
  "wp (bnd (writei (\<lambda>_. None) 0 [7, 8, 9] 0 3 ex_file) (\<lambda>(w, s1). readi (\<lambda>_. None) 0 0 3 s1))
    (\<lambda>(r, data, s'). r = 3 \<and> data = [7, 8, 9])"
  using writei_readi [OF ex_file_ready(1,3,2,4), of 0 3 "[7, 8, 9]" "\<lambda>_. None" "\<lambda>_. None"] ex_file_room ex_file_ready(5)
  by (simp add: nblk_def del: wp_bnd)

end
