(* ===== verification/Pipe.thy ===== *)
theory Pipe
  imports Prelude
begin

text \<open>
  Pipes (\<^verbatim>\<open>pipe.c\<close>): a ring of 512 bytes indexed by two free-running 32-bit counters. Each operation
  runs under the pipe's lock until it returns or sleeps, one step of the model; after a sleep
  \<^verbatim>\<open>pipewrite\<close> goes on with the bytes not yet written. \<open>killed\<close> is \<^verbatim>\<open>myproc()->killed\<close>. Creation and
  closing through files are in the theory of the file table.
\<close>

section \<open>Operations\<close>

record pipe =
  pdata :: bytes
  nread :: u32
  nwrite :: u32
  readopen :: bool
  writeopen :: bool

datatype pipe_chan = ChanRead | ChanWrite

text \<open>How a step ends: with a return value, or asleep on a channel.\<close>

datatype pipe_out = Ret int | Asleep pipe_chan

definition pipe_init :: "pipe \<Rightarrow> pipe" where
  "pipe_init p = p\<lparr>readopen := True, writeopen := True, nwrite := 0, nread := 0\<rparr>"

text \<open>\<^verbatim>\<open>pipeclose\<close>: the pipe, the channel woken, and whether the page of the pipe is freed.\<close>

definition pipeclose :: "pipe \<Rightarrow> bool \<Rightarrow> pipe \<times> pipe_chan \<times> bool" where
  "pipeclose p writable =
     (let (p, w) = (if writable then (p\<lparr>writeopen := False\<rparr>, ChanRead) else (p\<lparr>readopen := False\<rparr>, ChanWrite))
      in (p, w, \<not> readopen p \<and> \<not> writeopen p))"

text \<open>
  The loop of \<^verbatim>\<open>pipewrite\<close> over the bytes left: how it ends, the bytes still left, the pipe and the
  channels woken. \<open>n\<close> is the length of the whole request.
\<close>

fun pipewrite :: "bool \<Rightarrow> nat \<Rightarrow> u8 list \<Rightarrow> pipe \<Rightarrow> pipe_out \<times> u8 list \<times> pipe \<times> pipe_chan list" where
  "pipewrite killed n [] p = (Ret (int n), [], p, [ChanRead])"
| "pipewrite killed n (b # bs) p =
     (if nwrite p = nread p + 512 then
        if \<not> readopen p \<or> killed then (Ret (-1), b # bs, p, [])
        else (Asleep ChanWrite, b # bs, p, [ChanRead])
      else pipewrite killed n bs (p\<lparr>pdata := (pdata p)(unat (nwrite p mod 512) := b), nwrite := nwrite p + 1\<rparr>))"

primrec read_loop :: "nat \<Rightarrow> pipe \<Rightarrow> u8 list \<times> pipe" where
  "read_loop 0 p = ([], p)"
| "read_loop (Suc n) p =
     (if nread p = nwrite p then ([], p)
      else
        let b = pdata p (unat (nread p mod 512));
            (bs, p) = read_loop n (p\<lparr>nread := nread p + 1\<rparr>)
        in (b # bs, p))"

definition piperead :: "bool \<Rightarrow> nat \<Rightarrow> pipe \<Rightarrow> pipe_out \<times> u8 list \<times> pipe \<times> pipe_chan list" where
  "piperead killed n p =
     (if nread p = nwrite p \<and> writeopen p then
        if killed then (Ret (-1), [], p, []) else (Asleep ChanRead, [], p, [])
      else let (bs, p) = read_loop n p in (Ret (int (length bs)), bs, p, [ChanWrite]))"

section \<open>The bytes in a pipe\<close>

definition used :: "pipe \<Rightarrow> nat" where
  "used p = unat (nwrite p - nread p)"

definition contents :: "pipe \<Rightarrow> u8 list" where
  "contents p = map (\<lambda>k. pdata p ((unat (nread p) + k) mod 512)) [0..<used p]"

lemma length_contents [simp]: "length (contents p) = used p"
  by (simp add: contents_def)

lemma ring_index: "unat (a mod 512 :: u32) = unat a mod 512"
  by (simp add: unat_mod)

lemma ring_step: "unat (a + 1 :: u32) mod 512 = (unat a + 1) mod 512"
proof -
  have "unat (a + 1) = (unat a + 1) mod 4294967296" by (simp add: unat_word_ariths)
  moreover have "((unat a + 1) mod 4294967296) mod 512 = (unat a + 1) mod 512" by (rule mod_mod_cancel) simp
  ultimately show ?thesis by simp
qed

lemma used_full: "nwrite p = nread p + 512 \<longleftrightarrow> used p = 512"
proof
  assume "used p = 512"
  then have "unat (nwrite p - nread p) = unat (512 :: u32)" by (simp add: used_def)
  then have "nwrite p - nread p = 512" by (simp only: word_unat_eq_iff)
  then show "nwrite p = nread p + 512" by (simp add: algebra_simps)
qed (simp add: used_def)

lemma used_empty: "nread p = nwrite p \<longleftrightarrow> used p = 0"
  by (auto simp: used_def unat_eq_0)

lemma nwrite_index: "unat (nwrite p) mod 512 = (unat (nread p) + used p) mod 512"
proof -
  have "nwrite p = nread p + (nwrite p - nread p)" by simp
  then have "unat (nwrite p) = (unat (nread p) + used p) mod 4294967296"
    using unat_word_ariths(1) [of "nread p" "nwrite p - nread p"] by (simp add: used_def)
  moreover have "((unat (nread p) + used p) mod 4294967296) mod 512 = (unat (nread p) + used p) mod 512"
    by (rule mod_mod_cancel) simp
  ultimately show ?thesis by simp
qed

lemma ring_distinct: "k < u \<Longrightarrow> u < 512 \<Longrightarrow> (a + k) mod 512 \<noteq> (a + u) mod 512" for a k u :: nat
proof
  assume "k < u" "u < 512" "(a + k) mod 512 = (a + u) mod 512"
  then have "512 dvd (a + u) - (a + k)" by (metis mod_eq_dvd_iff_nat add_le_cancel_left less_imp_le)
  then have "512 dvd u - k" by simp
  with \<open>k < u\<close> \<open>u < 512\<close> show False by (auto dest: dvd_imp_le)
qed

lemma contents_put:
  fixes b :: u8
  assumes "used p < 512"
  defines "p' \<equiv> p\<lparr>pdata := (pdata p)(unat (nwrite p mod 512) := b), nwrite := nwrite p + 1\<rparr>"
  shows "used p' = used p + 1" "contents p' = contents p @ [b]"
proof -
  have e: "nwrite p + 1 - nread p = (nwrite p - nread p) + 1" by simp
  have "unat (nwrite p - nread p + 1) = unat (nwrite p - nread p) + 1"
    using assms(1) by (simp add: used_def unat_word_ariths)
  then show u: "used p' = used p + 1" by (simp add: used_def p'_def e)
  have i: "unat (nwrite p mod 512) = (unat (nread p) + used p) mod 512" by (simp add: ring_index nwrite_index)
  show "contents p' = contents p @ [b]"
    unfolding contents_def u using ring_distinct [OF _ assms(1), of _ "unat (nread p)"]
    by (simp add: p'_def i One_nat_def)
qed

lemma contents_get:
  assumes "0 < used p" "used p \<le> 512"
  defines "p' \<equiv> p\<lparr>nread := nread p + 1\<rparr>"
  shows "used p' = used p - 1" "contents p = pdata p (unat (nread p mod 512)) # contents p'"
proof -
  have e: "nwrite p - (nread p + 1) = nwrite p - nread p - 1" by (rule diff_diff_add [symmetric])
  have "unat (nwrite p - nread p - 1) = unat (nwrite p - nread p) - 1"
    using assms(1) by (intro unat_minus_one) (auto simp: used_def)
  then show u: "used p' = used p - 1" by (simp add: used_def p'_def e)
  have "[0..<used p] = 0 # map Suc [0..<used p - 1]"
    using assms(1) by (simp add: upt_conv_Cons map_Suc_upt One_nat_def)
  then have "contents p = pdata p (unat (nread p) mod 512) # map (\<lambda>k. pdata p ((unat (nread p) + Suc k) mod 512)) [0..<used p - 1]"
    by (simp add: contents_def comp_def)
  moreover have "(unat (nread p + 1) + k) mod 512 = (unat (nread p) + Suc k) mod 512" for k
    using ring_step [of "nread p"] by (metis add.assoc mod_add_left_eq plus_1_eq_Suc)
  ultimately show "contents p = pdata p (unat (nread p mod 512)) # contents p'"
    by (simp add: contents_def u ring_index) (simp add: p'_def)
qed

section \<open>First in, first out\<close>

text \<open>One \<^verbatim>\<open>pipewrite\<close> appends what it takes of the request; it sleeps or gives up only when the pipe is full.\<close>

lemma pipewrite_appends:
  assumes "pipewrite killed n bs p = (out, rest, p', w)" "used p \<le> 512"
  shows "\<exists>bs1. bs = bs1 @ rest \<and> contents p' = contents p @ bs1 \<and> used p' \<le> 512 \<and>
    (rest \<noteq> [] \<longrightarrow> used p' = 512) \<and> (rest = [] \<longleftrightarrow> out = Ret (int n)) \<and> readopen p' = readopen p \<and> writeopen p' = writeopen p"
  using assms
proof (induction killed n bs p arbitrary: out rest p' w rule: pipewrite.induct)
  case (2 killed n b bs p)
  show ?case
  proof (cases "nwrite p = nread p + 512")
    case True
    then show ?thesis using 2 used_full [of p] by (auto split: if_splits)
  next
    case False
    then have l: "used p < 512" using 2(3) used_full [of p] by linarith
    let ?p = "p\<lparr>pdata := (pdata p)(unat (nwrite p mod 512) := b), nwrite := nwrite p + 1\<rparr>"
    note c = contents_put [OF l, of b]
    have "pipewrite killed n bs ?p = (out, rest, p', w)" "used ?p \<le> 512"
      using 2(2) False c l by simp_all
    from 2(1) [OF False this] c show ?thesis by auto
  qed
qed auto

lemma read_loop_takes:
  assumes "read_loop n p = (bs, p')" "used p \<le> 512"
  shows "contents p = bs @ contents p' \<and> length bs = min n (used p) \<and> used p' \<le> 512 \<and>
    readopen p' = readopen p \<and> writeopen p' = writeopen p"
  using assms
proof (induction n arbitrary: p bs)
  case (Suc n)
  show ?case
  proof (cases "nread p = nwrite p")
    case True
    then show ?thesis using Suc.prems used_empty [of p] by auto
  next
    case False
    then have l: "0 < used p" using used_empty [of p] by simp
    let ?p = "p\<lparr>nread := nread p + 1\<rparr>"
    note c = contents_get [OF l Suc.prems(2)]
    obtain cs where r: "read_loop n ?p = (cs, p')" "bs = pdata p (unat (nread p mod 512)) # cs"
      using Suc.prems(1) False by (auto split: prod.splits)
    have "used ?p \<le> 512" using c(1) Suc.prems(2) by simp
    from Suc.IH [OF r(1) this] show ?thesis using c r(2) l by (auto simp: min_def)
  qed
qed auto

text \<open>
  A history of a pipe: the bytes taken from writers and the bytes given to readers, in any
  interleaving of calls, with resumed writes, closed ends and killed processes.
\<close>

inductive pipe_step :: "pipe \<times> u8 list \<times> u8 list \<Rightarrow> pipe \<times> u8 list \<times> u8 list \<Rightarrow> bool" where
  taken: "pipewrite killed n (bs @ rest) p = (out, rest, p', w) \<Longrightarrow> pipe_step (p, W, R) (p', W @ bs, R)"
| given: "piperead killed n p = (out, bs, p', w) \<Longrightarrow> pipe_step (p, W, R) (p', W, R @ bs)"
| closed: "pipeclose p wr = (p', w, fr) \<Longrightarrow> pipe_step (p, W, R) (p', W, R)"

lemma contents_close: "pipeclose p wr = (p', w, fr) \<Longrightarrow> contents p' = contents p \<and> used p' = used p"
  by (auto simp: pipeclose_def contents_def used_def split: if_splits)

lemma pipe_step_fifo:
  assumes "pipe_step x y" "fst (snd x) = snd (snd x) @ contents (fst x)" "used (fst x) \<le> 512"
  shows "fst (snd y) = snd (snd y) @ contents (fst y) \<and> used (fst y) \<le> 512"
  using assms
proof (cases rule: pipe_step.cases)
  case (taken killed n bs rest p out p' w W R)
  then show ?thesis using pipewrite_appends [OF taken(3)] assms(2,3) by auto
next
  case (given killed n p out bs p' w W R)
  then show ?thesis using read_loop_takes [of n p bs p'] assms(2,3)
    by (auto simp: piperead_def split: if_splits prod.splits)
next
  case (closed p wr p' w fr W R)
  then show ?thesis using contents_close [OF closed(3)] assms(2,3) by simp
qed

text \<open>
  C24. A pipe is a bounded queue. Whatever the interleaving of reads, writes and closes, and
  although the counters wrap around at \<open>2 ^ 32\<close>, the bytes written are the bytes read followed by
  the at most 512 bytes in the pipe, in order; no byte is lost, duplicated or reordered.
\<close>

theorem pipe_fifo:
  assumes "pipe_step\<^sup>*\<^sup>* (pipe_init p0, [], []) (p, W, R)"
  shows "W = R @ contents p \<and> used p \<le> 512"
proof -
  have z: "contents (pipe_init p0) = [] \<and> used (pipe_init p0) = 0" by (simp add: contents_def used_def pipe_init_def)
  have "fst (snd y) = snd (snd y) @ contents (fst y) \<and> used (fst y) \<le> 512" if "pipe_step\<^sup>*\<^sup>* (pipe_init p0, [], []) y" for y
    using that by (induction rule: rtranclp_induct) (auto simp: z dest: pipe_step_fifo)
  from this [OF assms] show ?thesis by simp
qed

section \<open>Wakeups\<close>

text \<open>
  Processes around a pipe: \<open>sl q\<close> is the channel process \<open>q\<close> sleeps on, if it does. A call is made, or
  resumed, by a process that is awake; it wakes the sleepers of the channels it names and then
  returns or goes to sleep. A sleeping process may also be woken by \<^verbatim>\<open>kill\<close>. The last component of the
  state says whether a write has given up with -1 after it had stored bytes.
\<close>

type_synonym sleepers = "nat \<Rightarrow> pipe_chan option"

definition pipe_wake :: "pipe_chan list \<Rightarrow> sleepers \<Rightarrow> sleepers" where
  "pipe_wake w sl q = (case sl q of None \<Rightarrow> None | Some c \<Rightarrow> if c \<in> set w then None else Some c)"

definition call_end :: "nat \<Rightarrow> pipe_out \<Rightarrow> pipe_chan list \<Rightarrow> sleepers \<Rightarrow> sleepers" where
  "call_end q out w sl = (case out of Ret _ \<Rightarrow> pipe_wake w sl | Asleep c \<Rightarrow> (pipe_wake w sl)(q \<mapsto> c))"

inductive pipe_sched :: "pipe \<times> sleepers \<times> bool \<Rightarrow> pipe \<times> sleepers \<times> bool \<Rightarrow> bool" where
  sched_write: "pipe_sched (p, sl, g) (p', call_end q out w sl, g \<or> out = Ret (-1) \<and> rest \<noteq> bs)"
  if "sl q = None" "pipewrite killed n bs p = (out, rest, p', w)"
| sched_read: "pipe_sched (p, sl, g) (p', call_end q out w sl, g)"
  if "sl q = None" "piperead killed n p = (out, ds, p', w)"
| sched_close: "pipe_sched (p, sl, g) (p', pipe_wake [c] sl, g)"
  if "sl q = None" "pipeclose p wr = (p', c, fr)"
| sched_kill: "pipe_sched (p, sl, g) (p, sl(q := None), g)"


lemma pipe_wake_Some [simp]: "pipe_wake w sl q = Some c \<longleftrightarrow> sl q = Some c \<and> c \<notin> set w"
  by (auto simp: pipe_wake_def split: option.splits)

lemma pipewrite_end:
  assumes "pipewrite killed n bs p = (out, rest, p', w)"
  shows "out = Ret (int n) \<and> rest = [] \<and> w = [ChanRead] \<or>
    out = Ret (-1) \<and> rest \<noteq> [] \<and> w = [] \<and> (\<not> readopen p \<or> killed) \<or>
    out = Asleep ChanWrite \<and> rest \<noteq> [] \<and> w = [ChanRead] \<and> readopen p \<and> \<not> killed"
  using assms by (induction killed n bs p rule: pipewrite.induct) (auto split: if_splits)






text \<open>
  The exception is real: a reader sleeps on the empty pipe; a writer of 513 bytes fills the pipe,
  finds itself killed, and returns without waking the reader, which sleeps on beside 512 bytes.
\<close>

lemma killed_writer_strands_reader:
  "\<exists>p. pipe_sched\<^sup>*\<^sup>* (pipe_init p0, \<lambda>_. None, False) (p, (\<lambda>_. None)(1 \<mapsto> ChanRead), True) \<and> used p = 512"
proof -
  let ?i = "pipe_init p0" and ?bs = "replicate 513 (0 :: u8)"
  have u: "used ?i = 0" by (simp add: used_def pipe_init_def)
  have r: "piperead False 1 ?i = (Asleep ChanRead, [], ?i, [])" by (simp add: piperead_def pipe_init_def)
  have e: "call_end 1 (Asleep ChanRead) [] (\<lambda>_. None) = (\<lambda>_. None)(1 \<mapsto> ChanRead)"
    by (auto simp: call_end_def fun_eq_iff pipe_wake_def)
  have s1: "pipe_sched (?i, \<lambda>_. None, False) (?i, (\<lambda>_. None)(1 \<mapsto> ChanRead), False)"
    using sched_read [OF _ r, of "\<lambda>_. None" 1 False] by (simp add: e)
  obtain out rs p w where c: "pipewrite True 513 ?bs ?i = (out, rs, p, w)" by (metis prod_cases4)
  from pipewrite_appends [OF c] u have a: "rs \<noteq> [] \<longrightarrow> used p = 512" "used p \<le> 512" "\<exists>bs1. ?bs = bs1 @ rs \<and> contents p = bs1"
    by (auto simp: contents_def)
  have "length ?bs = used p + length rs" using a(3) by (metis length_append length_contents)
  then have "rs \<noteq> []" "rs \<noteq> ?bs" using a(1,2) by auto
  then have o: "out = Ret (-1)" "w = []" "used p = 512" using pipewrite_end [OF c] a(1) by auto
  have "call_end 2 (Ret (-1)) [] ((\<lambda>_. None)(1 \<mapsto> ChanRead)) = (\<lambda>_. None)(1 \<mapsto> ChanRead)"
    by (auto simp: call_end_def fun_eq_iff pipe_wake_def split: option.splits)
  then have "pipe_sched (?i, (\<lambda>_. None)(1 \<mapsto> ChanRead), False) (p, (\<lambda>_. None)(1 \<mapsto> ChanRead), True)"
    using sched_write [OF _ c, of "(\<lambda>_. None)(1 \<mapsto> ChanRead)" 2 False] o \<open>rs \<noteq> ?bs\<close> by simp
  with s1 o(3) show ?thesis by (meson rtranclp.rtrancl_into_rtrancl rtranclp.rtrancl_refl)
qed

definition ex_pipe :: pipe where
  "ex_pipe = \<lparr>pdata = (\<lambda>_. 0), nread = 0, nwrite = 0, readopen = True, writeopen = True\<rparr>"

theorem pipe_fifo_witness:
  "\<exists>p. pipe_step\<^sup>*\<^sup>* (pipe_init ex_pipe, [], []) (p, [7, 8], [7]) \<and> contents p = [8]"
proof -
  obtain o1 w1 p1 where a: "pipewrite False 2 [7, 8] (pipe_init ex_pipe) = (o1, [], p1, w1)"
    by (simp add: pipe_init_def ex_pipe_def)
  obtain o2 w2 p2 where b: "piperead False 1 p1 = (o2, [7], p2, w2)"
    using a by (auto simp: pipe_init_def ex_pipe_def piperead_def One_nat_def)
  have "pipe_step (pipe_init ex_pipe, [], []) (p1, [7, 8], [])" 
    using pipe_step.taken [of False 2 "[7, 8]" "[]" "pipe_init ex_pipe" o1 p1 w1 "[]" "[]"] a
    by (simp only: append_Nil append_Nil2)
  moreover have "pipe_step (p1, [7, 8], []) (p2, [7, 8], [7])" using pipe_step.given [OF b, of "[7, 8]" "[]"] by simp
  ultimately have r: "pipe_step\<^sup>*\<^sup>* (pipe_init ex_pipe, [], []) (p2, [7, 8], [7])" by (meson rtranclp.rtrancl_into_rtrancl rtranclp.rtrancl_refl)
  from pipe_fifo [OF r] have "contents p2 = [8]" by simp
  with r show ?thesis by blast
qed


end
