(* ===== verification/File.thy ===== *)
theory File
  imports Fs_File Pipe
begin

text \<open>
  The file table (\<^verbatim>\<open>file.c\<close>) and the creation of pipes (\<^verbatim>\<open>pipealloc\<close> of \<^verbatim>\<open>pipe.c\<close>). The state
  extends that of the file system by the table, the pipes (by the page they live in) and the pages
  given back when a pipe is closed at both ends. The device switch and \<^verbatim>\<open>myproc()->killed\<close> are
  arguments. An operation that has to wait for the log or for an inode lock is the error value
  \<^const>\<open>Sleep\<close> and is repeated; reads and writes on pipes report what they did before sleeping.
\<close>

datatype ftype = FD_NONE | FD_PIPE | FD_INODE

record filestruct =
  f_type :: ftype
  f_ref :: int
  f_readable :: bool
  f_writable :: bool
  f_pipe :: nat
  f_ip :: nat
  f_off :: u32

record fsys = fs +
  ftable :: "nat \<Rightarrow> filestruct"
  pipes :: "nat \<Rightarrow> pipe"
  freed_pages :: "nat list"

definition NFILE :: nat where
  "NFILE = 100"

definition upd_file :: "nat \<Rightarrow> (filestruct \<Rightarrow> filestruct) \<Rightarrow> 'a fsys_scheme \<Rightarrow> 'a fsys_scheme" where
  "upd_file f g s = s\<lparr>ftable := (ftable s)(f := g (ftable s f))\<rparr>"

section \<open>Operations\<close>

definition filealloc :: "'a fsys_scheme \<Rightarrow> nat option \<times> 'a fsys_scheme" where
  "filealloc s =
     (case find (\<lambda>f. f_ref (ftable s f) = 0) [0..<NFILE] of
        Some f \<Rightarrow> (Some f, upd_file f (\<lambda>x. x\<lparr>f_ref := 1\<rparr>) s)
      | None \<Rightarrow> (None, s))"

definition filedup :: "nat \<Rightarrow> 'a fsys_scheme \<Rightarrow> 'a fsys_scheme res" where
  "filedup f s =
     (if f_ref (ftable s f) < 1 then Inl (Panic ''filedup'')
      else Inr (upd_file f (\<lambda>x. x\<lparr>f_ref := f_ref x + 1\<rparr>) s))"

definition fileclose :: "nat \<Rightarrow> 'a fsys_scheme \<Rightarrow> 'a fsys_scheme res" where
  "fileclose f s =
     (if f_ref (ftable s f) < 1 then Inl (Panic ''fileclose'')
      else if f_ref (ftable s f) - 1 > 0 then Inr (upd_file f (\<lambda>x. x\<lparr>f_ref := f_ref x - 1\<rparr>) s)
      else
        let ff = ftable s f;
            s = upd_file f (\<lambda>x. x\<lparr>f_ref := 0, f_type := FD_NONE\<rparr>) s
        in case f_type ff of
             FD_PIPE \<Rightarrow>
               (case pipeclose (pipes s (f_pipe ff)) (f_writable ff) of (p, woken, free) \<Rightarrow>
                Inr (s\<lparr>pipes := (pipes s)(f_pipe ff := p),
                       freed_pages := (if free then f_pipe ff # freed_pages s else freed_pages s)\<rparr>))
           | FD_INODE \<Rightarrow> bnd (begin_op s) (\<lambda>s. bnd (iput (f_ip ff) s) end_op)
           | FD_NONE \<Rightarrow> Inr s)"

definition filestat :: "nat \<Rightarrow> 'a fsys_scheme \<Rightarrow> (int \<times> stat option \<times> 'a fsys_scheme) res" where
  "filestat f s =
     (if f_type (ftable s f) = FD_INODE then
        let ip = f_ip (ftable s f) in
        bnd (ilock ip s) (\<lambda>s.
        let st = stati ip s in
        bnd (iunlock ip s) (\<lambda>s. Inr (0, Some st, s)))
      else Inr (-1, None, s))"

text \<open>How a read or a write ends: with a value, or asleep in a pipe with the bytes still to write.\<close>

datatype fout = Returns int | Waits "u8 list"

definition fileread ::
  "(nat \<Rightarrow> (nat \<Rightarrow> nat \<Rightarrow> 'a fsys_scheme \<Rightarrow> (int \<times> u8 list \<times> 'a fsys_scheme) res) option) \<Rightarrow> bool \<Rightarrow>
   nat \<Rightarrow> u32 \<Rightarrow> 'a fsys_scheme \<Rightarrow> (fout \<times> u8 list \<times> 'a fsys_scheme) res" where
  "fileread devsw killed f n s =
     (if \<not> f_readable (ftable s f) then Inr (Returns (-1), [], s)
      else case f_type (ftable s f) of
        FD_PIPE \<Rightarrow>
          (case piperead killed (nat (sint n)) (pipes s (f_pipe (ftable s f))) of (out, bs, p, woken) \<Rightarrow>
           let s = s\<lparr>pipes := (pipes s)(f_pipe (ftable s f) := p)\<rparr>
           in case out of Ret r \<Rightarrow> Inr (Returns r, bs, s) | Asleep c \<Rightarrow> Inr (Waits [], bs, s))
      | FD_INODE \<Rightarrow>
          let ip = f_ip (ftable s f) in
          bnd (ilock ip s) (\<lambda>s.
          bnd (readi devsw ip (f_off (ftable s f)) n s) (\<lambda>(r, data, s).
          let s = (if r > 0 then upd_file f (\<lambda>x. x\<lparr>f_off := f_off x + word_of_int r\<rparr>) s else s) in
          bnd (iunlock ip s) (\<lambda>s. Inr (Returns r, data, s))))
      | FD_NONE \<Rightarrow> Inl (Panic ''fileread''))"

text \<open>The bytes of one transaction: \<^verbatim>\<open>((MAXOPBLOCKS-1-1-2) / 2) * 512\<close>.\<close>

definition max_write :: nat where
  "max_write = ((MAXOPBLOCKS - 1 - 1 - 2) div 2) * 512"

lemma max_write_pos: "0 < max_write"
  by (simp add: max_write_def)

function write_chunks ::
  "(nat \<Rightarrow> (nat \<Rightarrow> u8 list \<Rightarrow> 'a fsys_scheme \<Rightarrow> (int \<times> 'a fsys_scheme) res) option) \<Rightarrow>
   nat \<Rightarrow> u8 list \<Rightarrow> 'a fsys_scheme \<Rightarrow> (bool \<times> 'a fsys_scheme) res" where
  "write_chunks devsw f src s =
     (if src = [] then Inr (True, s)
      else
        let n1 = min (length src) max_write; ip = f_ip (ftable s f) in
        bnd (begin_op s) (\<lambda>s.
        bnd (ilock ip s) (\<lambda>s.
        bnd (writei devsw ip (take n1 src) (f_off (ftable s f)) (of_nat n1) s) (\<lambda>(r, s).
        let s = (if r > 0 then upd_file f (\<lambda>x. x\<lparr>f_off := f_off x + word_of_int r\<rparr>) s else s) in
        bnd (iunlock ip s) (\<lambda>s.
        bnd (end_op s) (\<lambda>s.
        if r < 0 then Inr (False, s)
        else if r \<noteq> int n1 then Inl (Panic ''short filewrite'')
        else write_chunks devsw f (drop n1 src) s))))))"
  by pat_completeness auto
termination
  by (relation "measure (\<lambda>(devsw, f, src, s). length src)") (auto simp: min_def max_write_pos)

declare write_chunks.simps [simp del]

definition filewrite ::
  "(nat \<Rightarrow> (nat \<Rightarrow> u8 list \<Rightarrow> 'a fsys_scheme \<Rightarrow> (int \<times> 'a fsys_scheme) res) option) \<Rightarrow> bool \<Rightarrow>
   nat \<Rightarrow> u8 list \<Rightarrow> 'a fsys_scheme \<Rightarrow> (fout \<times> 'a fsys_scheme) res" where
  "filewrite devsw killed f src s =
     (if \<not> f_writable (ftable s f) then Inr (Returns (-1), s)
      else case f_type (ftable s f) of
        FD_PIPE \<Rightarrow>
          (case pipewrite killed (length src) src (pipes s (f_pipe (ftable s f))) of (out, left, p, woken) \<Rightarrow>
           let s = s\<lparr>pipes := (pipes s)(f_pipe (ftable s f) := p)\<rparr>
           in case out of Ret r \<Rightarrow> Inr (Returns r, s) | Asleep c \<Rightarrow> Inr (Waits left, s))
      | FD_INODE \<Rightarrow>
          bnd (write_chunks devsw f src s) (\<lambda>(ok, s). Inr (Returns (if ok then int (length src) else -1), s))
      | FD_NONE \<Rightarrow> Inl (Panic ''filewrite''))"

section \<open>Creating a pipe\<close>

text \<open>\<^verbatim>\<open>bad:\<close> of \<^verbatim>\<open>pipealloc\<close>: the page was not allocated on any path to it.\<close>

definition close_opt :: "nat option \<Rightarrow> 'a fsys_scheme \<Rightarrow> 'a fsys_scheme res" where
  "close_opt f s = (case f of None \<Rightarrow> Inr s | Some f \<Rightarrow> fileclose f s)"

definition pipe_end :: "nat \<Rightarrow> bool \<Rightarrow> filestruct \<Rightarrow> filestruct" where
  "pipe_end p w x = x\<lparr>f_type := FD_PIPE, f_readable := \<not> w, f_writable := w, f_pipe := p\<rparr>"

text \<open>\<open>page\<close> is what \<^verbatim>\<open>kalloc\<close> returns.\<close>

definition pipealloc :: "nat option \<Rightarrow> 'a fsys_scheme \<Rightarrow> ((nat \<times> nat) option \<times> 'a fsys_scheme) res" where
  "pipealloc page s =
     (case filealloc s of (f0, s1) \<Rightarrow>
      case (if f0 = None then (None, s1) else filealloc s1) of (f1, s2) \<Rightarrow>
      case (f0, f1, page) of
        (Some f0, Some f1, Some p) \<Rightarrow>
          Inr (Some (f0, f1),
            upd_file f1 (pipe_end p True) (upd_file f0 (pipe_end p False)
              (s2\<lparr>pipes := (pipes s2)(p := pipe_init (pipes s2 p))\<rparr>)))
      | _ \<Rightarrow> bnd (close_opt f0 s2) (\<lambda>s. bnd (close_opt f1 s) (\<lambda>s. Inr (None, s))))"

end
