(* ===== verification/Syscall.thy ===== *)
theory Syscall
  imports Prelude
begin

text \<open>
  System calls (\<^verbatim>\<open>syscall.c\<close>): fetching arguments from user memory and the dispatch on the call
  number. The calling process is its size, its saved registers and its memory, a byte at every
  virtual address.
\<close>

record uproc =
  u_sz :: u32
  u_esp :: u32
  u_eax :: u32
  u_mem :: "u32 \<Rightarrow> u8"

definition load32 :: "(u32 \<Rightarrow> u8) \<Rightarrow> u32 \<Rightarrow> u32" where
  "load32 m a = get32 (\<lambda>i. m (a + of_nat i)) 0"

section \<open>Arguments\<close>

definition fetchint :: "uproc \<Rightarrow> u32 \<Rightarrow> u32 option" where
  "fetchint p addr = (if addr \<ge> u_sz p \<or> addr + 4 > u_sz p then None else Some (load32 (u_mem p) addr))"

text \<open>The scan for the NUL: \<open>n\<close> bytes are left before \<^verbatim>\<open>ep\<close>.\<close>

primrec scan_nul :: "(u32 \<Rightarrow> u8) \<Rightarrow> u32 \<Rightarrow> nat \<Rightarrow> nat \<Rightarrow> nat option" where
  "scan_nul m s len 0 = None"
| "scan_nul m s len (Suc n) = (if m s = 0 then Some len else scan_nul m (s + 1) (len + 1) n)"

text \<open>The address of the string and its length.\<close>

definition fetchstr :: "uproc \<Rightarrow> u32 \<Rightarrow> (u32 \<times> nat) option" where
  "fetchstr p addr =
     (if addr \<ge> u_sz p then None
      else map_option (\<lambda>len. (addr, len)) (scan_nul (u_mem p) addr 0 (unat (u_sz p) - unat addr)))"

definition argint :: "uproc \<Rightarrow> nat \<Rightarrow> u32 option" where
  "argint p n = fetchint p (u_esp p + 4 + 4 * of_nat n)"

definition argptr :: "uproc \<Rightarrow> nat \<Rightarrow> u32 \<Rightarrow> u32 option" where
  "argptr p n sz =
     (case argint p n of
        None \<Rightarrow> None
      | Some i \<Rightarrow> if sz <s 0 \<or> i \<ge> u_sz p \<or> i + sz > u_sz p then None else Some i)"

definition argstr :: "uproc \<Rightarrow> nat \<Rightarrow> (u32 \<times> nat) option" where
  "argstr p n = (case argint p n of None \<Rightarrow> None | Some addr \<Rightarrow> fetchstr p addr)"

section \<open>Dispatch\<close>

datatype sysname =
    SYS_fork | SYS_exit | SYS_wait | SYS_pipe | SYS_read | SYS_kill | SYS_exec | SYS_fstat | SYS_chdir
  | SYS_dup | SYS_getpid | SYS_sbrk | SYS_sleep | SYS_uptime | SYS_open | SYS_write | SYS_mknod
  | SYS_unlink | SYS_link | SYS_mkdir | SYS_close | SYS_arp

definition sysnames :: "sysname list" where
  "sysnames = [SYS_fork, SYS_exit, SYS_wait, SYS_pipe, SYS_read, SYS_kill, SYS_exec, SYS_fstat, SYS_chdir,
     SYS_dup, SYS_getpid, SYS_sbrk, SYS_sleep, SYS_uptime, SYS_open, SYS_write, SYS_mknod, SYS_unlink,
     SYS_link, SYS_mkdir, SYS_close, SYS_arp]"

text \<open>The table \<^verbatim>\<open>syscalls\<close>: the entry of number \<open>num\<close>, entry 0 being null.\<close>

definition syscalls :: "nat \<Rightarrow> sysname option" where
  "syscalls num = (if 0 < num \<and> num \<le> length sysnames then Some (sysnames ! (num - 1)) else None)"

definition NELEM_syscalls :: u32 where
  "NELEM_syscalls = 23"

text \<open>\<open>sys\<close> runs the system call and gives its return value; the flag says that an unknown number
  is reported on the console.\<close>

definition syscall :: "(sysname \<Rightarrow> uproc \<Rightarrow> u32 \<times> uproc) \<Rightarrow> uproc \<Rightarrow> uproc \<times> bool" where
  "syscall sys p =
     (let num = u_eax p in
      if 0 <s num \<and> num < NELEM_syscalls then
        (case syscalls (unat num) of
           Some c \<Rightarrow> (case sys c p of (r, p') \<Rightarrow> (p'\<lparr>u_eax := r\<rparr>, False))
         | None \<Rightarrow> (p\<lparr>u_eax := -1\<rparr>, True))
      else (p\<lparr>u_eax := -1\<rparr>, True))"

section \<open>User pointers\<close>

lemma scan_nul_Some:
  "scan_nul m s len n = Some l \<Longrightarrow> len \<le> l \<and> l - len < n \<and> m (s + of_nat (l - len)) = 0 \<and>
   (\<forall>k < l - len. m (s + of_nat k) \<noteq> 0)"
proof (induction n arbitrary: s len)
  case (Suc n)
  show ?case
  proof (cases "m s = 0")
    case True
    then show ?thesis using Suc.prems by auto
  next
    case False
    with Suc.prems have "scan_nul m (s + 1) (len + 1) n = Some l" by simp
    note ih = Suc.IH [OF this]
    from ih have "len + 1 \<le> l" by blast
    then have d: "l - len = Suc (l - (len + 1))" by arith
    have st: "s + of_nat (Suc j) = s + 1 + of_nat j" for j by simp
    have k: "m (s + of_nat k) \<noteq> 0" if "k < l - len" for k
    proof (cases k)
      case (Suc j)
      then have "j < l - (len + 1)" using that by simp
      then show ?thesis using ih unfolding Suc st by blast
    qed (use False in simp)
    have "m (s + of_nat (l - len)) = 0" unfolding d st using ih by blast
    then show ?thesis using ih k by auto
  qed
qed simp

lemma scan_nul_None:
  "scan_nul m s len n = None \<Longrightarrow> k < n \<Longrightarrow> m (s + of_nat k) \<noteq> 0"
proof (induction n arbitrary: s len k)
  case (Suc n)
  then have c: "m s \<noteq> 0" "scan_nul m (s + 1) (len + 1) n = None" by (auto split: if_splits)
  show ?case
  proof (cases k)
    case (Suc j)
    have st: "s + of_nat (Suc j) = s + 1 + of_nat j" by simp
    show ?thesis unfolding Suc st using Suc.IH [OF c(2), of j] Suc.prems Suc by simp
  qed (use c in simp)
qed simp

definition user_range :: "uproc \<Rightarrow> u32 \<Rightarrow> nat \<Rightarrow> bool" where
  "user_range p a n \<longleftrightarrow> a < u_sz p \<and> unat a + n \<le> unat (u_sz p)"

lemma add_no_wrap: "unat a < 2 ^ 31 \<Longrightarrow> unat b < 2 ^ 31 \<Longrightarrow> unat (a + b :: u32) = unat a + unat b"
  by (simp add: unat_word_ariths)

lemma low_half: "a < (0x80000000 :: u32) \<Longrightarrow> unat a < 2 ^ 31"
  by (simp add: word_less_nat_alt)

lemma range_add:
  assumes "u_sz p \<le> 0x80000000" "unat b < 2 ^ 31"
  shows "(\<not> (a \<ge> u_sz p \<or> a + b > u_sz p)) \<longleftrightarrow> user_range p a (unat b)"
proof (cases "a < u_sz p")
  case True
  then have "a < 0x80000000" using assms(1) by (rule order_less_le_trans)
  then have "unat (a + b) = unat a + unat b" using assms(2) by (intro add_no_wrap) (rule low_half)
  then show ?thesis using True by (simp add: user_range_def word_le_nat_alt word_less_nat_alt not_le not_less)
qed (simp add: user_range_def not_le not_less)

lemma sint_nonneg: "0 \<le> sint b \<Longrightarrow> unat b < 2 ^ 31 \<and> nat (sint b) = unat b" for b :: u32
proof -
  assume n: "0 \<le> sint b"
  have l: "sint b < 2 ^ 31" using sint_lt [of b] by simp
  have e: "uint (word_of_int k :: u32) = k mod 2 ^ 32" for k by (simp add: uint_word_of_int)
  have "uint b = sint b mod 2 ^ 32" using e [of "sint b"] by simp
  also have "\<dots> = sint b" using n l by (intro mod_pos_pos_trivial) simp_all
  finally have "uint b = sint b" .
  then have "unat b = nat (sint b)" by (metis nat_uint_eq)
  then show ?thesis using n l by simp
qed

text \<open>C30. Pointers taken from user space. For a process below the kernel (\<^verbatim>\<open>sz <= KERNBASE\<close>) the
  argument functions accept exactly what lies in its memory: an integer if its four bytes do, a
  buffer if its length is not negative and all its bytes do (no wrap-around slips through),
  a string if it starts there and has its NUL there, with the length up to the first NUL.\<close>

theorem user_pointers_checked:
  assumes "u_sz p \<le> 0x80000000"
  shows "fetchint p a = (if user_range p a 4 then Some (load32 (u_mem p) a) else None)
    \<and> argptr p n sz = (case argint p n of
         Some i \<Rightarrow> if 0 \<le> sint sz \<and> user_range p i (nat (sint sz)) then Some i else None | None \<Rightarrow> None)
    \<and> (case fetchstr p a of
         Some (a', len) \<Rightarrow> a' = a \<and> user_range p a (len + 1) \<and> u_mem p (a + of_nat len) = 0
           \<and> (\<forall>k < len. u_mem p (a + of_nat k) \<noteq> 0)
       | None \<Rightarrow> \<not> (\<exists>len. user_range p a (len + 1) \<and> u_mem p (a + of_nat len) = 0))"
proof (intro conjI)
  show "fetchint p a = (if user_range p a 4 then Some (load32 (u_mem p) a) else None)"
    using range_add [OF assms, of 4 a] by (auto simp: fetchint_def)
  show "argptr p n sz = (case argint p n of
         Some i \<Rightarrow> if 0 \<le> sint sz \<and> user_range p i (nat (sint sz)) then Some i else None | None \<Rightarrow> None)"
  proof (cases "argint p n")
    case (Some i)
    have neg: "sz <s 0 \<longleftrightarrow> \<not> 0 \<le> sint sz" by (auto simp: word_sless_alt)
    show ?thesis
    proof (cases "0 \<le> sint sz")
      case True
      note s = sint_nonneg [OF True]
      from range_add [OF assms s [THEN conjunct1], of i] show ?thesis
        using True neg s by (auto simp: argptr_def Some)
    qed (simp add: argptr_def Some neg)
  qed (simp add: argptr_def)
  show "case fetchstr p a of
         Some (a', len) \<Rightarrow> a' = a \<and> user_range p a (len + 1) \<and> u_mem p (a + of_nat len) = 0
           \<and> (\<forall>k < len. u_mem p (a + of_nat k) \<noteq> 0)
       | None \<Rightarrow> \<not> (\<exists>len. user_range p a (len + 1) \<and> u_mem p (a + of_nat len) = 0)"
  proof (cases "a < u_sz p")
    case True
    then have l: "unat a < unat (u_sz p)" by (simp add: word_less_nat_alt)
    show ?thesis
    proof (cases "scan_nul (u_mem p) a 0 (unat (u_sz p) - unat a)")
      case None
      then show ?thesis using scan_nul_None [OF None] True l
        by (auto simp: fetchstr_def user_range_def)
    next
      case (Some len)
      then show ?thesis using scan_nul_Some [OF Some] True l
        by (auto simp: fetchstr_def user_range_def)
    qed
  qed (simp add: fetchstr_def user_range_def)
qed

definition ex_uproc :: uproc where
  "ex_uproc = \<lparr>u_sz = 0x1000, u_esp = 0xF00, u_eax = 5, u_mem = \<lambda>a. if a = 0xF05 then 0x10 else 0\<rparr>"

theorem user_pointers_checked_witness:
  "fetchint ex_uproc 0xFFE = None \<and> fetchint ex_uproc 0xFFC = Some (load32 (u_mem ex_uproc) 0xFFC)"
proof -
  have s: "u_sz ex_uproc \<le> 0x80000000" by (simp add: ex_uproc_def)
  have "\<not> user_range ex_uproc 0xFFE 4" "user_range ex_uproc 0xFFC 4" by (simp_all add: user_range_def ex_uproc_def)
  then show ?thesis
    using user_pointers_checked [OF s, of "0xFFE", THEN conjunct1]
      user_pointers_checked [OF s, of "0xFFC", THEN conjunct1] by (simp only: if_True if_False)
qed

end
