(* ===== verification/Sh.thy ===== *)
theory Sh
  imports Prelude
begin

text \<open>
  The shell (\<^verbatim>\<open>sh.c\<close>): tokens, the recursive-descent parser, \<^verbatim>\<open>nulterminate\<close> and
  \<^verbatim>\<open>runcmd\<close>.

  The command line is a \<^typ>\<open>string\<close> without its terminating NUL; a \<^verbatim>\<open>char*\<close> into it is an
  index, \<^verbatim>\<open>es\<close> is the length of the line, and reading at \<^verbatim>\<open>es\<close> gives the NUL. A parse either
  panics, or returns a command and the index it stopped at. \<^verbatim>\<open>malloc\<close> is taken to succeed.
\<close>

section \<open>Commands\<close>

type_synonym word_at = "nat \<times> nat"

datatype cmd =
    Exec "word_at list"
  | Redir cmd word_at int int
  | Pipe cmd cmd
  | List cmd cmd
  | Back cmd

datatype sh_error = ShPanic string | NoFuel

definition MAXARGS :: nat where
  "MAXARGS = 10"

definition O_RDONLY :: int where
  "O_RDONLY = 0"

definition O_WRONLY :: int where
  "O_WRONLY = 1"

definition O_RDWR :: int where
  "O_RDWR = 2"

definition O_CREATE :: int where
  "O_CREATE = 0x200"

definition execcmd :: cmd where
  "execcmd = Exec []"

definition redircmd :: "cmd \<Rightarrow> nat \<Rightarrow> nat \<Rightarrow> int \<Rightarrow> int \<Rightarrow> cmd" where
  "redircmd subcmd file efile mode fd = Redir subcmd (file, efile) mode fd"

definition pipecmd :: "cmd \<Rightarrow> cmd \<Rightarrow> cmd" where
  "pipecmd left right = Pipe left right"

definition listcmd :: "cmd \<Rightarrow> cmd \<Rightarrow> cmd" where
  "listcmd left right = List left right"

definition backcmd :: "cmd \<Rightarrow> cmd" where
  "backcmd subcmd = Back subcmd"

text \<open>
  \<^verbatim>\<open>parseexec\<close> keeps a pointer to the \<^verbatim>\<open>execcmd\<close> node and stores the arguments through it
  while redirections are wrapped around the node: \<open>add_arg\<close> is that store,
  \<open>argc\<close> the number of arguments stored so far.
\<close>

fun add_arg :: "cmd \<Rightarrow> word_at \<Rightarrow> cmd" where
  "add_arg (Exec args) w = Exec (args @ [w])"
| "add_arg (Redir c f m d) w = Redir (add_arg c w) f m d"
| "add_arg c w = c"

section \<open>Tokens\<close>

abbreviation NUL :: char where
  "NUL \<equiv> CHR 0x00"

definition whitespace :: string where
  "whitespace = [CHR '' '', CHR 0x09, CHR 0x0D, CHR 0x0A, CHR 0x0B]"

definition symbols :: string where
  "symbols = ''<|>&;()''"

definition chr_at :: "string \<Rightarrow> nat \<Rightarrow> char" where
  "chr_at buf s = (if s < length buf then buf ! s else NUL)"

text \<open>The loops \<^verbatim>\<open>while(s < es && ...) s++\<close> of \<^verbatim>\<open>gettoken\<close> and \<^verbatim>\<open>peek\<close>.\<close>

function skip :: "(char \<Rightarrow> bool) \<Rightarrow> string \<Rightarrow> nat \<Rightarrow> nat" where
  "skip P buf s = (if s < length buf \<and> P (buf ! s) then skip P buf (s + 1) else s)"
  by pat_completeness auto
termination
  by (relation "measure (\<lambda>(P, buf, s). length buf - s)") auto

declare skip.simps [simp del]

abbreviation is_white :: "char \<Rightarrow> bool" where
  "is_white c \<equiv> c \<in> set whitespace"

abbreviation is_symbol :: "char \<Rightarrow> bool" where
  "is_symbol c \<equiv> c \<in> set symbols"

definition gettoken :: "string \<Rightarrow> nat \<Rightarrow> char \<times> nat \<times> nat \<times> nat" where
  "gettoken buf s =
     (let q = skip is_white buf s;
          c = chr_at buf q;
          (ret, eq) =
            (if c = NUL then (NUL, q)
             else if c \<in> set ''|();&<'' then (c, q + 1)
             else if c = CHR ''>'' then
               (if chr_at buf (q + 1) = CHR ''>'' then (CHR ''+'', q + 2) else (c, q + 1))
             else (CHR ''a'', skip (\<lambda>c. \<not> is_white c \<and> \<not> is_symbol c) buf q))
      in (ret, q, eq, skip is_white buf eq))"

definition peek :: "string \<Rightarrow> nat \<Rightarrow> string \<Rightarrow> bool \<times> nat" where
  "peek buf s toks =
     (let s' = skip is_white buf s; c = chr_at buf s' in (c \<noteq> NUL \<and> c \<in> set toks, s'))"

abbreviation advance :: "string \<Rightarrow> nat \<Rightarrow> nat" where
  "advance buf s \<equiv> snd (snd (snd (gettoken buf s)))"

lemma skip_ge: "s \<le> skip P buf s"
  by (induction P buf s rule: skip.induct) (subst skip.simps, auto)

lemma skip_len: "s \<le> length buf \<Longrightarrow> skip P buf s \<le> length buf"
  by (induction P buf s rule: skip.induct) (subst skip.simps, auto)

lemma skip_all: "s \<le> i \<Longrightarrow> i < skip P buf s \<Longrightarrow> i < length buf \<and> P (buf ! i)"
proof (induction P buf s rule: skip.induct)
  case (1 P buf s)
  show ?case
  proof (cases "s < length buf \<and> P (buf ! s)")
    case True
    then have e: "skip P buf s = skip P buf (s + 1)" by (subst skip.simps) simp
    show ?thesis
    proof (cases "i = s")
      case False
      then show ?thesis using 1 True e by simp
    qed (use True in simp)
  next
    case False
    then show ?thesis using 1 by (subst (asm) (2) skip.simps) auto
  qed
qed

lemma skip_stop: "skip P buf s < length buf \<Longrightarrow> \<not> P (buf ! skip P buf s)"
  by (induction P buf s rule: skip.induct) (subst (asm) (2) skip.simps, subst skip.simps, auto split: if_splits)

lemma skip_end: "length buf \<le> s \<Longrightarrow> skip P buf s = s"
  by (subst skip.simps) simp

lemma chr_at_NUL: "NUL \<notin> set buf \<Longrightarrow> chr_at buf s = NUL \<longleftrightarrow> length buf \<le> s"
  by (auto simp: chr_at_def in_set_conv_nth)

lemma chr_at_len: "chr_at buf s \<noteq> NUL \<Longrightarrow> s < length buf"
  by (auto simp: chr_at_def split: if_splits)

text \<open>A token starts where \<^verbatim>\<open>*q\<close> points, and only the end of the line gives an empty one.\<close>

lemma gettoken_pos:
  assumes "gettoken buf s = (t, q, e, s')"
  shows "s \<le> q" "q \<le> e" "e \<le> s'" "chr_at buf q \<noteq> NUL \<Longrightarrow> q < e"
    "s \<le> length buf \<Longrightarrow> s' \<le> length buf" "q = skip is_white buf s"
proof -
  show q: "q = skip is_white buf s"
    using assms by (auto simp: gettoken_def Let_def split: if_splits)
  have e: "q \<le> e \<and> (chr_at buf q \<noteq> NUL \<longrightarrow> q < e \<and> e \<le> length buf) \<and> (chr_at buf q = NUL \<longrightarrow> e = q)"
  proof (cases "chr_at buf q = NUL \<or> chr_at buf q \<in> set ''|();&<>''")
    case True
    then show ?thesis
      using assms chr_at_len [of buf q] chr_at_len [of buf "q + 1"]
      by (auto simp: gettoken_def Let_def split: if_splits)
  next
    case False
    then have l: "q < length buf" "chr_at buf q = buf ! q"
      by (auto simp: chr_at_def split: if_splits)
    have w: "\<not> is_white (buf ! q)" using l(1) unfolding q by (rule skip_stop)
    have y: "\<not> is_symbol (buf ! q)" using False l by (auto simp: symbols_def)
    have e: "e = skip (\<lambda>c. \<not> is_white c \<and> \<not> is_symbol c) buf q"
      using assms False q by (auto simp: gettoken_def Let_def split: if_splits)
    have "e = skip (\<lambda>c. \<not> is_white c \<and> \<not> is_symbol c) buf (q + 1)"
      unfolding e using l(1) w y by (subst skip.simps) simp
    then show ?thesis
      using skip_ge [of "q + 1" "\<lambda>c. \<not> is_white c \<and> \<not> is_symbol c" buf]
        skip_len [of "q + 1" buf "\<lambda>c. \<not> is_white c \<and> \<not> is_symbol c"] l(1) False by simp
  qed
  show "s \<le> q" unfolding q by (rule skip_ge)
  show "q \<le> e" "chr_at buf q \<noteq> NUL \<Longrightarrow> q < e" using e by auto
  have s': "s' = skip is_white buf e" using assms by (auto simp: gettoken_def Let_def split: if_splits)
  show "e \<le> s'" unfolding s' by (rule skip_ge)
  assume "s \<le> length buf"
  then have "q \<le> length buf" unfolding q by (rule skip_len)
  then have "e \<le> length buf" using e by auto
  then show "s' \<le> length buf" unfolding s' by (rule skip_len)
qed

lemma skip_idem: "skip P buf (skip P buf s) = skip P buf s"
  using skip_stop [of P buf s] by (subst skip.simps) auto

text \<open>After a successful \<^verbatim>\<open>peek\<close> the next \<^verbatim>\<open>gettoken\<close> moves the pointer.\<close>

lemma peek_pos:
  assumes "peek buf s toks = (b, s')"
  shows "s \<le> s'" "s \<le> length buf \<Longrightarrow> s' \<le> length buf"
  using assms skip_ge [of s is_white buf] skip_len [of s buf is_white]
  by (auto simp: peek_def Let_def)

lemma peek_gettoken:
  assumes "peek buf s toks = (True, s1)" "gettoken buf s1 = (t, q, e, s2)"
  shows "s < s2" "s2 \<le> length buf" "s < length buf"
proof -
  have s1: "s1 = skip is_white buf s" and c: "chr_at buf s1 \<noteq> NUL"
    using assms(1) by (auto simp: peek_def Let_def)
  have q: "q = s1" using gettoken_pos(6) [OF assms(2)] by (simp add: s1 skip_idem)
  have "s \<le> s1" unfolding s1 by (rule skip_ge)
  moreover have l: "s1 < length buf" using c by (rule chr_at_len)
  ultimately show "s < s2" "s < length buf"
    using gettoken_pos(3,4) [OF assms(2)] c q by auto
  show "s2 \<le> length buf" using gettoken_pos(5) [OF assms(2)] l by simp
qed

lemma gettoken_progress:
  assumes "gettoken buf s = (t, q, e, s')" "t \<noteq> NUL"
  shows "s < s'" "s < length buf"
proof -
  have "chr_at buf q \<noteq> NUL" using assms by (auto simp: gettoken_def Let_def split: if_splits)
  then show "s < s'" "s < length buf"
    using gettoken_pos(1-4) [OF assms(1)] chr_at_len [of buf q] by auto
qed

lemma redirs_step:
  assumes "(True, s1) = peek buf s toks" "(t1, q1, e1, s2) = gettoken buf s1"
    "(t2, q2, e2, s3) = gettoken buf s2"
  shows "length buf - s3 < length buf - s"
  using peek_gettoken [OF assms(1,2) [symmetric]] gettoken_pos(1-3) [OF assms(3) [symmetric]] by simp

section \<open>The parser\<close>

function parseredirs :: "cmd \<Rightarrow> string \<Rightarrow> nat \<Rightarrow> sh_error + cmd \<times> nat" where
  "parseredirs cmd buf s =
     (case peek buf s ''<>'' of (found, s1) \<Rightarrow>
      if found then
        (case gettoken buf s1 of (tok, _, _, s2) \<Rightarrow>
         case gettoken buf s2 of (tok', q, eq, s3) \<Rightarrow>
         if tok' \<noteq> CHR ''a'' then Inl (ShPanic ''missing file for redirection'')
         else parseredirs
           (if tok = CHR ''<'' then redircmd cmd q eq O_RDONLY 0
            else if tok = CHR ''>'' then redircmd cmd q eq (O_WRONLY OR O_CREATE) 1
            else if tok = CHR ''+'' then redircmd cmd q eq (O_WRONLY OR O_CREATE) 1
            else cmd) buf s3)
      else Inr (cmd, s1))"
  by pat_completeness auto
termination
  by (relation "measure (\<lambda>(cmd, buf, s). length buf - s)") (auto intro: redirs_step)

declare parseredirs.simps [simp del]

lemma parseredirs_pos:
  "parseredirs cmd buf s = Inr (c, s') \<Longrightarrow> s \<le> s' \<and> (s \<le> length buf \<longrightarrow> s' \<le> length buf)"
proof (induction cmd buf s rule: parseredirs.induct)
  case (1 cmd buf s)
  obtain found s1 where p: "peek buf s ''<>'' = (found, s1)" by (cases "peek buf s ''<>''")
  obtain t1 q1 e1 s2 where g1: "gettoken buf s1 = (t1, q1, e1, s2)" by (cases "gettoken buf s1") auto
  obtain t2 q2 e2 s3 where g2: "gettoken buf s2 = (t2, q2, e2, s3)" by (cases "gettoken buf s2") auto
  note m = peek_pos [OF p] gettoken_pos(1-3,5) [OF g1] gettoken_pos(1-3,5) [OF g2]
  show ?case
  proof (cases "found \<and> t2 = CHR ''a''")
    case True
    then have "parseredirs cmd buf s = parseredirs
           (if t1 = CHR ''<'' then redircmd cmd q2 e2 O_RDONLY 0
            else if t1 = CHR ''>'' then redircmd cmd q2 e2 (O_WRONLY OR O_CREATE) 1
            else if t1 = CHR ''+'' then redircmd cmd q2 e2 (O_WRONLY OR O_CREATE) 1
            else cmd) buf s3"
      by (subst parseredirs.simps) (simp add: p g1 g2)
    with 1(1) [OF p [symmetric] _ g1 [symmetric] refl refl g2 [symmetric] refl refl] 1(2) True
    have "s3 \<le> s' \<and> (s3 \<le> length buf \<longrightarrow> s' \<le> length buf)" by simp
    with m show ?thesis by auto
  next
    case False
    then show ?thesis using 1(2) m
      by (subst (asm) parseredirs.simps) (auto simp: p g1 g2 split: if_splits)
  qed
qed

lemma args_step:
  assumes "(b, s1) = peek buf s toks" "(t, q, e, s2) = gettoken buf s1" "t \<noteq> NUL"
    "parseredirs c buf s2 = Inr (c', s3)"
  shows "length buf - s3 < length buf - s"
  using peek_pos [OF assms(1) [symmetric]] gettoken_progress [OF assms(2) [symmetric] assms(3)]
    parseredirs_pos [OF assms(4)] by arith

function parseargs :: "cmd \<Rightarrow> nat \<Rightarrow> string \<Rightarrow> nat \<Rightarrow> sh_error + cmd \<times> nat" where
  "parseargs ret argc buf s =
     (case peek buf s ''|)&;'' of (found, s1) \<Rightarrow>
      if found then Inr (ret, s1)
      else
        (case gettoken buf s1 of (tok, q, eq, s2) \<Rightarrow>
         if tok = NUL then Inr (ret, s2)
         else if tok \<noteq> CHR ''a'' then Inl (ShPanic ''syntax'')
         else if argc + 1 \<ge> MAXARGS then Inl (ShPanic ''too many args'')
         else
           (case parseredirs (add_arg ret (q, eq)) buf s2 of
              Inl e \<Rightarrow> Inl e
            | Inr (ret', s3) \<Rightarrow> parseargs ret' (argc + 1) buf s3)))"
  by pat_completeness auto

termination
  by (relation "measure (\<lambda>(ret, argc, buf, s). length buf - s)") (auto intro: args_step)

declare parseargs.simps [simp del]

definition parseblock :: "(nat \<Rightarrow> sh_error + cmd \<times> nat) \<Rightarrow> string \<Rightarrow> nat \<Rightarrow> sh_error + cmd \<times> nat" where
  "parseblock parseline buf s =
     (case peek buf s ''('' of (found, s1) \<Rightarrow>
      if \<not> found then Inl (ShPanic ''parseblock'')
      else
        (case parseline (advance buf s1) of
           Inl e \<Rightarrow> Inl e
         | Inr (cmd, s2) \<Rightarrow>
             (case peek buf s2 '')'' of (found', s3) \<Rightarrow>
              if \<not> found' then Inl (ShPanic ''syntax - missing )'')
              else parseredirs cmd buf (advance buf s3))))"

definition parseexec :: "(nat \<Rightarrow> sh_error + cmd \<times> nat) \<Rightarrow> string \<Rightarrow> nat \<Rightarrow> sh_error + cmd \<times> nat" where
  "parseexec parseline buf s =
     (case peek buf s ''('' of (found, s1) \<Rightarrow>
      if found then parseblock parseline buf s1
      else
        (case parseredirs execcmd buf s1 of
           Inl e \<Rightarrow> Inl e
         | Inr (ret, s2) \<Rightarrow> parseargs ret 0 buf s2))"

fun parsepipe :: "nat \<Rightarrow> (nat \<Rightarrow> sh_error + cmd \<times> nat) \<Rightarrow> string \<Rightarrow> nat \<Rightarrow> sh_error + cmd \<times> nat" where
  "parsepipe 0 parseline buf s = Inl NoFuel"
| "parsepipe (Suc fuel) parseline buf s =
     (case parseexec parseline buf s of
        Inl e \<Rightarrow> Inl e
      | Inr (cmd, s1) \<Rightarrow>
          (case peek buf s1 ''|'' of (found, s2) \<Rightarrow>
           if found then
             (case parsepipe fuel parseline buf (advance buf s2) of
                Inl e \<Rightarrow> Inl e
              | Inr (right, s3) \<Rightarrow> Inr (pipecmd cmd right, s3))
           else Inr (cmd, s2)))"

lemma backs_step:
  assumes "(True, s1) = peek buf s toks" "(t1, q1, e1, s2) = gettoken buf s1"
  shows "length buf - s2 < length buf - s"
  using peek_gettoken [OF assms [symmetric]] by simp

function parsebacks :: "cmd \<Rightarrow> string \<Rightarrow> nat \<Rightarrow> cmd \<times> nat" where
  "parsebacks cmd buf s =
     (case peek buf s ''&'' of (found, s1) \<Rightarrow>
      if found then
        (case gettoken buf s1 of (_, _, _, s2) \<Rightarrow> parsebacks (backcmd cmd) buf s2)
      else (cmd, s1))"
  by pat_completeness auto

termination
  by (relation "measure (\<lambda>(cmd, buf, s). length buf - s)") (auto intro: backs_step)

declare parsebacks.simps [simp del]

fun parseline :: "nat \<Rightarrow> string \<Rightarrow> nat \<Rightarrow> sh_error + cmd \<times> nat" where
  "parseline 0 buf s = Inl NoFuel"
| "parseline (Suc fuel) buf s =
     (case parsepipe (Suc fuel) (parseline fuel buf) buf s of
        Inl e \<Rightarrow> Inl e
      | Inr (cmd, s1) \<Rightarrow>
          (case parsebacks cmd buf s1 of (cmd', s2) \<Rightarrow>
           case peek buf s2 '';'' of (found, s3) \<Rightarrow>
           if found then
             (case parseline fuel buf (advance buf s3) of
                Inl e \<Rightarrow> Inl e
              | Inr (rest, s4) \<Rightarrow> Inr (listcmd cmd' rest, s4))
           else Inr (cmd', s3)))"

text \<open>The stores \<^verbatim>\<open>*eargv[i] = 0\<close> and \<^verbatim>\<open>*efile = 0\<close> into the line.\<close>

fun nulterminate :: "cmd \<Rightarrow> string \<Rightarrow> string" where
  "nulterminate (Exec args) buf = foldl (\<lambda>b w. b[snd w := NUL]) buf args"
| "nulterminate (Redir c f m d) buf = (nulterminate c buf)[snd f := NUL]"
| "nulterminate (Pipe l r) buf = nulterminate r (nulterminate l buf)"
| "nulterminate (List l r) buf = nulterminate r (nulterminate l buf)"
| "nulterminate (Back c) buf = nulterminate c buf"

text \<open>The parsed command and the line its words point into. The recursion depth of
  \<^verbatim>\<open>parseline\<close> is bounded by the number of characters left, which is the fuel.\<close>

definition parsecmd :: "string \<Rightarrow> sh_error + cmd \<times> string" where
  "parsecmd line =
     (case parseline (length line + 1) line 0 of
        Inl e \<Rightarrow> Inl e
      | Inr (cmd, s) \<Rightarrow>
          (case peek line s [] of (_, s') \<Rightarrow>
           if s' \<noteq> length line then Inl (ShPanic ''syntax'')
           else Inr (cmd, nulterminate cmd (line @ [NUL]))))"

section \<open>Words of a parsed command\<close>

text \<open>
  A word is a non-empty maximal run of ordinary characters of the line. A command is well
  formed if all its words are, the \<^verbatim>\<open>argv\<close> array of every \<^verbatim>\<open>execcmd\<close> has room for the
  terminating null pointer, and every redirection opens standard input for reading or
  standard output for writing.
\<close>

definition ordinary :: "char \<Rightarrow> bool" where
  "ordinary c \<longleftrightarrow> \<not> is_white c \<and> \<not> is_symbol c"

definition word_ok :: "string \<Rightarrow> word_at \<Rightarrow> bool" where
  "word_ok buf w \<longleftrightarrow> fst w < snd w \<and> snd w \<le> length buf \<and>
     list_all (\<lambda>i. ordinary (buf ! i)) [fst w..<snd w] \<and>
     (snd w = length buf \<or> \<not> ordinary (buf ! snd w))"

fun cmd_ok :: "string \<Rightarrow> cmd \<Rightarrow> bool" where
  "cmd_ok buf (Exec args) \<longleftrightarrow> length args < MAXARGS \<and> list_all (word_ok buf) args"
| "cmd_ok buf (Redir c f m d) \<longleftrightarrow> cmd_ok buf c \<and> word_ok buf f \<and> (m, d) \<in> {(0, 0), (0x201, 1)}"
| "cmd_ok buf (Pipe l r) \<longleftrightarrow> cmd_ok buf l \<and> cmd_ok buf r"
| "cmd_ok buf (List l r) \<longleftrightarrow> cmd_ok buf l \<and> cmd_ok buf r"
| "cmd_ok buf (Back c) \<longleftrightarrow> cmd_ok buf c"

fun cmd_words :: "cmd \<Rightarrow> word_at list" where
  "cmd_words (Exec args) = args"
| "cmd_words (Redir c f m d) = cmd_words c @ [f]"
| "cmd_words (Pipe l r) = cmd_words l @ cmd_words r"
| "cmd_words (List l r) = cmd_words l @ cmd_words r"
| "cmd_words (Back c) = cmd_words c"

text \<open>A parse from \<open>s\<close> is good if it does not run out of fuel, and moves forward within the
  line to a well-formed command when it returns.\<close>

definition good :: "string \<Rightarrow> nat \<Rightarrow> sh_error + cmd \<times> nat \<Rightarrow> bool" where
  "good buf s r \<longleftrightarrow>
     (case r of Inl e \<Rightarrow> e \<noteq> NoFuel
      | Inr (c, s') \<Rightarrow> s \<le> s' \<and> s' \<le> length buf \<and> cmd_ok buf c)"

lemma good_Inl [simp]: "good buf s (Inl e) \<longleftrightarrow> e \<noteq> NoFuel"
  by (simp add: good_def)

lemma good_Inr [simp]: "good buf s (Inr (c, s')) \<longleftrightarrow> s \<le> s' \<and> s' \<le> length buf \<and> cmd_ok buf c"
  by (simp add: good_def)

lemma good_mono: "good buf s' r \<Longrightarrow> s \<le> s' \<Longrightarrow> good buf s r"
  by (auto simp: good_def split: sum.splits)

lemma gettoken_word:
  assumes g: "gettoken buf s = (CHR ''a'', q, e, s')" and s: "s \<le> length buf"
  shows "word_ok buf (q, e)"
proof -
  have c: "chr_at buf q \<noteq> NUL"
    and e: "e = skip (\<lambda>c. \<not> is_white c \<and> \<not> is_symbol c) buf q"
    using g by (auto simp: gettoken_def Let_def split: if_splits)
  have "q < e" using gettoken_pos(4) [OF g] c .
  moreover have "e \<le> length buf" using gettoken_pos(3,5) [OF g] s by simp
  moreover have "ordinary (buf ! i)" if "q \<le> i" "i < e" for i
    using skip_all [OF that(1) that(2) [unfolded e]] by (simp add: ordinary_def)
  moreover have "\<not> ordinary (buf ! e)" if "e < length buf"
    using skip_stop [OF that [unfolded e]] by (simp add: e ordinary_def)
  ultimately show ?thesis by (auto simp: word_ok_def list_all_iff)
qed

text \<open>The number of arguments stored through the \<^verbatim>\<open>execcmd\<close> pointer.\<close>

fun exec_node :: "cmd \<Rightarrow> nat option" where
  "exec_node (Exec args) = Some (length args)"
| "exec_node (Redir c f m d) = exec_node c"
| "exec_node c = None"

lemma add_arg_ok:
  "cmd_ok buf c \<Longrightarrow> exec_node c = Some n \<Longrightarrow> n + 1 < MAXARGS \<Longrightarrow> word_ok buf w \<Longrightarrow>
   cmd_ok buf (add_arg c w) \<and> exec_node (add_arg c w) = Some (n + 1)"
  by (induction c) auto

lemma parseredirs_good:
  "cmd_ok buf cmd \<Longrightarrow> s \<le> length buf \<Longrightarrow> good buf s (parseredirs cmd buf s) \<and>
   (\<forall>c s'. parseredirs cmd buf s = Inr (c, s') \<longrightarrow> exec_node c = exec_node cmd)"
proof (induction cmd buf s rule: parseredirs.induct)
  case (1 cmd buf s)
  obtain found s1 where p: "peek buf s ''<>'' = (found, s1)" by (cases "peek buf s ''<>''")
  obtain t1 q1 e1 s2 where g1: "gettoken buf s1 = (t1, q1, e1, s2)" by (cases "gettoken buf s1") auto
  obtain t2 q2 e2 s3 where g2: "gettoken buf s2 = (t2, q2, e2, s3)" by (cases "gettoken buf s2") auto
  note m = peek_pos [OF p] gettoken_pos(1-3,5) [OF g1] gettoken_pos(1-3,5) [OF g2]
  let ?c = "if t1 = CHR ''<'' then redircmd cmd q2 e2 O_RDONLY 0
            else if t1 = CHR ''>'' then redircmd cmd q2 e2 (O_WRONLY OR O_CREATE) 1
            else if t1 = CHR ''+'' then redircmd cmd q2 e2 (O_WRONLY OR O_CREATE) 1
            else cmd"
  show ?case
  proof (cases "found \<and> t2 = CHR ''a''")
    case True
    have u: "parseredirs cmd buf s = parseredirs ?c buf s3"
      using True by (subst parseredirs.simps) (simp add: p g1 g2)
    have "word_ok buf (q2, e2)" using gettoken_word [of buf s2 q2 e2 s3] g2 True m 1(3) by simp
    then have c: "cmd_ok buf ?c" "exec_node ?c = exec_node cmd"
      using 1(2) by (auto simp: redircmd_def O_RDONLY_def O_WRONLY_def O_CREATE_def)
    have "s3 \<le> length buf" using m 1(3) by simp
    from 1(1) [OF p [symmetric] _ g1 [symmetric] refl refl g2 [symmetric] refl refl _ c(1) this] True
    have ih: "good buf s3 (parseredirs ?c buf s3) \<and>
        (\<forall>c s'. parseredirs ?c buf s3 = Inr (c, s') \<longrightarrow> exec_node c = exec_node ?c)" by blast
    have "s \<le> s3" using m by simp
    with ih have "good buf s (parseredirs ?c buf s3)" by (blast intro: good_mono)
    then show ?thesis unfolding u using ih [THEN conjunct2, unfolded c(2)] by (rule conjI)
  next
    case False
    then have u: "parseredirs cmd buf s =
        (if found then Inl (ShPanic ''missing file for redirection'') else Inr (cmd, s1))"
      by (subst parseredirs.simps) (simp add: p g1 g2)
    show ?thesis unfolding u using 1(2,3) m(1,2) by auto
  qed
qed

lemma parseargs_good:
  "cmd_ok buf ret \<Longrightarrow> exec_node ret = Some argc \<Longrightarrow> s \<le> length buf \<Longrightarrow> good buf s (parseargs ret argc buf s)"
proof (induction ret argc buf s rule: parseargs.induct)
  case (1 ret argc buf s)
  obtain found s1 where p: "peek buf s ''|)&;'' = (found, s1)" by (cases "peek buf s ''|)&;''")
  obtain t q e s2 where g: "gettoken buf s1 = (t, q, e, s2)" by (cases "gettoken buf s1") auto
  note m = peek_pos [OF p] gettoken_pos(1-3,5) [OF g]
  show ?case
  proof (cases "\<not> found \<and> t = CHR ''a'' \<and> argc + 1 < MAXARGS")
    case True
    have "word_ok buf (q, e)" using gettoken_word [of buf s1 q e s2] g True m 1(4) by simp
    from add_arg_ok [OF 1(2,3) _ this] True
    have a: "cmd_ok buf (add_arg ret (q, e))" "exec_node (add_arg ret (q, e)) = Some (argc + 1)" by auto
    have r: "good buf s2 (parseredirs (add_arg ret (q, e)) buf s2)"
      "\<And>c s'. parseredirs (add_arg ret (q, e)) buf s2 = Inr (c, s') \<Longrightarrow> exec_node c = Some (argc + 1)"
      using parseredirs_good [OF a(1), of s2] m 1(4) a(2) by auto
    show ?thesis
    proof (cases "parseredirs (add_arg ret (q, e)) buf s2")
      case (Inl e')
      then show ?thesis using r True by (subst parseargs.simps) (simp add: p g)
    next
      case (Inr cs)
      then obtain c s3 where i: "parseredirs (add_arg ret (q, e)) buf s2 = Inr (c, s3)" by (cases cs) auto
      then have c: "cmd_ok buf c" "s2 \<le> s3" "s3 \<le> length buf" using r(1) by auto
      have "good buf s3 (parseargs c (argc + 1) buf s3)"
        using 1(1) [OF p [symmetric] _ g [symmetric] refl refl _ _ _ i refl c(1) r(2) [OF i] c(3)] True by simp
      then have "good buf s (parseargs c (argc + 1) buf s3)" using good_mono m c(2) by simp
      then show ?thesis using True by (subst parseargs.simps) (simp add: p g i)
    qed
  next
    case False
    then consider "found" | "\<not> found" "t = NUL" | "\<not> found" "t \<noteq> NUL" "t \<noteq> CHR ''a''"
      | "\<not> found" "t = CHR ''a''" "MAXARGS \<le> argc + 1" by linarith
    then show ?thesis using 1(2,4) m by cases (subst parseargs.simps, simp add: p g)+
  qed
qed

lemma good_case:
  assumes "good buf s r" "\<And>e. r = Inl e \<Longrightarrow> e \<noteq> NoFuel \<Longrightarrow> P"
    "\<And>c s'. r = Inr (c, s') \<Longrightarrow> s \<le> s' \<Longrightarrow> s' \<le> length buf \<Longrightarrow> cmd_ok buf c \<Longrightarrow> P"
  shows P
  using assms by (cases r) auto

lemma peek_advance:
  assumes "peek buf s toks = (b, s1)" b
  shows "s < advance buf s1" "advance buf s1 \<le> length buf"
  using peek_gettoken [of buf s toks s1] assms by (cases "gettoken buf s1"; simp)+

lemma parseblock_good:
  assumes PL: "\<And>s'. s < s' \<Longrightarrow> s' \<le> length buf \<Longrightarrow> good buf s' (PL s')"
  shows "good buf s (parseblock PL buf s)"
proof -
  obtain found s1 where p: "peek buf s ''('' = (found, s1)" by (cases "peek buf s ''(''")
  show ?thesis
  proof (cases found)
    case True
    note a = peek_advance [OF p True]
    show ?thesis using PL [OF a]
    proof (rule good_case)
      fix c s2 assume r: "PL (advance buf s1) = Inr (c, s2)" "advance buf s1 \<le> s2" "s2 \<le> length buf"
        "cmd_ok buf c"
      obtain found' s3 where p': "peek buf s2 '')'' = (found', s3)" by (cases "peek buf s2 '')''")
      show ?thesis
      proof (cases found')
        case f: True
        note b = peek_advance [OF p' f]
        have "good buf (advance buf s3) (parseredirs c buf (advance buf s3))"
          using parseredirs_good [OF r(4) b(2)] by simp
        then have "good buf s (parseredirs c buf (advance buf s3))"
          using a(1) b(1) r(2) by (auto elim: good_mono)
        then show ?thesis using True f by (simp add: parseblock_def p p' r)
      qed (simp add: parseblock_def p p' r True)
    qed (simp add: parseblock_def p True)
  qed (simp add: parseblock_def p)
qed

lemma parseexec_good:
  assumes PL: "\<And>s'. s < s' \<Longrightarrow> s' \<le> length buf \<Longrightarrow> good buf s' (PL s')" and s: "s \<le> length buf"
  shows "good buf s (parseexec PL buf s)"
proof -
  obtain found s1 where p: "peek buf s ''('' = (found, s1)" by (cases "peek buf s ''(''")
  note m = peek_pos [OF p]
  show ?thesis
  proof (cases found)
    case True
    have "good buf s1 (parseblock PL buf s1)" using PL m(1) by (intro parseblock_good) simp
    then show ?thesis using m(1) by (simp add: parseexec_def p True good_mono)
  next
    case False
    have x: "cmd_ok buf execcmd" "exec_node execcmd = Some 0" by (simp_all add: execcmd_def MAXARGS_def)
    note g = parseredirs_good [OF x(1) m(2) [OF s]]
    show ?thesis using g [THEN conjunct1]
    proof (rule good_case)
      fix c s2 assume r: "parseredirs execcmd buf s1 = Inr (c, s2)" "s1 \<le> s2" "s2 \<le> length buf" "cmd_ok buf c"
      then have "good buf s2 (parseargs c 0 buf s2)" using g x(2) by (intro parseargs_good) auto
      then show ?thesis using m(1) r False by (auto simp: parseexec_def p elim: good_mono)
    qed (simp add: parseexec_def p False)
  qed
qed

lemma parsepipe_good:
  "(\<And>s'. s < s' \<Longrightarrow> s' \<le> length buf \<Longrightarrow> good buf s' (PL s')) \<Longrightarrow> s \<le> length buf \<Longrightarrow>
   length buf - s < fuel \<Longrightarrow> good buf s (parsepipe fuel PL buf s)"
proof (induction fuel arbitrary: s)
  case (Suc fuel)
  show ?case using parseexec_good [OF Suc.prems(1,2)]
  proof (rule good_case)
    fix c s1 assume r: "parseexec PL buf s = Inr (c, s1)" "s \<le> s1" "s1 \<le> length buf" "cmd_ok buf c"
    obtain found s2 where p: "peek buf s1 ''|'' = (found, s2)" by (cases "peek buf s1 ''|''")
    show ?thesis
    proof (cases found)
      case True
      note a = peek_advance [OF p True]
      have "good buf (advance buf s2) (parsepipe fuel PL buf (advance buf s2))"
        using Suc.prems a r by (intro Suc.IH) auto
      then show ?thesis
        by (rule good_case) (use True a r in \<open>auto simp: p pipecmd_def\<close>)
    qed (use peek_pos [OF p] r in \<open>auto simp: p\<close>)
  next
    fix e assume "parseexec PL buf s = Inl e" "e \<noteq> NoFuel"
    then show "good buf s (parsepipe (Suc fuel) PL buf s)" by simp
  qed
qed simp

lemma parsebacks_good:
  "cmd_ok buf c \<Longrightarrow> s \<le> length buf \<Longrightarrow> parsebacks c buf s = (c', s') \<Longrightarrow>
   cmd_ok buf c' \<and> s \<le> s' \<and> s' \<le> length buf"
proof (induction c buf s rule: parsebacks.induct)
  case (1 c buf s)
  obtain found s1 where p: "peek buf s ''&'' = (found, s1)" by (cases "peek buf s ''&''")
  obtain t q e s2 where g: "gettoken buf s1 = (t, q, e, s2)" by (cases "gettoken buf s1") auto
  show ?case
  proof (cases found)
    case True
    have "peek buf s ''&'' = (True, s1)" using p True by simp
    note a = peek_gettoken [OF this g]
    have u: "parsebacks c buf s = parsebacks (backcmd c) buf s2"
      using True by (subst parsebacks.simps) (simp add: p g)
    have "cmd_ok buf c' \<and> s2 \<le> s' \<and> s' \<le> length buf"
      using 1(1) [OF p [symmetric] True g [symmetric] refl refl] 1(2,4) a(2) u
      by (simp add: backcmd_def)
    then show ?thesis using a(1) by simp
  next
    case False
    then have "parsebacks c buf s = (c, s1)" by (subst parsebacks.simps) (simp add: p)
    then show ?thesis using 1(2-4) peek_pos [OF p] by simp
  qed
qed

lemma parseline_good: "s \<le> length buf \<Longrightarrow> length buf - s < fuel \<Longrightarrow> good buf s (parseline fuel buf s)"
proof (induction fuel arbitrary: s)
  case (Suc fuel)
  have "good buf s (parsepipe (Suc fuel) (parseline fuel buf) buf s)"
    using Suc.prems by (intro parsepipe_good Suc.IH) auto
  then show ?case
  proof (rule good_case)
    fix c s1 assume r: "parsepipe (Suc fuel) (parseline fuel buf) buf s = Inr (c, s1)"
      "s \<le> s1" "s1 \<le> length buf" "cmd_ok buf c"
    obtain c' s2 where b: "parsebacks c buf s1 = (c', s2)" by (cases "parsebacks c buf s1")
    note b' = parsebacks_good [OF r(4,3) b]
    obtain found s3 where p: "peek buf s2 '';'' = (found, s3)" by (cases "peek buf s2 '';''")
    show ?thesis
    proof (cases found)
      case True
      note a = peek_advance [OF p True]
      have "good buf (advance buf s3) (parseline fuel buf (advance buf s3))"
        using Suc.prems a r b' by (intro Suc.IH) auto
      then show ?thesis
        by (rule good_case)
          (use True a r b' in \<open>auto simp: p b listcmd_def simp del: parsepipe.simps\<close>)
    qed (use peek_pos [OF p] r b' in \<open>auto simp: p b simp del: parsepipe.simps\<close>)
  qed (simp del: parsepipe.simps)
qed simp

text \<open>\<^verbatim>\<open>nulterminate\<close> stores a NUL after every word and changes nothing else.\<close>

lemma foldl_nul_length: "length (foldl (\<lambda>b w. b[snd w := NUL]) buf ws) = length buf"
  by (induction ws arbitrary: buf) auto

lemma nth_update_if: "i < length xs \<Longrightarrow> xs[j := v] ! i = (if i = j then v else xs ! i)"
  by (auto simp: nth_list_update)

lemma foldl_nul: "i < length buf \<Longrightarrow>
  foldl (\<lambda>b w. b[snd w := NUL]) buf ws ! i = (if i \<in> snd ` set ws then NUL else buf ! i)"
  by (induction ws arbitrary: buf) (auto simp: nth_list_update)

lemma nulterminate_length [simp]: "length (nulterminate c buf) = length buf"
  by (induction c buf rule: nulterminate.induct) (auto simp: foldl_nul_length)

lemma nulterminate_nth: "i < length buf \<Longrightarrow>
  nulterminate c buf ! i = (if i \<in> snd ` set (cmd_words c) then NUL else buf ! i)"
  by (induction c buf rule: nulterminate.induct)
    (auto simp: foldl_nul nth_update_if)

lemma cmd_words_ok: "cmd_ok buf c \<Longrightarrow> list_all (word_ok buf) (cmd_words c)"
  by (induction c) auto

definition cstr :: "string \<Rightarrow> nat \<Rightarrow> string" where
  "cstr buf q = takeWhile (\<lambda>c. c \<noteq> NUL) (drop q buf)"

lemma word_read:
  assumes ok: "cmd_ok line c" and w: "w \<in> set (cmd_words c)" and n: "NUL \<notin> set line"
  shows "cstr (nulterminate c (line @ [NUL])) (fst w) = take (snd w - fst w) (drop (fst w) line)"
proof -
  let ?b = "nulterminate c (line @ [NUL])"
  obtain q e where qe: "w = (q, e)" by (cases w)
  have all: "word_ok line v" if "v \<in> set (cmd_words c)" for v
    using cmd_words_ok [OF ok] that by (auto simp: list_all_iff)
  have k: "q < e" "e \<le> length line" "\<And>i. q \<le> i \<Longrightarrow> i < e \<Longrightarrow> ordinary (line ! i)"
    using all [OF w] by (auto simp: word_ok_def qe list_all_iff)
  have keep: "?b ! i = line ! i" if i: "q \<le> i" "i < e" for i
  proof -
    have "i \<notin> snd ` set (cmd_words c)"
      using all k(2,3) i by (fastforce simp: word_ok_def)
    then show ?thesis using i k by (simp add: nulterminate_nth nth_append)
  qed
  have nul: "?b ! e = NUL"
    using w k(2) by (force simp: nulterminate_nth qe image_iff)
  have len: "length ?b = length line + 1" by simp
  have d: "drop q ?b = map (\<lambda>i. line ! i) [q..<e] @ drop e ?b"
  proof -
    have "drop q ?b = take (e - q) (drop q ?b) @ drop (e - q) (drop q ?b)"
      by (rule append_take_drop_id [symmetric])
    moreover have "take (e - q) (drop q ?b) = map (\<lambda>i. line ! i) [q..<e]"
      using k keep len by (intro nth_equalityI) auto
    ultimately show ?thesis using k(1) by simp
  qed
  have e: "drop e ?b = NUL # drop (Suc e) ?b"
    using nul k(2) len by (metis Cons_nth_drop_Suc less_Suc_eq_le add.commute plus_1_eq_Suc)
  have "line ! i \<noteq> NUL" if "i < e" for i
    using n that k(2) by (metis nth_mem order_less_le_trans)
  then have "cstr ?b q = map (\<lambda>i. line ! i) [q..<e]"
    unfolding cstr_def d e by (subst takeWhile_append2) auto
  also have "\<dots> = take (e - q) (drop q line)"
    using k by (intro nth_equalityI) auto
  finally show ?thesis by (simp add: qe)
qed

section \<open>Running a command\<close>

text \<open>
  A process is the tree of its system calls: after each call it continues with what the call
  returned. \<^verbatim>\<open>fork\<close> returns in the child (with 0) and in the parent, so both continuations run;
  \<^verbatim>\<open>exec\<close> returns only when it fails; \<^verbatim>\<open>pipe\<close> also delivers the two descriptors.
\<close>

datatype scall =
    ExecCall string "string list" | OpenCall string int | CloseCall int | DupCall int
  | ForkCall | WaitCall | ChdirCall string | PrintCall int string

datatype sproc =
    Exit
  | Sys scall "int \<Rightarrow> sproc"
  | PipeSys "int \<Rightarrow> int \<Rightarrow> int \<Rightarrow> sproc"

abbreviation next_call :: "scall \<Rightarrow> sproc \<Rightarrow> sproc" where
  "next_call c p \<equiv> Sys c (\<lambda>_. p)"

definition sh_panic :: "string \<Rightarrow> sproc" where
  "sh_panic s = next_call (PrintCall 2 (s @ [CHR 0x0A])) Exit"

definition fork1 :: "(int \<Rightarrow> sproc) \<Rightarrow> sproc" where
  "fork1 k = Sys ForkCall (\<lambda>pid. if pid = -1 then sh_panic ''fork'' else k pid)"

fun runcmd :: "string \<Rightarrow> cmd \<Rightarrow> sproc" where
  "runcmd buf (Exec args) =
     (case args of [] \<Rightarrow> Exit
      | a # _ \<Rightarrow>
          next_call (ExecCall (cstr buf (fst a)) (map (\<lambda>w. cstr buf (fst w)) args))
           (next_call (PrintCall 2 (''exec '' @ cstr buf (fst a) @ '' failed'' @ [CHR 0x0A])) Exit))"
| "runcmd buf (Redir c f mode fd) =
     next_call (CloseCall fd)
      (Sys (OpenCall (cstr buf (fst f)) mode) (\<lambda>r.
        if r < 0 then
          next_call (PrintCall 2 (''open '' @ cstr buf (fst f) @ '' failed'' @ [CHR 0x0A])) Exit
        else runcmd buf c))"
| "runcmd buf (List left right) =
     fork1 (\<lambda>pid. if pid = 0 then runcmd buf left else next_call WaitCall (runcmd buf right))"
| "runcmd buf (Pipe left right) =
     PipeSys (\<lambda>r p0 p1.
       if r < 0 then sh_panic ''pipe''
       else fork1 (\<lambda>pid.
         if pid = 0 then
           next_call (CloseCall 1) (next_call (DupCall p1)
            (next_call (CloseCall p0) (next_call (CloseCall p1) (runcmd buf left))))
         else fork1 (\<lambda>pid.
           if pid = 0 then
             next_call (CloseCall 0) (next_call (DupCall p0)
              (next_call (CloseCall p0) (next_call (CloseCall p1) (runcmd buf right))))
           else
             next_call (CloseCall p0) (next_call (CloseCall p1)
              (next_call WaitCall (next_call WaitCall Exit))))))"
| "runcmd buf (Back c) =
     fork1 (\<lambda>pid. if pid = 0 then runcmd buf c else Exit)"

text \<open>The body of the loop of \<^verbatim>\<open>main\<close> on one line of input, followed by the rest of the loop:
  \<^verbatim>\<open>cd\<close> runs in the shell itself, every other line in a child that parses and runs it.\<close>

definition run_child :: "string \<Rightarrow> sproc" where
  "run_child line =
     (case parsecmd line of
        Inl (ShPanic s) \<Rightarrow> sh_panic s
      | Inl NoFuel \<Rightarrow> Exit
      | Inr (c, buf) \<Rightarrow> runcmd buf c)"

fun sh_loop :: "string list \<Rightarrow> sproc" where
  "sh_loop [] = Exit"
| "sh_loop (line # lines) =
     (if take 3 line = ''cd '' then
        Sys (ChdirCall (drop 3 (butlast line))) (\<lambda>r.
          if r < 0 then
            next_call (PrintCall 2 (''cannot cd '' @ drop 3 (butlast line) @ [CHR 0x0A])) (sh_loop lines)
          else sh_loop lines)
      else fork1 (\<lambda>pid.
        if pid = 0 then run_child line else next_call WaitCall (sh_loop lines)))"

section \<open>Descriptors a command is executed with\<close>

text \<open>
  The contract of the descriptor calls: \<^verbatim>\<open>close\<close> frees a slot of the table, \<^verbatim>\<open>dup\<close>, \<^verbatim>\<open>open\<close> and
  \<^verbatim>\<open>pipe\<close> fill the lowest free ones. \<open>execs p f path argv g\<close>: a process that behaves as \<open>p\<close>
  and starts with the table \<open>f\<close>, or one of the children it forks, calls \<^verbatim>\<open>exec(path, argv)\<close>
  with the table \<open>g\<close>.
\<close>

datatype fobj = FileObj string int | PipeR "nat list" | PipeW "nat list" | Tty

type_synonym fdtable = "fobj option list"

definition lowfd :: "fdtable \<Rightarrow> nat" where
  "lowfd f = length (takeWhile (\<lambda>x. x \<noteq> None) f)"

inductive execs :: "sproc \<Rightarrow> fdtable \<Rightarrow> string \<Rightarrow> string list \<Rightarrow> fdtable \<Rightarrow> bool" where
  exec: "execs (Sys (ExecCall path argv) k) f path argv f"
| exec_fails: "execs (k (-1)) f p a g \<Longrightarrow> execs (Sys (ExecCall path argv) k) f p a g"
| close: "d < length f \<Longrightarrow> execs (k 0) (f[d := None]) p a g \<Longrightarrow> execs (Sys (CloseCall (int d)) k) f p a g"
| dup: "d < length f \<Longrightarrow> f ! d = Some ob \<Longrightarrow> lowfd f < length f \<Longrightarrow>
    execs (k (int (lowfd f))) (f[lowfd f := Some ob]) p a g \<Longrightarrow> execs (Sys (DupCall (int d)) k) f p a g"
| "open": "lowfd f < length f \<Longrightarrow>
    execs (k (int (lowfd f))) (f[lowfd f := Some (FileObj path m)]) p a g \<Longrightarrow>
    execs (Sys (OpenCall path m) k) f p a g"
| open_fails: "execs (k (-1)) f p a g \<Longrightarrow> execs (Sys (OpenCall path m) k) f p a g"
| fork: "-1 \<le> pid \<Longrightarrow> execs (k pid) f p a g \<Longrightarrow> execs (Sys ForkCall k) f p a g"
| wait: "execs (k r) f p a g \<Longrightarrow> execs (Sys WaitCall k) f p a g"
| print: "execs (k r) f p a g \<Longrightarrow> execs (Sys (PrintCall fd s) k) f p a g"
| pipe: "f' = f[lowfd f := Some (PipeR n)] \<Longrightarrow> lowfd f' < length f' \<Longrightarrow>
    execs (k 0 (int (lowfd f)) (int (lowfd f'))) (f'[lowfd f' := Some (PipeW n)]) p a g \<Longrightarrow>
    execs (PipeSys k) f p a g"
| pipe_fails: "execs (k (-1) p0 p1) f p a g \<Longrightarrow> execs (PipeSys k) f p a g"

inductive_simps execs_Exit [simp]: "execs Exit f p a g"
inductive_simps execs_Exec [simp]: "execs (Sys (ExecCall path argv) k) f p a g"
inductive_simps execs_Close: "execs (Sys (CloseCall d) k) f p a g"
inductive_simps execs_Dup: "execs (Sys (DupCall d) k) f p a g"
inductive_simps execs_Open [simp]: "execs (Sys (OpenCall path m) k) f p a g"
inductive_simps execs_Fork [simp]: "execs (Sys ForkCall k) f p a g"
inductive_simps execs_Wait [simp]: "execs (Sys WaitCall k) f p a g"
inductive_simps execs_Print [simp]: "execs (Sys (PrintCall fd s) k) f p a g"
inductive_simps execs_Pipe [simp]: "execs (PipeSys k) f p a g"

lemma execs_close [simp]:
  "execs (Sys (CloseCall d) k) f p a g \<longleftrightarrow> 0 \<le> d \<and> nat d < length f \<and> execs (k 0) (f[nat d := None]) p a g"
  by (auto simp: execs_Close intro: exI [of _ "nat d"])

lemma execs_dup [simp]:
  "execs (Sys (DupCall d) k) f p a g \<longleftrightarrow> (\<exists>ob. 0 \<le> d \<and> nat d < length f \<and> f ! nat d = Some ob \<and>
     lowfd f < length f \<and> execs (k (int (lowfd f))) (f[lowfd f := Some ob]) p a g)"
  by (auto simp: execs_Dup intro!: exI [of _ "nat d"])

lemma execs_fork1 [simp]:
  "execs (fork1 k) f p a g \<longleftrightarrow> (\<exists>pid\<ge>0. execs (k pid) f p a g)"
proof -
  have "execs (fork1 k) f p a g \<longleftrightarrow> (\<exists>pid. -1 \<le> pid \<and> pid \<noteq> -1 \<and> execs (k pid) f p a g)"
    by (auto simp: fork1_def sh_panic_def split: if_splits)
  moreover have "-1 \<le> pid \<and> pid \<noteq> -1 \<longleftrightarrow> 0 \<le> pid" for pid :: int by arith
  ultimately show ?thesis by blast
qed

lemma execs_panic [simp]: "\<not> execs (sh_panic s) f p a g"
  by (simp add: sh_panic_def)

lemma lowfd_simps [simp]:
  "lowfd [] = 0" "lowfd (None # f) = 0" "lowfd (Some x # f) = Suc (lowfd f)"
  by (simp_all add: lowfd_def)

lemma redirect_descriptor:
  assumes "execs (runcmd buf (Redir c w m d)) (Some x # Some y # f) p a g" "d = 0 \<or> d = 1"
  shows "execs (runcmd buf c) ((Some x # Some y # f)[nat d := Some (FileObj (cstr buf (fst w)) m)]) p a g"
  using assms by (auto split: if_splits)

definition ex_line :: string where
  "ex_line = ''cat<in|wc -l''"

definition ex_buf :: string where
  "ex_buf = ''cat'' @ [NUL] @ ''in'' @ [NUL] @ ''wc'' @ [NUL] @ ''-l'' @ [NUL]"

lemma ex_parse: "parsecmd ex_line =
  Inr (Pipe (Redir (Exec [(0, 3)]) (4, 6) 0 0) (Exec [(7, 9), (10, 12)]), ex_buf)"
  by code_simp

lemma ex_words: "cstr ex_buf 0 = ''cat''" "cstr ex_buf 7 = ''wc''" "cstr ex_buf 10 = ''-l''"
  by code_simp+

text \<open>
  What happens when every call succeeds: the processes of the tree that starts with \<open>p\<close>, each child
  before its parent, with the programs they execute and the waits they make, and the descriptor
  table at that point. \<open>q\<close> is the place in the tree, which names the pipe that is made there.
\<close>

datatype run_event = Executes string "string list" fdtable | Waits fdtable

primrec runs :: "sproc \<Rightarrow> nat list \<Rightarrow> fdtable \<Rightarrow> run_event list" where
  "runs Exit q f = []"
| "runs (Sys c k) q f =
     (case c of
        ExecCall path argv \<Rightarrow> [Executes path argv f]
      | OpenCall path m \<Rightarrow> runs (k (int (lowfd f))) q (f[lowfd f := Some (FileObj path m)])
      | CloseCall d \<Rightarrow> runs (k 0) q (f[nat d := None])
      | DupCall d \<Rightarrow> runs (k (int (lowfd f))) q (f[lowfd f := f ! nat d])
      | ForkCall \<Rightarrow> runs (k 0) (q @ [0]) f @ runs (k 1) (q @ [1]) f
      | WaitCall \<Rightarrow> Waits f # runs (k 1) q f
      | ChdirCall path \<Rightarrow> runs (k 0) q f
      | PrintCall fd s \<Rightarrow> runs (k 0) q f)"
| "runs (PipeSys k) q f =
     (let f1 = f[lowfd f := Some (PipeR q)]
      in runs (k 0 (int (lowfd f)) (int (lowfd f1))) (q @ [2]) (f1[lowfd f1 := Some (PipeW q)]))"

lemma runs_fork1 [simp]: "runs (fork1 k) q f = runs (k 0) (q @ [0]) f @ runs (k 1) (q @ [1]) f"
  by (simp add: fork1_def)

text \<open>C37. Pipelines: started with descriptors 0, 1 and 2 open and 3 and 4 free, \<^verbatim>\<open>left | right\<close> runs both sides, when the
  calls succeed: \<^verbatim>\<open>left\<close> with the write end of a new pipe as descriptor 1, \<^verbatim>\<open>right\<close> with the read end
  of the same pipe as descriptor 0, every other descriptor as it was, so that neither has another
  end of the pipe open; the shell then waits twice, with its descriptors as they were, so that it
  keeps no end of the pipe open either. Whichever calls fail, nothing is executed but by one of
  the two sides, with its end of a pipe.\<close>

theorem pipeline_descriptors:
  assumes "f = Some i # Some out # Some err # None # None # f'"
  shows "runs (runcmd buf (Pipe left right)) q f =
      runs (runcmd buf left) (q @ [2, 0]) (f[1 := Some (PipeW q)]) @
      runs (runcmd buf right) (q @ [2, 1, 0]) (f[0 := Some (PipeR q)]) @ [Waits f, Waits f] \<and>
    (\<forall>p a g. execs (runcmd buf (Pipe left right)) f p a g \<longrightarrow>
      (\<exists>n. execs (runcmd buf left) (f[1 := Some (PipeW n)]) p a g
         \<or> execs (runcmd buf right) (f[0 := Some (PipeR n)]) p a g))"
proof
  show "runs (runcmd buf (Pipe left right)) q f =
      runs (runcmd buf left) (q @ [2, 0]) (f[1 := Some (PipeW q)]) @
      runs (runcmd buf right) (q @ [2, 1, 0]) (f[0 := Some (PipeR q)]) @ [Waits f, Waits f]"
    unfolding assms runcmd.simps(4) by (simp add: Let_def numeral_eq_Suc One_nat_def del: runcmd.simps)
qed (use assms in \<open>auto split: if_splits\<close>)

theorem pipeline_descriptors_witness:
  "runs (run_child ex_line) [] [Some Tty, Some Tty, Some Tty, None, None] =
    [Executes ''cat'' [''cat''] [Some (FileObj ''in'' 0), Some (PipeW []), Some Tty, None, None],
     Executes ''wc'' [''wc'', ''-l''] [Some (PipeR []), Some Tty, Some Tty, None, None],
     Waits [Some Tty, Some Tty, Some Tty, None, None], Waits [Some Tty, Some Tty, Some Tty, None, None]]"
proof -
  have "run_child ex_line = runcmd ex_buf (Pipe (Redir (Exec [(0, 3)]) (4, 6) 0 0) (Exec [(7, 9), (10, 12)]))"
    by (simp add: run_child_def ex_parse del: runcmd.simps)
  moreover have "cstr ex_buf 4 = ''in''" by code_simp
  ultimately show ?thesis
    using pipeline_descriptors [OF refl, of ex_buf "Redir (Exec [(0, 3)]) (4, 6) 0 0" "Exec [(7, 9), (10, 12)]" "[]" Tty Tty Tty "[]"]
    by (simp add: ex_words del: runcmd.simps(4))
qed

text \<open>C36. The parser returns on every line: it panics, or gives a well-formed command
  (\<^verbatim>\<open>argv\<close> never overflows), and after \<^verbatim>\<open>nulterminate\<close> every word of it reads as the C string
  of its characters in the line.\<close>

theorem parsecmd_correct:
  assumes "NUL \<notin> set line"
  shows "case parsecmd line of
     Inl e \<Rightarrow> e \<noteq> NoFuel
   | Inr (c, buf) \<Rightarrow> cmd_ok line c \<and>
       (\<forall>w \<in> set (cmd_words c). cstr buf (fst w) = take (snd w - fst w) (drop (fst w) line))"
proof -
  have "good line 0 (parseline (length line + 1) line 0)" by (rule parseline_good) auto
  then show ?thesis
    by (rule good_case)
      (auto simp: parsecmd_def word_read assms simp del: parseline.simps split: prod.splits)
qed

theorem parsecmd_correct_witness:
  "cmd_ok ex_line (Pipe (Redir (Exec [(0, 3)]) (4, 6) 0 0) (Exec [(7, 9), (10, 12)]))
   \<and> cstr ex_buf 0 = take 3 ex_line"
proof -
  have "NUL \<notin> set ex_line" by code_simp
  from parsecmd_correct [OF this] show ?thesis by (simp add: ex_parse)
qed

end
