(* ===== verification/Sysfile.thy ===== *)
theory Sysfile
  imports File Syscall Sh
begin

text \<open>
  The system calls on files (\<^verbatim>\<open>sysfile.c\<close>) and \<^verbatim>\<open>sys_arp\<close> (\<^verbatim>\<open>sysarp.c\<close>). A handler runs for the
  calling process: its user memory and registers (\<^typ>\<open>uproc\<close>), its descriptors and its current
  directory; the rest is the state of the file table. The uninitialised arrays \<^verbatim>\<open>name\<close> are
  arguments, as are \<^verbatim>\<open>exec\<close>, \<^verbatim>\<open>sendrequest\<close>, and the page \<^verbatim>\<open>kalloc\<close> returns.
\<close>

record caller =
  c_proc :: uproc
  c_ofile :: "nat option list"
  c_cwd :: nat

definition NOFILE :: nat where
  "NOFILE = 16"

definition user_str :: "uproc \<Rightarrow> u32 \<times> nat \<Rightarrow> u8 list" where
  "user_str p al = map (\<lambda>k. u_mem p (fst al + of_nat k)) [0..<snd al]"

definition store_user :: "u32 \<Rightarrow> u8 list \<Rightarrow> caller \<Rightarrow> caller" where
  "store_user a bs c =
     c\<lparr>c_proc := (c_proc c)\<lparr>u_mem := (\<lambda>x. if unat (x - a) < length bs then bs ! unat (x - a)
        else u_mem (c_proc c) x)\<rparr>\<rparr>"

section \<open>Descriptors\<close>

definition argfd :: "caller \<Rightarrow> nat \<Rightarrow> (nat \<times> nat) option" where
  "argfd c n =
     (case argint (c_proc c) n of
        None \<Rightarrow> None
      | Some fd \<Rightarrow>
          if fd <s 0 \<or> NOFILE \<le> unat fd then None
          else (case c_ofile c ! unat fd of None \<Rightarrow> None | Some f \<Rightarrow> Some (unat fd, f)))"

definition fdalloc :: "nat \<Rightarrow> caller \<Rightarrow> nat option \<times> caller" where
  "fdalloc f c =
     (case find (\<lambda>fd. c_ofile c ! fd = None) [0..<NOFILE] of
        Some fd \<Rightarrow> (Some fd, c\<lparr>c_ofile := (c_ofile c)[fd := Some f]\<rparr>)
      | None \<Rightarrow> (None, c))"

type_synonym 'a handled = "(int \<times> caller \<times> 'a fsys_scheme) res"

definition sys_dup :: "caller \<Rightarrow> 'a fsys_scheme \<Rightarrow> 'a handled" where
  "sys_dup c s =
     (case argfd c 0 of
        None \<Rightarrow> Inr (-1, c, s)
      | Some (_, f) \<Rightarrow>
          (case fdalloc f c of
             (None, c) \<Rightarrow> Inr (-1, c, s)
           | (Some fd, c) \<Rightarrow> bnd (filedup f s) (\<lambda>s. Inr (int fd, c, s))))"

text \<open>The three fetches of \<^verbatim>\<open>sys_read\<close> and \<^verbatim>\<open>sys_write\<close>, in the order of the condition.\<close>

definition rw_args :: "caller \<Rightarrow> (nat \<times> u32 \<times> u32) option" where
  "rw_args c =
     (case argfd c 0 of
        None \<Rightarrow> None
      | Some (_, f) \<Rightarrow>
          (case argint (c_proc c) 2 of
             None \<Rightarrow> None
           | Some n \<Rightarrow> (case argptr (c_proc c) 1 n of None \<Rightarrow> None | Some p \<Rightarrow> Some (f, p, n))))"

definition sys_read where
  "sys_read devsw killed c s =
     (case rw_args c of
        None \<Rightarrow> Inr (Returns (-1), c, s)
      | Some (f, p, n) \<Rightarrow>
          bnd (fileread devsw killed f n s) (\<lambda>(out, data, s). Inr (out, store_user p data c, s)))"

definition sys_write where
  "sys_write devsw killed c s =
     (case rw_args c of
        None \<Rightarrow> Inr (Returns (-1), c, s)
      | Some (f, p, n) \<Rightarrow>
          bnd (filewrite devsw killed f (user_str (c_proc c) (p, unat n)) s) (\<lambda>(out, s). Inr (out, c, s)))"

definition sys_close :: "caller \<Rightarrow> 'a fsys_scheme \<Rightarrow> 'a handled" where
  "sys_close c s =
     (case argfd c 0 of
        None \<Rightarrow> Inr (-1, c, s)
      | Some (fd, f) \<Rightarrow> bnd (fileclose f s) (\<lambda>s. Inr (0, c\<lparr>c_ofile := (c_ofile c)[fd := None]\<rparr>, s)))"

text \<open>The layout of \<^verbatim>\<open>struct stat\<close> in user memory: 20 bytes, 4-byte aligned fields.\<close>

definition stat_bytes :: "(nat \<Rightarrow> u8) \<Rightarrow> stat \<Rightarrow> u8 list" where
  "stat_bytes old st =
     map (put32 (put16 (put32 (put32 (put16 old 0 (st_type st)) 4 (of_nat (st_dev st))) 8 (of_nat (st_ino st)))
       12 (st_nlink st)) 16 (st_size st)) [0..<20]"

definition sys_fstat :: "caller \<Rightarrow> 'a fsys_scheme \<Rightarrow> 'a handled" where
  "sys_fstat c s =
     (case argfd c 0 of
        None \<Rightarrow> Inr (-1, c, s)
      | Some (_, f) \<Rightarrow>
          (case argptr (c_proc c) 1 20 of
             None \<Rightarrow> Inr (-1, c, s)
           | Some a \<Rightarrow>
               bnd (filestat f s) (\<lambda>(r, st, s).
               Inr (r, case st of None \<Rightarrow> c
                       | Some st \<Rightarrow> store_user a (stat_bytes (\<lambda>i. u_mem (c_proc c) (a + of_nat i)) st) c, s))))"

section \<open>Names\<close>

text \<open>Ending a transaction with \<open>-1\<close>.\<close>

definition fails :: "caller \<Rightarrow> 'a fsys_scheme \<Rightarrow> 'a handled" where
  "fails c s = bnd (end_op s) (\<lambda>s. Inr (-1, c, s))"

definition link_bad :: "nat \<Rightarrow> caller \<Rightarrow> 'a fsys_scheme \<Rightarrow> 'a handled" where
  "link_bad ip c s =
     bnd (ilock ip s) (\<lambda>s.
     bnd (iupdate ip (upd_inode ip (\<lambda>x. x\<lparr>ip_nlink := ip_nlink x - 1\<rparr>) s)) (\<lambda>s.
     bnd (iunlockput ip s) (fails c)))"

definition sys_link :: "bytes \<Rightarrow> bytes \<Rightarrow> caller \<Rightarrow> 'a fsys_scheme \<Rightarrow> 'a handled" where
  "sys_link name0 name1 c s =
     (case (argstr (c_proc c) 0, argstr (c_proc c) 1) of
        (Some old, Some new) \<Rightarrow>
          bnd (begin_op s) (\<lambda>s.
          bnd (namei name0 (c_cwd c) (user_str (c_proc c) old) s) (\<lambda>(ip, s).
          case ip of None \<Rightarrow> fails c s | Some ip \<Rightarrow>
          bnd (ilock ip s) (\<lambda>s.
          if ip_type (icache s ip) = T_DIR then bnd (iunlockput ip s) (fails c)
          else
            bnd (iupdate ip (upd_inode ip (\<lambda>x. x\<lparr>ip_nlink := ip_nlink x + 1\<rparr>) s)) (\<lambda>s.
            bnd (iunlock ip s) (\<lambda>s.
            bnd (nameiparent (c_cwd c) (user_str (c_proc c) new) name1 s) (\<lambda>(dp, name, s).
            case dp of None \<Rightarrow> link_bad ip c s | Some dp \<Rightarrow>
            bnd (ilock dp s) (\<lambda>s.
            bnd (if ip_dev (icache s dp) \<noteq> ip_dev (icache s ip) then Inr (-1, s)
                 else dirlink dp name (of_nat (ip_inum (icache s ip))) s) (\<lambda>(r, s).
            if r < 0 then bnd (iunlockput dp s) (link_bad ip c)
            else
              bnd (iunlockput dp s) (\<lambda>s.
              bnd (iput ip s) (\<lambda>s.
              bnd (end_op s) (\<lambda>s. Inr (0, c, s)))))))))))) 
      | _ \<Rightarrow> Inr (-1, c, s))"

primrec isdirempty_loop :: "nat \<Rightarrow> nat \<Rightarrow> nat \<Rightarrow> 'a fsys_scheme \<Rightarrow> (bool \<times> 'a fsys_scheme) res" where
  "isdirempty_loop 0 dp off s =
     (if off < unat (ip_size (icache s dp)) then Inl (Fault ''fuel'') else Inr (True, s))"
| "isdirempty_loop (Suc fuel) dp off s =
     (if off < unat (ip_size (icache s dp)) then
        bnd (read_dirent ''isdirempty: readi'' dp off s) (\<lambda>(de, s).
        if de_inum de \<noteq> 0 then Inr (False, s) else isdirempty_loop fuel dp (off + 16) s)
      else Inr (True, s))"

definition isdirempty :: "nat \<Rightarrow> 'a fsys_scheme \<Rightarrow> (bool \<times> 'a fsys_scheme) res" where
  "isdirempty dp s = isdirempty_loop (entries dp s) dp 32 s"

text \<open>A C string constant as a name.\<close>

definition name_of :: "string \<Rightarrow> bytes" where
  "name_of cs = (\<lambda>i. if i < length cs then chr (cs ! i) else 0)"

definition unlink_bad :: "nat \<Rightarrow> caller \<Rightarrow> 'a fsys_scheme \<Rightarrow> 'a handled" where
  "unlink_bad dp c s = bnd (iunlockput dp s) (fails c)"

definition sys_unlink :: "bytes \<Rightarrow> caller \<Rightarrow> 'a fsys_scheme \<Rightarrow> 'a handled" where
  "sys_unlink name0 c s =
     (case argstr (c_proc c) 0 of None \<Rightarrow> Inr (-1, c, s) | Some path \<Rightarrow>
      bnd (begin_op s) (\<lambda>s.
      bnd (nameiparent (c_cwd c) (user_str (c_proc c) path) name0 s) (\<lambda>(dp, name, s).
      case dp of None \<Rightarrow> fails c s | Some dp \<Rightarrow>
      bnd (ilock dp s) (\<lambda>s.
      if namecmp name (name_of ''.'') = 0 \<or> namecmp name (name_of ''..'') = 0 then unlink_bad dp c s
      else
        bnd (dirlookup dp name s) (\<lambda>(found, s).
        case found of None \<Rightarrow> unlink_bad dp c s | Some (ip, off) \<Rightarrow>
        bnd (ilock ip s) (\<lambda>s.
        if ip_nlink (icache s ip) <s 1 then Inl (Panic ''unlink: nlink < 1'')
        else
          bnd (if ip_type (icache s ip) = T_DIR then isdirempty ip s else Inr (True, s)) (\<lambda>(empty, s).
          if \<not> empty then bnd (iunlockput ip s) (unlink_bad dp c)
          else
            bnd (writei (\<lambda>_. None) dp (replicate 16 0) (of_nat off) 16 s) (\<lambda>(r, s).
            if r \<noteq> 16 then Inl (Panic ''unlink: writei'')
            else
              bnd (if ip_type (icache s ip) = T_DIR
                   then iupdate dp (upd_inode dp (\<lambda>x. x\<lparr>ip_nlink := ip_nlink x - 1\<rparr>) s) else Inr s) (\<lambda>s.
              bnd (iunlockput dp s) (\<lambda>s.
              bnd (iupdate ip (upd_inode ip (\<lambda>x. x\<lparr>ip_nlink := ip_nlink x - 1\<rparr>) s)) (\<lambda>s.
              bnd (iunlockput ip s) (\<lambda>s.
              bnd (end_op s) (\<lambda>s. Inr (0, c, s))))))))))))))"

definition create ::
  "bytes \<Rightarrow> nat \<Rightarrow> u8 list \<Rightarrow> u16 \<Rightarrow> u16 \<Rightarrow> u16 \<Rightarrow> 'a fsys_scheme \<Rightarrow> (nat option \<times> 'a fsys_scheme) res" where
  "create name0 cwd path ty major minor s =
     bnd (nameiparent cwd path name0 s) (\<lambda>(dp, name, s).
     case dp of None \<Rightarrow> Inr (None, s) | Some dp \<Rightarrow>
     bnd (ilock dp s) (\<lambda>s.
     bnd (dirlookup dp name s) (\<lambda>(found, s).
     case found of
       Some (ip, off) \<Rightarrow>
         bnd (iunlockput dp s) (\<lambda>s.
         bnd (ilock ip s) (\<lambda>s.
         if ty = T_FILE \<and> ip_type (icache s ip) = T_FILE then Inr (Some ip, s)
         else bnd (iunlockput ip s) (\<lambda>s. Inr (None, s))))
     | None \<Rightarrow>
         bnd (ialloc (ip_dev (icache s dp)) ty s) (\<lambda>(ip, s).
         bnd (ilock ip s) (\<lambda>s.
         bnd (iupdate ip (upd_inode ip (\<lambda>x. x\<lparr>ip_major := major, ip_minor := minor, ip_nlink := 1\<rparr>) s)) (\<lambda>s.
         bnd (if ty = T_DIR then
                bnd (iupdate dp (upd_inode dp (\<lambda>x. x\<lparr>ip_nlink := ip_nlink x + 1\<rparr>) s)) (\<lambda>s.
                bnd (dirlink ip (name_of ''.'') (of_nat (ip_inum (icache s ip))) s) (\<lambda>(r, s).
                if r < 0 then Inl (Panic ''create dots'')
                else
                  bnd (dirlink ip (name_of ''..'') (of_nat (ip_inum (icache s dp))) s) (\<lambda>(r, s).
                  if r < 0 then Inl (Panic ''create dots'') else Inr s)))
              else Inr s) (\<lambda>s.
         bnd (dirlink dp name (of_nat (ip_inum (icache s ip))) s) (\<lambda>(r, s).
         if r < 0 then Inl (Panic ''create: dirlink'')
         else bnd (iunlockput dp s) (\<lambda>s. Inr (Some ip, s)))))))))) "

text \<open>The inode \<^verbatim>\<open>sys_open\<close> opens, locked, inside the transaction.\<close>

definition open_inode :: "bytes \<Rightarrow> caller \<Rightarrow> u8 list \<Rightarrow> u32 \<Rightarrow> 'a fsys_scheme \<Rightarrow> (nat option \<times> 'a fsys_scheme) res" where
  "open_inode name0 c path omode s =
     (if omode AND word_of_int O_CREATE \<noteq> 0 then create name0 (c_cwd c) path T_FILE 0 0 s
      else
        bnd (namei name0 (c_cwd c) path s) (\<lambda>(ip, s).
        case ip of None \<Rightarrow> Inr (None, s) | Some ip \<Rightarrow>
        bnd (ilock ip s) (\<lambda>s.
        if ip_type (icache s ip) = T_DIR \<and> omode \<noteq> word_of_int O_RDONLY
        then bnd (iunlockput ip s) (\<lambda>s. Inr (None, s)) else Inr (Some ip, s))))"

definition open_file :: "nat \<Rightarrow> u32 \<Rightarrow> filestruct \<Rightarrow> filestruct" where
  "open_file ip omode x =
     x\<lparr>f_type := FD_INODE, f_ip := ip, f_off := 0,
       f_readable := (omode AND word_of_int O_WRONLY = 0),
       f_writable := (omode AND word_of_int O_WRONLY \<noteq> 0 \<or> omode AND word_of_int O_RDWR \<noteq> 0)\<rparr>"

definition sys_open :: "bytes \<Rightarrow> caller \<Rightarrow> 'a fsys_scheme \<Rightarrow> 'a handled" where
  "sys_open name0 c s =
     (case (argstr (c_proc c) 0, argint (c_proc c) 1) of
        (Some path, Some omode) \<Rightarrow>
          bnd (begin_op s) (\<lambda>s.
          bnd (open_inode name0 c (user_str (c_proc c) path) omode s) (\<lambda>(ip, s).
          case ip of None \<Rightarrow> fails c s | Some ip \<Rightarrow>
          case filealloc s of
            (None, s) \<Rightarrow> bnd (iunlockput ip s) (fails c)
          | (Some f, s) \<Rightarrow>
              (case fdalloc f c of
                 (None, c) \<Rightarrow> bnd (fileclose f s) (\<lambda>s. bnd (iunlockput ip s) (fails c))
               | (Some fd, c) \<Rightarrow>
                   bnd (iunlock ip s) (\<lambda>s.
                   bnd (end_op s) (\<lambda>s. Inr (int fd, c, upd_file f (open_file ip omode) s))))))
      | _ \<Rightarrow> Inr (-1, c, s))"

definition sys_mkdir :: "bytes \<Rightarrow> caller \<Rightarrow> 'a fsys_scheme \<Rightarrow> 'a handled" where
  "sys_mkdir name0 c s =
     bnd (begin_op s) (\<lambda>s.
     bnd (case argstr (c_proc c) 0 of None \<Rightarrow> Inr (None, s)
          | Some path \<Rightarrow> create name0 (c_cwd c) (user_str (c_proc c) path) T_DIR 0 0 s) (\<lambda>(ip, s).
     case ip of None \<Rightarrow> fails c s
     | Some ip \<Rightarrow> bnd (iunlockput ip s) (\<lambda>s. bnd (end_op s) (\<lambda>s. Inr (0, c, s)))))"

definition sys_mknod :: "bytes \<Rightarrow> caller \<Rightarrow> 'a fsys_scheme \<Rightarrow> 'a handled" where
  "sys_mknod name0 c s =
     bnd (begin_op s) (\<lambda>s.
     bnd (case (argstr (c_proc c) 0, argint (c_proc c) 1, argint (c_proc c) 2) of
            (Some path, Some major, Some minor) \<Rightarrow>
              create name0 (c_cwd c) (user_str (c_proc c) path) T_DEV (ucast major) (ucast minor) s
          | _ \<Rightarrow> Inr (None, s)) (\<lambda>(ip, s).
     case ip of None \<Rightarrow> fails c s
     | Some ip \<Rightarrow> bnd (iunlockput ip s) (\<lambda>s. bnd (end_op s) (\<lambda>s. Inr (0, c, s)))))"

definition sys_chdir :: "bytes \<Rightarrow> caller \<Rightarrow> 'a fsys_scheme \<Rightarrow> 'a handled" where
  "sys_chdir name0 c s =
     bnd (begin_op s) (\<lambda>s.
     bnd (case argstr (c_proc c) 0 of None \<Rightarrow> Inr (None, s)
          | Some path \<Rightarrow> namei name0 (c_cwd c) (user_str (c_proc c) path) s) (\<lambda>(ip, s).
     case ip of None \<Rightarrow> fails c s | Some ip \<Rightarrow>
     bnd (ilock ip s) (\<lambda>s.
     if ip_type (icache s ip) \<noteq> T_DIR then bnd (iunlockput ip s) (fails c)
     else
       bnd (iunlock ip s) (\<lambda>s.
       bnd (iput (c_cwd c) s) (\<lambda>s.
       bnd (end_op s) (\<lambda>s. Inr (0, c\<lparr>c_cwd := ip\<rparr>, s)))))))"

section \<open>Programs, pipes, ARP\<close>

definition MAXARG :: nat where
  "MAXARG = 32"

text \<open>The loop over \<^verbatim>\<open>argv\<close>: \<open>k\<close> entries of the array are left.\<close>

primrec exec_args :: "uproc \<Rightarrow> u32 \<Rightarrow> nat \<Rightarrow> (u32 \<times> nat) list option" where
  "exec_args p uargv 0 = None"
| "exec_args p uargv (Suc k) =
     (case fetchint p uargv of
        None \<Rightarrow> None
      | Some uarg \<Rightarrow>
          if uarg = 0 then Some []
          else (case fetchstr p uarg of
                  None \<Rightarrow> None
                | Some al \<Rightarrow> map_option (\<lambda>as. al # as) (exec_args p (uargv + 4) k)))"

definition sys_exec ::
  "(u8 list \<Rightarrow> u8 list list \<Rightarrow> caller \<Rightarrow> 'a fsys_scheme \<Rightarrow> 'a handled) \<Rightarrow> caller \<Rightarrow> 'a fsys_scheme \<Rightarrow> 'a handled" where
  "sys_exec exec c s =
     (case (argstr (c_proc c) 0, argint (c_proc c) 1) of
        (Some path, Some uargv) \<Rightarrow>
          (case exec_args (c_proc c) uargv MAXARG of
             None \<Rightarrow> Inr (-1, c, s)
           | Some argv \<Rightarrow> exec (user_str (c_proc c) path) (map (user_str (c_proc c)) argv) c s)
      | _ \<Rightarrow> Inr (-1, c, s))"

definition int_bytes :: "u32 \<Rightarrow> u8 list" where
  "int_bytes v = map (put32 (\<lambda>_. 0) 0 v) [0..<4]"

definition sys_pipe :: "nat option \<Rightarrow> caller \<Rightarrow> 'a fsys_scheme \<Rightarrow> 'a handled" where
  "sys_pipe page c s =
     (case argptr (c_proc c) 0 8 of
        None \<Rightarrow> Inr (-1, c, s)
      | Some a \<Rightarrow>
          bnd (pipealloc page s) (\<lambda>(fs, s).
          case fs of None \<Rightarrow> Inr (-1, c, s) | Some (rd, wr) \<Rightarrow>
          (case fdalloc rd c of
            (None, c) \<Rightarrow> bnd (fileclose rd s) (\<lambda>s. bnd (fileclose wr s) (\<lambda>s. Inr (-1, c, s)))
          | (Some fd0, c) \<Rightarrow>
              (case fdalloc wr c of
                 (None, c) \<Rightarrow>
                   let c = c\<lparr>c_ofile := (c_ofile c)[fd0 := None]\<rparr> in
                   bnd (fileclose rd s) (\<lambda>s. bnd (fileclose wr s) (\<lambda>s. Inr (-1, c, s)))
               | (Some fd1, c) \<Rightarrow>
                   Inr (0, store_user (a + 4) (int_bytes (of_nat fd1)) (store_user a (int_bytes (of_nat fd0)) c), s)))))"

text \<open>\<open>sendrequest\<close> gets the interface, the address and the response pointer, but not the size the
  caller declared.\<close>

definition sys_arp :: "(u8 list \<Rightarrow> u8 list \<Rightarrow> u32 \<Rightarrow> caller \<Rightarrow> int \<times> caller) \<Rightarrow> caller \<Rightarrow> int \<times> caller" where
  "sys_arp sendrequest c =
     (case (argstr (c_proc c) 0, argstr (c_proc c) 1, argint (c_proc c) 3) of
        (Some intrfc, Some ipadd, Some sz) \<Rightarrow>
          (case argptr (c_proc c) 2 sz of
             None \<Rightarrow> (-1, c)
           | Some arpresp \<Rightarrow>
               (case sendrequest (user_str (c_proc c) intrfc) (user_str (c_proc c) ipadd) arpresp c of (r, c) \<Rightarrow>
                (if r < 0 then -1 else 0, c)))
      | _ \<Rightarrow> (-1, c))"

section \<open>Pipes do not leak\<close>

text \<open>Unused entries of the file table have no type: the state \<^verbatim>\<open>fileclose\<close> leaves them in.\<close>

definition ftable_ok :: "'a fsys_scheme \<Rightarrow> bool" where
  "ftable_ok s \<longleftrightarrow> (\<forall>f. 0 \<le> f_ref (ftable s f) \<and> (f_ref (ftable s f) = 0 \<longrightarrow> f_type (ftable s f) = FD_NONE))"

lemma filealloc_Some:
  assumes "filealloc s = (Some f, s')"
  shows "f_ref (ftable s f) = 0" "s' = upd_file f (\<lambda>x. x\<lparr>f_ref := 1\<rparr>) s" "f < NFILE"
  using assms find_SomeD [of "\<lambda>f. f_ref (ftable s f) = 0" "[0..<NFILE]" f]
  by (auto simp: filealloc_def split: option.splits)

lemma filealloc_None: "filealloc s = (None, s') \<Longrightarrow> s' = s"
  by (auto simp: filealloc_def split: option.splits)

lemma upd_file_simps [simp]:
  "ftable (upd_file f g s) = (ftable s)(f := g (ftable s f))" "pipes (upd_file f g s) = pipes s"
  "freed_pages (upd_file f g s) = freed_pages s" "fs.truncate (upd_file f g s) = fs.truncate s"
  "fsys.more (upd_file f g s) = fsys.more s"
  by (simp_all add: upd_file_def fs.truncate_def)

lemma ftable_okD: "ftable_ok s \<Longrightarrow> f_ref (ftable s f) = 0 \<Longrightarrow> f_type (ftable s f) = FD_NONE"
  by (simp add: ftable_ok_def)

lemma close_untyped:
  "f_ref (ftable s f) = 1 \<Longrightarrow> f_type (ftable s f) = FD_NONE \<Longrightarrow>
   fileclose f s = Inr (upd_file f (\<lambda>x. x\<lparr>f_ref := 0, f_type := FD_NONE\<rparr>) s)"
  by (simp add: fileclose_def Let_def)

text \<open>A new pipe: two files that were free, and the state with them.\<close>

definition new_pipe :: "nat \<Rightarrow> nat \<Rightarrow> nat \<Rightarrow> 'a fsys_scheme \<Rightarrow> 'a fsys_scheme" where
  "new_pipe p rd wr s =
     upd_file wr (\<lambda>x. pipe_end p True (x\<lparr>f_ref := 1\<rparr>)) (upd_file rd (\<lambda>x. pipe_end p False (x\<lparr>f_ref := 1\<rparr>))
       (s\<lparr>pipes := (pipes s)(p := pipe_init (pipes s p))\<rparr>))"

definition two_free :: "'a fsys_scheme \<Rightarrow> bool" where
  "two_free s \<longleftrightarrow> (case filealloc s of (None, _) \<Rightarrow> False | (Some f, s') \<Rightarrow> fst (filealloc s') \<noteq> None)"

lemma pipealloc_cases:
  assumes ok: "ftable_ok s"
  shows "(\<exists>p rd wr. page = Some p \<and> two_free s \<and> rd \<noteq> wr \<and> f_ref (ftable s rd) = 0 \<and> f_ref (ftable s wr) = 0 \<and>
      pipealloc page s = Inr (Some (rd, wr), new_pipe p rd wr s)) \<or>
    (\<exists>s'. (page = None \<or> \<not> two_free s) \<and> pipealloc page s = Inr (None, s') \<and> ftable_ok s' \<and>
      freed_pages s' = freed_pages s \<and> (\<forall>f. f_ref (ftable s' f) = f_ref (ftable s f)))"
proof (cases "filealloc s")
  case (Pair o0 s1)
  show ?thesis
  proof (cases o0)
    case None
    then have "s1 = s" using Pair filealloc_None by simp
    then show ?thesis using Pair None ok by (simp add: pipealloc_def close_opt_def two_free_def)
  next
    case (Some f0)
    note a = filealloc_Some [OF Pair [unfolded Some]]
    have z0: "f_ref (ftable s f0) = 0" "f_type (ftable s f0) = FD_NONE" using a(1) ftable_okD [OF ok] by auto
    obtain o1 s2 where p2: "filealloc s1 = (o1, s2)" by (cases "filealloc s1")
    show ?thesis
    proof (cases o1)
      case None
      then have "s2 = s1" using p2 filealloc_None by simp
      then show ?thesis using Pair Some p2 None ok z0
        by (auto simp: pipealloc_def close_opt_def two_free_def a(2) close_untyped ftable_ok_def)
    next
      case o1: (Some f1)
      note b = filealloc_Some [OF p2 [unfolded o1]]
      have ne: "f0 \<noteq> f1" using b(1) a(2) by auto
      then have z1: "f_ref (ftable s f1) = 0" "f_type (ftable s f1) = FD_NONE"
        using b(1) a(2) ftable_okD [OF ok] by auto
      have tf: "two_free s" using Pair Some p2 o1 by (simp add: two_free_def)
      show ?thesis
      proof (cases page)
        case None
        then show ?thesis using Pair Some p2 o1 ok z0 z1 ne
          by (auto simp: pipealloc_def close_opt_def a(2) b(2) close_untyped ftable_ok_def)
      next
        case pg: (Some p)
        have "pipealloc page s = Inr (Some (f0, f1), new_pipe p f0 f1 s)"
          using Pair Some p2 o1 ne pg
          by (simp add: pipealloc_def a(2) b(2) new_pipe_def upd_file_def fun_eq_iff)
        then show ?thesis using pg tf ne z0 z1 by blast
      qed
    qed
  qed
qed

text \<open>Closing both ends of a new pipe gives its page back and frees the two files.\<close>

lemma close_new_pipe:
  assumes "rd \<noteq> wr" "ftable_ok s" "f_ref (ftable s rd) = 0" "f_ref (ftable s wr) = 0"
  shows "\<exists>s'. bnd (fileclose rd (new_pipe p rd wr s)) (fileclose wr) = Inr s' \<and> ftable_ok s' \<and>
    freed_pages s' = p # freed_pages s \<and> (\<forall>f. f_ref (ftable s' f) = f_ref (ftable s f))"
  using assms by (auto simp: fileclose_def new_pipe_def pipe_end_def Let_def pipeclose_def pipe_init_def ftable_ok_def)

lemma fdalloc_Some:
  assumes "fdalloc f c = (Some fd, c')"
  shows "c_ofile c ! fd = None" "fd < NOFILE" "c' = c\<lparr>c_ofile := (c_ofile c)[fd := Some f]\<rparr>"
  using assms find_SomeD [of "\<lambda>fd. c_ofile c ! fd = None" "[0..<NOFILE]" fd]
  by (auto simp: fdalloc_def split: option.splits)

lemma fdalloc_None: "fdalloc f c = (None, c') \<Longrightarrow> c' = c \<and> (\<forall>fd<NOFILE. c_ofile c ! fd \<noteq> None)"
  by (auto simp: fdalloc_def find_None_iff split: option.splits)

text \<open>Two descriptors are free.\<close>

definition two_free_fds :: "caller \<Rightarrow> bool" where
  "two_free_fds c \<longleftrightarrow> (\<exists>i<NOFILE. \<exists>j<NOFILE. i \<noteq> j \<and> c_ofile c ! i = None \<and> c_ofile c ! j = None)"

lemma store_user_ofile [simp]: "c_ofile (store_user a bs c) = c_ofile c"
  by (simp add: store_user_def)

lemma sys_pipe_new:
  assumes ok: "ftable_ok s" "length (c_ofile c) = NOFILE" and arg: "argptr (c_proc c) 0 8 = Some a"
    and p: "rd \<noteq> wr" "f_ref (ftable s rd) = 0" "f_ref (ftable s wr) = 0"
      "pipealloc page s = Inr (Some (rd, wr), new_pipe p rd wr s)"
  shows "\<exists>r c' s'. sys_pipe page c s = Inr (r, c', s') \<and>
    (r = -1 \<and> \<not> two_free_fds c \<and> c' = c \<and> ftable_ok s' \<and> (\<forall>f. f_ref (ftable s' f) = f_ref (ftable s f)) \<and>
       freed_pages s' = p # freed_pages s
     \<or> r = 0 \<and> s' = new_pipe p rd wr s \<and> (\<exists>fd0 fd1. fd0 < NOFILE \<and> fd1 < NOFILE \<and> fd0 \<noteq> fd1 \<and>
         c_ofile c ! fd0 = None \<and> c_ofile c ! fd1 = None \<and>
         c' = store_user (a + 4) (int_bytes (of_nat fd1)) (store_user a (int_bytes (of_nat fd0))
           (c\<lparr>c_ofile := (c_ofile c)[fd0 := Some rd, fd1 := Some wr]\<rparr>))))"
proof -
  from close_new_pipe [OF p(1) ok(1) p(2,3), of p] obtain s' where
    cl0: "bnd (fileclose rd (new_pipe p rd wr s)) (fileclose wr) = Inr s'" and cl1: "ftable_ok s'"
      "freed_pages s' = p # freed_pages s" "\<forall>f. f_ref (ftable s' f) = f_ref (ftable s f)" by blast
  have cl: "bnd (fileclose rd (new_pipe p rd wr s)) (\<lambda>s. bnd (fileclose wr s) k) = k s'"
    for k :: "'a fsys_scheme \<Rightarrow> 'a handled"
    unfolding bnd_assoc [symmetric] cl0 by simp
  obtain o0 c0 where f0: "fdalloc rd c = (o0, c0)" by (cases "fdalloc rd c")
  show ?thesis
  proof (cases o0)
    case None
    then have "c0 = c" "\<not> two_free_fds c" using f0 fdalloc_None [of rd c c0] by (auto simp: two_free_fds_def)
    then show ?thesis using None f0 arg p cl cl1 by (simp add: sys_pipe_def)
  next
    case fd0: (Some fd0)
    note a0 = fdalloc_Some [OF f0 [unfolded fd0]]
    obtain o1 c1 where f1: "fdalloc wr c0 = (o1, c1)" by (cases "fdalloc wr c0")
    have back0: "c0\<lparr>c_ofile := (c_ofile c0)[fd0 := None]\<rparr> = c"
      using a0 ok(2) list_update_same_conv [of fd0 "c_ofile c" None] by simp
    show ?thesis
    proof (cases o1)
      case None
      then have c1: "c1 = c0" "\<forall>fd<NOFILE. c_ofile c0 ! fd \<noteq> None" using f1 fdalloc_None [of wr c0 c1] by auto
      then have "\<not> two_free_fds c" using a0 ok(2) unfolding two_free_fds_def
        by (metis caller.select_convs(2) caller.surjective caller.update_convs(2) nth_list_update_neq)
      then show ?thesis using None f0 fd0 f1 c1(1) arg p cl cl1 back0 by (simp add: sys_pipe_def Let_def)
    next
      case fd1: (Some fd1)
      note a1 = fdalloc_Some [OF f1 [unfolded fd1]]
      have ne: "fd0 \<noteq> fd1" using a0 a1(1) ok(2) by auto
      then have "c_ofile c ! fd1 = None" using a0 a1(1) by simp
      then show ?thesis using f0 fd0 f1 fd1 arg p a0 a1(2,3) ne
        by (simp add: sys_pipe_def) blast
    qed
  qed
qed

text \<open>C31. \<^verbatim>\<open>sys_pipe\<close> never panics and leaks nothing. It returns \<open>-1\<close> only if the user pointer is bad, there
  is no page, or there are not two free files and two free descriptors; then the descriptors
  and all reference counts are as they were, and the page of the pipe is given back if one was
  allocated. Otherwise it returns 0 with two descriptors that were free, stored at the user pointer, for two files
  that were free and are now the read and the write end of the new pipe, each referenced once.\<close>

theorem sys_pipe_no_leak:
  assumes "ftable_ok s" "length (c_ofile c) = NOFILE"
  shows "\<exists>r c' s'. sys_pipe page c s = Inr (r, c', s') \<and>
    (r = -1 \<and> (argptr (c_proc c) 0 8 = None \<or> page = None \<or> \<not> two_free s \<or> \<not> two_free_fds c) \<and>
       c' = c \<and> ftable_ok s' \<and> (\<forall>f. f_ref (ftable s' f) = f_ref (ftable s f)) \<and>
       freed_pages s' = (if argptr (c_proc c) 0 8 = None \<or> \<not> two_free s then []
                         else case page of None \<Rightarrow> [] | Some p \<Rightarrow> [p]) @ freed_pages s
     \<or> r = 0 \<and> (\<exists>a p rd wr fd0 fd1. argptr (c_proc c) 0 8 = Some a \<and> page = Some p \<and> s' = new_pipe p rd wr s \<and> rd \<noteq> wr \<and>
         f_ref (ftable s rd) = 0 \<and> f_ref (ftable s wr) = 0 \<and> fd0 < NOFILE \<and> fd1 < NOFILE \<and> fd0 \<noteq> fd1 \<and>
         c_ofile c ! fd0 = None \<and> c_ofile c ! fd1 = None \<and>
         c' = store_user (a + 4) (int_bytes (of_nat fd1)) (store_user a (int_bytes (of_nat fd0))
           (c\<lparr>c_ofile := (c_ofile c)[fd0 := Some rd, fd1 := Some wr]\<rparr>))))"
proof (cases "argptr (c_proc c) 0 8")
  case None
  then show ?thesis using assms(1) by (simp add: sys_pipe_def)
next
  case (Some a)
  from pipealloc_cases [OF assms(1), of page] consider
    (new) p rd wr where "page = Some p" "two_free s" "rd \<noteq> wr" "f_ref (ftable s rd) = 0"
      "f_ref (ftable s wr) = 0" "pipealloc page s = Inr (Some (rd, wr), new_pipe p rd wr s)"
  | (none) s' where "page = None \<or> \<not> two_free s" "pipealloc page s = Inr (None, s')" "ftable_ok s'"
      "freed_pages s' = freed_pages s" "\<forall>f. f_ref (ftable s' f) = f_ref (ftable s f)" by blast
  then show ?thesis
  proof cases
    case none
    then show ?thesis using Some by (auto simp: sys_pipe_def)
  next
    case p: new
    from sys_pipe_new [OF assms Some p(3-6)] show ?thesis
      using p(1-5) Some by (elim exE conjE disjE) (simp, blast)+
  qed
qed

definition ex_fsys :: fsys where
  "ex_fsys = fs.extend ex_fs (fsys.fields
     (\<lambda>_. \<lparr>f_type = FD_NONE, f_ref = 0, f_readable = False, f_writable = False, f_pipe = 0, f_ip = 0, f_off = 0\<rparr>)
     (\<lambda>_. \<lparr>pdata = \<lambda>_. 0, nread = 0, nwrite = 0, readopen = False, writeopen = False\<rparr>) [])"

text \<open>A caller whose argument is the address 0x100, with the given descriptors.\<close>

definition ex_caller :: "nat option list \<Rightarrow> caller" where
  "ex_caller fds = \<lparr>c_proc = ex_uproc\<lparr>u_mem := (\<lambda>a. if a = 0xF05 then 1 else 0)\<rparr>, c_ofile = fds, c_cwd = 0\<rparr>"

text \<open>With all descriptors free the call succeeds; with one free it fails and gives the page back.\<close>

theorem sys_pipe_no_leak_witness:
  "(\<exists>c' s' fd0 fd1. sys_pipe (Some 7) (ex_caller (replicate 16 None)) ex_fsys = Inr (0, c', s') \<and> fd0 \<noteq> fd1 \<and>
      (\<exists>rd wr. c_ofile c' = (replicate 16 None)[fd0 := Some rd, fd1 := Some wr] \<and> s' = new_pipe 7 rd wr ex_fsys)) \<and>
   (\<exists>c' s'. sys_pipe (Some 7) (ex_caller (None # replicate 15 (Some 0))) ex_fsys = Inr (-1, c', s') \<and> freed_pages s' = [7])"
proof -
  have f: "ftable_ok ex_fsys" "freed_pages ex_fsys = []" by (simp_all add: ftable_ok_def ex_fsys_def fs.defs fsys.defs)
  have a: "argptr (c_proc (ex_caller fds)) 0 8 = Some 0x100" for fds
    by (simp add: argptr_def argint_def fetchint_def ex_caller_def ex_uproc_def) code_simp
  have o: "c_ofile (ex_caller fds) = fds" for fds by (simp add: ex_caller_def)
  have t: "two_free ex_fsys" by code_simp
  have u: "two_free_fds (ex_caller (replicate 16 None))"
    unfolding two_free_fds_def o by (rule exI [of _ 0], simp add: NOFILE_def, rule exI [of _ 1], simp)
  have l: "length (c_ofile (ex_caller (replicate 16 None))) = NOFILE"
    "length (c_ofile (ex_caller (None # replicate 15 (Some 0)))) = NOFILE" by (simp_all add: o NOFILE_def)
  have n: "fd = 0" if "fd < NOFILE" "(None # replicate 15 (Some (0 :: nat))) ! fd = None" for fd
    using that by (cases fd) (simp_all add: NOFILE_def)
  show ?thesis
    using sys_pipe_no_leak [OF f(1) l(1), of "Some 7"] sys_pipe_no_leak [OF f(1) l(2), of "Some 7"] t u n
    unfolding a o f(2) by (elim exE conjE disjE; simp; metis store_user_ofile caller.select_convs(2))
qed

end
