(* ===== verification/Fs_Dir.thy ===== *)
theory Fs_Dir
  imports Fs_Rw Sysfile
begin

text \<open>
  Directories as tables of entries: what \<^verbatim>\<open>dirlookup\<close>, the loop of \<^verbatim>\<open>dirlink\<close> and \<^verbatim>\<open>isdirempty\<close> find, and
  that \<^verbatim>\<open>dirlookup\<close> finds the name \<^verbatim>\<open>dirlink\<close> entered.
\<close>

section \<open>Reading an entry\<close>

definition dent :: "nat \<Rightarrow> 'a fs_scheme \<Rightarrow> nat \<Rightarrow> u8 list" where
  "dent dp s j = map (fbyte dp s) [16 * j..<16 * j + 16]"

definition ndents :: "nat \<Rightarrow> 'a fs_scheme \<Rightarrow> nat" where
  "ndents dp s = fsize dp s div 16"

definition dir_ready :: "nat \<Rightarrow> 'a fs_scheme \<Rightarrow> bool" where
  "dir_ready dp s \<longleftrightarrow> inode_ready dp s \<and> ip_type (icache s dp) = T_DIR \<and> mapped dp s (fsize dp s) \<and>
     16 dvd fsize dp s \<and> 0 \<le> slots s"

lemma dir_same:
  fixes s s' :: "'a fs_scheme"
  assumes "same s s'" "dir_ready dp s"
  shows "dir_ready dp s'" "dent dp s' = dent dp s" "fsize dp s' = fsize dp s" "ndents dp s' = ndents dp s"
    "ip_dev (icache s' dp) = ip_dev (icache s dp)"
proof -
  have R: "inode_ready dp s" using assms(2) by (simp add: dir_ready_def)
  note S = same_fs [OF assms(1)] and T = same_ready [OF assms(1) R]
  show f: "fsize dp s' = fsize dp s" by (simp add: fsize_def S(1))
  then show "ndents dp s' = ndents dp s" by (simp add: ndents_def)
  show "dent dp s' = dent dp s" by (simp add: dent_def S(5) fun_eq_iff)
  show "ip_dev (icache s' dp) = ip_dev (icache s dp)" by (simp add: S(1))
  show "dir_ready dp s'" using assms(2) T S(1,4) f by (simp add: dir_ready_def mapped_def)
qed

lemma dents_size: "dir_ready dp s \<Longrightarrow> 16 * ndents dp s = fsize dp s"
  by (simp add: dir_ready_def ndents_def)

lemma read_dirent_at:
  fixes s :: "'a fs_scheme"
  assumes D: "dir_ready dp s" and j: "j < ndents dp s"
  shows "\<exists>s'. same s s' \<and> read_dirent msg dp (16 * j) s = Inr (dent dp s j, s')"
proof -
  have R: "inode_ready dp s" "ip_type (icache s dp) \<noteq> T_DEV" "mapped dp s (fsize dp s)" "0 \<le> slots s"
    using D by (simp_all add: dir_ready_def T_DIR_def T_DEV_def)
  have b: "16 * j + 16 \<le> fsize dp s" using dents_size [OF D] j by linarith
  have l: "fsize dp s \<le> 140 * BSIZE" by (rule mapped_size [OF R(3)])
  have u: "unat (of_nat (16 * j) :: u32) = 16 * j" by (subst unat_of_nat) (use b l in simp)
  have o: "(of_nat (16 * j) :: u32) \<le> ip_size (icache s dp)"
    unfolding word_le_nat_alt u using b by (simp add: fsize_def)
  have w: "\<not> (of_nat (16 * j) :: u32) + 16 < of_nat (16 * j)"
    by (rule write_bounds(2)) (use b l u in simp)
  have e: "min (16 * j + 16) (fsize dp s) = 16 * j + 16" using b by simp
  have "wp (readi (\<lambda>_. None) dp (of_nat (16 * j)) 16 s) (\<lambda>(r, data, s'). r = int (length data) \<and>
      data = map (fbyte dp s) [16 * j..<16 * j + 16] \<and> same s s')"
    using readi_bytes [OF R o w, of "\<lambda>_. None"] unfolding u by (simp add: e)
  then obtain s' where "readi (\<lambda>_. None) dp (of_nat (16 * j)) 16 s = Inr (16, dent dp s j, s')" "same s s'"
    unfolding wp_iff by (auto simp: dent_def)
  then show ?thesis unfolding read_dirent_def by auto
qed

section \<open>The loops\<close>

definition entry_is :: "bytes \<Rightarrow> nat \<Rightarrow> 'a fs_scheme \<Rightarrow> nat \<Rightarrow> bool" where
  "entry_is name dp s j \<longleftrightarrow> de_inum (dent dp s j) \<noteq> 0 \<and> namecmp name (de_name (dent dp s j)) = 0"

lemma dirlookup_loop_finds:
  fixes s :: "'a fs_scheme"
  assumes "dir_ready dp s" "j \<le> ndents dp s" "ndents dp s - j < f"
  shows "\<exists>s1. same s s1 \<and> dirlookup_loop f dp name (16 * j) s =
    (case find (entry_is name dp s) [j..<ndents dp s] of
       None \<Rightarrow> Inr (None, s1)
     | Some k \<Rightarrow> bnd (iget (ip_dev (icache s dp)) (unat (de_inum (dent dp s k))) s1) (\<lambda>(ip, s). Inr (Some (ip, 16 * k), s)))"
  using assms
proof (induction f arbitrary: j s)
  case (Suc f)
  note D = Suc.prems(1) and z = dents_size [OF Suc.prems(1)]
  show ?case
  proof (cases "j = ndents dp s")
    case True
    then have "\<not> 16 * j < unat (ip_size (icache s dp))" using z by (simp add: fsize_def)
    moreover have "same s s" using D by (intro same_refl) (simp add: dir_ready_def inode_ready_def)
    ultimately show ?thesis using True by auto
  next
    case False
    then have j: "j < ndents dp s" using Suc.prems(2) by simp
    have l: "16 * j < unat (ip_size (icache s dp))" using z j by (simp add: fsize_def)
    obtain s2 where s2: "same s s2" "read_dirent ''dirlookup read'' dp (16 * j) s = Inr (dent dp s j, s2)"
      using read_dirent_at [OF D j] by blast
    note E = dir_same [OF s2(1) D]
    have u: "[j..<ndents dp s] = j # [Suc j..<ndents dp s]" using j by (rule upt_conv_Cons)
    show ?thesis
    proof (cases "entry_is name dp s j")
      case True
      then show ?thesis using s2 l E(5) unfolding u by (auto simp: entry_is_def)
    next
      case other: False
      have p: "entry_is name dp s2 = entry_is name dp s" by (simp add: entry_is_def E(2) fun_eq_iff)
      have "\<exists>s1. same s2 s1 \<and> dirlookup_loop f dp name (16 * Suc j) s2 =
          (case find (entry_is name dp s) [Suc j..<ndents dp s] of None \<Rightarrow> Inr (None, s1)
           | Some k \<Rightarrow> bnd (iget (ip_dev (icache s dp)) (unat (de_inum (dent dp s k))) s1)
               (\<lambda>(ip, s). Inr (Some (ip, 16 * k), s)))"
        using Suc.IH [OF E(1), of "Suc j"] Suc.prems(3) j unfolding E p by simp
      then obtain s1 where s1: "same s2 s1" "dirlookup_loop f dp name (16 * Suc j) s2 =
          (case find (entry_is name dp s) [Suc j..<ndents dp s] of None \<Rightarrow> Inr (None, s1)
           | Some k \<Rightarrow> bnd (iget (ip_dev (icache s dp)) (unat (de_inum (dent dp s k))) s1)
               (\<lambda>(ip, s). Inr (Some (ip, 16 * k), s)))" by blast
      have "dirlookup_loop (Suc f) dp name (16 * j) s = dirlookup_loop f dp name (16 * Suc j) s2"
        using s2(2) l other by (auto simp: entry_is_def add.commute)
      then show ?thesis using s1 same_trans [OF s2(1) s1(1)] other unfolding u by auto
    qed
  qed
qed simp

lemma dirlookup_finds:
  fixes s :: "'a fs_scheme"
  assumes "dir_ready dp s"
  shows "\<exists>s1. same s s1 \<and> dirlookup dp name s =
    (case find (entry_is name dp s) [0..<ndents dp s] of
       None \<Rightarrow> Inr (None, s1)
     | Some k \<Rightarrow> bnd (iget (ip_dev (icache s dp)) (unat (de_inum (dent dp s k))) s1) (\<lambda>(ip, s). Inr (Some (ip, 16 * k), s)))"
  using dirlookup_loop_finds [OF assms, of 0 "entries dp s" name] assms
  by (simp add: dirlookup_def dir_ready_def ndents_def fsize_def)

lemma dirfree_loop_finds:
  fixes s :: "'a fs_scheme"
  assumes "dir_ready dp s" "j \<le> ndents dp s" "ndents dp s - j < f"
  shows "\<exists>s1. same s s1 \<and> dirfree_loop f dp (16 * j) s =
    Inr (16 * (case find (\<lambda>k. de_inum (dent dp s k) = 0) [j..<ndents dp s] of None \<Rightarrow> ndents dp s | Some k \<Rightarrow> k), s1)"
  using assms
proof (induction f arbitrary: j s)
  case (Suc f)
  note D = Suc.prems(1) and z = dents_size [OF Suc.prems(1)]
  show ?case
  proof (cases "j = ndents dp s")
    case True
    then have "\<not> 16 * j < unat (ip_size (icache s dp))" using z by (simp add: fsize_def)
    moreover have "same s s" using D by (intro same_refl) (simp add: dir_ready_def inode_ready_def)
    ultimately show ?thesis using True by auto
  next
    case False
    then have j: "j < ndents dp s" using Suc.prems(2) by simp
    have l: "16 * j < unat (ip_size (icache s dp))" using z j by (simp add: fsize_def)
    obtain s2 where s2: "same s s2" "read_dirent ''dirlink read'' dp (16 * j) s = Inr (dent dp s j, s2)"
      using read_dirent_at [OF D j] by blast
    note E = dir_same [OF s2(1) D]
    have u: "[j..<ndents dp s] = j # [Suc j..<ndents dp s]" using j by (rule upt_conv_Cons)
    show ?thesis
    proof (cases "de_inum (dent dp s j) = 0")
      case True
      then show ?thesis using s2 l unfolding u by auto
    next
      case other: False
      have "ndents dp s - Suc j < f" using Suc.prems(3) j by linarith
      then obtain s1 where s1: "same s2 s1" "dirfree_loop f dp (16 * Suc j) s2 =
          Inr (16 * (case find (\<lambda>k. de_inum (dent dp s k) = 0) [Suc j..<ndents dp s] of None \<Rightarrow> ndents dp s | Some k \<Rightarrow> k), s1)"
        using Suc.IH [OF E(1), of "Suc j"] j unfolding E by auto
      have "dirfree_loop (Suc f) dp (16 * j) s = dirfree_loop f dp (16 * Suc j) s2"
        using s2(2) l other by (auto simp: add.commute)
      then show ?thesis using s1 same_trans [OF s2(1) s1(1)] other unfolding u by auto
    qed
  qed
qed simp

lemma dirfree_finds:
  fixes s :: "'a fs_scheme"
  assumes "dir_ready dp s"
  shows "\<exists>s1. same s s1 \<and> dirfree_loop (entries dp s) dp 0 s =
    Inr (16 * (case find (\<lambda>k. de_inum (dent dp s k) = 0) [0..<ndents dp s] of None \<Rightarrow> ndents dp s | Some k \<Rightarrow> k), s1)"
  using dirfree_loop_finds [OF assms, of 0 "entries dp s"] by (simp add: ndents_def fsize_def)

section \<open>The entry dirlink makes\<close>

lemma stosb_zero: "stosb m s 0 n i = (if s \<le> i \<and> i < s + n then 0 else m i)"
  by (induction n arbitrary: m s) auto

text \<open>\<^verbatim>\<open>strncpy\<close> of disjoint ranges: the string, then zeros.\<close>

lemma strncpy_bytes:
  "s + n \<le> t \<Longrightarrow> strncpy m s t n i =
     (if s \<le> i \<and> i < s + n \<and> (\<forall>k \<le> i - s. m (t + k) \<noteq> 0) then m (t + (i - s))
      else if s \<le> i \<and> i < s + n then 0 else m i)"
proof (induction n arbitrary: m s t)
  case (Suc n)
  show ?case
  proof (cases "m t = 0")
    case True
    then have "\<exists>k \<le> i - s. m (t + k) = 0" by (intro exI [of _ 0]) simp
    then show ?thesis using True by (auto simp: stosb_zero)
  next
    case False
    define m' where m': "m' = m(s := m t)"
    have "s + 1 + n \<le> t + 1" using Suc.prems by simp
    note IH = Suc.IH [OF this, of m']
    have e: "strncpy m s t (Suc n) i = strncpy m' (s + 1) (t + 1) n i" using False by (simp add: m')
    have q: "m' (t + 1 + k) = m (t + 1 + k)" for k using Suc.prems by (simp add: m')
    show ?thesis
    proof (cases "s < i")
      case True
      then obtain d where d: "i = s + Suc d" by (metis less_imp_Suc_add add_Suc_right)
      have "(\<forall>k \<le> Suc d. m (t + k) \<noteq> 0) \<longleftrightarrow> (\<forall>k \<le> d. m (t + 1 + k) \<noteq> 0)"
      proof (intro iffI allI impI)
        fix k assume a: "\<forall>k \<le> Suc d. m (t + k) \<noteq> 0" "k \<le> d"
        have "m (t + Suc k) \<noteq> 0" using a by blast
        moreover have "t + Suc k = t + 1 + k" by simp
        ultimately show "m (t + 1 + k) \<noteq> 0" by (simp only: simp_thms)
      next
        fix k assume a: "\<forall>k \<le> d. m (t + 1 + k) \<noteq> 0" "k \<le> Suc d"
        show "m (t + k) \<noteq> 0"
        proof (cases k)
          case (Suc n)
          then have "m (t + 1 + n) \<noteq> 0" "t + k = t + 1 + n" using a by simp_all
          then show ?thesis by (simp only: simp_thms)
        qed (use False in simp)
      qed
      moreover have "i - (s + 1) = d" "i - s = Suc d" "t + (i - s) = t + 1 + d" "(s + 1 \<le> i) = True" "(s \<le> i) = True"
        "(i < s + 1 + n) = (d < n)" "(i < s + Suc n) = (d < n)" "m' i = m i" using d True by (auto simp: m')
      ultimately show ?thesis unfolding e IH q by (simp only: simp_thms)
    next
      case le: False
      then have "m' i = (if i = s then m t else m i)" "(s + 1 \<le> i) = False" by (auto simp: m')
      then show ?thesis unfolding e IH using le False by auto
    qed
  qed
qed auto

lemma namecmp_copy:
  assumes "\<And>i. i < DIRSIZ \<Longrightarrow> b i = (if \<forall>k\<le>i. a k \<noteq> 0 then a i else 0)"
  shows "namecmp a b = 0"
proof -
  let ?m = "\<lambda>i. if i < DIRSIZ then a i else b (i - DIRSIZ)"
  have "strncmp ?m p (DIRSIZ + p) n = 0" if "p + n = DIRSIZ" "\<forall>k<p. a k \<noteq> 0" for p n
    using that
  proof (induction n arbitrary: p)
    case (Suc n)
    have b: "b p = a p"
    proof (cases "a p = 0")
      case True
      then show ?thesis using assms [of p] Suc.prems by auto
    next
      case False
      then have "\<forall>k\<le>p. a k \<noteq> 0" using Suc.prems(2) by (metis le_neq_implies_less)
      then show ?thesis using assms [of p] Suc.prems by auto
    qed
    show ?case
    proof (cases "a p = 0")
      case True
      then show ?thesis using b Suc.prems by (subst strncmp.simps) simp
    next
      case False
      have "a k \<noteq> 0" if "k < p + 1" for k
      proof -
        have "k < p \<or> k = p" using that by linarith
        then show ?thesis using Suc.prems(2) False by blast
      qed
      then have "strncmp ?m (p + 1) (DIRSIZ + (p + 1)) n = 0"
        by (intro Suc.IH) (use Suc.prems(1) in auto)
      then show ?thesis using False b Suc.prems by (subst strncmp.simps) (simp add: add.assoc)
    qed
  qed (simp add: strncmp.simps)
  from this [of 0 DIRSIZ] show ?thesis by (simp add: namecmp_def)
qed

lemma mk_dirent_entry:
  shows "length (mk_dirent name inum) = 16" "de_inum (mk_dirent name inum) = ucast inum"
    "namecmp name (de_name (mk_dirent name inum)) = 0"
proof -
  show "length (mk_dirent name inum) = 16" by (simp add: mk_dirent_def Let_def DIRSIZ_def)
  have "de_inum (mk_dirent name inum) = get16 (put16 (\<lambda>_. 0) 0 (ucast inum)) 0"
    unfolding de_inum_def by (simp only: get16_def) (simp add: mk_dirent_def Let_def put16_def, rule bit_word_eqI, auto simp: bit_simps)
  then show "de_inum (mk_dirent name inum) = ucast inum" by simp
  let ?m = "\<lambda>i. if i < DIRSIZ then 0 else name (i - DIRSIZ)"
  have "de_name (mk_dirent name inum) i = strncpy ?m 0 DIRSIZ DIRSIZ i" if "i < DIRSIZ" for i
    using that by (simp add: de_name_def mk_dirent_def Let_def nth_append)
  then show "namecmp name (de_name (mk_dirent name inum)) = 0"
    by (intro namecmp_copy) (simp add: strncpy_bytes)
qed

section \<open>dirlink\<close>

lemma same_room:
  fixes s s' :: "'a fs_scheme"
  assumes "same s s'" "inode_ready ip s"
  shows "log_room ip k s' = log_room ip k s" "disk_room ip k s' = disk_room ip k s"
proof -
  note S = same_fs [OF assms(1)] and T = same_ready [OF assms(1,2)]
  have d: "dirty s' = dirty s" using assms(1) by (simp add: same_def)
  have i: "indset ip s' = indset ip s" "bmap_blocks s' = bmap_blocks s" "free_blocks s' = free_blocks s"
    by (simp_all add: indset_def bmap_blocks_def free_blocks_def S)
  show "log_room ip k s' = log_room ip k s" by (simp add: log_room_def fits_def i d S(10) T(2))
  show "disk_room ip k s' = disk_room ip k s" by (simp add: disk_room_def i)
qed

lemma dirent_nblk: "nblk (16 * j) 16 = 1"
proof -
  have "16 * j mod BSIZE = 16 * (j mod 32)" using mult_mod_right [of 16 j 32] by simp
  moreover have "j mod 32 < 32" by simp
  ultimately show ?thesis unfolding nblk_def by simp
qed

lemma stored_refs:
  assumes "stored ip off src s s'"
  shows "ip_ref (icache s' i) = ip_ref (icache s i)"
proof -
  obtain z A where "icache s' = (icache s)(ip := (icache s ip)\<lparr>ip_size := z, ip_addrs := A\<rparr>)"
    using assms unfolding stored_def by blast
  then show ?thesis by simp
qed

lemma stored_dents:
  fixes s s' :: "'a fs_scheme"
  assumes D: "dir_ready dp s" and st: "stored dp (16 * j) src s s'" and l: "length src = 16" "j \<le> ndents dp s" "0 \<le> slots s'"
  shows "dir_ready dp s'" "dent dp s' j = src" "k < ndents dp s \<Longrightarrow> k \<noteq> j \<Longrightarrow> dent dp s' k = dent dp s k"
    "ndents dp s' = max (ndents dp s) (j + 1)"
proof -
  note S = storedD [OF st] and z = dents_size [OF D]
  have f: "fsize dp s' = 16 * max (ndents dp s) (j + 1)" using S(2) z l(1) by (simp add: max_def)
  then show n: "ndents dp s' = max (ndents dp s) (j + 1)" by (simp add: ndents_def)
  show "dir_ready dp s'" using D S(1,3,5) l(3) f by (simp add: dir_ready_def)
  show "dent dp s' j = src" using stored_read [OF st] z l S(2) by (simp add: dent_def)
  show "dent dp s' k = dent dp s k" if "k < ndents dp s" "k \<noteq> j"
  proof -
    have "fbyte dp s' i = fbyte dp s i" if i: "16 * k \<le> i" "i < 16 * k + 16" for i
    proof -
      have "16 * ndents dp s \<le> fsize dp s'" using f by simp
      then have "i < fsize dp s'" using i \<open>k < ndents dp s\<close> by linarith
      moreover have "\<not> (16 * j \<le> i \<and> i < 16 * j + length src)" using i \<open>k \<noteq> j\<close> l(1) by linarith
      ultimately show ?thesis using S(4) [of i] by (simp only: if_not_P if_False simp_thms)
    qed
    then show ?thesis by (simp add: dent_def)
  qed
qed

lemma dirlink_enters:
  fixes s :: "'a fs_scheme"
  assumes D: "dir_ready dp s" and new: "\<forall>j < ndents dp s. \<not> entry_is name dp s j"
    and i: "ip_inum (icache s dp) \<le> sb_ninodes (fsb s)" and z: "fsize dp s + 16 \<le> 140 * BSIZE"
    and room: "log_room dp 2 s" "disk_room dp 1 s"
  shows "wp (dirlink dp name inum s) (\<lambda>(r, s'). r = 0 \<and> dir_ready dp s' \<and> (\<forall>k. ip_ref (icache s' k) = ip_ref (icache s k)) \<and>
    (\<exists>j < ndents dp s'. dent dp s' j = mk_dirent name inum \<and> (\<forall>k < ndents dp s'. k \<noteq> j \<longrightarrow> k < ndents dp s \<and> dent dp s' k = dent dp s k)))"
proof -
  have "find (entry_is name dp s) [0..<ndents dp s] = None" using new by (simp add: find_None_iff)
  then obtain s1 where s1: "same s s1" "dirlookup dp name s = Inr (None, s1)"
    using dirlookup_finds [OF D, of name] by auto
  note E = dir_same [OF s1(1) D]
  have R: "inode_ready dp s" using D by (simp add: dir_ready_def)
  define j where "j = (case find (\<lambda>k. de_inum (dent dp s k) = 0) [0..<ndents dp s] of None \<Rightarrow> ndents dp s | Some k \<Rightarrow> k)"
  have j: "j \<le> ndents dp s" unfolding j_def by (auto simp: find_Some_iff split: option.split)
  obtain s2 where s2: "same s1 s2" "dirfree_loop (entries dp s1) dp 0 s1 = Inr (16 * j, s2)"
    using dirfree_finds [OF E(1)] unfolding E j_def by blast
  have S: "same s s2" by (rule same_trans [OF s1(1) s2(1)])
  note E2 = dir_same [OF S D] and F2 = same_fs [OF S]
  have R2: "inode_ready dp s2" "ip_type (icache s2 dp) \<noteq> T_DEV" "mapped dp s2 (fsize dp s2)"
    using E2(1) by (simp_all add: dir_ready_def T_DIR_def T_DEV_def)
  have u: "unat (of_nat (16 * j) :: u32) = 16 * j"
    by (subst unat_of_nat) (use j dents_size [OF D] z in simp)
  have o: "(of_nat (16 * j) :: u32) \<le> ip_size (icache s2 dp)" "unat (of_nat (16 * j) :: u32) + unat (16 :: u32) \<le> 140 * BSIZE"
    unfolding word_le_nat_alt u using j dents_size [OF D] z E2(3) by (simp_all add: fsize_def)
  have w: "wp (writei (\<lambda>_. None) dp (mk_dirent name inum) (of_nat (16 * j)) 16 s2) (\<lambda>(r, s'). r = int (unat (16 :: u32)) \<and>
      stored dp (16 * j) (mk_dirent name inum) s2 s' \<and> log_room dp 0 s' \<and> disk_room dp 0 s')"
    by (rule writei_stored [OF R2 _ o, unfolded u])
      (use i F2 mk_dirent_entry(1) room same_room [OF S R] dirent_nblk in simp_all)
  have "wp (bnd (writei (\<lambda>_. None) dp (mk_dirent name inum) (of_nat (16 * j)) 16 s2)
      (\<lambda>(r, s). if r \<noteq> 16 then Inl (Panic ''dirlink'') else Inr (0, s)))
    (\<lambda>(r, s'). r = 0 \<and> dir_ready dp s' \<and> (\<forall>k. ip_ref (icache s' k) = ip_ref (icache s k)) \<and>
      (\<exists>j < ndents dp s'. dent dp s' j = mk_dirent name inum \<and>
        (\<forall>k < ndents dp s'. k \<noteq> j \<longrightarrow> k < ndents dp s \<and> dent dp s' k = dent dp s k)))"
  proof (subst wp_bnd, rule wp_mono [OF w], clarify)
    fix s'
    assume st: "stored dp (16 * j) (mk_dirent name inum) s2 s'" and r: "log_room dp 0 s'"
    have "fits 0 s'" using r by (rule log_room_fits) simp
    then have sl: "0 \<le> slots s'" using fitsD(1) by fastforce
    have j2: "j \<le> ndents dp s2" using j E2(4) by simp
    note T = stored_dents [OF E2(1) st mk_dirent_entry(1) j2 sl, unfolded E2]
    have "\<forall>k. ip_ref (icache s' k) = ip_ref (icache s k)" using stored_refs [OF st] F2(1) by simp
    moreover have "\<exists>j < ndents dp s'. dent dp s' j = mk_dirent name inum \<and>
        (\<forall>k < ndents dp s'. k \<noteq> j \<longrightarrow> k < ndents dp s \<and> dent dp s' k = dent dp s k)"
      by (intro exI [of _ j]) (use T j in \<open>auto simp: less_max_iff_disj\<close>)
    ultimately show "wp (if int (unat (16 :: u32)) \<noteq> 16 then Inl (Panic ''dirlink'') else Inr (0, s'))
      (\<lambda>(r, s'). r = 0 \<and> dir_ready dp s' \<and> (\<forall>k. ip_ref (icache s' k) = ip_ref (icache s k)) \<and>
      (\<exists>j < ndents dp s'. dent dp s' j = mk_dirent name inum \<and>
        (\<forall>k < ndents dp s'. k \<noteq> j \<longrightarrow> k < ndents dp s \<and> dent dp s' k = dent dp s k)))"
      using T(1) by simp
  qed
  then show ?thesis unfolding dirlink_def s1(2) by (simp add: s2(2) del: wp_bnd)
qed

lemma iget_returns:
  assumes "\<exists>i < NINODE. ip_ref (icache s i) = 0"
  shows "wp (iget dev inum s) (\<lambda>(ip, s'). ip_dev (icache s' ip) = dev \<and> ip_inum (icache s' ip) = inum)"
proof (cases "find (\<lambda>i. ip_ref (icache s i) > 0 \<and> ip_dev (icache s i) = dev \<and> ip_inum (icache s i) = inum) [0..<NINODE]")
  case None
  obtain ip where "find (\<lambda>i. ip_ref (icache s i) = 0) [0..<NINODE] = Some ip"
    using assms by (cases "find (\<lambda>i. ip_ref (icache s i) = 0) [0..<NINODE]") (auto simp: find_None_iff)
  then show ?thesis using None by (simp add: iget_def)
next
  case (Some ip)
  then have "ip_dev (icache s ip) = dev" "ip_inum (icache s ip) = inum" by (auto simp: find_Some_iff)
  then show ?thesis by (simp add: iget_def Some)
qed

text \<open>
  C10. After \<^verbatim>\<open>dirlink\<close> of a new name into a directory, with room for one more block in the log and on the disk, a
  \<^verbatim>\<open>dirlookup\<close> of that name succeeds and returns the inode with the number that was entered (its low 16 bits, which
  is what an entry holds), if there is an inode to cache it in.
\<close>

theorem dirlink_dirlookup:
  fixes s :: "'a fs_scheme"
  assumes "dir_ready dp s" "\<forall>j < ndents dp s. \<not> entry_is name dp s j"
    and "ip_inum (icache s dp) \<le> sb_ninodes (fsb s)" "fsize dp s + 16 \<le> 140 * BSIZE"
    and "log_room dp 2 s" "disk_room dp 1 s"
    and n: "(ucast inum :: u16) \<noteq> 0" and c: "\<exists>i < NINODE. ip_ref (icache s i) = 0"
  shows "wp (bnd (dirlink dp name inum s) (\<lambda>(r, s1). bnd (dirlookup dp name s1) (\<lambda>(found, s2). Inr (r, found, s2))))
    (\<lambda>(r, found, s'). r = 0 \<and> (\<exists>ip off. found = Some (ip, off) \<and> ip_dev (icache s' ip) = 1 \<and>
       ip_inum (icache s' ip) = unat (ucast inum :: u16)))"
proof (subst wp_bnd, rule wp_mono [OF dirlink_enters [OF assms(1-6)]], clarify)
  fix s1 j
  assume D: "dir_ready dp s1" and ref: "\<forall>k. ip_ref (icache s1 k) = ip_ref (icache s k)"
    and j: "j < ndents dp s1" "dent dp s1 j = mk_dirent name inum"
    and old: "\<forall>k < ndents dp s1. k \<noteq> j \<longrightarrow> k < ndents dp s \<and> dent dp s1 k = dent dp s k"
  have e: "entry_is name dp s1 k \<longleftrightarrow> k = j" if "k < ndents dp s1" for k
  proof (cases "k = j")
    case True
    then show ?thesis using j n mk_dirent_entry [of name inum] by (simp add: entry_is_def)
  next
    case False
    then have "k < ndents dp s" "dent dp s1 k = dent dp s k" using old that by blast+
    then show ?thesis using assms(2) False by (simp add: entry_is_def)
  qed
  have f: "find (entry_is name dp s1) [0..<ndents dp s1] = Some j"
    unfolding find_Some_iff using e j(1) by (intro exI [of _ j]) auto
  obtain s2 where s2: "same s1 s2" "dirlookup dp name s1 =
      bnd (iget (ip_dev (icache s1 dp)) (unat (de_inum (dent dp s1 j))) s2) (\<lambda>(ip, s). Inr (Some (ip, 16 * j), s))"
    using dirlookup_finds [OF D, of name] unfolding f by auto
  have c2: "\<exists>i < NINODE. ip_ref (icache s2 i) = 0" using c ref same_fs(1) [OF s2(1)] by simp
  have d: "ip_dev (icache s1 dp) = 1" using D by (simp add: dir_ready_def inode_ready_def)
  show "wp (bnd (dirlookup dp name s1) (\<lambda>(found, s2). Inr (0, found, s2)))
    (\<lambda>(r, found, s'). r = 0 \<and> (\<exists>ip off. found = Some (ip, off) \<and> ip_dev (icache s' ip) = 1 \<and>
       ip_inum (icache s' ip) = unat (ucast inum :: u16)))"
    unfolding s2(2) d j(2) mk_dirent_entry(2) using iget_returns [OF c2, of 1 "unat (ucast inum :: u16)"]
    by (auto simp: case_prod_unfold elim!: wp_mono)
qed

definition ex_dir :: fs where
  "ex_dir = upd_inode 0 (\<lambda>x. x\<lparr>ip_type := T_DIR\<rparr>) ex_file"

lemma ex_dir_ready:
  "dir_ready 0 ex_dir" "ndents 0 ex_dir = 0" "fsize 0 ex_dir = 0" "log_room 0 2 ex_dir" "disk_room 0 1 ex_dir"
  "ip_inum (icache ex_dir 0) \<le> sb_ninodes (fsb ex_dir)" "ip_ref (icache ex_dir 1) = 0"
proof -
  show z: "fsize 0 ex_dir = 0" using ex_file_ready(5) by (simp add: ex_dir_def fsize_def)
  then show "ndents 0 ex_dir = 0" by (simp add: ndents_def)
  have r: "inode_ready 0 ex_dir" using ex_file_ready(1) by (simp add: ex_dir_def inode_ready_def map_ok_upd)
  have i: "indset 0 ex_dir = indset 0 ex_file" by (simp add: ex_dir_def indset_def)
  have f: "fits k ex_dir = fits k ex_file" "dirty ex_dir = dirty ex_file" for k by (simp_all add: ex_dir_def)
  show "log_room 0 2 ex_dir" using ex_file_room(1) unfolding log_room_def i f .
  show "disk_room 0 1 ex_dir" using ex_file_room(2) by (simp add: disk_room_def i) (simp add: ex_dir_def free_blocks_def)
  have "0 \<le> slots ex_dir" by (simp add: ex_dir_def ex_file_def ex_fs_txn)
  then show "dir_ready 0 ex_dir" using r z by (simp add: dir_ready_def mapped_def) (simp add: ex_dir_def)
  show "ip_inum (icache ex_dir 0) \<le> sb_ninodes (fsb ex_dir)" using ex_file_ready(4) by (simp add: ex_dir_def)
  show "ip_ref (icache ex_dir 1) = 0" by (simp add: ex_dir_def ex_file_def ex_inode_def)
qed

theorem dirlink_dirlookup_witness:
  "wp (bnd (dirlink 0 (name_of ''a'') 5 ex_dir) (\<lambda>(r, s1). bnd (dirlookup 0 (name_of ''a'') s1) (\<lambda>(found, s2). Inr (r, found, s2))))
    (\<lambda>(r, found, s'). r = 0 \<and> (\<exists>ip off. found = Some (ip, off) \<and> ip_dev (icache s' ip) = 1 \<and> ip_inum (icache s' ip) = 5))"
proof -
  have c: "\<exists>i < NINODE. ip_ref (icache ex_dir i) = 0" using ex_dir_ready(7) by (intro exI [of _ 1]) simp
  have e: "(ucast (5 :: u32) :: u16) \<noteq> 0" "unat (ucast (5 :: u32) :: u16) = 5" by simp_all
  have n: "\<forall>j < ndents 0 ex_dir. \<not> entry_is (name_of ''a'') 0 ex_dir j" using ex_dir_ready(2) by simp
  have z: "fsize 0 ex_dir + 16 \<le> 140 * BSIZE" using ex_dir_ready(3) by simp
  show ?thesis
    using dirlink_dirlookup [OF ex_dir_ready(1) n ex_dir_ready(6) z ex_dir_ready(4,5) e(1) c] unfolding e(2) .
qed

text \<open>\<^verbatim>\<open>isdirempty\<close>: true exactly when all entries after the first two are free.\<close>

lemma isdirempty_loop_finds:
  fixes s :: "'a fsys_scheme"
  assumes "dir_ready dp s" "j \<le> ndents dp s" "ndents dp s - j < f"
  shows "\<exists>s1. same s s1 \<and> isdirempty_loop f dp (16 * j) s = Inr (\<forall>k \<in> {j..<ndents dp s}. de_inum (dent dp s k) = 0, s1)"
  using assms
proof (induction f arbitrary: j s)
  case (Suc f)
  note D = Suc.prems(1) and z = dents_size [OF Suc.prems(1)]
  show ?case
  proof (cases "j = ndents dp s")
    case True
    then have "\<not> 16 * j < unat (ip_size (icache s dp))" using z by (simp add: fsize_def)
    moreover have "same s s" using D by (intro same_refl) (simp add: dir_ready_def inode_ready_def)
    ultimately show ?thesis using True by auto
  next
    case False
    then have j: "j < ndents dp s" using Suc.prems(2) by simp
    have l: "16 * j < unat (ip_size (icache s dp))" using z j by (simp add: fsize_def)
    obtain s2 where s2: "same s s2" "read_dirent ''isdirempty: readi'' dp (16 * j) s = Inr (dent dp s j, s2)"
      using read_dirent_at [OF D j] by blast
    note E = dir_same [OF s2(1) D]
    have u: "{j..<ndents dp s} = insert j {Suc j..<ndents dp s}" using j by auto
    show ?thesis
    proof (cases "de_inum (dent dp s j) = 0")
      case False
      then show ?thesis using s2 l unfolding u by auto
    next
      case True
      have "ndents dp s - Suc j < f" using Suc.prems(3) j by linarith
      then obtain s1 where s1: "same s2 s1" "isdirempty_loop f dp (16 * Suc j) s2 =
          Inr (\<forall>k \<in> {Suc j..<ndents dp s}. de_inum (dent dp s k) = 0, s1)"
        using Suc.IH [OF E(1), of "Suc j"] j unfolding E by auto
      have "isdirempty_loop (Suc f) dp (16 * j) s = isdirempty_loop f dp (16 * Suc j) s2"
        using s2(2) l True by (auto simp: add.commute)
      then show ?thesis using s1 same_trans [OF s2(1) s1(1)] True unfolding u by auto
    qed
  qed
qed simp

lemma isdirempty_finds:
  fixes s :: "'a fsys_scheme"
  assumes "dir_ready dp s" "2 \<le> ndents dp s"
  shows "\<exists>s1. same s s1 \<and> isdirempty dp s = Inr (\<forall>k \<in> {2..<ndents dp s}. de_inum (dent dp s k) = 0, s1)"
  using isdirempty_loop_finds [OF assms, of "entries dp s"] by (simp add: isdirempty_def ndents_def fsize_def)

end
