(* ===== verification/Spinlock.thy ===== *)
theory Spinlock
  imports Prelude
begin

text \<open>
  Spin locks (\<^verbatim>\<open>spinlock.c\<close>, \<^verbatim>\<open>spinlock.h\<close>) and the interrupt nesting of \<^verbatim>\<open>pushcli\<close> and \<^verbatim>\<open>popcli\<close>. A
  processor is named by its index in \<^verbatim>\<open>cpus\<close>. \<open>lock_step\<close> is the interleaving of \<^verbatim>\<open>acquire\<close> and
  \<^verbatim>\<open>release\<close> on one lock by all processors, cut at the shared memory accesses; the sequential
  operations are compositions of the same pieces.
\<close>

section \<open>Operations\<close>

record spinlock =
  lk_locked :: u32
  lk_name :: string
  lk_cpu :: "nat option"
  lk_pcs :: "u32 list"

text \<open>The fields of \<^verbatim>\<open>struct cpu\<close> that the lock code uses, and the processor's interrupt flag.\<close>

record cpu =
  ncli :: int
  intena :: bool
  if_flag :: bool

definition initlock :: "spinlock \<Rightarrow> string \<Rightarrow> spinlock" where
  "initlock lk name = lk\<lparr>lk_name := name, lk_locked := 0, lk_cpu := None\<rparr>"

definition holding :: "nat \<Rightarrow> spinlock \<Rightarrow> bool" where
  "holding me lk = (lk_locked lk \<noteq> 0 \<and> lk_cpu lk = Some me)"

text \<open>The nesting depth is at most the number of locks a processor holds, and kept unbounded.\<close>

definition pushcli :: "cpu \<Rightarrow> cpu" where
  "pushcli c =
     (let eflags = if_flag c;
          c = c\<lparr>if_flag := False\<rparr>;
          c = (if ncli c = 0 then c\<lparr>intena := eflags\<rparr> else c)
      in c\<lparr>ncli := ncli c + 1\<rparr>)"

definition popcli :: "cpu \<Rightarrow> cpu res" where
  "popcli c =
     (if if_flag c then Inl (Panic ''popcli - interruptible'')
      else let c = c\<lparr>ncli := ncli c - 1\<rparr> in
        if ncli c < 0 then Inl (Panic ''popcli'')
        else if ncli c = 0 \<and> intena c then Inr (c\<lparr>if_flag := True\<rparr>)
        else Inr c)"

text \<open>\<^verbatim>\<open>getcallerpcs\<close> over the stack memory \<open>m\<close>: the chain of saved frame pointers, at most ten.\<close>

fun callerpcs :: "bytes \<Rightarrow> u32 \<Rightarrow> nat \<Rightarrow> u32 list" where
  "callerpcs m ebp 0 = []"
| "callerpcs m ebp (Suc n) =
     (if ebp = 0 \<or> ebp < 0x80000000 \<or> ebp = 0xffffffff then replicate (Suc n) 0
      else get32 m (unat ebp + 4) # callerpcs m (get32 m (unat ebp)) n)"

definition getcallerpcs :: "bytes \<Rightarrow> u32 \<Rightarrow> u32 list" where
  "getcallerpcs m v = callerpcs m (v - 8) 10"

definition acquire_enter :: "nat \<Rightarrow> spinlock \<Rightarrow> cpu \<Rightarrow> cpu res" where
  "acquire_enter me lk c = (let c = pushcli c in if holding me lk then Inl (Panic ''acquire'') else Inr c)"

definition xchg_locked :: "spinlock \<Rightarrow> u32 \<times> spinlock" where
  "xchg_locked lk = (lk_locked lk, lk\<lparr>lk_locked := 1\<rparr>)"

definition acquire_record :: "nat \<Rightarrow> u32 list \<Rightarrow> spinlock \<Rightarrow> spinlock" where
  "acquire_record me pcs lk = lk\<lparr>lk_cpu := Some me, lk_pcs := pcs\<rparr>"

definition release_clear :: "nat \<Rightarrow> spinlock \<Rightarrow> spinlock res" where
  "release_clear me lk =
     (if \<not> holding me lk then Inl (Panic ''release'')
      else Inr (lk\<lparr>lk_pcs := (lk_pcs lk)[0 := 0], lk_cpu := None\<rparr>))"

definition release_unlock :: "spinlock \<Rightarrow> spinlock" where
  "release_unlock lk = lk\<lparr>lk_locked := 0\<rparr>"

text \<open>Run alone, \<^verbatim>\<open>acquire\<close> spins forever on a lock that is not free.\<close>

definition acquire :: "nat \<Rightarrow> u32 list \<Rightarrow> spinlock \<Rightarrow> cpu \<Rightarrow> (spinlock \<times> cpu) res" where
  "acquire me pcs lk c =
     bnd (acquire_enter me lk c) (\<lambda>c.
     let (old, lk) = xchg_locked lk in
     if old \<noteq> 0 then Inl (Sleep ''spin'') else Inr (acquire_record me pcs lk, c))"

definition release :: "nat \<Rightarrow> spinlock \<Rightarrow> cpu \<Rightarrow> (spinlock \<times> cpu) res" where
  "release me lk c =
     bnd (release_clear me lk) (\<lambda>lk.
     let lk = release_unlock lk in
     bnd (popcli c) (\<lambda>c. Inr (lk, c)))"

section \<open>Interrupt nesting\<close>

primrec pushes :: "nat \<Rightarrow> cpu \<Rightarrow> cpu" where
  "pushes 0 c = c"
| "pushes (Suc n) c = pushcli (pushes n c)"

primrec pops :: "nat \<Rightarrow> cpu \<Rightarrow> cpu res" where
  "pops 0 c = Inr c"
| "pops (Suc n) c = bnd (popcli c) (pops n)"

text \<open>Interrupts are off inside every \<^verbatim>\<open>pushcli\<close> section, and \<open>intena\<close> is what they were outside.\<close>

lemma pushes_state:
  assumes "ncli c = 0"
  shows "ncli (pushes n c) = int n" "0 < n \<Longrightarrow> \<not> if_flag (pushes n c)" "0 < n \<Longrightarrow> intena (pushes n c) = if_flag c"
    "cpu.more (pushes n c) = cpu.more c" "n = 0 \<Longrightarrow> if_flag (pushes n c) = if_flag c"
  using assms by (induction n) (auto simp: pushcli_def Let_def)

lemma pops_state:
  assumes "\<not> if_flag c" "ncli c = int n" "0 < n"
  shows "pops m c = (if m < n then Inr (c\<lparr>ncli := int (n - m)\<rparr>)
    else if m = n then Inr (c\<lparr>ncli := 0, if_flag := intena c\<rparr>) else pops m c)"
  using assms
proof (induction m arbitrary: c n)
  case (Suc m)
  show ?case
  proof (cases "n = 1")
    case True
    then show ?thesis using Suc.prems by (cases m) (auto simp: popcli_def Let_def)
  next
    case False
    then have "0 < n - 1" "ncli (c\<lparr>ncli := int (n - 1)\<rparr>) = int (n - 1)" using Suc.prems by auto
    note IH = Suc.IH [OF _ this(2) this(1)]
    have "popcli c = Inr (c\<lparr>ncli := int (n - 1)\<rparr>)"
      using Suc.prems False by (auto simp: popcli_def Let_def of_nat_diff)
    then show ?thesis using IH Suc.prems False by (auto simp: less_diff_conv)
  qed
qed (auto simp: of_nat_diff)

text \<open>
  C18. \<^verbatim>\<open>pushcli\<close> and \<^verbatim>\<open>popcli\<close> are matched: from a processor outside every section, \<open>n\<close> pushes keep
  interrupts off until the \<open>n\<close>th pop, which restores the interrupt flag; one pop more panics.
\<close>

theorem pushcli_popcli_matched:
  assumes "ncli c = 0" "0 < n"
  shows "\<not> if_flag (pushes n c) \<and>
    (\<forall>m<n. \<exists>c'. pops m (pushes n c) = Inr c' \<and> \<not> if_flag c') \<and>
    (\<exists>c'. pops n (pushes n c) = Inr c' \<and> if_flag c' = if_flag c \<and> ncli c' = 0) \<and>
    (\<exists>w. pops (Suc n) (pushes n c) = Inl (Panic w))"
proof -
  note p = pushes_state [OF assms(1), of n]
  have f: "\<not> if_flag (pushes n c)" "intena (pushes n c) = if_flag c" using p assms by auto
  note q = pops_state [OF f(1) p(1) assms(2)]
  have split: "pops (Suc k) d = bnd (pops k d) popcli" for k and d :: cpu
  proof (induction k arbitrary: d)
    case 0
    show ?case by (cases "popcli d") auto
  next
    case (Suc k)
    show ?case using Suc.IH by (cases "popcli d") simp_all
  qed
  have z: "pops n (pushes n c) = Inr ((pushes n c)\<lparr>ncli := 0, if_flag := if_flag c\<rparr>)" using q [of n] f by simp
  have "\<exists>w. pops (Suc n) (pushes n c) = Inl (Panic w)"
    unfolding split z by (simp add: popcli_def)
  moreover have "pops m (pushes n c) = Inr ((pushes n c)\<lparr>ncli := int (n - m)\<rparr>)" if "m < n" for m
    by (subst q) (simp add: that)
  ultimately show ?thesis using f z by auto
qed

theorem pushcli_popcli_matched_witness:
  "\<exists>c'. pops 2 (pushes 2 \<lparr>ncli = 0, intena = False, if_flag = True\<rparr>) = Inr c' \<and> if_flag c'"
  using pushcli_popcli_matched [of "\<lparr>ncli = 0, intena = False, if_flag = True\<rparr>" 2] by auto

section \<open>Mutual exclusion\<close>

text \<open>Where a processor stands in \<^verbatim>\<open>acquire\<close> and \<^verbatim>\<open>release\<close>.\<close>

datatype phase = Outside | Spin | Taken | Inside | Cleared

record lockstate =
  ls_lock :: spinlock
  ls_phase :: "nat \<Rightarrow> phase"
  ls_cpu :: "nat \<Rightarrow> cpu"

definition phase_at :: "nat \<Rightarrow> phase \<Rightarrow> lockstate \<Rightarrow> lockstate" where
  "phase_at i p s = s\<lparr>ls_phase := (ls_phase s)(i := p)\<rparr>"

inductive lock_step :: "lockstate \<Rightarrow> lockstate \<Rightarrow> bool" where
  enter: "ls_phase s i = Outside \<Longrightarrow> acquire_enter i (ls_lock s) (ls_cpu s i) = Inr c \<Longrightarrow>
    lock_step s (phase_at i Spin (s\<lparr>ls_cpu := (ls_cpu s)(i := c)\<rparr>))"
| spin: "ls_phase s i = Spin \<Longrightarrow> xchg_locked (ls_lock s) = (old, lk) \<Longrightarrow> old \<noteq> 0 \<Longrightarrow>
    lock_step s (s\<lparr>ls_lock := lk\<rparr>)"
| take: "ls_phase s i = Spin \<Longrightarrow> xchg_locked (ls_lock s) = (old, lk) \<Longrightarrow> old = 0 \<Longrightarrow>
    lock_step s (phase_at i Taken (s\<lparr>ls_lock := lk\<rparr>))"
| record_owner: "ls_phase s i = Taken \<Longrightarrow>
    lock_step s (phase_at i Inside (s\<lparr>ls_lock := acquire_record i pcs (ls_lock s)\<rparr>))"
| clear: "ls_phase s i = Inside \<Longrightarrow> release_clear i (ls_lock s) = Inr lk \<Longrightarrow>
    lock_step s (phase_at i Cleared (s\<lparr>ls_lock := lk\<rparr>))"
| unlock: "ls_phase s i = Cleared \<Longrightarrow> popcli (ls_cpu s i) = Inr c \<Longrightarrow>
    lock_step s (phase_at i Outside (s\<lparr>ls_lock := release_unlock (ls_lock s), ls_cpu := (ls_cpu s)(i := c)\<rparr>))"

definition owning :: "phase \<Rightarrow> bool" where
  "owning p = (p = Taken \<or> p = Inside \<or> p = Cleared)"

lemma owning_simps [simp]: "\<not> owning Outside" "\<not> owning Spin" "owning Taken" "owning Inside" "owning Cleared"
  by (simp_all add: owning_def)

text \<open>The lock word says whether some processor owns the lock; the owner field names it while it is inside.\<close>

definition lock_inv :: "lockstate \<Rightarrow> bool" where
  "lock_inv s \<longleftrightarrow>
     (\<forall>i. owning (ls_phase s i) \<longrightarrow> lk_locked (ls_lock s) \<noteq> 0) \<and>
     (\<forall>i j. owning (ls_phase s i) \<longrightarrow> owning (ls_phase s j) \<longrightarrow> i = j) \<and>
     (\<forall>i. lk_cpu (ls_lock s) = Some i \<longleftrightarrow> ls_phase s i = Inside)"

lemmas lock_parts = lock_inv_def phase_at_def xchg_locked_def acquire_record_def
  release_clear_def release_unlock_def holding_def

lemma lock_inv_owner:
  assumes "lock_inv s" "ls_phase s i = Cleared"
  shows "lk_cpu (ls_lock s) = None"
proof (cases "lk_cpu (ls_lock s)")
  case (Some j)
  then have "ls_phase s j = Inside" using assms(1) by (auto simp: lock_inv_def)
  moreover from this have "j = i" using assms unfolding lock_inv_def by (metis owning_simps(4,5))
  ultimately show ?thesis using assms(2) by simp
qed simp

lemma lock_inv_step:
  assumes "lock_step s t" "lock_inv s"
  shows "lock_inv t"
  using assms
proof (cases rule: lock_step.cases)
  case (enter i c)
  then show ?thesis using assms(2) by (auto simp: lock_parts)
next
  case (spin i old lk)
  then show ?thesis using assms(2) by (auto simp: lock_parts)
next
  case (take i old lk)
  then show ?thesis using assms(2) by (auto simp: lock_parts)
next
  case (record_owner i pcs)
  then have "lk_locked (ls_lock s) \<noteq> 0" using assms(2) unfolding lock_inv_def by (metis owning_simps(3))
  then show ?thesis using record_owner assms(2) by (auto simp: lock_parts)
next
  case (clear i lk)
  then show ?thesis using assms(2) by (auto simp: lock_parts split: if_splits)
next
  case (unlock i c)
  then have o: "owning (ls_phase s i)" and n: "lk_cpu (ls_lock s) = None"
    using lock_inv_owner [OF assms(2)] by simp_all
  then show ?thesis using unlock assms(2) by (auto simp: lock_parts)
qed

lemma lock_inv_reachable:
  assumes "lock_step\<^sup>*\<^sup>* s t" "lock_inv s"
  shows "lock_inv t"
  using assms by (induction rule: rtranclp_induct) (auto intro: lock_inv_step)

text \<open>
  C19. Mutual exclusion. However the processors interleave from a fresh lock, two of them are
  never between the \<^verbatim>\<open>xchg\<close> of \<^verbatim>\<open>acquire\<close> and the store of \<^verbatim>\<open>release\<close>; \<^verbatim>\<open>holding\<close> is true on exactly the
  processor inside its critical section, so that \<^verbatim>\<open>release\<close> there does not panic.
\<close>

theorem spinlock_mutual_exclusion:
  assumes "lock_step\<^sup>*\<^sup>* \<lparr>ls_lock = initlock lk name, ls_phase = (\<lambda>_. Outside), ls_cpu = cs\<rparr> s"
  shows "(owning (ls_phase s i) \<and> owning (ls_phase s j) \<longrightarrow> i = j) \<and>
    (holding i (ls_lock s) \<longleftrightarrow> ls_phase s i = Inside) \<and>
    (ls_phase s i = Inside \<longrightarrow> (\<exists>l. release_clear i (ls_lock s) = Inr l))"
proof -
  have "lock_inv \<lparr>ls_lock = initlock lk name, ls_phase = (\<lambda>_. Outside), ls_cpu = cs\<rparr>"
    by (simp add: lock_inv_def initlock_def owning_def)
  with assms have "lock_inv s" by (rule lock_inv_reachable)
  moreover from this have "ls_phase s i = Inside \<Longrightarrow> lk_locked (ls_lock s) \<noteq> 0"
    unfolding lock_inv_def by (metis owning_simps(4))
  ultimately show ?thesis unfolding lock_inv_def holding_def release_clear_def by auto
qed

theorem spinlock_mutual_exclusion_witness:
  "\<exists>s. lock_step\<^sup>*\<^sup>* \<lparr>ls_lock = initlock (spinlock.make 0 [] None []) [], ls_phase = (\<lambda>_. Outside),
      ls_cpu = (\<lambda>_. \<lparr>ncli = 0, intena = False, if_flag = True\<rparr>)\<rparr> s \<and>
    ls_phase s 0 = Inside \<and> holding 0 (ls_lock s) \<and> \<not> holding 1 (ls_lock s)"
proof -
  let ?c = "\<lparr>ncli = 0, intena = False, if_flag = True\<rparr>"
  let ?l = "initlock (spinlock.make 0 [] None []) []"
  define s0 where "s0 = \<lparr>ls_lock = ?l, ls_phase = (\<lambda>_. Outside), ls_cpu = (\<lambda>_. ?c)\<rparr>"
  define s1 where "s1 = phase_at 0 Spin (s0\<lparr>ls_cpu := (ls_cpu s0)(0 := pushcli ?c)\<rparr>)"
  define s2 where "s2 = phase_at 0 Taken (s1\<lparr>ls_lock := ?l\<lparr>lk_locked := 1\<rparr>\<rparr>)"
  define s3 where "s3 = phase_at 0 Inside (s2\<lparr>ls_lock := acquire_record 0 [] (ls_lock s2)\<rparr>)"
  have z: "lk_locked ?l = 0" by (simp add: initlock_def)
  have l: "ls_lock s0 = ?l" "ls_lock s1 = ?l" by (simp_all add: s1_def s0_def phase_at_def)
  have "lock_step s0 s1" unfolding s1_def
    by (rule lock_step.enter) (simp_all add: s0_def acquire_enter_def holding_def z)
  moreover have "lock_step s1 s2" unfolding s2_def
    by (rule lock_step.take) (simp_all add: s1_def phase_at_def s0_def xchg_locked_def z)
  moreover have "lock_step s2 s3" unfolding s3_def
    by (rule lock_step.record_owner) (simp add: s2_def phase_at_def)
  ultimately have r: "lock_step\<^sup>*\<^sup>* s0 s3" by (meson rtranclp.rtrancl_into_rtrancl rtranclp.rtrancl_refl)
  have p: "ls_phase s3 0 = Inside" "ls_phase s3 1 \<noteq> Inside"
    by (simp_all add: s3_def s2_def s1_def s0_def phase_at_def)
  from spinlock_mutual_exclusion [OF r [unfolded s0_def]] p r show ?thesis unfolding s0_def by blast
qed

end
