(* ===== verification/Kalloc.thy ===== *)
theory Kalloc
  imports Prelude
begin

text \<open>
  The physical page allocator (\<^verbatim>\<open>kalloc.c\<close>, \<^verbatim>\<open>memlayout.h\<close>). Physical memory is a function from page
  frame numbers to page contents; the free list is threaded through the free pages as in the
  code, each starting with the kernel address of the next. The body of \<^verbatim>\<open>kfree\<close> and of \<^verbatim>\<open>kalloc\<close>
  runs under \<^verbatim>\<open>kmem.lock\<close> and is one step of the model. \<^verbatim>\<open>end\<close>, the first address after the
  kernel, comes from the linker script and is an argument.
\<close>

section \<open>Addresses\<close>

abbreviation PGSIZE :: nat where
  "PGSIZE \<equiv> 4096"

definition KERNBASE :: u32 where
  "KERNBASE = 0x80000000"

definition PHYSTOP :: u32 where
  "PHYSTOP = 0xE000000"

definition V2P :: "u32 \<Rightarrow> u32" where
  "V2P a = a - KERNBASE"

definition P2V :: "u32 \<Rightarrow> u32" where
  "P2V a = a + KERNBASE"

lemma V2P_P2V [simp]: "V2P (P2V a) = a" "P2V (V2P a) = a"
  by (simp_all add: V2P_def P2V_def)

definition PGROUNDUP :: "u32 \<Rightarrow> u32" where
  "PGROUNDUP sz = (sz + 4096 - 1) AND NOT (4096 - 1)"

definition PGROUNDDOWN :: "u32 \<Rightarrow> u32" where
  "PGROUNDDOWN a = a AND NOT (4096 - 1)"

lemma unat_PGROUNDDOWN: "unat (PGROUNDDOWN a) = unat a div PGSIZE * PGSIZE"
proof -
  have m: "(4096 - 1 :: u32) = mask 12" by (simp add: mask_eq_exp_minus_1)
  have "PGROUNDDOWN a = push_bit 12 (drop_bit 12 a)" unfolding PGROUNDDOWN_def m
    by (rule bit_word_eqI) (auto simp: bit_simps)
  moreover have "unat (push_bit 12 (drop_bit 12 a)) =
      take_bit LENGTH(32) (push_bit 12 (drop_bit 12 (take_bit LENGTH(32) (unat a))))"
    by (simp only: unsigned_push_bit_eq unsigned_drop_bit_eq)
  moreover have l: "unat a < 4294967296" using unsigned_less [of a] by simp
  moreover have "unat a div 4096 * 4096 < 4294967296"
    using div_times_less_eq_dividend [of "unat a" 4096] l by linarith
  ultimately show ?thesis
    by (simp add: push_bit_eq_mult drop_bit_eq_div take_bit_eq_mod)
qed

lemma unat_PGROUNDUP:
  assumes "unat sz + 4095 < 2 ^ 32"
  shows "unat (PGROUNDUP sz) = (unat sz + 4095) div PGSIZE * PGSIZE"
proof -
  have "unat sz + unat (4095 :: u32) < 2 ^ LENGTH(32)" using assms by simp
  then have "unat (sz + 4095) = unat sz + 4095" by (simp only: unat_add_lem) simp
  moreover have "PGROUNDUP sz = PGROUNDDOWN (sz + 4095)" by (simp add: PGROUNDUP_def PGROUNDDOWN_def add.commute)
  ultimately show ?thesis by (simp only: unat_PGROUNDDOWN)
qed

text \<open>The page frame a kernel address lies in.\<close>

definition frame_of :: "u32 \<Rightarrow> nat" where
  "frame_of v = unat (V2P v) div PGSIZE"

section \<open>The allocator\<close>

record kmem =
  use_lock :: bool
  freelist :: u32
  pages :: "nat \<Rightarrow> bytes"

definition set_page :: "nat \<Rightarrow> bytes \<Rightarrow> 'a kmem_scheme \<Rightarrow> 'a kmem_scheme" where
  "set_page n b s = s\<lparr>pages := (pages s)(n := b)\<rparr>"

definition kfree :: "u32 \<Rightarrow> u32 \<Rightarrow> 'a kmem_scheme \<Rightarrow> 'a kmem_scheme res" where
  "kfree kend v s =
     (if unat v mod PGSIZE \<noteq> 0 \<or> v < kend \<or> PHYSTOP \<le> V2P v then Inl (Panic ''kfree'')
      else
        let s = set_page (frame_of v) (\<lambda>_. 1) s;
            s = set_page (frame_of v) (put32 (pages s (frame_of v)) 0 (freelist s)) s
        in Inr (s\<lparr>freelist := v\<rparr>))"

definition kalloc :: "'a kmem_scheme \<Rightarrow> u32 \<times> 'a kmem_scheme" where
  "kalloc s =
     (let r = freelist s in
      if r \<noteq> 0 then (r, s\<lparr>freelist := get32 (pages s (frame_of r)) 0\<rparr>) else (r, s))"

text \<open>
  The loop of \<^verbatim>\<open>freerange\<close>: \<open>p\<close> and \<open>vend\<close> are pointers, and \<open>p + PGSIZE\<close> may wrap as 32-bit
  arithmetic does. When it does, \<open>p\<close> is in the last page of the address space, the \<^verbatim>\<open>kfree\<close> of
  which panics (\<open>kfree_last_page\<close>), so the loop stops there; otherwise \<open>p\<close> grows towards \<open>2 ^ 32\<close>.
\<close>

function free_pages :: "u32 \<Rightarrow> u32 \<Rightarrow> u32 \<Rightarrow> 'a kmem_scheme \<Rightarrow> 'a kmem_scheme res" where
  "free_pages kend p vend s =
     (if p + 4096 \<le> vend \<and> p < p + 4096 then bnd (kfree kend p s) (free_pages kend (p + 4096) vend)
      else if p + 4096 \<le> vend then kfree kend p s
      else Inr s)"
  by auto
termination
proof (relation "measure (\<lambda>(_, p, _). 2 ^ 32 - unat p)", simp, clarsimp)
  fix p :: u32 assume "p < p + 4096"
  then have "unat p < unat (p + 4096)" by (simp add: word_less_nat_alt)
  moreover have "unat (p + 4096) < 2 ^ 32" using unsigned_less [of "p + 4096"] by simp
  ultimately show "4294967296 - unat (p + 4096) < 4294967296 - unat p" by simp
qed

declare free_pages.simps [simp del]

lemma kfree_last_page:
  assumes "\<not> p < p + 4096"
  shows "kfree kend p s = Inl (Panic ''kfree'')"
proof -
  have "2 ^ 32 \<le> unat p + 4096"
  proof (rule ccontr)
    assume "\<not> 2 ^ 32 \<le> unat p + 4096"
    then have "unat p + unat (4096 :: u32) < 2 ^ LENGTH(32)" by simp
    then have "unat (p + 4096) = unat p + unat (4096 :: u32)" by (simp only: unat_add_lem)
    with assms show False by (simp add: word_less_nat_alt)
  qed
  moreover from this have "KERNBASE \<le> p" by (simp add: KERNBASE_def word_le_nat_alt)
  then have "unat (V2P p) = unat p - unat KERNBASE" unfolding V2P_def by (simp only: unat_sub)
  ultimately have "PHYSTOP \<le> V2P p" by (simp add: word_le_nat_alt KERNBASE_def PHYSTOP_def)
  then show ?thesis by (simp add: kfree_def)
qed

definition freerange :: "u32 \<Rightarrow> u32 \<Rightarrow> u32 \<Rightarrow> 'a kmem_scheme \<Rightarrow> 'a kmem_scheme res" where
  "freerange kend vstart vend s = free_pages kend (PGROUNDUP vstart) vend s"

definition kinit1 :: "u32 \<Rightarrow> u32 \<Rightarrow> u32 \<Rightarrow> 'a kmem_scheme \<Rightarrow> 'a kmem_scheme res" where
  "kinit1 kend vstart vend s = freerange kend vstart vend (s\<lparr>use_lock := False\<rparr>)"

definition kinit2 :: "u32 \<Rightarrow> u32 \<Rightarrow> u32 \<Rightarrow> 'a kmem_scheme \<Rightarrow> 'a kmem_scheme res" where
  "kinit2 kend vstart vend s = bnd (freerange kend vstart vend s) (\<lambda>s. Inr (s\<lparr>use_lock := True\<rparr>))"

section \<open>The free list\<close>

definition page_ok :: "u32 \<Rightarrow> u32 \<Rightarrow> bool" where
  "page_ok kend v \<longleftrightarrow> unat v mod PGSIZE = 0 \<and> kend \<le> v \<and> V2P v < PHYSTOP \<and> v \<noteq> 0"

text \<open>\<open>free_list\<close>: the pages on the list that starts at \<open>p\<close>, in order.\<close>

primrec free_list :: "(nat \<Rightarrow> bytes) \<Rightarrow> u32 \<Rightarrow> u32 list \<Rightarrow> bool" where
  "free_list m p [] \<longleftrightarrow> p = 0"
| "free_list m p (v # vs) \<longleftrightarrow> p = v \<and> v \<noteq> 0 \<and> free_list m (get32 (m (frame_of v)) 0) vs"

definition kmem_ok :: "u32 \<Rightarrow> 'a kmem_scheme \<Rightarrow> u32 list \<Rightarrow> bool" where
  "kmem_ok kend s vs \<longleftrightarrow> free_list (pages s) (freelist s) vs \<and> distinct vs \<and> (\<forall>v \<in> set vs. page_ok kend v)"

lemma aligned_minus: "unat (a - b) mod PGSIZE = 0" if "unat a mod PGSIZE = 0" "unat b mod PGSIZE = 0" for a b :: u32
proof -
  have d: "4096 dvd uint c" if "unat c mod PGSIZE = 0" for c :: u32
  proof -
    have "int (unat c mod PGSIZE) = 0" using that by (simp only:)
    then have "uint c mod 4096 = 0" by (simp add: zmod_int)
    then show ?thesis by auto
  qed
  have "uint (a - b) = (uint a - uint b) mod 2 ^ 32" by (simp add: uint_word_ariths)
  moreover have "((uint a - uint b) mod 2 ^ 32) mod 4096 = (uint a - uint b) mod 4096"
    by (rule mod_mod_cancel) simp
  moreover have "(uint a - uint b) mod 4096 = 0" using d [OF that(1)] d [OF that(2)] by auto
  ultimately have "uint (a - b) mod 4096 = 0" by simp
  then have "int (unat (a - b) mod PGSIZE) = 0" by (simp add: zmod_int)
  then show ?thesis by simp
qed

lemma unat_KERNBASE: "unat KERNBASE = 2147483648"
  by (simp add: KERNBASE_def)

lemma KERNBASE_aligned: "unat KERNBASE mod PGSIZE = 0"
  by (simp add: unat_KERNBASE)

lemma frame_of_inj:
  assumes "unat v mod PGSIZE = 0" "unat w mod PGSIZE = 0" "frame_of v = frame_of w"
  shows "v = w"
proof -
  have "unat (V2P v) mod PGSIZE = 0" "unat (V2P w) mod PGSIZE = 0"
    using assms aligned_minus KERNBASE_aligned by (auto simp: V2P_def)
  then have "unat (V2P v) = unat (V2P w)"
    using assms(3) unfolding frame_of_def by (metis div_mult_mod_eq)
  then have "V2P v = V2P w" by (simp only: word_unat_eq_iff)
  then show ?thesis by (simp add: V2P_def)
qed

lemma page_ok_frame:
  "page_ok kend v \<Longrightarrow> page_ok kend w \<Longrightarrow> frame_of v = frame_of w \<longleftrightarrow> v = w"
  using frame_of_inj by (auto simp: page_ok_def)

lemma free_list_frame:
  "free_list m p vs \<Longrightarrow> (\<And>v. v \<in> set vs \<Longrightarrow> m' (frame_of v) = m (frame_of v)) \<Longrightarrow> free_list m' p vs"
  by (induction vs arbitrary: p) auto

text \<open>The two operations against the list of free pages.\<close>

lemma kalloc_ok:
  assumes "kmem_ok kend s vs"
  shows "case vs of
      [] \<Rightarrow> kalloc s = (0, s)
    | v # ws \<Rightarrow> \<exists>f. kalloc s = (v, s\<lparr>freelist := f\<rparr>) \<and> kmem_ok kend (s\<lparr>freelist := f\<rparr>) ws \<and> page_ok kend v \<and> v \<notin> set ws"
  using assms by (cases vs) (auto simp: kmem_ok_def kalloc_def)

lemma kfree_ok:
  assumes "kmem_ok kend s vs" "page_ok kend v" "v \<notin> set vs"
  obtains s' where "kfree kend v s = Inr s'" "kmem_ok kend s' (v # vs)"
    "\<forall>n. n \<noteq> frame_of v \<longrightarrow> pages s' n = pages s n"
    "use_lock s' = use_lock s" "kmem.more s' = kmem.more s"
proof
  let ?s = "set_page (frame_of v) (put32 (\<lambda>_. 1) 0 (freelist s)) s\<lparr>freelist := v\<rparr>"
  have "\<not> (unat v mod PGSIZE \<noteq> 0 \<or> v < kend \<or> PHYSTOP \<le> V2P v)"
    using assms(2) unfolding page_ok_def not_le [symmetric] by simp
  then show "kfree kend v s = Inr ?s" unfolding kfree_def by (simp only: if_False) (simp add: set_page_def)
  have f: "frame_of w \<noteq> frame_of v" if "w \<in> set vs" for w
    using that assms page_ok_frame [of kend w v] unfolding kmem_ok_def by metis
  have "free_list (pages ?s) (freelist s) vs"
  proof (rule free_list_frame)
    show "free_list (pages s) (freelist s) vs" using assms(1) by (simp add: kmem_ok_def)
  qed (simp add: set_page_def f)
  then show "kmem_ok kend ?s (v # vs)"
    using assms unfolding kmem_ok_def page_ok_def by (simp add: set_page_def)
qed (simp_all add: set_page_def)

section \<open>The contract\<close>

text \<open>
  What the clients of the allocator rely on: a set of free pages, allocation of a page out of
  that set or failure when it is empty, release of a page outside it. Clients see page contents
  through \<open>content\<close>; only the released page changes.
\<close>

locale page_allocator =
  fixes inv :: "'s \<Rightarrow> 'p set \<Rightarrow> bool"
    and valid :: "'p \<Rightarrow> bool"
    and alloc :: "'s \<Rightarrow> 'p \<times> 's"
    and free :: "'p \<Rightarrow> 's \<Rightarrow> 's res"
    and null :: 'p
    and content :: "'s \<Rightarrow> 'p \<Rightarrow> bytes"
  assumes alloc_empty: "inv s {} \<Longrightarrow> alloc s = (null, s)"
    and alloc_page: "inv s F \<Longrightarrow> F \<noteq> {} \<Longrightarrow> alloc s = (p, s') \<Longrightarrow>
      p \<in> F \<and> p \<noteq> null \<and> valid p \<and> inv s' (F - {p}) \<and> content s' q = content s q"
    and free_page: "inv s F \<Longrightarrow> valid p \<Longrightarrow> p \<notin> F \<Longrightarrow>
      \<exists>s'. free p s = Inr s' \<and> inv s' (insert p F) \<and> (\<forall>q. valid q \<longrightarrow> q \<noteq> p \<longrightarrow> content s' q = content s q)"
begin

lemma alloc_cases:
  assumes "inv s F" "alloc s = (p, s')"
  obtains "F = {}" "p = null" "s' = s" | "p \<in> F" "p \<noteq> null" "valid p" "inv s' (F - {p})"
  using assms alloc_empty alloc_page by (cases "F = {}") force+

lemma free_alloc:
  assumes "inv s F" "alloc s = (p, s')" "p \<noteq> null"
  shows "\<exists>s''. free p s' = Inr s'' \<and> inv s'' F"
proof -
  have p: "p \<in> F" "valid p" "inv s' (F - {p})" using assms by (auto elim: alloc_cases)
  with free_page [of s' "F - {p}" p] show ?thesis by (auto simp: insert_absorb)
qed

primrec allocs :: "nat \<Rightarrow> 's \<Rightarrow> 'p list \<times> 's" where
  "allocs 0 s = ([], s)"
| "allocs (Suc n) s = (let (p, s) = alloc s; (ps, s) = allocs n s in (p # ps, s))"

lemma allocs_distinct:
  "inv s F \<Longrightarrow> finite F \<Longrightarrow> n \<le> card F \<Longrightarrow>
   \<exists>ps s'. allocs n s = (ps, s') \<and> length ps = n \<and> distinct ps \<and> set ps \<subseteq> F \<and> inv s' (F - set ps)"
proof (induction n arbitrary: s F)
  case (Suc n)
  then have ne: "F \<noteq> {}" by auto
  obtain p s1 where a: "alloc s = (p, s1)" by fastforce
  with Suc.prems ne have p: "p \<in> F" "inv s1 (F - {p})" by (auto elim: alloc_cases)
  have "n \<le> card (F - {p})" using Suc.prems p by simp
  from Suc.IH [OF p(2) _ this] Suc.prems(2) obtain ps s' where
    r: "allocs n s1 = (ps, s')" "length ps = n" "distinct ps" "set ps \<subseteq> F - {p}" "inv s' (F - {p} - set ps)" by auto
  have "allocs (Suc n) s = (p # ps, s')" using a r by simp
  moreover have "F - set (p # ps) = F - {p} - set ps" by auto
  ultimately show ?case using r p by (intro exI [of _ "p # ps"] exI [of _ s']) auto
qed simp

end

definition kmem_free :: "u32 \<Rightarrow> 'a kmem_scheme \<Rightarrow> u32 set \<Rightarrow> bool" where
  "kmem_free kend s F \<longleftrightarrow> (\<exists>vs. kmem_ok kend s vs \<and> set vs = F)"

interpretation ka: page_allocator "kmem_free kend" "page_ok kend" kalloc "kfree kend" 0 "\<lambda>s v. pages s (frame_of v)"
  for kend
proof
  fix s :: "'a kmem_scheme" and F and p and s' :: "'a kmem_scheme" and q
  show "kmem_free kend s {} \<Longrightarrow> kalloc s = (0, s)"
    by (auto simp: kmem_free_def dest: kalloc_ok)
  assume i: "kmem_free kend s F"
  then obtain vs where vs: "kmem_ok kend s vs" "set vs = F" by (auto simp: kmem_free_def)
  {
    assume "F \<noteq> {}" "kalloc s = (p, s')"
    with kalloc_ok [OF vs(1)] vs(2) obtain w ws where w: "vs = w # ws" "p = w" "kmem_ok kend s' ws" "page_ok kend w"
      "w \<notin> set ws" "pages s' = pages s"
      by (cases vs) auto
    then have "F - {p} = set ws" using vs by auto
    then show "p \<in> F \<and> p \<noteq> 0 \<and> page_ok kend p \<and> kmem_free kend s' (F - {p}) \<and> pages s' (frame_of q) = pages s (frame_of q)"
      using w vs(2) by (auto simp: kmem_free_def page_ok_def)
  }
  assume p: "page_ok kend p" "p \<notin> F"
  from p vs(2) have "p \<notin> set vs" by simp
  then obtain s'' where s'': "kfree kend p s = Inr s''" "kmem_ok kend s'' (p # vs)"
    "\<forall>n. n \<noteq> frame_of p \<longrightarrow> pages s'' n = pages s n" "use_lock s'' = use_lock s" "kmem.more s'' = kmem.more s"
    by (rule kfree_ok [OF vs(1) p(1)])
  have "pages s'' (frame_of q) = pages s (frame_of q)" if "page_ok kend q" "q \<noteq> p" for q
    using s''(3) page_ok_frame [OF that(1) p(1)] that(2) by simp
  then show "\<exists>s'. kfree kend p s = Inr s' \<and> kmem_free kend s' (insert p F) \<and>
      (\<forall>q. page_ok kend q \<longrightarrow> q \<noteq> p \<longrightarrow> pages s' (frame_of q) = pages s (frame_of q))"
    using s''(1,2) vs(2) by (auto simp: kmem_free_def intro!: exI [of _ "p # vs"])
qed

text \<open>
  C20. The allocator refines a stack of pages: \<^verbatim>\<open>kalloc\<close> pops a page that is aligned, in the range of
  physical memory and not handed out otherwise, or returns 0 when there is none; \<^verbatim>\<open>kfree\<close> of a page
  outside the stack pushes it and changes the content of no other page.
\<close>

theorem kalloc_kfree_refine:
  assumes "kmem_ok kend s vs"
  shows "(vs = [] \<longrightarrow> kalloc s = (0, s)) \<and>
    (\<forall>w ws. vs = w # ws \<longrightarrow> (\<exists>s'. kalloc s = (w, s') \<and> kmem_ok kend s' ws \<and> pages s' = pages s \<and> page_ok kend w)) \<and>
    (\<forall>v. page_ok kend v \<and> v \<notin> set vs \<longrightarrow> (\<exists>s'. kfree kend v s = Inr s' \<and> kmem_ok kend s' (v # vs) \<and>
      (\<forall>n. n \<noteq> frame_of v \<longrightarrow> pages s' n = pages s n))) \<and>
    (\<forall>v. v \<noteq> 0 \<and> \<not> page_ok kend v \<longrightarrow> kfree kend v s = Inl (Panic ''kfree''))"
proof (intro conjI allI impI)
  fix v assume v: "page_ok kend v \<and> v \<notin> set vs"
  then have "page_ok kend v" "v \<notin> set vs" by simp_all
  from kfree_ok [OF assms this]
  show "\<exists>s'. kfree kend v s = Inr s' \<and> kmem_ok kend s' (v # vs) \<and> (\<forall>n. n \<noteq> frame_of v \<longrightarrow> pages s' n = pages s n)"
    by blast
next
  fix v assume "v \<noteq> 0 \<and> \<not> page_ok kend v"
  then show "kfree kend v s = Inl (Panic ''kfree'')"
    unfolding page_ok_def kfree_def not_le [symmetric]
    by (cases "kend \<le> v"; cases "PHYSTOP \<le> V2P v"; simp)
next
  fix w ws assume "vs = w # ws"
  with kalloc_ok [OF assms] show "\<exists>s'. kalloc s = (w, s') \<and> kmem_ok kend s' ws \<and> pages s' = pages s \<and> page_ok kend w"
    by auto
qed (use kalloc_ok [OF assms] in auto)

section \<open>Initialisation\<close>

definition page_range :: "u32 \<Rightarrow> u32 \<Rightarrow> u32 set" where
  "page_range p vend = {v. unat v mod PGSIZE = 0 \<and> p \<le> v \<and> unat v + PGSIZE \<le> unat vend}"

lemma page_range_step:
  assumes "unat p mod PGSIZE = 0" "unat p + PGSIZE \<le> unat vend" "unat (p + 4096) = unat p + PGSIZE"
  shows "page_range p vend = insert p (page_range (p + 4096) vend)"
proof -
  have "unat p < unat v \<longleftrightarrow> unat p + PGSIZE \<le> unat v" if "unat v mod PGSIZE = 0" for v :: u32
    using that assms(1) by (auto elim!: dvdE simp: dvd_eq_mod_eq_0 [symmetric])
  then show ?thesis using assms
    by (auto simp: page_range_def word_le_nat_alt order_le_less word_less_nat_alt simp flip: word_unat_eq_iff)
qed

lemma free_pages_ok:
  assumes "kmem_ok kend s vs" "unat p mod PGSIZE = 0" "kend \<le> p" "KERNBASE \<le> p" "unat vend \<le> unat KERNBASE + unat PHYSTOP"
    "\<forall>v \<in> set vs. v < p \<or> vend \<le> v" "p \<noteq> 0" "p \<le> vend"
  shows "\<exists>s' ws. free_pages kend p vend s = Inr s' \<and> kmem_ok kend s' ws \<and> set ws = set vs \<union> page_range p vend \<and>
    use_lock s' = use_lock s"
  using assms
proof (induction kend p vend s arbitrary: vs rule: free_pages.induct)
  case (1 kend p vend s)
  have P: "unat PHYSTOP = 234881024" by (simp add: PHYSTOP_def)
  note K = unat_KERNBASE
  have kp: "unat KERNBASE \<le> unat p" using "1.prems" by (simp add: word_le_nat_alt)
  have u: "unat (p + 4096) = unat p + PGSIZE"
  proof -
    have "unat p \<le> unat vend" using "1.prems"(8) by (simp add: word_le_nat_alt)
    then have "unat p + unat (4096 :: u32) < 2 ^ LENGTH(32)" using "1.prems"(5) K P by simp
    then show ?thesis by (simp only: unat_add_lem) simp
  qed
  show ?case
  proof (cases "unat p + PGSIZE \<le> unat vend")
    case True
    have c: "p + 4096 \<le> vend \<and> p < p + 4096" using True u by (simp add: word_le_nat_alt word_less_nat_alt)
    have pk: "page_ok kend p"
    proof -
      have "unat (V2P p) = unat p - unat KERNBASE" unfolding V2P_def by (simp only: unat_sub [OF "1.prems"(4)])
      then have "unat (V2P p) < unat PHYSTOP" using True "1.prems"(5) kp by simp
      then show ?thesis using "1.prems" by (simp add: page_ok_def word_less_nat_alt)
    qed
    have "p \<notin> set vs" using "1.prems"(6) True by (auto simp: word_le_nat_alt)
    then obtain s1 where s1: "kfree kend p s = Inr s1" "kmem_ok kend s1 (p # vs)" "use_lock s1 = use_lock s"
      using kfree_ok [OF "1.prems"(1) pk] by metis
    have al: "unat (p + 4096) mod PGSIZE = 0" using "1.prems"(2) u by simp
    have le: "kend \<le> p + 4096" "KERNBASE \<le> p + 4096" "p + 4096 \<noteq> 0"
      using "1.prems"(3,4) u K kp by (auto simp: word_le_nat_alt simp flip: word_unat_eq_iff)
    have fr: "\<forall>v \<in> set (p # vs). v < p + 4096 \<or> vend \<le> v"
      using "1.prems"(6) u by (auto simp: word_less_nat_alt)
    from "1.IH" [OF c s1(1,2) al le(1,2) "1.prems"(5) fr le(3)] c
    obtain s' ws where r: "free_pages kend (p + 4096) vend s1 = Inr s'" "kmem_ok kend s' ws"
      "set ws = set (p # vs) \<union> page_range (p + 4096) vend" "use_lock s' = use_lock s"
      unfolding s1(3) by blast
    have "free_pages kend p vend s = Inr s'" using c s1(1) r(1) by (subst free_pages.simps) simp
    moreover have "set ws = set vs \<union> page_range p vend"
      unfolding r(3) page_range_step [OF "1.prems"(2) True u] by auto
    ultimately show ?thesis using r(2,4) by blast
  next
    case False
    then have "\<not> p + 4096 \<le> vend" using u by (simp add: word_le_nat_alt)
    moreover have "page_range p vend = {}" using False by (auto simp: page_range_def word_le_nat_alt)
    ultimately show ?thesis using "1.prems"(1) by (subst free_pages.simps) auto
  qed
qed

lemma round_up_le: "(a + 4095) div PGSIZE * PGSIZE \<le> PGSIZE * k \<longleftrightarrow> a \<le> PGSIZE * k"
proof -
  have "(a + 4095) div PGSIZE < Suc k \<longleftrightarrow> a + 4095 < Suc k * PGSIZE" by (rule div_less_iff_less_mult) simp
  then show ?thesis by auto
qed

lemma page_range_PGROUNDUP:
  assumes "unat vstart + 4095 < 2 ^ 32"
  shows "page_range (PGROUNDUP vstart) vend = page_range vstart vend"
proof -
  have "unat (PGROUNDUP vstart) \<le> unat v \<longleftrightarrow> unat vstart \<le> unat v" if "unat v mod PGSIZE = 0" for v :: u32
  proof -
    from that have "PGSIZE dvd unat v" by (rule mod_0_imp_dvd)
    then obtain k where k: "unat v = PGSIZE * k" ..
    show ?thesis unfolding unat_PGROUNDUP [OF assms] k by (rule round_up_le)
  qed
  then show ?thesis by (auto simp: page_range_def word_le_nat_alt)
qed

lemma freerange_ok:
  assumes "kmem_ok kend s vs" "kend \<le> vstart" "KERNBASE \<le> vstart" "vstart \<le> vend"
    "unat vend \<le> unat KERNBASE + unat PHYSTOP" "\<forall>v \<in> set vs. v < vstart \<or> vend \<le> v"
  shows "\<exists>s' ws. freerange kend vstart vend s = Inr s' \<and> kmem_ok kend s' ws \<and>
    set ws = set vs \<union> page_range vstart vend \<and> use_lock s' = use_lock s"
proof -
  have P: "unat PHYSTOP = 234881024" by (simp add: PHYSTOP_def)
  have lt: "unat vstart + 4095 < 2 ^ 32" using assms(4,5) unat_KERNBASE P by (simp add: word_le_nat_alt)
  note up = unat_PGROUNDUP [OF lt]
  have bnds: "unat vstart \<le> unat (PGROUNDUP vstart)" "unat (PGROUNDUP vstart) \<le> unat vstart + 4095"
    unfolding up by simp_all
  have ge: "kend \<le> PGROUNDUP vstart" "KERNBASE \<le> PGROUNDUP vstart" "PGROUNDUP vstart \<noteq> 0"
    using assms(2,3) bnds unat_KERNBASE by (auto simp: word_le_nat_alt simp flip: word_unat_eq_iff)
  show ?thesis
  proof (cases "PGROUNDUP vstart \<le> vend")
    case True
    have fr: "\<forall>v \<in> set vs. v < PGROUNDUP vstart \<or> vend \<le> v"
      using assms(6) bnds(1) by (auto simp: word_less_nat_alt)
    have al: "unat (PGROUNDUP vstart) mod PGSIZE = 0" by (simp add: up)
    show ?thesis
      using free_pages_ok [OF assms(1) al ge(1,2) assms(5) fr ge(3) True]
      unfolding freerange_def page_range_PGROUNDUP [OF lt] .
  next
    case False
    have "unat (PGROUNDUP vstart) + unat (4096 :: u32) < 2 ^ LENGTH(32)"
      using bnds(2) assms(4,5) unat_KERNBASE P by (simp add: word_le_nat_alt)
    then have "unat (PGROUNDUP vstart + 4096) = unat (PGROUNDUP vstart) + 4096" by (simp only: unat_add_lem) simp
    with False have "\<not> PGROUNDUP vstart + 4096 \<le> vend" by (simp add: word_le_nat_alt)
    moreover have "page_range (PGROUNDUP vstart) vend = {}" using False by (auto simp: page_range_def word_le_nat_alt)
    ultimately show ?thesis using assms(1) unfolding freerange_def page_range_PGROUNDUP [OF lt]
      by (subst free_pages.simps) auto
  qed
qed

text \<open>
  C21. Initialisation: given a range of kernel memory below \<^verbatim>\<open>PHYSTOP\<close>, page aligned or not (\<^verbatim>\<open>main\<close> passes
  \<^verbatim>\<open>end\<close>), none of whose pages is free yet, \<^verbatim>\<open>kinit1\<close> and \<^verbatim>\<open>kinit2\<close> return, with locking off and on
  respectively, and add to the free list exactly the aligned pages that lie wholly inside the range.
\<close>

theorem kinit_fills:
  assumes "kmem_ok kend s vs" "kend \<le> vstart" "KERNBASE \<le> vstart" "vstart \<le> vend"
    "unat vend \<le> unat KERNBASE + unat PHYSTOP" "\<forall>v \<in> set vs. v < vstart \<or> vend \<le> v"
  shows "(\<exists>s' ws. kinit1 kend vstart vend s = Inr s' \<and> kmem_ok kend s' ws \<and> \<not> use_lock s' \<and>
      set ws = set vs \<union> {v. unat v mod PGSIZE = 0 \<and> unat vstart \<le> unat v \<and> unat v + PGSIZE \<le> unat vend}) \<and>
    (\<exists>s' ws. kinit2 kend vstart vend s = Inr s' \<and> kmem_ok kend s' ws \<and> use_lock s' \<and>
      set ws = set vs \<union> {v. unat v mod PGSIZE = 0 \<and> unat vstart \<le> unat v \<and> unat v + PGSIZE \<le> unat vend})"
proof -
  have r: "page_range vstart vend = {v. unat v mod PGSIZE = 0 \<and> unat vstart \<le> unat v \<and> unat v + PGSIZE \<le> unat vend}"
    by (auto simp: page_range_def word_le_nat_alt)
  have "kmem_ok kend (s\<lparr>use_lock := False\<rparr>) vs" using assms(1) by (simp add: kmem_ok_def)
  from freerange_ok [OF this assms(2-6)] freerange_ok [OF assms]
  show ?thesis unfolding r [symmetric] by (fastforce simp: kinit1_def kinit2_def kmem_ok_def)
qed

definition ex_kmem :: kmem where
  "ex_kmem = \<lparr>use_lock = False, freelist = 0, pages = (\<lambda>_ _. 0)\<rparr>"

theorem kinit_fills_witness:
  "\<exists>s' ws. kinit1 0x80200123 0x80200123 0x80204000 ex_kmem = Inr s' \<and> kmem_ok 0x80200123 s' ws \<and> \<not> use_lock s' \<and>
    0x80200000 \<notin> set ws \<and> 0x80201000 \<in> set ws \<and> 0x80203000 \<in> set ws \<and> 0x80204000 \<notin> set ws"
proof -
  have "kmem_ok 0x80200123 ex_kmem []" by (simp add: kmem_ok_def ex_kmem_def)
  from kinit_fills [OF this, of "0x80200123" "0x80204000"] obtain s' ws where
    w: "kinit1 0x80200123 0x80200123 0x80204000 ex_kmem = Inr s'" "kmem_ok 0x80200123 s' ws" "\<not> use_lock s'"
      "set ws = {v. unat v mod PGSIZE = 0 \<and> unat (0x80200123 :: u32) \<le> unat v \<and> unat v + PGSIZE \<le> unat (0x80204000 :: u32)}"
    by (auto simp: KERNBASE_def PHYSTOP_def)
  moreover have "0x80200000 \<notin> set ws \<and> 0x80201000 \<in> set ws \<and> 0x80203000 \<in> set ws \<and> 0x80204000 \<notin> set ws"
    unfolding w(4) by simp
  ultimately show ?thesis by blast
qed

theorem kalloc_kfree_refine_witness:
  "\<exists>s'. kfree 0x80200000 0x80400000 ex_kmem = Inr s' \<and> kmem_ok 0x80200000 s' [0x80400000]"
proof -
  have "kmem_ok 0x80200000 ex_kmem []" by (simp add: kmem_ok_def ex_kmem_def)
  moreover have "page_ok 0x80200000 0x80400000" by (simp add: page_ok_def V2P_def KERNBASE_def PHYSTOP_def)
  ultimately show ?thesis using kalloc_kfree_refine [of "0x80200000" ex_kmem "[]"] by auto
qed

end
