(* ===== verification/Vm.thy ===== *)
theory Vm
  imports Kalloc Cstring
begin

text \<open>
  Page tables and user address spaces (\<^verbatim>\<open>vm.c\<close>, \<^verbatim>\<open>mmu.h\<close>). Page directories and page tables are pages
  of the allocator's memory holding 1024 little-endian entries; a pointer to an entry is the page
  frame and the index. Kernel addresses are the physical ones shifted by \<^verbatim>\<open>KERNBASE\<close>. The linker
  symbols \<^verbatim>\<open>end\<close> and \<^verbatim>\<open>data\<close> are arguments.
\<close>

section \<open>Entries and addresses\<close>

definition PDX :: "u32 \<Rightarrow> nat" where
  "PDX va = unat (drop_bit 22 va AND 0x3FF)"

definition PTX :: "u32 \<Rightarrow> nat" where
  "PTX va = unat (drop_bit 12 va AND 0x3FF)"

definition PGADDR :: "u32 \<Rightarrow> u32 \<Rightarrow> u32 \<Rightarrow> u32" where
  "PGADDR d t off = push_bit 22 d OR push_bit 12 t OR off"

definition PTE_P :: u32 where "PTE_P = 1"
definition PTE_W :: u32 where "PTE_W = 2"
definition PTE_U :: u32 where "PTE_U = 4"

definition PTE_ADDR :: "u32 \<Rightarrow> u32" where
  "PTE_ADDR pte = pte AND NOT 0xFFF"

definition PTE_FLAGS :: "u32 \<Rightarrow> u32" where
  "PTE_FLAGS pte = pte AND 0xFFF"

type_synonym pte_ptr = "nat \<times> nat"

definition pte_get :: "'a kmem_scheme \<Rightarrow> pte_ptr \<Rightarrow> u32" where
  "pte_get s p = get32 (pages s (fst p)) (4 * snd p)"

definition pte_set :: "pte_ptr \<Rightarrow> u32 \<Rightarrow> 'a kmem_scheme \<Rightarrow> 'a kmem_scheme" where
  "pte_set p v s = set_page (fst p) (put32 (pages s (fst p)) (4 * snd p) v) s"

definition present :: "u32 \<Rightarrow> bool" where
  "present e \<longleftrightarrow> e AND PTE_P \<noteq> 0"

section \<open>Walking and mapping\<close>

definition walkpgdir :: "u32 \<Rightarrow> u32 \<Rightarrow> bool \<Rightarrow> 'a kmem_scheme \<Rightarrow> pte_ptr option \<times> 'a kmem_scheme" where
  "walkpgdir pgdir va alloc s =
     (let pde = (frame_of pgdir, PDX va) in
      if present (pte_get s pde) then (Some (frame_of (P2V (PTE_ADDR (pte_get s pde))), PTX va), s)
      else if \<not> alloc then (None, s)
      else
        let (pgtab, s) = kalloc s in
        if pgtab = 0 then (None, s)
        else
          let s = set_page (frame_of pgtab) (\<lambda>_. 0) s;
              s = pte_set pde (V2P pgtab OR PTE_P OR PTE_W OR PTE_U) s
          in (Some (frame_of pgtab, PTX va), s))"

text \<open>
  The loop of \<^verbatim>\<open>mappages\<close> runs from \<open>a\<close> to \<open>last\<close> in steps of a page. Both are page aligned, so the
  number \<open>n\<close> of pages left says when \<open>a = last\<close>, also if the addresses wrap.
\<close>

primrec map_loop :: "nat \<Rightarrow> u32 \<Rightarrow> u32 \<Rightarrow> u32 \<Rightarrow> u32 \<Rightarrow> 'a kmem_scheme \<Rightarrow> (int \<times> 'a kmem_scheme) res" where
  "map_loop 0 pgdir a pa perm s =
     (let (r, s) = walkpgdir pgdir a True s in
      case r of None \<Rightarrow> Inr (-1, s)
      | Some pte \<Rightarrow>
          if present (pte_get s pte) then Inl (Panic ''remap'')
          else Inr (0, pte_set pte (pa OR perm OR PTE_P) s))"
| "map_loop (Suc n) pgdir a pa perm s =
     (let (r, s) = walkpgdir pgdir a True s in
      case r of None \<Rightarrow> Inr (-1, s)
      | Some pte \<Rightarrow>
          if present (pte_get s pte) then Inl (Panic ''remap'')
          else map_loop n pgdir (a + 4096) (pa + 4096) perm (pte_set pte (pa OR perm OR PTE_P) s))"

definition mappages :: "u32 \<Rightarrow> u32 \<Rightarrow> u32 \<Rightarrow> u32 \<Rightarrow> u32 \<Rightarrow> 'a kmem_scheme \<Rightarrow> (int \<times> 'a kmem_scheme) res" where
  "mappages pgdir va sz pa perm s =
     (let a = PGROUNDDOWN va; last = PGROUNDDOWN (va + sz - 1)
      in map_loop (unat (last - a) div PGSIZE) pgdir a pa perm s)"

section \<open>Releasing\<close>

text \<open>
  The loop of \<^verbatim>\<open>deallocuvm\<close>. Where there is no page table it skips to the next directory entry. A step
  that does not advance, which needs \<open>a\<close> to wrap around, would make the loop run forever and is
  reported as a fault.
\<close>

definition dealloc_next :: "u32 \<Rightarrow> 'a kmem_scheme \<Rightarrow> u32 \<Rightarrow> u32" where
  "dealloc_next pgdir s a =
     (case fst (walkpgdir pgdir a False s) of
        None \<Rightarrow> (PGADDR (of_nat (PDX a) + 1) 0 0 - 4096) + 4096
      | Some _ \<Rightarrow> a + 4096)"

definition dealloc_page :: "u32 \<Rightarrow> u32 \<Rightarrow> u32 \<Rightarrow> 'a kmem_scheme \<Rightarrow> 'a kmem_scheme res" where
  "dealloc_page kend pgdir a s =
     (case fst (walkpgdir pgdir a False s) of
        None \<Rightarrow> Inr s
      | Some pte \<Rightarrow>
          if present (pte_get s pte) then
            let pa = PTE_ADDR (pte_get s pte) in
            if pa = 0 then Inl (Panic ''kfree'')
            else bnd (kfree kend (P2V pa) s) (\<lambda>s. Inr (pte_set pte 0 s))
          else Inr s)"

function dealloc_loop :: "u32 \<Rightarrow> u32 \<Rightarrow> u32 \<Rightarrow> u32 \<Rightarrow> 'a kmem_scheme \<Rightarrow> 'a kmem_scheme res" where
  "dealloc_loop kend pgdir a oldsz s =
     (if a < oldsz then
        let a' = dealloc_next pgdir s a in
        bnd (dealloc_page kend pgdir a s) (\<lambda>s.
        if a < a' then dealloc_loop kend pgdir a' oldsz s else Inl (Fault ''deallocuvm wraps''))
      else Inr s)"
  by auto
termination
proof (relation "measure (\<lambda>(_, _, a, _). 2 ^ 32 - unat a)", simp, clarsimp)
  fix a b :: u32 assume "a < b"
  then have "unat a < unat b" by (simp add: word_less_nat_alt)
  moreover have "unat b < 2 ^ 32" using unsigned_less [of b] by simp
  ultimately show "4294967296 - unat b < 4294967296 - unat a" by simp
qed

declare dealloc_loop.simps [simp del]

definition deallocuvm :: "u32 \<Rightarrow> u32 \<Rightarrow> u32 \<Rightarrow> u32 \<Rightarrow> 'a kmem_scheme \<Rightarrow> (u32 \<times> 'a kmem_scheme) res" where
  "deallocuvm kend pgdir oldsz newsz s =
     (if oldsz \<le> newsz then Inr (oldsz, s)
      else bnd (dealloc_loop kend pgdir (PGROUNDUP newsz) oldsz s) (\<lambda>s. Inr (newsz, s)))"

primrec free_tables :: "u32 \<Rightarrow> u32 \<Rightarrow> nat list \<Rightarrow> 'a kmem_scheme \<Rightarrow> 'a kmem_scheme res" where
  "free_tables kend pgdir [] s = Inr s"
| "free_tables kend pgdir (i # is) s =
     (let e = pte_get s (frame_of pgdir, i) in
      bnd (if present e then kfree kend (P2V (PTE_ADDR e)) s else Inr s) (free_tables kend pgdir is))"

definition freevm :: "u32 \<Rightarrow> u32 \<Rightarrow> 'a kmem_scheme \<Rightarrow> 'a kmem_scheme res" where
  "freevm kend pgdir s =
     (if pgdir = 0 then Inl (Panic ''freevm: no pgdir'')
      else
        bnd (deallocuvm kend pgdir KERNBASE 0 s) (\<lambda>(_, s).
        bnd (free_tables kend pgdir [0..<1024] s) (\<lambda>s.
        kfree kend pgdir s)))"

section \<open>Address spaces\<close>

record kmap =
  virt :: u32
  phys_start :: u32
  phys_end :: u32
  kperm :: u32

definition EXTMEM :: u32 where "EXTMEM = 0x100000"
definition DEVSPACE :: u32 where "DEVSPACE = 0xFE000000"

definition kmap_table :: "u32 \<Rightarrow> kmap list" where
  "kmap_table kdata =
     [\<lparr>virt = KERNBASE, phys_start = 0, phys_end = EXTMEM, kperm = PTE_W\<rparr>,
      \<lparr>virt = KERNBASE + EXTMEM, phys_start = V2P (KERNBASE + EXTMEM), phys_end = V2P kdata, kperm = 0\<rparr>,
      \<lparr>virt = kdata, phys_start = V2P kdata, phys_end = PHYSTOP, kperm = PTE_W\<rparr>,
      \<lparr>virt = DEVSPACE, phys_start = DEVSPACE, phys_end = 0, kperm = PTE_W\<rparr>]"

primrec map_kernel :: "u32 \<Rightarrow> u32 \<Rightarrow> kmap list \<Rightarrow> 'a kmem_scheme \<Rightarrow> (u32 \<times> 'a kmem_scheme) res" where
  "map_kernel kend pgdir [] s = Inr (pgdir, s)"
| "map_kernel kend pgdir (k # ks) s =
     bnd (mappages pgdir (virt k) (phys_end k - phys_start k) (phys_start k) (kperm k) s) (\<lambda>(r, s).
     if r < 0 then bnd (freevm kend pgdir s) (\<lambda>s. Inr (0, s))
     else map_kernel kend pgdir ks s)"

definition setupkvm :: "u32 \<Rightarrow> u32 \<Rightarrow> 'a kmem_scheme \<Rightarrow> (u32 \<times> 'a kmem_scheme) res" where
  "setupkvm kend kdata s =
     (let (pgdir, s) = kalloc s in
      if pgdir = 0 then Inr (0, s)
      else
        let s = set_page (frame_of pgdir) (\<lambda>_. 0) s in
        if P2V PHYSTOP > DEVSPACE then Inl (Panic ''PHYSTOP too high'')
        else map_kernel kend pgdir (kmap_table kdata) s)"

text \<open>\<^verbatim>\<open>inituvm\<close>: \<open>init\<close> is the code copied. The page from \<^verbatim>\<open>kalloc\<close> is used unchecked.\<close>

definition inituvm :: "u32 \<Rightarrow> u8 list \<Rightarrow> 'a kmem_scheme \<Rightarrow> 'a kmem_scheme res" where
  "inituvm pgdir init s =
     (if PGSIZE \<le> length init then Inl (Panic ''inituvm: more than a page'')
      else
        let (mem, s) = kalloc s in
        if mem = 0 then Inl (Fault ''memset(0)'')
        else
          let s = set_page (frame_of mem) (\<lambda>_. 0) s in
          bnd (mappages pgdir 0 4096 (V2P mem) (PTE_W OR PTE_U) s) (\<lambda>(_, s).
          Inr (set_page (frame_of mem) (\<lambda>i. if i < length init then init ! i else pages s (frame_of mem) i) s)))"

text \<open>
  \<^verbatim>\<open>loaduvm\<close>: \<open>rd off n\<close> is what \<^verbatim>\<open>readi\<close> of the program file delivers, a list of at most \<open>n\<close> bytes, or
  \<open>None\<close> for an error. \<open>k\<close> counts the pages done.
\<close>

function load_loop ::
  "(u32 \<Rightarrow> u32 \<Rightarrow> u8 list option) \<Rightarrow> u32 \<Rightarrow> u32 \<Rightarrow> u32 \<Rightarrow> nat \<Rightarrow> nat \<Rightarrow> 'a kmem_scheme \<Rightarrow> (int \<times> 'a kmem_scheme) res" where
  "load_loop rd pgdir addr off i sz s =
     (if i < sz then
        case fst (walkpgdir pgdir (addr + of_nat i) False s) of
          None \<Rightarrow> Inl (Panic ''loaduvm: address should exist'')
        | Some pte \<Rightarrow>
            let f = frame_of (P2V (PTE_ADDR (pte_get s pte)));
                n = (if sz - i < PGSIZE then sz - i else PGSIZE)
            in case rd (off + of_nat i) (of_nat n) of
                 None \<Rightarrow> Inr (-1, s)
               | Some bs \<Rightarrow>
                   let s = set_page f (\<lambda>j. if j < length bs then bs ! j else pages s f j) s in
                   if length bs \<noteq> n then Inr (-1, s)
                   else load_loop rd pgdir addr off (i + PGSIZE) sz s
      else Inr (0, s))"
  by auto
termination
  by (relation "measure (\<lambda>(_, _, _, _, i, sz, _). sz - i)") auto

declare load_loop.simps [simp del]

definition loaduvm ::
  "(u32 \<Rightarrow> u32 \<Rightarrow> u8 list option) \<Rightarrow> u32 \<Rightarrow> u32 \<Rightarrow> u32 \<Rightarrow> u32 \<Rightarrow> 'a kmem_scheme \<Rightarrow> (int \<times> 'a kmem_scheme) res" where
  "loaduvm rd pgdir addr off sz s =
     (if unat addr mod PGSIZE \<noteq> 0 then Inl (Panic ''loaduvm: addr must be page aligned'')
      else load_loop rd pgdir addr off 0 (unat sz) s)"

text \<open>The loop of \<^verbatim>\<open>allocuvm\<close>, over the addresses \<open>a\<close> below \<open>newsz\<close>, itself below \<^verbatim>\<open>KERNBASE\<close>.\<close>

function alloc_loop :: "u32 \<Rightarrow> u32 \<Rightarrow> u32 \<Rightarrow> u32 \<Rightarrow> nat \<Rightarrow> 'a kmem_scheme \<Rightarrow> (u32 \<times> 'a kmem_scheme) res" where
  "alloc_loop kend pgdir oldsz newsz a s =
     (if a < unat newsz then
        let (mem, s) = kalloc s in
        if mem = 0 then bnd (deallocuvm kend pgdir newsz oldsz s) (\<lambda>(_, s). Inr (0, s))
        else
          let s = set_page (frame_of mem) (\<lambda>_. 0) s in
          bnd (mappages pgdir (of_nat a) 4096 (V2P mem) (PTE_W OR PTE_U) s) (\<lambda>(r, s).
          if r < 0 then
            bnd (deallocuvm kend pgdir newsz oldsz s) (\<lambda>(_, s).
            bnd (kfree kend mem s) (\<lambda>s. Inr (0, s)))
          else alloc_loop kend pgdir oldsz newsz (a + PGSIZE) s)
      else Inr (newsz, s))"
  by auto
termination
  by (relation "measure (\<lambda>(_, _, _, newsz, a, _). unat newsz - a)") auto

declare alloc_loop.simps [simp del]

definition allocuvm :: "u32 \<Rightarrow> u32 \<Rightarrow> u32 \<Rightarrow> u32 \<Rightarrow> 'a kmem_scheme \<Rightarrow> (u32 \<times> 'a kmem_scheme) res" where
  "allocuvm kend pgdir oldsz newsz s =
     (if KERNBASE \<le> newsz then Inr (0, s)
      else if newsz < oldsz then Inr (oldsz, s)
      else alloc_loop kend pgdir oldsz newsz (unat (PGROUNDUP oldsz)) s)"

definition clearpteu :: "u32 \<Rightarrow> u32 \<Rightarrow> 'a kmem_scheme \<Rightarrow> 'a kmem_scheme res" where
  "clearpteu pgdir uva s =
     (case fst (walkpgdir pgdir uva False s) of
        None \<Rightarrow> Inl (Panic ''clearpteu'')
      | Some pte \<Rightarrow> Inr (pte_set pte (pte_get s pte AND NOT PTE_U) s))"

text \<open>
  \<^verbatim>\<open>copyuvm\<close>, with the exit at \<^verbatim>\<open>bad\<close>: the new directory is freed, but not a page that \<^verbatim>\<open>mappages\<close> failed to
  map.
\<close>

function copy_loop :: "u32 \<Rightarrow> u32 \<Rightarrow> u32 \<Rightarrow> nat \<Rightarrow> nat \<Rightarrow> 'a kmem_scheme \<Rightarrow> (u32 \<times> 'a kmem_scheme) res" where
  "copy_loop kend pgdir d i sz s =
     (if i < sz then
        case fst (walkpgdir pgdir (of_nat i) False s) of
          None \<Rightarrow> Inl (Panic ''copyuvm: pte should exist'')
        | Some pte \<Rightarrow>
            if \<not> present (pte_get s pte) then Inl (Panic ''copyuvm: page not present'')
            else
              let pa = PTE_ADDR (pte_get s pte);
                  flags = PTE_FLAGS (pte_get s pte);
                  (mem, s) = kalloc s
              in
              if mem = 0 then bnd (freevm kend d s) (\<lambda>s. Inr (0, s))
              else
                let s = set_page (frame_of mem) (pages s (frame_of (P2V pa))) s in
                bnd (mappages d (of_nat i) 4096 (V2P mem) flags s) (\<lambda>(r, s).
                if r < 0 then bnd (freevm kend d s) (\<lambda>s. Inr (0, s))
                else copy_loop kend pgdir d (i + PGSIZE) sz s)
      else Inr (d, s))"
  by auto
termination
  by (relation "measure (\<lambda>(_, _, _, i, sz, _). sz - i)") auto

declare copy_loop.simps [simp del]

definition copyuvm :: "u32 \<Rightarrow> u32 \<Rightarrow> u32 \<Rightarrow> u32 \<Rightarrow> 'a kmem_scheme \<Rightarrow> (u32 \<times> 'a kmem_scheme) res" where
  "copyuvm kend kdata pgdir sz s =
     bnd (setupkvm kend kdata s) (\<lambda>(d, s).
     if d = 0 then Inr (0, s) else copy_loop kend pgdir d 0 (unat sz) s)"

text \<open>
  \<^verbatim>\<open>uva2ka\<close> reads through the result of \<^verbatim>\<open>walkpgdir\<close> without testing it. Where there is no page table it
  dereferences a null pointer; what that gives depends on the page the running process has at
  address 0, and is not described further: the result is a fault.
\<close>

definition uva2ka :: "u32 \<Rightarrow> u32 \<Rightarrow> 'a kmem_scheme \<Rightarrow> u32 res" where
  "uva2ka pgdir uva s =
     (case fst (walkpgdir pgdir uva False s) of
        None \<Rightarrow> Inl (Fault ''uva2ka: null pte'')
      | Some pte \<Rightarrow>
          let e = pte_get s pte in
          if \<not> present e then Inr 0
          else if e AND PTE_U = 0 then Inr 0
          else Inr (P2V (PTE_ADDR e)))"

text \<open>\<^verbatim>\<open>copyout\<close> of the bytes \<open>bs\<close>; the loop ends because each round copies at least one byte.\<close>

function copyout :: "u32 \<Rightarrow> u32 \<Rightarrow> u8 list \<Rightarrow> 'a kmem_scheme \<Rightarrow> (int \<times> 'a kmem_scheme) res" where
  "copyout pgdir va bs s =
     (if bs = [] then Inr (0, s)
      else
        let va0 = PGROUNDDOWN va in
        case uva2ka pgdir va0 s of
          Inl e \<Rightarrow> Inl e
        | Inr pa0 \<Rightarrow>
            if pa0 = 0 then Inr (-1, s)
            else
              let n = min (PGSIZE - unat va mod PGSIZE) (length bs);
                  o0 = unat va mod PGSIZE;
                  f = frame_of pa0
              in copyout pgdir (va0 + 4096) (drop n bs)
                   (set_page f (\<lambda>j. if o0 \<le> j \<and> j < o0 + n then bs ! (j - o0) else pages s f j) s))"
  by auto
termination
  by (relation "measure (\<lambda>(_, _, bs, _). length bs)") (auto simp: min_def)

declare copyout.simps [simp del]

section \<open>Addresses and entries\<close>

lemma index_nat: "unat (drop_bit n va AND 0x3FF) = unat va div 2 ^ n mod 1024" for va :: u32
proof -
  have m: "(0x3FF :: u32) = mask 10" by (simp add: mask_eq_exp_minus_1)
  have "unat (drop_bit n va AND mask 10) = take_bit 10 (drop_bit n (unat va))"
  proof -
    have "take_bit LENGTH(32) (unat va) = unat va" by (simp only: take_bit_nat_eq_self_iff unsigned_less)
    then show ?thesis unfolding take_bit_eq_mask [symmetric] by (simp only: unsigned_take_bit_eq unsigned_drop_bit_eq)
  qed
  then show ?thesis by (simp add: m take_bit_eq_mod drop_bit_eq_div)
qed

lemma PDX_nat: "PDX va = unat va div 4194304"
proof -
  have "unat va < 4294967296" using unsigned_less [of va] by simp
  then have "unat va div 4194304 < 1024" by (simp add: less_mult_imp_div_less)
  then show ?thesis by (simp add: PDX_def index_nat)
qed

lemma PTX_nat: "PTX va = unat va div PGSIZE mod 1024"
  by (simp add: PTX_def index_nat)

lemma PDX_less: "PDX va < 1024"
  by (simp add: PDX_def index_nat)

text \<open>Directory and table index determine the page of an address.\<close>

lemma page_index: "unat va div PGSIZE = PDX va * 1024 + PTX va"
proof -
  have "PDX va = unat va div PGSIZE div 1024" by (simp add: PDX_nat div_mult2_eq [symmetric])
  then show ?thesis by (simp add: PTX_nat)
qed

lemma frame_of_entry:
  assumes "unat v mod PGSIZE = 0" "f < 0x1000"
  shows "frame_of (P2V (PTE_ADDR (V2P v OR f))) = frame_of v" "PTE_ADDR (V2P v OR f) = V2P v"
proof -
  have a: "unat (V2P v) mod PGSIZE = 0" unfolding V2P_def using assms(1) KERNBASE_aligned by (rule aligned_minus)
  have "take_bit 12 f = f"
  proof -
    have "unat f < 2 ^ 12" using assms(2) by (simp add: word_less_nat_alt)
    then have "unat (take_bit 12 f) = unat f" by (simp only: unsigned_take_bit_eq take_bit_nat_eq_self_iff)
    then show ?thesis by (simp only: word_unat_eq_iff)
  qed
  then have f: "\<not> bit f i" if "12 \<le> i" for i using that by (metis bit_take_bit_iff not_le)
  have "take_bit 12 (V2P v) = 0"
  proof -
    have "unat (take_bit 12 (V2P v)) = 0" using a by (simp only: unsigned_take_bit_eq take_bit_eq_mod [where 'a = nat]) simp
    then show ?thesis by (simp only: unsigned_eq_0_iff)
  qed
  then have v: "\<not> bit (V2P v) i" if "i < 12" for i using that by (metis bit_take_bit_iff bit_0_eq bot_apply bot_bool_def)
  have m: "(0xFFF :: u32) = mask 12" by (simp add: mask_eq_exp_minus_1)
  show e: "PTE_ADDR (V2P v OR f) = V2P v" unfolding PTE_ADDR_def m
    by (rule bit_word_eqI) (use f v in \<open>force simp: bit_simps not_less\<close>)
  then show "frame_of (P2V (PTE_ADDR (V2P v OR f))) = frame_of v" by simp
qed

lemma PTE_ADDR_PGROUNDDOWN: "PTE_ADDR e = PGROUNDDOWN e"
  by (simp add: PTE_ADDR_def PGROUNDDOWN_def)

lemma pte_get_set [simp]: "pte_get (pte_set p v s) p = v"
  by (simp add: pte_get_def pte_set_def set_page_def)

lemma pte_get_set_other: "p \<noteq> q \<Longrightarrow> pte_get (pte_set p v s) q = pte_get s q"
  by (cases p; cases q; cases "snd p < snd q")
    (auto simp: pte_get_def pte_set_def set_page_def get32_put32_other)

lemma pte_get_set_page: "pte_get (set_page f b s) q = (if fst q = f then get32 b (4 * snd q) else pte_get s q)"
  by (simp add: pte_get_def set_page_def)

lemma pte_get_freelist [simp]: "pte_get (s\<lparr>freelist := x\<rparr>) q = pte_get s q"
  by (simp add: pte_get_def)

section \<open>Page tables\<close>

definition pde :: "u32 \<Rightarrow> 'a kmem_scheme \<Rightarrow> nat \<Rightarrow> u32" where
  "pde pgdir s i = pte_get s (frame_of pgdir, i)"

definition tab :: "u32 \<Rightarrow> 'a kmem_scheme \<Rightarrow> nat \<Rightarrow> nat" where
  "tab pgdir s i = frame_of (P2V (PTE_ADDR (pde pgdir s i)))"

text \<open>The entry that maps an address, 0 where there is no page table.\<close>

definition entry :: "u32 \<Rightarrow> 'a kmem_scheme \<Rightarrow> u32 \<Rightarrow> u32" where
  "entry pgdir s va = (if present (pde pgdir s (PDX va)) then pte_get s (tab pgdir s (PDX va), PTX va) else 0)"

text \<open>
  A page directory is sound if its page tables are pages of their own: different directory
  entries have different tables, none is the directory, and neither the directory nor a table
  is on the free list.
\<close>

definition sound :: "u32 \<Rightarrow> u32 \<Rightarrow> 'a kmem_scheme \<Rightarrow> u32 list \<Rightarrow> bool" where
  "sound kend pgdir s vs \<longleftrightarrow>
     kmem_ok kend s vs \<and> (\<forall>v \<in> set vs. frame_of v \<noteq> frame_of pgdir) \<and>
     (\<forall>i<1024. present (pde pgdir s i) \<longrightarrow> tab pgdir s i \<noteq> frame_of pgdir \<and>
        (\<forall>v \<in> set vs. frame_of v \<noteq> tab pgdir s i) \<and>
        (\<forall>j<1024. present (pde pgdir s j) \<and> tab pgdir s j = tab pgdir s i \<longrightarrow> j = i))"

lemma soundD:
  assumes "sound kend pgdir s vs"
  shows "kmem_ok kend s vs" "v \<in> set vs \<Longrightarrow> frame_of v \<noteq> frame_of pgdir"
    "i < 1024 \<Longrightarrow> present (pde pgdir s i) \<Longrightarrow> tab pgdir s i \<noteq> frame_of pgdir"
    "i < 1024 \<Longrightarrow> present (pde pgdir s i) \<Longrightarrow> v \<in> set vs \<Longrightarrow> frame_of v \<noteq> tab pgdir s i"
    "i < 1024 \<Longrightarrow> j < 1024 \<Longrightarrow> present (pde pgdir s i) \<Longrightarrow> present (pde pgdir s j) \<Longrightarrow> tab pgdir s j = tab pgdir s i \<Longrightarrow> j = i"
  using assms unfolding sound_def by blast+

lemma not_present_0 [simp]: "\<not> present 0"
  by (simp add: present_def)

lemma present_or_P: "present (x OR y OR PTE_P)"
  unfolding present_def
proof
  assume "(x OR y OR PTE_P) AND PTE_P = 0"
  then have "\<not> bit ((x OR y OR PTE_P) AND PTE_P) 0" by simp
  then show False by (simp add: PTE_P_def bit_simps)
qed

text \<open>Creating a page table changes no translation and keeps the directory sound.\<close>

lemma walk_new_table:
  assumes "sound kend pgdir s (v # vs)" "\<not> present (pde pgdir s (PDX va))"
  defines "s' \<equiv> pte_set (frame_of pgdir, PDX va) (V2P v OR PTE_P OR PTE_W OR PTE_U)
    (set_page (frame_of v) (\<lambda>_. 0) (s\<lparr>freelist := get32 (pages s (frame_of v)) 0\<rparr>))"
  shows "walkpgdir pgdir va True s = (Some (frame_of v, PTX va), s')"
    "pde pgdir s' (PDX va) = V2P v OR PTE_P OR PTE_W OR PTE_U"
    "i \<noteq> PDX va \<Longrightarrow> pde pgdir s' i = pde pgdir s i"
    "tab pgdir s' (PDX va) = frame_of v"
    "entry pgdir s' w = entry pgdir s w"
proof -
  have v: "kalloc s = (v, s\<lparr>freelist := get32 (pages s (frame_of v)) 0\<rparr>)" "v \<noteq> 0" "unat v mod PGSIZE = 0"
    "frame_of v \<noteq> frame_of pgdir"
    using assms(1) by (auto simp: sound_def kmem_ok_def kalloc_def page_ok_def)
  show "walkpgdir pgdir va True s = (Some (frame_of v, PTX va), s')"
    using assms(2) v(1,2) by (simp add: walkpgdir_def pde_def s'_def)
  show p: "pde pgdir s' (PDX va) = V2P v OR PTE_P OR PTE_W OR PTE_U"
    by (simp add: pde_def s'_def)
  show q: "pde pgdir s' i = pde pgdir s i" if "i \<noteq> PDX va" for i
    using that v(4) by (simp add: pde_def s'_def pte_get_set_other pte_get_set_page)
  have f: "PTE_P OR PTE_W OR PTE_U < 0x1000" by (simp add: PTE_P_def PTE_W_def PTE_U_def)
  show t: "tab pgdir s' (PDX va) = frame_of v" using frame_of_entry(1) [OF v(3) f] by (simp add: tab_def p)
  show "entry pgdir s' w = entry pgdir s w"
  proof (cases "PDX w = PDX va")
    case True
    then show ?thesis using assms(2) v(4) t
      by (simp add: entry_def p s'_def pte_get_set_other pte_get_set_page)
  next
    case False
    moreover have "frame_of v \<noteq> tab pgdir s (PDX w)" "tab pgdir s (PDX w) \<noteq> frame_of pgdir" if "present (pde pgdir s (PDX w))"
      using soundD(3,4) [OF assms(1) PDX_less that] by simp_all
    ultimately show ?thesis using q [OF False]
      by (auto simp: entry_def tab_def s'_def pte_get_set_other pte_get_set_page)
  qed
qed

lemma sound_new_table:
  assumes "sound kend pgdir s (v # vs)" "\<not> present (pde pgdir s (PDX va))" "walkpgdir pgdir va True s = (r, s')"
  shows "sound kend pgdir s' vs"
proof -
  note w = walk_new_table [OF assms(1,2)]
  have s': "s' = pte_set (frame_of pgdir, PDX va) (V2P v OR PTE_P OR PTE_W OR PTE_U)
    (set_page (frame_of v) (\<lambda>_. 0) (s\<lparr>freelist := get32 (pages s (frame_of v)) 0\<rparr>))"
    using assms(3) w(1) by simp
  note w = w [folded s']
  have k: "kmem_ok kend s (v # vs)" using assms(1) by (rule soundD)
  have out: "frame_of u \<noteq> frame_of v \<and> frame_of u \<noteq> frame_of pgdir" if "u \<in> set vs" for u
  proof -
    have "page_ok kend u" "page_ok kend v" "u \<noteq> v" using k that by (auto simp: kmem_ok_def)
    then show ?thesis using page_ok_frame [of kend u v] soundD(2) [OF assms(1), of u] that by simp
  qed
  have "free_list (pages s') (freelist s') vs"
    by (rule free_list_frame [of "pages s"])
      (use k out in \<open>auto simp: kmem_ok_def s' pte_set_def set_page_def\<close>)
  with k have k': "kmem_ok kend s' vs" by (simp add: kmem_ok_def)
  have t: "tab pgdir s' i = (if i = PDX va then frame_of v else tab pgdir s i)" for i
    using w(3,4) by (simp add: tab_def)
  have pr: "present (pde pgdir s' i) \<longleftrightarrow> i = PDX va \<or> present (pde pgdir s i)" for i
    using w(2) w(3) [of i] present_or_P [of "V2P v" "PTE_W OR PTE_U"] assms(2)
    by (cases "i = PDX va") (auto simp: ac_simps)
  note d = soundD [OF assms(1)]
  show ?thesis unfolding sound_def
  proof (intro conjI allI impI ballI)
    fix i assume i: "i < 1024" "present (pde pgdir s' i)"
    show "tab pgdir s' i \<noteq> frame_of pgdir" using d(2) [of v] d(3) [of i] i by (auto simp: t pr)
    fix u assume "u \<in> set vs"
    then show "frame_of u \<noteq> tab pgdir s' i" using out d(4) [of i u] i by (auto simp: t pr)
  next
    fix i j assume "i < 1024" "present (pde pgdir s' i)" "j < 1024" "present (pde pgdir s' j) \<and> tab pgdir s' j = tab pgdir s' i"
    then show "j = i" using d(4) [of i v] d(4) [of j v] d(5) [of i j]
      by (cases "i = PDX va"; cases "j = PDX va") (simp_all add: t pr)
  qed (use k' out in auto)
qed

text \<open>Storing into a page table changes one translation.\<close>

lemma entry_store:
  fixes e :: u32
  assumes "sound kend pgdir s vs" "present (pde pgdir s (PDX va))"
  defines "s' \<equiv> pte_set (tab pgdir s (PDX va), PTX va) e s"
  shows "sound kend pgdir s' vs" "entry pgdir s' va = e"
    "unat w div PGSIZE \<noteq> unat va div PGSIZE \<Longrightarrow> entry pgdir s' w = entry pgdir s w"
proof -
  note d = soundD [OF assms(1)]
  have td: "tab pgdir s (PDX va) \<noteq> frame_of pgdir" using d(3) PDX_less assms(2) by blast
  have p: "pde pgdir s' i = pde pgdir s i" for i using td by (simp add: pde_def s'_def pte_get_set_other)
  then have t: "tab pgdir s' i = tab pgdir s i" for i by (simp add: tab_def)
  have "free_list (pages s') (freelist s') vs"
    by (rule free_list_frame [of "pages s"])
      (use d(1) d(4) [OF PDX_less assms(2)] in \<open>auto simp: kmem_ok_def s'_def pte_set_def set_page_def\<close>)
  then show "sound kend pgdir s' vs" using assms(1) by (simp add: sound_def kmem_ok_def p t)
  show "entry pgdir s' va = e" using assms(2) by (simp add: entry_def p t) (simp add: s'_def)
  assume n: "unat w div PGSIZE \<noteq> unat va div PGSIZE"
  have "pte_get s' (tab pgdir s (PDX w), PTX w) = pte_get s (tab pgdir s (PDX w), PTX w)" if "present (pde pgdir s (PDX w))"
  proof -
    have "PDX w \<noteq> PDX va \<or> PTX w \<noteq> PTX va" using n by (auto simp: page_index)
    then have "(tab pgdir s (PDX va), PTX va) \<noteq> (tab pgdir s (PDX w), PTX w)"
      using d(5) [OF PDX_less PDX_less assms(2) that] by fastforce
    then show ?thesis unfolding s'_def by (rule pte_get_set_other)
  qed
  then show "entry pgdir s' w = entry pgdir s w" by (simp add: entry_def p t)
qed

text \<open>\<^verbatim>\<open>walkpgdir\<close> with allocation: the entry of the address, in a sound directory with the same translations.\<close>

lemma walk_alloc:
  assumes "sound kend pgdir s vs" "walkpgdir pgdir va True s = (r, s1)"
  obtains "r = None" "s1 = s" "\<not> present (pde pgdir s (PDX va))" "vs = []"
  | n where "r = Some (tab pgdir s1 (PDX va), PTX va)" "present (pde pgdir s1 (PDX va))" "sound kend pgdir s1 (drop n vs)"
    "\<And>w. entry pgdir s1 w = entry pgdir s w" "present (pde pgdir s (PDX va)) \<or> vs \<noteq> []"
proof (cases "present (pde pgdir s (PDX va))")
  case True
  then have "r = Some (tab pgdir s (PDX va), PTX va)" "s1 = s"
    using assms(2) by (auto simp: walkpgdir_def pde_def tab_def)
  then show ?thesis using that(2) [of 0] True assms(1) by simp
next
  case False
  show ?thesis
  proof (cases vs)
    case Nil
    have "kalloc s = (0, s)" using kalloc_ok [OF soundD(1) [OF assms(1)]] Nil by simp
    then show ?thesis using that(1) Nil False assms(2) by (simp add: walkpgdir_def pde_def)
  next
    case (Cons v us)
    note w = walk_new_table [OF assms(1) [unfolded Cons] False]
    have s1: "s1 = pte_set (frame_of pgdir, PDX va) (V2P v OR PTE_P OR PTE_W OR PTE_U)
      (set_page (frame_of v) (\<lambda>_. 0) (s\<lparr>freelist := get32 (pages s (frame_of v)) 0\<rparr>))"
      and r: "r = Some (frame_of v, PTX va)"
      using assms(2) w(1) by simp_all
    note w = w [folded s1]
    have "present (pde pgdir s1 (PDX va))"
      unfolding w(2) using present_or_P [of "V2P v" "PTE_W OR PTE_U"] by (simp add: ac_simps)
    moreover have "sound kend pgdir s1 (drop 1 vs)"
      using sound_new_table [OF assms(1) [unfolded Cons] False assms(2)] Cons by (simp add: One_nat_def)
    ultimately show ?thesis using that(2) [of 1] r w(4,5) Cons by simp
  qed
qed

lemma mappages_single:
  assumes "unat va mod PGSIZE = 0"
  shows "mappages pgdir va 4096 pa perm s = map_loop 0 pgdir va pa perm s"
proof -
  have l: "unat va < 4294967296" using unsigned_less [of va] by simp
  obtain k where k: "unat va = 4096 * k" using assms by (auto simp flip: dvd_eq_mod_eq_0 elim!: dvdE)
  then have "k < 1048576" using l by simp
  then have d: "unat va + 4095 < 4294967296" using k by simp
  have "unat va + unat (4095 :: u32) < 2 ^ LENGTH(32)" using d by simp
  then have u: "unat (va + 4095) = unat va + 4095" by (simp only: unat_add_lem) simp
  have "unat (PGROUNDDOWN va) = unat va" "unat (PGROUNDDOWN (va + 4095)) = unat va"
    using assms by (auto simp: unat_PGROUNDDOWN u elim!: dvdE simp flip: dvd_eq_mod_eq_0)
  then have "PGROUNDDOWN va = va" "PGROUNDDOWN (va + 4095) = va" by (simp_all only: word_unat_eq_iff)
  moreover have "va + 4096 - 1 = va + 4095" by simp
  ultimately show ?thesis unfolding mappages_def Let_def by (simp only:) simp
qed

text \<open>
  C22. Mapping one page in a sound page directory: \<^verbatim>\<open>mappages\<close> panics exactly if the page is already
  mapped, fails without any change exactly if it needs a page table and no memory is left, and
  otherwise maps the page as asked, changes the translation of no other page, and keeps the
  directory sound.
\<close>

theorem mappages_page:
  assumes "sound kend pgdir s vs" "unat va mod PGSIZE = 0"
  shows "if \<not> present (pde pgdir s (PDX va)) \<and> vs = [] then mappages pgdir va 4096 pa perm s = Inr (-1, s)
    else if present (entry pgdir s va) then mappages pgdir va 4096 pa perm s = Inl (Panic ''remap'')
    else \<exists>s' n. mappages pgdir va 4096 pa perm s = Inr (0, s') \<and> sound kend pgdir s' (drop n vs) \<and>
      entry pgdir s' va = (pa OR perm OR PTE_P) \<and>
      (\<forall>w. unat w div PGSIZE \<noteq> unat va div PGSIZE \<longrightarrow> entry pgdir s' w = entry pgdir s w)"
proof -
  obtain r s1 where r: "walkpgdir pgdir va True s = (r, s1)" by fastforce
  from assms(1) r show ?thesis
  proof (cases rule: walk_alloc)
    case 1
    then show ?thesis using r by (simp add: mappages_single [OF assms(2)])
  next
    case (2 n)
    let ?p = "(tab pgdir s1 (PDX va), PTX va)"
    have g: "pte_get s1 ?p = entry pgdir s va" using 2(2) 2(4) [of va] by (simp add: entry_def)
    let ?s = "pte_set ?p (pa OR perm OR PTE_P) s1"
    have e: "sound kend pgdir ?s (drop n vs)" "entry pgdir ?s va = (pa OR perm OR PTE_P)"
      "\<forall>w. unat w div PGSIZE \<noteq> unat va div PGSIZE \<longrightarrow> entry pgdir ?s w = entry pgdir s w"
      using entry_store [OF 2(3,2)] 2(4) by simp_all
    have "mappages pgdir va 4096 pa perm s = (if present (entry pgdir s va) then Inl (Panic ''remap'')
        else Inr (0, pte_set ?p (pa OR perm OR PTE_P) s1))"
      using r 2(1) by (simp add: mappages_single [OF assms(2)] g)
    then show ?thesis using e 2(5) by (cases "present (entry pgdir s va)") auto
  qed
qed

definition ex_vm :: kmem where
  "ex_vm = \<lparr>use_lock = False, freelist = 0x80400000, pages = (\<lambda>_ _. 0)\<rparr>"

theorem mappages_page_witness:
  "\<exists>s'. mappages 0x80200000 0x1000 4096 0x5000 6 ex_vm = Inr (0, s') \<and> entry 0x80200000 s' 0x1000 = 0x5007 \<and>
    entry 0x80200000 s' 0x2000 = 0"
proof -
  have z: "pte_get ex_vm p = 0" for p by (simp add: pte_get_def ex_vm_def)
  have "frame_of 0x80400000 \<noteq> frame_of 0x80200000" by (simp add: frame_of_def V2P_def KERNBASE_def)
  then have "sound 0x80200000 0x80200000 ex_vm [0x80400000]"
    by (simp add: sound_def kmem_ok_def pde_def z) (simp add: ex_vm_def page_ok_def V2P_def KERNBASE_def PHYSTOP_def)
  from mappages_page [OF this, of "0x1000" "0x5000" 6] obtain s' where
    s': "mappages 0x80200000 0x1000 4096 0x5000 6 ex_vm = Inr (0, s')" "entry 0x80200000 s' 0x1000 = (0x5000 OR 6 OR PTE_P)"
      "\<forall>w. unat w div PGSIZE \<noteq> unat (0x1000 :: u32) div PGSIZE \<longrightarrow> entry 0x80200000 s' w = entry 0x80200000 ex_vm w"
    by (auto simp: entry_def pde_def z)
  have "entry 0x80200000 s' 0x2000 = 0" using s'(3) by (simp add: entry_def [of _ ex_vm] pde_def z)
  with s'(1,2) show ?thesis by (simp add: PTE_P_def)
qed

section \<open>Writing to user memory\<close>

text \<open>
  The user memory of a page directory as the processor sees it: the pages present and open to the
  user, the frame each lies in, and the byte at an address. It is well formed if each page has a
  frame of usable memory to itself, outside the page directory and the page tables.
\<close>

definition user_page :: "u32 \<Rightarrow> 'a kmem_scheme \<Rightarrow> u32 \<Rightarrow> bool" where
  "user_page pgdir s va \<longleftrightarrow> present (entry pgdir s va) \<and> entry pgdir s va AND PTE_U \<noteq> 0"

definition user_frame :: "u32 \<Rightarrow> 'a kmem_scheme \<Rightarrow> u32 \<Rightarrow> nat" where
  "user_frame pgdir s va = frame_of (P2V (PTE_ADDR (entry pgdir s va)))"

definition user_byte :: "u32 \<Rightarrow> 'a kmem_scheme \<Rightarrow> u32 \<Rightarrow> u8" where
  "user_byte pgdir s va = pages s (user_frame pgdir s va) (unat va mod PGSIZE)"

definition user_space :: "u32 \<Rightarrow> 'a kmem_scheme \<Rightarrow> bool" where
  "user_space pgdir s \<longleftrightarrow> (\<forall>va. user_page pgdir s va \<longrightarrow>
     PTE_ADDR (entry pgdir s va) < PHYSTOP \<and> user_frame pgdir s va \<noteq> frame_of pgdir \<and>
     (\<forall>i<1024. present (pde pgdir s i) \<longrightarrow> user_frame pgdir s va \<noteq> tab pgdir s i) \<and>
     (\<forall>w. user_page pgdir s w \<and> user_frame pgdir s w = user_frame pgdir s va \<longrightarrow> unat w div PGSIZE = unat va div PGSIZE))"

definition addr_range :: "u32 \<Rightarrow> nat \<Rightarrow> u32 \<Rightarrow> bool" where
  "addr_range va n w \<longleftrightarrow> unat va \<le> unat w \<and> unat w < unat va + n"

lemma user_spaceD:
  assumes "user_space pgdir s" "user_page pgdir s va"
  shows "PTE_ADDR (entry pgdir s va) < PHYSTOP" "user_frame pgdir s va \<noteq> frame_of pgdir"
    "i < 1024 \<Longrightarrow> present (pde pgdir s i) \<Longrightarrow> tab pgdir s i \<noteq> user_frame pgdir s va"
    "user_page pgdir s w \<Longrightarrow> user_frame pgdir s w = user_frame pgdir s va \<Longrightarrow> unat w div PGSIZE = unat va div PGSIZE"
  using assms unfolding user_space_def by metis+

lemma same_page:
  assumes "unat w div PGSIZE = unat va div PGSIZE"
  shows "PDX w = PDX va" "PTX w = PTX va" "entry pgdir s w = entry pgdir s va" "user_page pgdir s w = user_page pgdir s va"
    "user_frame pgdir s w = user_frame pgdir s va"
proof -
  have "PDX v = unat v div PGSIZE div 1024" for v by (simp add: PDX_nat div_mult2_eq [symmetric])
  then show p: "PDX w = PDX va" by (simp only: assms)
  show t: "PTX w = PTX va" by (simp only: PTX_nat assms)
  from p t show "entry pgdir s w = entry pgdir s va" by (simp add: entry_def)
  then show "user_page pgdir s w = user_page pgdir s va" "user_frame pgdir s w = user_frame pgdir s va"
    by (simp_all add: user_page_def user_frame_def)
qed

lemma uva2ka_page:
  assumes "present (pde pgdir s (PDX va))"
  shows "uva2ka pgdir (PGROUNDDOWN va) s = Inr (if user_page pgdir s va then P2V (PTE_ADDR (entry pgdir s va)) else 0)"
proof -
  have "unat (PGROUNDDOWN va) div PGSIZE = unat va div PGSIZE" by (simp add: unat_PGROUNDDOWN)
  note p = same_page [OF this]
  show ?thesis unfolding uva2ka_def walkpgdir_def p(1,2)
    using assms by (auto simp: user_page_def entry_def tab_def pde_def Let_def)
qed

text \<open>Writing into the frame of a user page changes no translation, and only that page.\<close>

lemma user_store:
  fixes b :: bytes
  assumes "user_space pgdir s" "user_page pgdir s va"
  defines "s' \<equiv> set_page (user_frame pgdir s va) b s"
  shows "pde pgdir s' = pde pgdir s" "entry pgdir s' = entry pgdir s" "user_space pgdir s'"
    "user_page pgdir s' = user_page pgdir s" "user_frame pgdir s' = user_frame pgdir s"
    "user_page pgdir s w \<Longrightarrow> user_byte pgdir s' w =
      (if unat w div PGSIZE = unat va div PGSIZE then b (unat w mod PGSIZE) else user_byte pgdir s w)"
proof -
  note d = user_spaceD [OF assms(1,2)]
  show p: "pde pgdir s' = pde pgdir s" using d(2) by (auto simp: fun_eq_iff pde_def s'_def pte_get_set_page)
  then have t: "tab pgdir s' = tab pgdir s" by (simp add: fun_eq_iff tab_def)
  show e: "entry pgdir s' = entry pgdir s"
    using d(3) [OF PDX_less] by (auto simp: fun_eq_iff entry_def p t) (auto simp: s'_def pte_get_set_page)
  then show u: "user_page pgdir s' = user_page pgdir s" and f: "user_frame pgdir s' = user_frame pgdir s"
    by (simp_all add: fun_eq_iff user_page_def user_frame_def)
  show "user_space pgdir s'" using assms(1) unfolding user_space_def p t e u f .
  assume w: "user_page pgdir s w"
  show "user_byte pgdir s' w = (if unat w div PGSIZE = unat va div PGSIZE then b (unat w mod PGSIZE) else user_byte pgdir s w)"
    using d(4) [OF w] same_page(5) [of w va pgdir s]
    by (auto simp: user_byte_def f) (auto simp: s'_def set_page_def)
qed

text \<open>The first round covers the part of the range that lies on the page of \<open>va\<close>.\<close>

lemma same_page_nat:
  fixes a w n :: nat
  assumes "a mod PGSIZE + n \<le> PGSIZE" "a \<le> w" "w < a + n"
  shows "w div PGSIZE = a div PGSIZE"
proof -
  define q r where "q = a div PGSIZE" and "r = a mod PGSIZE"
  then have "a = q * PGSIZE + r" by simp
  then have "PGSIZE * q \<le> w" "w < PGSIZE * Suc q" using assms r_def by simp_all
  then show ?thesis unfolding q_def [symmetric] by (rule div_nat_eqI)
qed

lemma first_page_range:
  assumes "n = min (PGSIZE - unat va mod PGSIZE) len"
  shows "addr_range va n w \<longleftrightarrow> unat w div PGSIZE = unat va div PGSIZE \<and> unat va mod PGSIZE \<le> unat w mod PGSIZE \<and>
    unat w mod PGSIZE < unat va mod PGSIZE + n"
    "addr_range va n w \<Longrightarrow> unat w mod PGSIZE - unat va mod PGSIZE = unat w - unat va"
proof -
  have a: "unat va = unat va div PGSIZE * PGSIZE + unat va mod PGSIZE" "unat w = unat w div PGSIZE * PGSIZE + unat w mod PGSIZE"
    by simp_all
  have m: "unat va mod PGSIZE < PGSIZE" "unat w mod PGSIZE < PGSIZE" by simp_all
  have n: "unat va mod PGSIZE + n \<le> PGSIZE" using assms m(1) by (auto simp: min_def)
  have eq: "unat w div PGSIZE = unat va div PGSIZE" if r: "addr_range va n w"
    using same_page_nat [OF n, of "unat w"] r by (simp add: addr_range_def)
  show "addr_range va n w \<longleftrightarrow> unat w div PGSIZE = unat va div PGSIZE \<and> unat va mod PGSIZE \<le> unat w mod PGSIZE \<and>
    unat w mod PGSIZE < unat va mod PGSIZE + n" (is "_ \<longleftrightarrow> ?r")
  proof
    assume r: "addr_range va n w"
    then show ?r using eq [OF r] a unfolding addr_range_def by linarith
  next
    assume ?r
    then show "addr_range va n w" using a unfolding addr_range_def by linarith
  qed
  show "unat w mod PGSIZE - unat va mod PGSIZE = unat w - unat va" if "addr_range va n w"
    using eq [OF that] a by linarith
qed

lemma next_page_addr:
  assumes "n = min (PGSIZE - unat va mod PGSIZE) len" "n < len" "unat va + len \<le> 2 ^ 32"
  shows "unat (PGROUNDDOWN va + 4096) = unat va + n"
proof -
  have n: "n = PGSIZE - unat va mod PGSIZE" using assms(1,2) by (auto simp: min_def split: if_splits)
  have "unat va = unat va div PGSIZE * PGSIZE + unat va mod PGSIZE" "unat va mod PGSIZE < PGSIZE" by simp_all
  then have e: "unat va div PGSIZE * PGSIZE + PGSIZE = unat va + n" using n by linarith
  then have "unat (PGROUNDDOWN va) + unat (4096 :: u32) < 2 ^ LENGTH(32)"
    using assms(2,3) by (simp add: unat_PGROUNDDOWN)
  then have "unat (PGROUNDDOWN va + 4096) = unat (PGROUNDDOWN va) + unat (4096 :: u32)" by (simp only: unat_add_lem)
  then show ?thesis using e by (simp add: unat_PGROUNDDOWN)
qed

text \<open>What \<^verbatim>\<open>copyout\<close> of \<open>bs\<close> to \<open>va\<close> promises of its result and of the memory it leaves.\<close>

definition copied :: "u32 \<Rightarrow> u32 \<Rightarrow> u8 list \<Rightarrow> 'a kmem_scheme \<Rightarrow> int \<Rightarrow> 'a kmem_scheme \<Rightarrow> bool" where
  "copied pgdir va bs s r s' \<longleftrightarrow>
     r = (if \<forall>w. addr_range va (length bs) w \<longrightarrow> user_page pgdir s w then 0 else -1) \<and>
     entry pgdir s' = entry pgdir s \<and>
     (\<forall>w. user_page pgdir s w \<and> \<not> addr_range va (length bs) w \<longrightarrow> user_byte pgdir s' w = user_byte pgdir s w) \<and>
     (\<forall>w. r = 0 \<and> addr_range va (length bs) w \<longrightarrow> user_byte pgdir s' w = bs ! (unat w - unat va)) \<and>
     (\<forall>f. (\<forall>w. user_page pgdir s w \<longrightarrow> user_frame pgdir s w \<noteq> f) \<longrightarrow> pages s' f = pages s f)"

lemma copied_Nil: "copied pgdir va [] s r s' \<longleftrightarrow> r = 0 \<and> entry pgdir s' = entry pgdir s \<and>
    (\<forall>w. user_page pgdir s w \<longrightarrow> user_byte pgdir s' w = user_byte pgdir s w) \<and>
    (\<forall>f. (\<forall>w. user_page pgdir s w \<longrightarrow> user_frame pgdir s w \<noteq> f) \<longrightarrow> pages s' f = pages s f)"
  by (auto simp: copied_def addr_range_def)

text \<open>A round on the page of \<open>va\<close> followed by the rounds on the rest.\<close>

lemma copied_round:
  assumes "user_space pgdir s" "user_page pgdir s va" "bs \<noteq> []" "unat va + length bs \<le> 2 ^ 32"
    and n: "n = min (PGSIZE - unat va mod PGSIZE) (length bs)"
    and s1: "s1 = set_page (user_frame pgdir s va) (\<lambda>j. if unat va mod PGSIZE \<le> j \<and> j < unat va mod PGSIZE + n
      then bs ! (j - unat va mod PGSIZE) else pages s (user_frame pgdir s va) j) s"
    and rec: "copied pgdir (PGROUNDDOWN va + 4096) (drop n bs) s1 r s2"
  shows "copied pgdir va bs s r s2"
proof -
  note st = user_store [OF assms(1,2), where b = "\<lambda>j. if unat va mod PGSIZE \<le> j \<and> j < unat va mod PGSIZE + n
      then bs ! (j - unat va mod PGSIZE) else pages s (user_frame pgdir s va) j", folded s1]
  note fp = first_page_range [OF n]
  let ?va = "PGROUNDDOWN va + 4096"
  have b1: "user_byte pgdir s1 w = (if addr_range va n w then bs ! (unat w - unat va) else user_byte pgdir s w)"
    if "user_page pgdir s w" for w
    using st(6) [OF that] fp [of w] same_page(5) [of w va pgdir s] by (auto simp: user_byte_def)
  have np: "0 < n" using n assms(3) by simp
  have split: "addr_range va (length bs) w \<longleftrightarrow> addr_range va n w \<or> addr_range ?va (length (drop n bs)) w"
    "\<not> (addr_range va n w \<and> addr_range ?va (length (drop n bs)) w)"
    "addr_range ?va (length (drop n bs)) w \<Longrightarrow> drop n bs ! (unat w - unat ?va) = bs ! (unat w - unat va)" for w
  proof -
    have nb: "n \<le> length bs" using n by simp
    have v: "n < length bs \<Longrightarrow> unat ?va = unat va + n" using next_page_addr [OF n _ assms(4)] by simp
    show "addr_range va (length bs) w \<longleftrightarrow> addr_range va n w \<or> addr_range ?va (length (drop n bs)) w"
      "\<not> (addr_range va n w \<and> addr_range ?va (length (drop n bs)) w)"
      using v nb by (cases "n < length bs"; auto simp: addr_range_def)+
    show "addr_range ?va (length (drop n bs)) w \<Longrightarrow> drop n bs ! (unat w - unat ?va) = bs ! (unat w - unat va)"
      using v nb by (cases "n < length bs") (auto simp: addr_range_def)
  qed
  have first: "user_page pgdir s w" if "addr_range va n w" for w
    using fp(1) [of w] that same_page(4) [of w va pgdir s] assms(2) by simp
  have fr: "pages s1 f = pages s f" if "\<forall>w. user_page pgdir s w \<longrightarrow> user_frame pgdir s w \<noteq> f" for f
    using that assms(2) by (auto simp: s1 set_page_def)
  have later: "user_page pgdir s w" if "r = 0" "addr_range ?va (length (drop n bs)) w" for w
    using rec that unfolding copied_def st(2,4,5) by (metis zero_neq_neg_one)
  show ?thesis unfolding copied_def
  proof (intro conjI allI impI)
    show "r = (if \<forall>w. addr_range va (length bs) w \<longrightarrow> user_page pgdir s w then 0 else -1)"
      using rec first unfolding copied_def st(4) split(1) by auto
    show "entry pgdir s2 = entry pgdir s" using rec unfolding copied_def st(2) by simp
  next
    fix w assume w: "user_page pgdir s w \<and> \<not> addr_range va (length bs) w"
    then have "user_byte pgdir s2 w = user_byte pgdir s1 w" using rec unfolding copied_def st(4) split(1) by simp
    then show "user_byte pgdir s2 w = user_byte pgdir s w" using b1 [of w] w split(1) [of w] by simp
  next
    fix w assume w: "r = 0 \<and> addr_range va (length bs) w"
    show "user_byte pgdir s2 w = bs ! (unat w - unat va)"
    proof (cases "addr_range va n w")
      case True
      then have "user_byte pgdir s2 w = user_byte pgdir s1 w"
        using rec first [OF True] split(2) [of w] unfolding copied_def st(4) by blast
      then show ?thesis using b1 [OF first [OF True]] True by simp
    next
      case False
      then have "addr_range ?va (length (drop n bs)) w" using w split(1) [of w] by blast
      then show ?thesis using rec w split(3) [of w] unfolding copied_def by metis
    qed
  next
    fix f assume f: "\<forall>w. user_page pgdir s w \<longrightarrow> user_frame pgdir s w \<noteq> f"
    then show "pages s2 f = pages s f" using rec fr [OF f] unfolding copied_def st(4,5) by metis
  qed
qed

text \<open>
  C23. \<^verbatim>\<open>copyout\<close> (with \<^verbatim>\<open>uva2ka\<close>) writes user memory. In a well-formed address space, for a range of addresses
  that all have a page table, it returns 0 exactly if every page of the range is present and open to
  the user, and -1 otherwise. After 0 the bytes of the range, as the processor translates its
  addresses, are those given, over as many pages as the range has. In both cases no translation, no
  user byte outside the range and no page that is not the user's has changed.
\<close>

theorem copyout_writes:
  assumes "user_space pgdir s" "unat va + length bs \<le> 2 ^ 32"
    "\<forall>w. addr_range va (length bs) w \<longrightarrow> present (pde pgdir s (PDX w))"
  shows "\<exists>r s'. copyout pgdir va bs s = Inr (r, s') \<and>
     r = (if \<forall>w. addr_range va (length bs) w \<longrightarrow> user_page pgdir s w then 0 else -1) \<and>
     entry pgdir s' = entry pgdir s \<and>
     (\<forall>w. user_page pgdir s w \<and> \<not> addr_range va (length bs) w \<longrightarrow> user_byte pgdir s' w = user_byte pgdir s w) \<and>
     (\<forall>w. r = 0 \<and> addr_range va (length bs) w \<longrightarrow> user_byte pgdir s' w = bs ! (unat w - unat va)) \<and>
     (\<forall>f. (\<forall>w. user_page pgdir s w \<longrightarrow> user_frame pgdir s w \<noteq> f) \<longrightarrow> pages s' f = pages s f)"
  unfolding copied_def [symmetric] using assms
proof (induction pgdir va bs s rule: copyout.induct)
  case (1 pgdir va bs s)
  show ?case
  proof (cases "bs = []")
    case True
    then show ?thesis by (subst copyout.simps) (simp add: copied_Nil)
  next
    case False
    have here: "addr_range va (length bs) va" using False by (simp add: addr_range_def)
    note u = uva2ka_page [OF 1(4) [rule_format, OF here]]
    show ?thesis
    proof (cases "user_page pgdir s va")
      case no: False
      then have "copyout pgdir va bs s = Inr (-1, s)" using False u by (subst copyout.simps) (simp add: Let_def)
      moreover have "copied pgdir va bs s (-1) s" using here no by (auto simp: copied_def)
      ultimately show ?thesis by blast
    next
      case yes: True
      let ?n = "min (PGSIZE - unat va mod PGSIZE) (length bs)"
      let ?pa = "P2V (PTE_ADDR (entry pgdir s va))"
      let ?s = "set_page (user_frame pgdir s va) (\<lambda>j. if unat va mod PGSIZE \<le> j \<and> j < unat va mod PGSIZE + ?n
        then bs ! (j - unat va mod PGSIZE) else pages s (user_frame pgdir s va) j) s"
      have "?pa \<noteq> 0" using user_spaceD(1) [OF 1(2) yes] by (auto simp: P2V_def KERNBASE_def PHYSTOP_def add_eq_0_iff2)
      note u = u [unfolded if_P [OF yes]] this
      have c: "copyout pgdir va bs s = copyout pgdir (PGROUNDDOWN va + 4096) (drop ?n bs) ?s"
        unfolding user_frame_def using False u by (subst copyout.simps) (simp add: Let_def)
      note st = user_store [OF 1(2) yes, where b = "\<lambda>j. if unat va mod PGSIZE \<le> j \<and> j < unat va mod PGSIZE + ?n
        then bs ! (j - unat va mod PGSIZE) else pages s (user_frame pgdir s va) j"]
      have lim: "unat (PGROUNDDOWN va + 4096) + length (drop ?n bs) \<le> 2 ^ 32" if "?n < length bs"
        using next_page_addr [OF refl that 1(3)] 1(3) by simp
      have "\<exists>r s'. copyout pgdir (PGROUNDDOWN va + 4096) (drop ?n bs) ?s = Inr (r, s') \<and>
          copied pgdir (PGROUNDDOWN va + 4096) (drop ?n bs) ?s r s'"
      proof (cases "?n < length bs")
        case True
        have "\<forall>w. addr_range (PGROUNDDOWN va + 4096) (length (drop ?n bs)) w \<longrightarrow> present (pde pgdir ?s (PDX w))"
          using 1(4) next_page_addr [OF refl True 1(3)] by (simp add: st(1) addr_range_def)
        from 1(1) [OF False refl u(1,2) refl refl refl, folded user_frame_def, OF st(3) lim [OF True] this]
        show ?thesis .
      next
        case no: False
        then have "drop ?n bs = []" by simp
        then show ?thesis by (simp only:) (subst copyout.simps, simp add: copied_Nil)
      qed
      then show ?thesis unfolding c using copied_round [OF 1(2) yes False 1(3) refl refl] by blast
    qed
  qed
qed

text \<open>An address space with the pages at 0x1000 and 0x2000 in the frames 5 and 6.\<close>

definition ex_um :: kmem where
  "ex_um = \<lparr>use_lock = False, freelist = 0, pages = (\<lambda>f.
     if f = 0x200 then put32 (\<lambda>_. 0) 0 0x400007
     else if f = 0x400 then put32 (put32 (\<lambda>_. 0) 4 0x5007) 8 0x6007 else (\<lambda>_. 0))\<rparr>"

lemma ex_um_pde: "pde 0x80200000 ex_um i = (if i = 0 then 0x400007 else 0)"
  by (cases "i = 0") (simp_all add: pde_def pte_get_def ex_um_def frame_of_def V2P_def KERNBASE_def get32_put32_other)

lemma ex_um_entry:
  "entry 0x80200000 ex_um va = (if PDX va = 0 \<and> PTX va = 1 then 0x5007 else if PDX va = 0 \<and> PTX va = 2 then 0x6007 else 0)"
proof -
  have t: "tab 0x80200000 ex_um 0 = 0x400"
    by (simp add: tab_def ex_um_pde frame_of_def PTE_ADDR_def)
  have "pte_get ex_um (0x400, i) = (if i = 1 then 0x5007 else if i = 2 then 0x6007 else 0)" for i
    by (cases "i = 0"; cases "i = 1"; cases "i = 2") (simp_all add: pte_get_def ex_um_def get32_put32_other)
  then show ?thesis by (simp add: entry_def ex_um_pde t present_def PTE_P_def)
qed

lemma ex_um_user_page: "user_page 0x80200000 ex_um va \<longleftrightarrow> PDX va = 0 \<and> (PTX va = 1 \<or> PTX va = 2)"
  by (auto simp: user_page_def ex_um_entry present_def PTE_P_def PTE_U_def)

lemma ex_um_user_frame: "user_page 0x80200000 ex_um va \<Longrightarrow> user_frame 0x80200000 ex_um va = 4 + PTX va"
  by (auto simp: ex_um_user_page user_frame_def ex_um_entry PTE_ADDR_def frame_of_def)

lemma ex_um_user_space: "user_space 0x80200000 ex_um"
proof -
  have "tab 0x80200000 ex_um 0 = 0x400" by (simp add: tab_def ex_um_pde frame_of_def PTE_ADDR_def)
  moreover have "frame_of 0x80200000 = 0x200" by (simp add: frame_of_def V2P_def KERNBASE_def)
  ultimately show ?thesis
    by (auto simp: user_space_def ex_um_user_frame ex_um_pde page_index) (auto simp: ex_um_user_page ex_um_entry PTE_ADDR_def PHYSTOP_def)
qed

lemma ex_um_range:
  assumes "addr_range va n w" "unat va + n \<le> 0x4000"
  shows "PDX w = 0" "PTX w = unat w div PGSIZE"
proof -
  have w: "unat w < 0x4000" using assms by (simp add: addr_range_def)
  then show "PDX w = 0" by (simp add: PDX_nat)
  have "unat w div PGSIZE < 4" using w by (simp add: less_mult_imp_div_less)
  then show "PTX w = unat w div PGSIZE" by (simp add: PTX_nat)
qed

theorem copyout_writes_witness:
  "\<exists>s'. copyout 0x80200000 0x1FFE [10, 20, 30, 40] ex_um = Inr (0, s') \<and>
    user_byte 0x80200000 s' 0x1FFF = 20 \<and> user_byte 0x80200000 s' 0x2000 = 30 \<and> user_byte 0x80200000 s' 0x2002 = 0"
proof -
  have r: "PDX w = 0 \<and> (PTX w = 1 \<or> PTX w = 2)" if "addr_range 0x1FFE 4 w" for w
  proof -
    have "unat w div PGSIZE = 1 \<or> unat w div PGSIZE = 2" using that by (auto simp: addr_range_def)
    then show ?thesis using ex_um_range [OF that] by simp
  qed
  then have u: "\<forall>w. addr_range 0x1FFE 4 w \<longrightarrow> user_page 0x80200000 ex_um w" by (simp add: ex_um_user_page)
  have "\<forall>w. addr_range 0x1FFE 4 w \<longrightarrow> present (pde 0x80200000 ex_um (PDX w))"
    using r by (simp add: ex_um_pde present_def PTE_P_def)
  moreover have l: "length [10, 20, 30, 40 :: u8] = 4" by simp
  ultimately obtain s' where
    s': "copyout 0x80200000 0x1FFE [10, 20, 30, 40] ex_um = Inr (0, s')"
      "\<forall>w. user_page 0x80200000 ex_um w \<and> \<not> addr_range 0x1FFE 4 w \<longrightarrow> user_byte 0x80200000 s' w = user_byte 0x80200000 ex_um w"
      "\<forall>w. addr_range 0x1FFE 4 w \<longrightarrow> user_byte 0x80200000 s' w = [10, 20, 30, 40] ! (unat w - unat (0x1FFE :: u32))"
    using copyout_writes [OF ex_um_user_space, of "0x1FFE" "[10, 20, 30, 40]", unfolded l] u by auto
  have p: "user_page 0x80200000 ex_um 0x2002" by (simp add: ex_um_user_page PDX_nat PTX_nat)
  have "user_byte 0x80200000 ex_um 0x2002 = 0"
    unfolding user_byte_def ex_um_user_frame [OF p] by (simp add: ex_um_def PTX_nat)
  moreover have "\<not> addr_range 0x1FFE 4 0x2002" "addr_range 0x1FFE 4 0x1FFF" "addr_range 0x1FFE 4 0x2000"
    by (simp_all add: addr_range_def)
  ultimately show ?thesis using s' p by simp
qed

section \<open>Frame\<close>

text \<open>
  No operation of this theory touches the rest of the kernel state. The facts are collected in
  \<open>more_frame\<close> for the components whose state extends the allocator's.
\<close>

named_theorems more_frame

lemma set_page_more [more_frame, simp]: "kmem.more (set_page f b s) = kmem.more s"
  by (simp add: set_page_def)

lemma pte_set_more [more_frame, simp]: "kmem.more (pte_set p v s) = kmem.more s"
  by (simp add: pte_set_def)

lemma kalloc_more [more_frame]: "kalloc s = (p, s') \<Longrightarrow> kmem.more s' = kmem.more s"
  by (auto simp: kalloc_def Let_def split: if_splits)

lemma kfree_more [more_frame]: "kfree kend v s = Inr s' \<Longrightarrow> kmem.more s' = kmem.more s"
  by (auto simp: kfree_def set_page_def Let_def split: if_splits)

lemma walkpgdir_more [more_frame]: "walkpgdir pgdir va alloc s = (r, s') \<Longrightarrow> kmem.more s' = kmem.more s"
  by (auto simp: walkpgdir_def Let_def split: if_splits prod.splits dest!: kalloc_more)

lemma map_loop_more [more_frame]: "map_loop n pgdir a pa perm s = Inr (r, s') \<Longrightarrow> kmem.more s' = kmem.more s"
proof (induction n arbitrary: a pa s)
  case (Suc n)
  obtain q t where w: "walkpgdir pgdir a True s = (q, t)" by fastforce
  have m: "kmem.more t = kmem.more s" using w by (rule walkpgdir_more)
  show ?case
  proof (cases q)
    case (Some pte)
    then have "map_loop n pgdir (a + 4096) (pa + 4096) perm (pte_set pte (pa OR perm OR PTE_P) t) = Inr (r, s')"
      using Suc.prems w by (auto split: if_splits)
    from Suc.IH [OF this] m show ?thesis by simp
  qed (use Suc.prems w m in auto)
qed (auto split: prod.splits option.splits if_splits dest!: walkpgdir_more)

lemma mappages_more [more_frame]: "mappages pgdir va sz pa perm s = Inr (r, s') \<Longrightarrow> kmem.more s' = kmem.more s"
  unfolding mappages_def Let_def by (rule map_loop_more)

lemma dealloc_page_more [more_frame]: "dealloc_page kend pgdir a s = Inr s' \<Longrightarrow> kmem.more s' = kmem.more s"
  by (auto simp: dealloc_page_def Let_def bnd_eq_Inr split: option.splits if_splits dest!: kfree_more)

lemma dealloc_loop_more [more_frame]: "dealloc_loop kend pgdir a oldsz s = Inr s' \<Longrightarrow> kmem.more s' = kmem.more s"
proof (induction kend pgdir a oldsz s rule: dealloc_loop.induct)
  case (1 kend pgdir a oldsz s)
  show ?case
  proof (cases "a < oldsz")
    case True
    let ?a = "dealloc_next pgdir s a"
    obtain t where t: "dealloc_page kend pgdir a s = Inr t" "a < ?a" "dealloc_loop kend pgdir ?a oldsz t = Inr s'"
      using "1.prems" True by (subst (asm) dealloc_loop.simps) (auto simp: Let_def bnd_eq_Inr split: if_splits)
    from "1.IH" [OF True refl t] dealloc_page_more [OF t(1)] show ?thesis by simp
  qed (use "1.prems" in \<open>subst (asm) dealloc_loop.simps, simp\<close>)
qed

lemma deallocuvm_more [more_frame]: "deallocuvm kend pgdir oldsz newsz s = Inr (r, s') \<Longrightarrow> kmem.more s' = kmem.more s"
  by (auto simp: deallocuvm_def bnd_eq_Inr split: if_splits dest!: dealloc_loop_more)

lemma free_tables_more [more_frame]: "free_tables kend pgdir is s = Inr s' \<Longrightarrow> kmem.more s' = kmem.more s"
proof (induction "is" arbitrary: s)
  case (Cons i "is")
  then obtain t where "free_tables kend pgdir is t = Inr s'" "kmem.more t = kmem.more s"
    by (auto simp: Let_def bnd_eq_Inr split: if_splits dest: kfree_more)
  with Cons.IH show ?case by metis
qed simp

lemma freevm_more [more_frame]: "freevm kend pgdir s = Inr s' \<Longrightarrow> kmem.more s' = kmem.more s"
  by (auto simp: freevm_def bnd_eq_Inr split: if_splits dest!: deallocuvm_more free_tables_more kfree_more)

lemma map_kernel_more [more_frame]: "map_kernel kend pgdir ks s = Inr (r, s') \<Longrightarrow> kmem.more s' = kmem.more s"
proof (induction ks arbitrary: s)
  case (Cons k ks)
  then obtain q t where t: "mappages pgdir (virt k) (phys_end k - phys_start k) (phys_start k) (kperm k) s = Inr (q, t)"
    "(if q < 0 then bnd (freevm kend pgdir t) (\<lambda>s. Inr (0, s)) else map_kernel kend pgdir ks t) = Inr (r, s')"
    by (auto simp: bnd_eq_Inr)
  have m: "kmem.more t = kmem.more s" using t(1) by (rule mappages_more)
  show ?case
  proof (cases "q < 0")
    case True
    then show ?thesis using t(2) m by (auto simp: bnd_eq_Inr dest!: freevm_more)
  next
    case False
    then show ?thesis using t(2) m Cons.IH [of t] by simp
  qed
qed simp

lemma setupkvm_more [more_frame]: "setupkvm kend kdata s = Inr (r, s') \<Longrightarrow> kmem.more s' = kmem.more s"
  by (auto simp: setupkvm_def Let_def split: prod.splits if_splits dest!: map_kernel_more kalloc_more)

lemma copy_loop_more [more_frame]: "copy_loop kend pgdir d i sz s = Inr (r, s') \<Longrightarrow> kmem.more s' = kmem.more s"
proof (induction kend pgdir d i sz s rule: copy_loop.induct)
  case (1 kend pgdir d i sz s)
  show ?case
  proof (cases "i < sz")
    case True
    then obtain pte where w: "fst (walkpgdir pgdir (of_nat i) False s) = Some pte" "present (pte_get s pte)"
      using "1.prems" by (subst (asm) copy_loop.simps) (auto split: option.splits if_splits)
    obtain mem t where k: "kalloc s = (mem, t)" by fastforce
    let ?t = "set_page (frame_of mem) (pages t (frame_of (P2V (PTE_ADDR (pte_get s pte))))) t"
    have m: "kmem.more ?t = kmem.more s" using kalloc_more [OF k] by simp
    show ?thesis
    proof (cases "mem = 0")
      case True
      then show ?thesis using "1.prems" \<open>i < sz\<close> w k kalloc_more [OF k]
        by (subst (asm) copy_loop.simps) (auto simp: bnd_eq_Inr dest!: freevm_more)
    next
      case False
      then obtain q u where u: "mappages d (of_nat i) 4096 (V2P mem) (PTE_FLAGS (pte_get s pte)) ?t = Inr (q, u)"
        "(if q < 0 then bnd (freevm kend d u) (\<lambda>s. Inr (0, s)) else copy_loop kend pgdir d (i + PGSIZE) sz u) = Inr (r, s')"
        using "1.prems" \<open>i < sz\<close> w k by (subst (asm) copy_loop.simps) (auto simp: bnd_eq_Inr)
      have mu: "kmem.more u = kmem.more s" using mappages_more [OF u(1)] m by simp
      show ?thesis
      proof (cases "q < 0")
        case True
        then show ?thesis using u(2) mu by (auto simp: bnd_eq_Inr dest!: freevm_more)
      next
        case q: False
        then have c: "copy_loop kend pgdir d (i + PGSIZE) sz u = Inr (r, s')" using u(2) by simp
        show ?thesis using "1.IH" [OF \<open>i < sz\<close> w(1) _ refl refl k [symmetric] refl False refl u(1) refl _ c] w(2) q mu by simp
      qed
    qed
  qed (use "1.prems" in \<open>subst (asm) copy_loop.simps, simp\<close>)
qed

lemma copyuvm_more [more_frame]: "copyuvm kend kdata pgdir sz s = Inr (r, s') \<Longrightarrow> kmem.more s' = kmem.more s"
  by (auto simp: copyuvm_def bnd_eq_Inr split: if_splits dest!: setupkvm_more copy_loop_more)

end
