(* ===== verification/Proc.thy ===== *)
theory Proc
  imports Vm
begin

text \<open>
  Processes (\<^verbatim>\<open>proc.c\<close>, \<^verbatim>\<open>proc.h\<close>): the process table, creation, exit and reaping, sleep and wakeup, the
  choice of the scheduler. A process is named by its index in \<^verbatim>\<open>ptable.proc\<close>. The state extends the
  page allocator's memory; the kernel stack of a process is a page of it, with the trap frame in its
  last 76 bytes. What runs under \<^verbatim>\<open>ptable.lock\<close> is one step. The file operations that \<^verbatim>\<open>fork\<close> and \<^verbatim>\<open>exit\<close>
  call are arguments here, state transformers of the same state. \<open>kend\<close>, \<open>kdata\<close>, \<open>trapret\<close> and \<open>forkret\<close> are
  addresses fixed by the linker.
\<close>

section \<open>The process table\<close>

datatype procstate = UNUSED | EMBRYO | SLEEPING | RUNNABLE | RUNNING | ZOMBIE

text \<open>Wait channels: the address of a process table entry (\<^verbatim>\<open>wait\<close>), or another kernel address.\<close>

datatype chan = ChanProc nat | ChanAddr u32

record proc =
  p_sz :: u32
  p_pgdir :: u32
  p_kstack :: u32
  p_state :: procstate
  p_pid :: int
  p_parent :: "nat option"
  p_tf :: u32
  p_context :: u32
  p_chan :: "chan option"
  p_killed :: bool
  p_ofile :: "nat option list"
  p_cwd :: "nat option"
  p_name :: "u8 list"

record ptable = kmem +
  procs :: "proc list"
  nextpid :: int
  initproc :: "nat option"
  cpu_proc :: "nat \<Rightarrow> nat option"

abbreviation NPROC :: nat where
  "NPROC \<equiv> 64"

text \<open>The value of a C \<^verbatim>\<open>int\<close> after arithmetic: 32 bits in two's complement.\<close>

definition int32 :: "int \<Rightarrow> int" where
  "int32 n = (n + 2 ^ 31) mod 2 ^ 32 - 2 ^ 31"

definition upd_proc :: "nat \<Rightarrow> (proc \<Rightarrow> proc) \<Rightarrow> 'a ptable_scheme \<Rightarrow> 'a ptable_scheme" where
  "upd_proc i f s = s\<lparr>procs := (procs s)[i := f (procs s ! i)]\<rparr>"

section \<open>Processors\<close>

text \<open>\<^verbatim>\<open>mycpu\<close>: the index of the processor with the given APIC identifier.\<close>

definition mycpu :: "bool \<Rightarrow> u8 list \<Rightarrow> u8 \<Rightarrow> nat res" where
  "mycpu if_on apicids apicid =
     (if if_on then Inl (Panic ''mycpu called with interrupts enabled'')
      else case find (\<lambda>i. apicids ! i = apicid) [0..<length apicids] of
        Some i \<Rightarrow> Inr i
      | None \<Rightarrow> Inl (Panic ''unknown apicid''))"

definition myproc :: "nat \<Rightarrow> 'a ptable_scheme \<Rightarrow> nat option" where
  "myproc c s = cpu_proc s c"

section \<open>Creation\<close>

definition alloc_slot :: "'a ptable_scheme \<Rightarrow> nat option" where
  "alloc_slot s = find (\<lambda>i. p_state (procs s ! i) = UNUSED) [0..<NPROC]"

text \<open>The initial kernel stack: return address \<open>trapret\<close> below the trap frame, then the context.\<close>

definition init_kstack :: "u32 \<Rightarrow> u32 \<Rightarrow> bytes \<Rightarrow> bytes" where
  "init_kstack trapret forkret b =
     put32 (mem_fill (put32 b (4096 - 76 - 4) trapret) (4096 - 76 - 4 - 20) 0 20) (4096 - 76 - 4 - 20 + 16) forkret"

text \<open>
  \<^verbatim>\<open>allocproc\<close> in two steps: the choice of the entry and its pid, under \<^verbatim>\<open>ptable.lock\<close>, and the set-up of
  the kernel stack, after the lock has been released.
\<close>

definition alloc_pid :: "'a ptable_scheme \<Rightarrow> nat option \<times> 'a ptable_scheme" where
  "alloc_pid s =
     (case alloc_slot s of
        None \<Rightarrow> (None, s)
      | Some i \<Rightarrow>
          let s = upd_proc i (\<lambda>p. p\<lparr>p_state := EMBRYO, p_pid := nextpid s\<rparr>) s
          in (Some i, s\<lparr>nextpid := int32 (nextpid s + 1)\<rparr>))"

definition alloc_kstack :: "u32 \<Rightarrow> u32 \<Rightarrow> nat \<Rightarrow> 'a ptable_scheme \<Rightarrow> nat option \<times> 'a ptable_scheme" where
  "alloc_kstack trapret forkret i s =
     (let (k, s) = kalloc s;
          s = upd_proc i (\<lambda>p. p\<lparr>p_kstack := k\<rparr>) s
      in if k = 0 then (None, upd_proc i (\<lambda>p. p\<lparr>p_state := UNUSED\<rparr>) s)
      else
        let s = upd_proc i (\<lambda>p. p\<lparr>p_tf := k + 4096 - 76, p_context := k + 4096 - 76 - 4 - 20\<rparr>) s
        in (Some i, set_page (frame_of k) (init_kstack trapret forkret (pages s (frame_of k))) s))"

definition allocproc :: "u32 \<Rightarrow> u32 \<Rightarrow> 'a ptable_scheme \<Rightarrow> nat option \<times> 'a ptable_scheme" where
  "allocproc trapret forkret s =
     (let (r, s) = alloc_pid s in
      case r of None \<Rightarrow> (None, s) | Some i \<Rightarrow> alloc_kstack trapret forkret i s)"

text \<open>Fields of the trap frame in the kernel stack page, by their offset in \<^verbatim>\<open>struct trapframe\<close>.\<close>

definition tf_put32 :: "nat \<Rightarrow> nat \<Rightarrow> u32 \<Rightarrow> 'a ptable_scheme \<Rightarrow> 'a ptable_scheme" where
  "tf_put32 i off v s =
     (let f = frame_of (p_kstack (procs s ! i)) in set_page f (put32 (pages s f) (4096 - 76 + off) v) s)"

definition tf_put16 :: "nat \<Rightarrow> nat \<Rightarrow> u16 \<Rightarrow> 'a ptable_scheme \<Rightarrow> 'a ptable_scheme" where
  "tf_put16 i off v s =
     (let f = frame_of (p_kstack (procs s ! i)) in set_page f (put16 (pages s f) (4096 - 76 + off) v) s)"

definition tf_clear :: "nat \<Rightarrow> 'a ptable_scheme \<Rightarrow> 'a ptable_scheme" where
  "tf_clear i s =
     (let f = frame_of (p_kstack (procs s ! i)) in set_page f (mem_fill (pages s f) (4096 - 76) 0 76) s)"

definition tf_copy :: "nat \<Rightarrow> nat \<Rightarrow> 'a ptable_scheme \<Rightarrow> 'a ptable_scheme" where
  "tf_copy np cur s =
     (let f = frame_of (p_kstack (procs s ! np)); g = frame_of (p_kstack (procs s ! cur))
      in set_page f (\<lambda>i. if 4096 - 76 \<le> i \<and> i < 4096 then pages s g i else pages s f i) s)"

definition userinit ::
  "u32 \<Rightarrow> u32 \<Rightarrow> u32 \<Rightarrow> u32 \<Rightarrow> u8 list \<Rightarrow> nat option \<Rightarrow> 'a ptable_scheme \<Rightarrow> 'a ptable_scheme res" where
  "userinit kend kdata trapret forkret initcode root s =
     (let (r, s) = allocproc trapret forkret s in
      case r of None \<Rightarrow> Inl (Fault ''userinit: no process'')
      | Some i \<Rightarrow>
          let s = s\<lparr>initproc := Some i\<rparr> in
          bnd (setupkvm kend kdata s) (\<lambda>(d, s).
          let s = upd_proc i (\<lambda>p. p\<lparr>p_pgdir := d\<rparr>) s in
          if d = 0 then Inl (Panic ''userinit: out of memory?'')
          else
            bnd (inituvm d initcode s) (\<lambda>s.
            let s = upd_proc i (\<lambda>p. p\<lparr>p_sz := 4096\<rparr>) s;
                s = tf_clear i s;
                s = tf_put16 i 60 (3 * 8 OR 3) s;
                s = tf_put16 i 44 (4 * 8 OR 3) s;
                s = tf_put16 i 40 (4 * 8 OR 3) s;
                s = tf_put16 i 72 (4 * 8 OR 3) s;
                s = tf_put32 i 64 0x200 s;
                s = tf_put32 i 68 4096 s;
                s = tf_put32 i 56 0 s
            in Inr (upd_proc i (\<lambda>p. p\<lparr>p_name := str ''initcode'', p_cwd := root, p_state := RUNNABLE\<rparr>) s))))"

definition growproc :: "u32 \<Rightarrow> nat \<Rightarrow> int \<Rightarrow> 'a ptable_scheme \<Rightarrow> (int \<times> 'a ptable_scheme) res" where
  "growproc kend cur n s =
     (let p = procs s ! cur; sz = p_sz p in
      bnd (if n > 0 then allocuvm kend (p_pgdir p) sz (sz + of_int n) s
           else if n < 0 then deallocuvm kend (p_pgdir p) sz (sz + of_int n) s
           else Inr (sz, s)) (\<lambda>(sz', s).
      if n \<noteq> 0 \<and> sz' = 0 then Inr (-1, s)
      else Inr (0, upd_proc cur (\<lambda>p. p\<lparr>p_sz := sz'\<rparr>) s)))"

text \<open>The file references of a new process: \<open>dup\<close> is \<^verbatim>\<open>filedup\<close>.\<close>

primrec dup_files :: "(nat \<Rightarrow> 's \<Rightarrow> 's res) \<Rightarrow> nat option list \<Rightarrow> 's \<Rightarrow> 's res" where
  "dup_files dup [] s = Inr s"
| "dup_files dup (x # xs) s = bnd (case x of None \<Rightarrow> Inr s | Some f \<Rightarrow> dup f s) (dup_files dup xs)"

definition inherit_files :: "nat option list \<Rightarrow> nat option list \<Rightarrow> nat option list" where
  "inherit_files old cur = map (\<lambda>i. if cur ! i \<noteq> None then cur ! i else old ! i) [0..<16]"

text \<open>
  \<^verbatim>\<open>fork\<close> after \<^verbatim>\<open>allocproc\<close>: the entry \<open>np\<close> is filled without \<^verbatim>\<open>ptable.lock\<close>, which is safe as long as it is
  an \<^verbatim>\<open>EMBRYO\<close>; then it becomes runnable under the lock. The result of \<open>fork_copy\<close> is whether there was memory
  for the copy.
\<close>

definition fork_copy ::
  "u32 \<Rightarrow> u32 \<Rightarrow> (nat \<Rightarrow> 'a ptable_scheme \<Rightarrow> 'a ptable_scheme res) \<Rightarrow>
   (nat option \<Rightarrow> 'a ptable_scheme \<Rightarrow> 'a ptable_scheme) \<Rightarrow> nat \<Rightarrow> nat \<Rightarrow> 'a ptable_scheme \<Rightarrow> (bool \<times> 'a ptable_scheme) res" where
  "fork_copy kend kdata filedup idup cur np s =
     bnd (copyuvm kend kdata (p_pgdir (procs s ! cur)) (p_sz (procs s ! cur)) s) (\<lambda>(d, s).
     let s = upd_proc np (\<lambda>p. p\<lparr>p_pgdir := d\<rparr>) s in
     if d = 0 then
       bnd (kfree kend (p_kstack (procs s ! np)) s) (\<lambda>s.
       Inr (False, upd_proc np (\<lambda>p. p\<lparr>p_kstack := 0, p_state := UNUSED\<rparr>) s))
     else
       let s = upd_proc np (\<lambda>p. p\<lparr>p_sz := p_sz (procs s ! cur), p_parent := Some cur\<rparr>) s;
           s = tf_copy np cur s;
           s = tf_put32 np 28 0 s
       in
       bnd (dup_files filedup (p_ofile (procs s ! cur)) s) (\<lambda>s.
       let s = upd_proc np (\<lambda>p. p\<lparr>p_ofile := inherit_files (p_ofile p) (p_ofile (procs s ! cur))\<rparr>) s;
           s = idup (p_cwd (procs s ! cur)) s;
           s = upd_proc np (\<lambda>p. p\<lparr>p_cwd := p_cwd (procs s ! cur), p_name := p_name (procs s ! cur)\<rparr>) s
       in Inr (True, s)))"

definition fork_start :: "nat \<Rightarrow> 'a ptable_scheme \<Rightarrow> int \<times> 'a ptable_scheme" where
  "fork_start np s = (p_pid (procs s ! np), upd_proc np (\<lambda>p. p\<lparr>p_state := RUNNABLE\<rparr>) s)"

definition fork ::
  "u32 \<Rightarrow> u32 \<Rightarrow> u32 \<Rightarrow> u32 \<Rightarrow> (nat \<Rightarrow> 'a ptable_scheme \<Rightarrow> 'a ptable_scheme res) \<Rightarrow>
   (nat option \<Rightarrow> 'a ptable_scheme \<Rightarrow> 'a ptable_scheme) \<Rightarrow> nat \<Rightarrow> 'a ptable_scheme \<Rightarrow> (int \<times> 'a ptable_scheme) res" where
  "fork kend kdata trapret forkret filedup idup cur s =
     (let (r, s) = allocproc trapret forkret s in
      case r of None \<Rightarrow> Inr (-1, s)
      | Some np \<Rightarrow>
          bnd (fork_copy kend kdata filedup idup cur np s) (\<lambda>(ok, s).
          if ok then Inr (fork_start np s) else Inr (-1, s)))"

section \<open>Sleep, wakeup, kill\<close>

definition wake :: "chan \<Rightarrow> proc \<Rightarrow> proc" where
  "wake c p = (if p_state p = SLEEPING \<and> p_chan p = Some c then p\<lparr>p_state := RUNNABLE\<rparr> else p)"

definition wakeup1 :: "chan \<Rightarrow> 'a ptable_scheme \<Rightarrow> 'a ptable_scheme" where
  "wakeup1 c s = s\<lparr>procs := map (wake c) (procs s)\<rparr>"

definition wakeup :: "chan \<Rightarrow> 'a ptable_scheme \<Rightarrow> 'a ptable_scheme" where
  "wakeup c s = wakeup1 c s"

text \<open>
  \<^verbatim>\<open>sched\<close>: the checks before the switch to the scheduler. \<open>held\<close>: this processor holds \<^verbatim>\<open>ptable.lock\<close>;
  \<open>ncli\<close> its interrupt nesting; \<open>if_on\<close> its interrupt flag. The switch leaves the processor without a process.
\<close>

definition sched :: "bool \<Rightarrow> int \<Rightarrow> bool \<Rightarrow> nat \<Rightarrow> nat \<Rightarrow> 'a ptable_scheme \<Rightarrow> 'a ptable_scheme res" where
  "sched held ncli if_on c cur s =
     (if \<not> held then Inl (Panic ''sched ptable.lock'')
      else if ncli \<noteq> 1 then Inl (Panic ''sched locks'')
      else if p_state (procs s ! cur) = RUNNING then Inl (Panic ''sched running'')
      else if if_on then Inl (Panic ''sched interruptible'')
      else Inr (s\<lparr>cpu_proc := (cpu_proc s)(c := None)\<rparr>))"

definition yield :: "nat \<Rightarrow> nat \<Rightarrow> 'a ptable_scheme \<Rightarrow> 'a ptable_scheme res" where
  "yield c cur s = sched True 1 False c cur (upd_proc cur (\<lambda>p. p\<lparr>p_state := RUNNABLE\<rparr>) s)"

text \<open>\<^verbatim>\<open>sleep\<close> up to the switch, with \<^verbatim>\<open>ptable.lock\<close> held; then what the process does when it runs again.\<close>

definition sleep :: "nat \<Rightarrow> nat option \<Rightarrow> chan \<Rightarrow> bool \<Rightarrow> 'a ptable_scheme \<Rightarrow> 'a ptable_scheme res" where
  "sleep c cur ch has_lk s =
     (case cur of None \<Rightarrow> Inl (Panic ''sleep'')
      | Some i \<Rightarrow>
          if \<not> has_lk then Inl (Panic ''sleep without lk'')
          else sched True 1 False c i (upd_proc i (\<lambda>p. p\<lparr>p_chan := Some ch, p_state := SLEEPING\<rparr>) s))"

definition sleep_resume :: "nat \<Rightarrow> 'a ptable_scheme \<Rightarrow> 'a ptable_scheme" where
  "sleep_resume i s = upd_proc i (\<lambda>p. p\<lparr>p_chan := None\<rparr>) s"

definition kill :: "int \<Rightarrow> 'a ptable_scheme \<Rightarrow> int \<times> 'a ptable_scheme" where
  "kill pid s =
     (case find (\<lambda>i. p_pid (procs s ! i) = pid) [0..<NPROC] of
        None \<Rightarrow> (-1, s)
      | Some i \<Rightarrow>
          (0, upd_proc i (\<lambda>p. p\<lparr>p_killed := True, p_state := (if p_state p = SLEEPING then RUNNABLE else p_state p)\<rparr>) s))"

section \<open>The scheduler\<close>

text \<open>\<^verbatim>\<open>switchuvm\<close>: its checks; the loads of descriptors and page table are in \<open>Segments\<close>.\<close>

definition switchuvm :: "proc \<Rightarrow> unit res" where
  "switchuvm p =
     (if p_kstack p = 0 then Inl (Panic ''switchuvm: no kstack'')
      else if p_pgdir p = 0 then Inl (Panic ''switchuvm: no pgdir'')
      else Inr ())"

text \<open>One dispatch of \<^verbatim>\<open>scheduler\<close>: the first runnable process from position \<open>i\<close> on runs on processor \<open>c\<close>.\<close>

definition dispatch :: "nat \<Rightarrow> nat \<Rightarrow> 'a ptable_scheme \<Rightarrow> (nat option \<times> 'a ptable_scheme) res" where
  "dispatch c i s =
     (case find (\<lambda>j. p_state (procs s ! j) = RUNNABLE) [i..<NPROC] of
        None \<Rightarrow> Inr (None, s)
      | Some j \<Rightarrow>
          let s = s\<lparr>cpu_proc := (cpu_proc s)(c := Some j)\<rparr> in
          bnd (switchuvm (procs s ! j)) (\<lambda>_.
          Inr (Some j, upd_proc j (\<lambda>p. p\<lparr>p_state := RUNNING\<rparr>) s)))"

section \<open>Exit and wait\<close>

primrec close_files :: "(nat \<Rightarrow> 's \<Rightarrow> 's res) \<Rightarrow> nat option list \<Rightarrow> 's \<Rightarrow> 's res" where
  "close_files close [] s = Inr s"
| "close_files close (x # xs) s = bnd (case x of None \<Rightarrow> Inr s | Some f \<Rightarrow> close f s) (close_files close xs)"

text \<open>\<open>pass_child\<close>: an abandoned child goes to init, which is woken for a zombie.\<close>

definition pass_child :: "nat \<Rightarrow> nat option \<Rightarrow> nat \<Rightarrow> 'a ptable_scheme \<Rightarrow> 'a ptable_scheme" where
  "pass_child cur init i s =
     (if p_parent (procs s ! i) = Some cur then
        let s = upd_proc i (\<lambda>p. p\<lparr>p_parent := init\<rparr>) s in
        if p_state (procs s ! i) = ZOMBIE then
          (case init of None \<Rightarrow> s | Some j \<Rightarrow> wakeup1 (ChanProc j) s)
        else s
      else s)"

definition exit_table :: "nat \<Rightarrow> nat \<Rightarrow> 'a ptable_scheme \<Rightarrow> 'a ptable_scheme res" where
  "exit_table c cur s =
     (let s = (case p_parent (procs s ! cur) of None \<Rightarrow> s | Some q \<Rightarrow> wakeup1 (ChanProc q) s);
          s = fold (pass_child cur (initproc s)) [0..<NPROC] s;
          s = upd_proc cur (\<lambda>p. p\<lparr>p_state := ZOMBIE\<rparr>) s
      in sched True 1 False c cur s)"

text \<open>\<open>close\<close> is \<^verbatim>\<open>fileclose\<close>, \<open>put_cwd\<close> the transaction around \<^verbatim>\<open>iput\<close> of the current directory.\<close>

definition exit ::
  "(nat \<Rightarrow> 'a ptable_scheme \<Rightarrow> 'a ptable_scheme res) \<Rightarrow> (nat option \<Rightarrow> 'a ptable_scheme \<Rightarrow> 'a ptable_scheme res) \<Rightarrow>
   nat \<Rightarrow> nat \<Rightarrow> 'a ptable_scheme \<Rightarrow> 'a ptable_scheme res" where
  "exit close put_cwd c cur s =
     (if initproc s = Some cur then Inl (Panic ''init exiting'')
      else
        bnd (close_files close (p_ofile (procs s ! cur)) s) (\<lambda>s.
        let s = upd_proc cur (\<lambda>p. p\<lparr>p_ofile := replicate 16 None\<rparr>) s in
        bnd (put_cwd (p_cwd (procs s ! cur)) s) (\<lambda>s.
        let s = upd_proc cur (\<lambda>p. p\<lparr>p_cwd := None\<rparr>) s in
        exit_table c cur s)))"

datatype wait_out = Reaped int | NoChild | Waiting

definition reap :: "u32 \<Rightarrow> nat \<Rightarrow> 'a ptable_scheme \<Rightarrow> (int \<times> 'a ptable_scheme) res" where
  "reap kend i s =
     (let pid = p_pid (procs s ! i) in
      bnd (kfree kend (p_kstack (procs s ! i)) s) (\<lambda>s.
      let s = upd_proc i (\<lambda>p. p\<lparr>p_kstack := 0\<rparr>) s in
      bnd (freevm kend (p_pgdir (procs s ! i)) s) (\<lambda>s.
      Inr (pid, upd_proc i (\<lambda>p. p\<lparr>p_pid := 0, p_parent := None, p_name := 0 # drop 1 (p_name p), p_killed := False,
        p_state := UNUSED\<rparr>) s))))"

text \<open>One round of the loop of \<^verbatim>\<open>wait\<close>: it returns, or sleeps on the process itself.\<close>

definition wait :: "u32 \<Rightarrow> nat \<Rightarrow> nat \<Rightarrow> 'a ptable_scheme \<Rightarrow> (wait_out \<times> 'a ptable_scheme) res" where
  "wait kend c cur s =
     (case find (\<lambda>i. p_parent (procs s ! i) = Some cur \<and> p_state (procs s ! i) = ZOMBIE) [0..<NPROC] of
        Some i \<Rightarrow> bnd (reap kend i s) (\<lambda>(pid, s). Inr (Reaped pid, s))
      | None \<Rightarrow>
          if \<not> (\<exists>i \<in> set [0..<NPROC]. p_parent (procs s ! i) = Some cur) \<or> p_killed (procs s ! cur) then Inr (NoChild, s)
          else bnd (sleep c (Some cur) (ChanProc cur) True s) (\<lambda>s. Inr (Waiting, s)))"

section \<open>Effects on the table\<close>

lemma table_frame:
  fixes s s' :: "'a ptable_scheme"
  assumes "kmem.more s' = kmem.more s"
  shows "procs s' = procs s" "nextpid s' = nextpid s" "initproc s' = initproc s" "cpu_proc s' = cpu_proc s"
  using assms by (cases s; cases s'; simp)+

lemma set_page_table [simp]:
  "procs (set_page f b s) = procs s" "nextpid (set_page f b s) = nextpid s" "initproc (set_page f b s) = initproc s"
  "cpu_proc (set_page f b s) = cpu_proc s"
  by (simp_all add: set_page_def)

lemma upd_proc_table [simp]:
  "length (procs (upd_proc i f s)) = length (procs s)" "nextpid (upd_proc i f s) = nextpid s"
  "initproc (upd_proc i f s) = initproc s" "cpu_proc (upd_proc i f s) = cpu_proc s"
  by (simp_all add: upd_proc_def)

lemma procs_upd_proc: "i < length (procs s) \<Longrightarrow> procs (upd_proc i f s) ! j = (if j = i then f (procs s ! i) else procs s ! j)"
  by (simp add: upd_proc_def nth_list_update)

lemma tf_table [simp]:
  "procs (tf_copy a b s) = procs s" "nextpid (tf_copy a b s) = nextpid s" "cpu_proc (tf_copy a b s) = cpu_proc s"
  "procs (tf_put32 a x v s) = procs s" "nextpid (tf_put32 a x v s) = nextpid s" "cpu_proc (tf_put32 a x v s) = cpu_proc s"
  by (simp_all add: tf_copy_def tf_put32_def Let_def)

lemma find_less: "find P [a..<b] = Some i \<Longrightarrow> P i \<and> a \<le> i \<and> i < b"
  by (auto simp: find_Some_iff2 dest!: sym [of _ "_ ! _"]) (auto simp: find_Some_iff)

definition table_same :: "'a ptable_scheme \<Rightarrow> 'a ptable_scheme \<Rightarrow> bool" where
  "table_same s s' \<longleftrightarrow> procs s' = procs s \<and> nextpid s' = nextpid s \<and> initproc s' = initproc s \<and> cpu_proc s' = cpu_proc s"

lemma dup_files_table:
  assumes "\<And>f t t'. dup f t = Inr t' \<Longrightarrow> table_same t t'" "dup_files dup xs s = Inr s'"
  shows "table_same s s'"
  using assms(2)
proof (induction xs arbitrary: s)
  case (Cons x xs)
  then obtain t where "(case x of None \<Rightarrow> Inr s | Some f \<Rightarrow> dup f s) = Inr t" "dup_files dup xs t = Inr s'"
    by (auto simp: bnd_eq_Inr)
  moreover from this have "table_same s t" using assms(1) by (cases x) (simp_all add: table_same_def)
  ultimately have "table_same s t" "dup_files dup xs t = Inr s'" by simp_all
  with Cons.IH [of t] show ?case by (auto simp: table_same_def)
qed (simp add: table_same_def)

text \<open>
  \<open>only_entry np s s'\<close>: of the table only the entry \<open>np\<close> has changed, and not its pid; its state is what it
  was or \<open>UNUSED\<close>.
\<close>

definition only_entry :: "nat \<Rightarrow> 'a ptable_scheme \<Rightarrow> 'a ptable_scheme \<Rightarrow> bool" where
  "only_entry np s s' \<longleftrightarrow> length (procs s') = length (procs s) \<and> nextpid s' = nextpid s \<and> cpu_proc s' = cpu_proc s \<and>
     (\<forall>j. j \<noteq> np \<longrightarrow> procs s' ! j = procs s ! j) \<and> p_pid (procs s' ! np) = p_pid (procs s ! np) \<and>
     (p_state (procs s' ! np) = p_state (procs s ! np) \<or> p_state (procs s' ! np) = UNUSED)"

lemma only_entry_refl: "only_entry np s s"
  by (simp add: only_entry_def)

lemma only_entry_upd:
  assumes "only_entry np s t" "\<And>p. p_pid (f p) = p_pid p" "\<And>p. p_state (f p) = p_state p \<or> p_state (f p) = UNUSED"
  shows "only_entry np s (upd_proc np f t)"
proof (cases "np < length (procs t)")
  case True
  then show ?thesis using assms(1,2) assms(3) [of "procs t ! np"] by (auto simp: only_entry_def procs_upd_proc)
next
  case False
  then have "procs (upd_proc np f t) = procs t" by (simp add: upd_proc_def list_update_beyond)
  then show ?thesis using assms(1) by (simp add: only_entry_def)
qed

lemma only_entry_same: "only_entry np s t \<Longrightarrow> table_same t t' \<Longrightarrow> only_entry np s t'"
  by (simp add: only_entry_def table_same_def)

lemma only_entry_more: "only_entry np s t \<Longrightarrow> kmem.more t' = kmem.more t \<Longrightarrow> only_entry np s t'"
  using table_frame [of t' t] by (simp add: only_entry_def)

lemma alloc_kstack_table:
  assumes "alloc_kstack trapret forkret np s = (r, s')"
  shows "only_entry np s s'"
proof -
  obtain k t where k: "kalloc s = (k, t)" by fastforce
  have t: "only_entry np s t" using only_entry_refl kalloc_more [OF k] by (rule only_entry_more)
  let ?t = "upd_proc np (\<lambda>p. p\<lparr>p_kstack := k\<rparr>) t"
  have u: "only_entry np s ?t" using t by (rule only_entry_upd) simp_all
  have "only_entry np s (upd_proc np (\<lambda>p. p\<lparr>p_state := UNUSED\<rparr>) ?t)"
    "only_entry np s (upd_proc np (\<lambda>p. p\<lparr>p_tf := k + 4096 - 76, p_context := k + 4096 - 76 - 4 - 20\<rparr>) ?t)"
    using u by (rule only_entry_upd; simp)+
  then show ?thesis using assms k
    by (auto simp: alloc_kstack_def Let_def table_same_def split: if_splits intro: only_entry_same)
qed

lemma fork_copy_table:
  fixes s :: "'a ptable_scheme"
  assumes "fork_copy kend kdata filedup idup cur np s = Inr (ok, s')"
    "\<And>f t t'. filedup f t = Inr t' \<Longrightarrow> table_same t t'" "\<And>x t. table_same t (idup x t)"
  shows "only_entry np s s'"
proof -
  obtain d t where c: "copyuvm kend kdata (p_pgdir (procs s ! cur)) (p_sz (procs s ! cur)) s = Inr (d, t)"
    using assms(1) by (auto simp: fork_copy_def bnd_eq_Inr)
  define s2 where "s2 = upd_proc np (\<lambda>p. p\<lparr>p_pgdir := d\<rparr>) t"
  have n2: "only_entry np s s2" unfolding s2_def
    by (intro only_entry_upd only_entry_more [OF only_entry_refl copyuvm_more [OF c]]) simp_all
  show ?thesis
  proof (cases "d = 0")
    case True
    then obtain s3 where k: "kfree kend (p_kstack (procs s2 ! np)) s2 = Inr s3"
      "s' = upd_proc np (\<lambda>p. p\<lparr>p_kstack := 0, p_state := UNUSED\<rparr>) s3"
      using assms(1) c by (auto simp: fork_copy_def bnd_eq_Inr Let_def s2_def)
    have "only_entry np s s3" by (rule only_entry_more [OF n2 kfree_more [OF k(1)]])
    then show ?thesis unfolding k(2) by (rule only_entry_upd) simp_all
  next
    case False
    define s3 where "s3 = tf_put32 np 28 0 (tf_copy np cur (upd_proc np (\<lambda>p. p\<lparr>p_sz := p_sz (procs s2 ! cur), p_parent := Some cur\<rparr>) s2))"
    have n3: "only_entry np s s3" unfolding s3_def
    proof (rule only_entry_same)
      show "only_entry np s (upd_proc np (\<lambda>p. p\<lparr>p_sz := p_sz (procs s2 ! cur), p_parent := Some cur\<rparr>) s2)"
        using n2 by (rule only_entry_upd) simp_all
    qed (simp add: table_same_def tf_copy_def tf_put32_def Let_def)
    obtain s4 where d: "dup_files filedup (p_ofile (procs s3 ! cur)) s3 = Inr s4"
      and s': "Inr (ok, s') = (let s = upd_proc np (\<lambda>p. p\<lparr>p_ofile := inherit_files (p_ofile p) (p_ofile (procs s4 ! cur))\<rparr>) s4;
            s = idup (p_cwd (procs s ! cur)) s;
            s = upd_proc np (\<lambda>p. p\<lparr>p_cwd := p_cwd (procs s ! cur), p_name := p_name (procs s ! cur)\<rparr>) s
        in (Inr (True, s) :: (bool \<times> 'a ptable_scheme) res))"
      using assms(1) c False by (auto simp: fork_copy_def bnd_eq_Inr Let_def s2_def s3_def)
    have n4: "only_entry np s s4" by (rule only_entry_same [OF n3 dup_files_table [OF assms(2) d]])
    define s5 where "s5 = upd_proc np (\<lambda>p. p\<lparr>p_ofile := inherit_files (p_ofile p) (p_ofile (procs s4 ! cur))\<rparr>) s4"
    have n5: "only_entry np s s5" unfolding s5_def using n4 by (rule only_entry_upd) simp_all
    define s6 where "s6 = idup (p_cwd (procs s5 ! cur)) s5"
    have n6: "only_entry np s s6" unfolding s6_def using n5 assms(3) by (rule only_entry_same)
    have "s' = upd_proc np (\<lambda>p. p\<lparr>p_cwd := p_cwd (procs s6 ! cur), p_name := p_name (procs s6 ! cur)\<rparr>) s6"
      using s' by (simp add: Let_def s5_def s6_def)
    then show ?thesis using n6 by (simp add: only_entry_upd)
  qed
qed

section \<open>The table invariant\<close>

text \<open>
  As long as \<^verbatim>\<open>nextpid\<close> has not overflowed, the case \<open>b\<close>, pids of processes are positive, smaller than
  \<^verbatim>\<open>nextpid\<close> and distinct. In any case a process is \<open>RUNNING\<close> exactly
  if a processor has it as its current one, and no two processors have the same; a sleeping
  process has a channel.
\<close>

definition tab_inv :: "bool \<Rightarrow> 'a ptable_scheme \<Rightarrow> bool" where
  "tab_inv b s \<longleftrightarrow>
     length (procs s) = NPROC \<and> (b \<longrightarrow> 0 < nextpid s) \<and>
     (b \<longrightarrow> (\<forall>i<NPROC. p_state (procs s ! i) \<noteq> UNUSED \<longrightarrow> 0 < p_pid (procs s ! i) \<and> p_pid (procs s ! i) < nextpid s)) \<and>
     (b \<longrightarrow> (\<forall>i<NPROC. \<forall>j<NPROC. p_state (procs s ! i) \<noteq> UNUSED \<longrightarrow> p_state (procs s ! j) \<noteq> UNUSED \<longrightarrow>
        p_pid (procs s ! i) = p_pid (procs s ! j) \<longrightarrow> i = j)) \<and>
     (\<forall>c i. cpu_proc s c = Some i \<longrightarrow> i < NPROC \<and> p_state (procs s ! i) = RUNNING) \<and>
     (\<forall>i<NPROC. p_state (procs s ! i) = RUNNING \<longrightarrow> (\<exists>c. cpu_proc s c = Some i)) \<and>
     (\<forall>c d i. cpu_proc s c = Some i \<longrightarrow> cpu_proc s d = Some i \<longrightarrow> c = d) \<and>
     (\<forall>i<NPROC. p_state (procs s ! i) = SLEEPING \<longrightarrow> p_chan (procs s ! i) \<noteq> None)"

abbreviation table_inv :: "'a ptable_scheme \<Rightarrow> bool" where
  "table_inv \<equiv> tab_inv True"

text \<open>
  What may happen, in steps that are atomic in the code because they run under \<^verbatim>\<open>ptable.lock\<close> or touch only an
  entry that is an \<^verbatim>\<open>EMBRYO\<close>, which no other process touches: the process \<open>i\<close> that runs on processor \<open>c\<close> takes an entry and
  a pid for a child, sets up its stack, copies itself into it or starts it; it sleeps, yields, exits
  or waits; a processor without a process dispatches one; anything may wake a channel or kill a
  pid. The first argument counts the pids taken.
\<close>

inductive proc_step :: "nat \<Rightarrow> 'a ptable_scheme \<Rightarrow> 'a ptable_scheme \<Rightarrow> bool" where
  allocs: "cpu_proc s c = Some i \<Longrightarrow> alloc_pid s = (r, s') \<Longrightarrow> proc_step 1 s s'"
| stacks: "cpu_proc s c = Some i \<Longrightarrow> np < NPROC \<Longrightarrow> p_state (procs s ! np) = EMBRYO \<Longrightarrow>
    alloc_kstack trapret forkret np s = (r, s') \<Longrightarrow> proc_step 0 s s'"
| copies: "cpu_proc s c = Some i \<Longrightarrow> np < NPROC \<Longrightarrow> p_state (procs s ! np) = EMBRYO \<Longrightarrow>
    (\<And>f t t'. filedup f t = Inr t' \<Longrightarrow> table_same t t') \<Longrightarrow> (\<And>x t. table_same t (idup x t)) \<Longrightarrow>
    fork_copy kend kdata filedup idup i np s = Inr (ok, s') \<Longrightarrow> proc_step 0 s s'"
| starts: "cpu_proc s c = Some i \<Longrightarrow> np < NPROC \<Longrightarrow> p_state (procs s ! np) = EMBRYO \<Longrightarrow>
    fork_start np s = (pid, s') \<Longrightarrow> proc_step 0 s s'"
| sleeps: "cpu_proc s c = Some i \<Longrightarrow> sleep c (Some i) ch True s = Inr s' \<Longrightarrow> proc_step 0 s s'"
| yields: "cpu_proc s c = Some i \<Longrightarrow> yield c i s = Inr s' \<Longrightarrow> proc_step 0 s s'"
| exits: "cpu_proc s c = Some i \<Longrightarrow> exit_table c i s = Inr s' \<Longrightarrow> proc_step 0 s s'"
| waits: "cpu_proc s c = Some i \<Longrightarrow> wait kend c i s = Inr (w, s') \<Longrightarrow> proc_step 0 s s'"
| dispatches: "cpu_proc s c = None \<Longrightarrow> dispatch c j s = Inr (r, s') \<Longrightarrow> proc_step 0 s s'"
| wakes: "proc_step 0 s (wakeup ch s)"
| kills: "kill pid s = (r, s') \<Longrightarrow> proc_step 0 s s'"
| resumes: "p_state (procs s ! i) = RUNNING \<Longrightarrow> proc_step 0 s (sleep_resume i s)"

text \<open>A history in which at most \<open>n\<close> pids are taken.\<close>

inductive proc_run :: "nat \<Rightarrow> 'a ptable_scheme \<Rightarrow> 'a ptable_scheme \<Rightarrow> bool" where
  run_none: "proc_run 0 s s"
| run_step: "proc_run n s t \<Longrightarrow> proc_step k t u \<Longrightarrow> proc_run (n + k) s u"

lemma table_invD:
  assumes "tab_inv b s"
  shows "length (procs s) = NPROC" "b \<longrightarrow> 0 < nextpid s"
    "b \<Longrightarrow> i < NPROC \<Longrightarrow> p_state (procs s ! i) \<noteq> UNUSED \<Longrightarrow> 0 < p_pid (procs s ! i) \<and> p_pid (procs s ! i) < nextpid s"
    "b \<Longrightarrow> i < NPROC \<Longrightarrow> j < NPROC \<Longrightarrow> p_state (procs s ! i) \<noteq> UNUSED \<Longrightarrow> p_state (procs s ! j) \<noteq> UNUSED \<Longrightarrow>
      p_pid (procs s ! i) = p_pid (procs s ! j) \<Longrightarrow> i = j"
    "cpu_proc s c = Some i \<Longrightarrow> i < NPROC \<and> p_state (procs s ! i) = RUNNING"
    "i < NPROC \<Longrightarrow> p_state (procs s ! i) = RUNNING \<Longrightarrow> \<exists>c. cpu_proc s c = Some i"
    "cpu_proc s c = Some i \<Longrightarrow> cpu_proc s d = Some i \<Longrightarrow> c = d"
    "i < NPROC \<Longrightarrow> p_state (procs s ! i) = SLEEPING \<Longrightarrow> p_chan (procs s ! i) \<noteq> None"
  using assms unfolding tab_inv_def by blast+

lemma table_invI:
  assumes "length (procs s) = NPROC" "b \<longrightarrow> 0 < nextpid s"
    "\<And>i. b \<Longrightarrow> i < NPROC \<Longrightarrow> p_state (procs s ! i) \<noteq> UNUSED \<Longrightarrow> 0 < p_pid (procs s ! i) \<and> p_pid (procs s ! i) < nextpid s"
    "\<And>i j. b \<Longrightarrow> i < NPROC \<Longrightarrow> j < NPROC \<Longrightarrow> p_state (procs s ! i) \<noteq> UNUSED \<Longrightarrow> p_state (procs s ! j) \<noteq> UNUSED \<Longrightarrow>
      p_pid (procs s ! i) = p_pid (procs s ! j) \<Longrightarrow> i = j"
    "\<And>c i. cpu_proc s c = Some i \<Longrightarrow> i < NPROC \<and> p_state (procs s ! i) = RUNNING"
    "\<And>i. i < NPROC \<Longrightarrow> p_state (procs s ! i) = RUNNING \<Longrightarrow> \<exists>c. cpu_proc s c = Some i"
    "\<And>c d i. cpu_proc s c = Some i \<Longrightarrow> cpu_proc s d = Some i \<Longrightarrow> c = d"
    "\<And>i. i < NPROC \<Longrightarrow> p_state (procs s ! i) = SLEEPING \<Longrightarrow> p_chan (procs s ! i) \<noteq> None"
  shows "tab_inv b s"
  unfolding tab_inv_def using assms(1,2)
  by (intro conjI) ((intro allI impI, elim assms(3-8)) | simp)+

text \<open>A change of one entry that was not running, to a state that is not running, keeping its pid or freeing it.\<close>

lemma table_inv_entry:
  assumes "tab_inv b s" "i < NPROC" "p_state (procs s ! i) \<noteq> RUNNING"
    "length (procs s') = NPROC" "\<forall>j. j \<noteq> i \<longrightarrow> procs s' ! j = procs s ! j" "cpu_proc s' = cpu_proc s" "b \<longrightarrow> nextpid s \<le> nextpid s'"
    "p_state (procs s' ! i) \<noteq> RUNNING" "p_state (procs s' ! i) = SLEEPING \<longrightarrow> p_chan (procs s' ! i) \<noteq> None"
    "b \<longrightarrow> p_state (procs s' ! i) = UNUSED \<or> p_state (procs s ! i) \<noteq> UNUSED \<and> p_pid (procs s' ! i) = p_pid (procs s ! i) \<or>
      p_pid (procs s' ! i) = nextpid s \<and> nextpid s < nextpid s'"
  shows "tab_inv b s'"
proof -
  note d = table_invD [OF assms(1)]
  have pid: "0 < p_pid (procs s' ! j) \<and> p_pid (procs s' ! j) < nextpid s'" if b "j < NPROC" "p_state (procs s' ! j) \<noteq> UNUSED" for j
    using d(2) d(3) [of j] that assms(5,7,10) by (cases "j = i") auto
  have uniq: "j = k" if b "j < NPROC" "k < NPROC" "p_state (procs s' ! j) \<noteq> UNUSED" "p_state (procs s' ! k) \<noteq> UNUSED"
    "p_pid (procs s' ! j) = p_pid (procs s' ! k)" for j k
    using that d(3) [of j] d(3) [of k] d(4) [of j k] assms(5,10) by (cases "j = i"; cases "k = i") force+
  have run: "k < NPROC \<and> p_state (procs s' ! k) = RUNNING" if "cpu_proc s' c = Some k" for c k
    using d(5) [of c k] that assms(3,5,6) by (cases "k = i") auto
  have cpu: "\<exists>c. cpu_proc s' c = Some k" if "k < NPROC" "p_state (procs s' ! k) = RUNNING" for k
    using d(6) [of k] that assms(5,6,8) by (cases "k = i") auto
  have slp: "p_chan (procs s' ! k) \<noteq> None" if "k < NPROC" "p_state (procs s' ! k) = SLEEPING" for k
    using d(8) [of k] that assms(5,9) by (cases "k = i") auto
  have one: "c = e" if "cpu_proc s' c = Some k" "cpu_proc s' e = Some k" for c e k
    using that d(7) [of c k e] assms(6) by simp
  have "b \<longrightarrow> 0 < nextpid s'" using assms(7) d(2) by auto
  with assms(4) show ?thesis by (rule table_invI) (fact pid uniq run cpu one slp)+
qed

text \<open>Soft changes: nothing the invariant speaks of, except that sleepers become runnable.\<close>

definition soft :: "'a ptable_scheme \<Rightarrow> 'a ptable_scheme \<Rightarrow> bool" where
  "soft s s' \<longleftrightarrow> length (procs s') = length (procs s) \<and> nextpid s' = nextpid s \<and> cpu_proc s' = cpu_proc s \<and>
     (\<forall>i<length (procs s). p_pid (procs s' ! i) = p_pid (procs s ! i) \<and>
        (p_state (procs s' ! i) = p_state (procs s ! i) \<or> p_state (procs s ! i) = SLEEPING \<and> p_state (procs s' ! i) = RUNNABLE) \<and>
        (p_state (procs s' ! i) = SLEEPING \<longrightarrow> p_chan (procs s' ! i) = p_chan (procs s ! i)))"

lemma soft_refl [simp]: "soft s s"
  by (simp add: soft_def)

lemma soft_trans:
  assumes "soft s t" "soft t u"
  shows "soft s u"
proof -
  have "p_pid (procs u ! i) = p_pid (procs s ! i) \<and>
        (p_state (procs u ! i) = p_state (procs s ! i) \<or> p_state (procs s ! i) = SLEEPING \<and> p_state (procs u ! i) = RUNNABLE) \<and>
        (p_state (procs u ! i) = SLEEPING \<longrightarrow> p_chan (procs u ! i) = p_chan (procs s ! i))" if "i < length (procs s)" for i
  proof -
    from assms(1) that have a: "p_pid (procs t ! i) = p_pid (procs s ! i)"
      "p_state (procs t ! i) = p_state (procs s ! i) \<or> p_state (procs s ! i) = SLEEPING \<and> p_state (procs t ! i) = RUNNABLE"
      "p_state (procs t ! i) = SLEEPING \<longrightarrow> p_chan (procs t ! i) = p_chan (procs s ! i)" by (auto simp: soft_def)
    from assms that have "p_pid (procs u ! i) = p_pid (procs t ! i)"
      "p_state (procs u ! i) = p_state (procs t ! i) \<or> p_state (procs t ! i) = SLEEPING \<and> p_state (procs u ! i) = RUNNABLE"
      "p_state (procs u ! i) = SLEEPING \<longrightarrow> p_chan (procs u ! i) = p_chan (procs t ! i)" by (auto simp: soft_def)
    with a show ?thesis by auto
  qed
  with assms show ?thesis by (simp add: soft_def)
qed

lemma soft_upd_proc:
  assumes "\<And>p. p_pid (f p) = p_pid p"
    "\<And>p. p_state (f p) = p_state p \<or> p_state p = SLEEPING \<and> p_state (f p) = RUNNABLE"
    "p_state (procs s ! i) = SLEEPING \<Longrightarrow> p_state (f (procs s ! i)) = SLEEPING \<Longrightarrow> p_chan (f (procs s ! i)) = p_chan (procs s ! i)"
  shows "soft s (upd_proc i f s)"
proof (cases "i < length (procs s)")
  case True
  have "p_state (f (procs s ! i)) = SLEEPING \<longrightarrow> p_chan (f (procs s ! i)) = p_chan (procs s ! i)"
    using assms(2) [of "procs s ! i"] assms(3) by auto
  then show ?thesis using True assms(1,2) by (auto simp: soft_def procs_upd_proc)
next
  case False
  then have "procs (upd_proc i f s) = procs s" by (simp add: upd_proc_def list_update_beyond)
  then show ?thesis by (simp add: soft_def)
qed

lemma soft_wakeup1: "soft s (wakeup1 c s)"
  by (auto simp: soft_def wakeup1_def wake_def)

lemma soft_pass_child: "soft s (pass_child cur init i s)"
proof -
  let ?s = "upd_proc i (\<lambda>p. p\<lparr>p_parent := init\<rparr>) s"
  have "soft s ?s" by (rule soft_upd_proc) simp_all
  moreover have "soft ?s (wakeup1 c ?s)" for c by (rule soft_wakeup1)
  ultimately show ?thesis using soft_trans [of s ?s] by (auto simp: pass_child_def Let_def split: option.split)
qed

lemma soft_fold: "(\<And>x s. soft s (f x s)) \<Longrightarrow> soft s (fold f xs s)"
  by (induction xs arbitrary: s) (auto intro: soft_trans)

lemma table_inv_soft:
  assumes "tab_inv b s" "soft s s'"
  shows "tab_inv b s'"
proof -
  note d = table_invD [OF assms(1)]
  have len: "length (procs s') = NPROC" "nextpid s' = nextpid s" "cpu_proc s' = cpu_proc s" using assms(2) d(1) by (simp_all add: soft_def)
  have e: "p_pid (procs s' ! i) = p_pid (procs s ! i)"
    "p_state (procs s' ! i) = p_state (procs s ! i) \<or> p_state (procs s ! i) = SLEEPING \<and> p_state (procs s' ! i) = RUNNABLE"
    "p_state (procs s' ! i) = SLEEPING \<longrightarrow> p_chan (procs s' ! i) = p_chan (procs s ! i)" if "i < NPROC" for i
    using assms(2) d(1) that by (auto simp: soft_def)
  have u: "p_state (procs s' ! i) = UNUSED \<longleftrightarrow> p_state (procs s ! i) = UNUSED"
    "p_state (procs s' ! i) = RUNNING \<longleftrightarrow> p_state (procs s ! i) = RUNNING"
    "p_state (procs s' ! i) = SLEEPING \<Longrightarrow> p_state (procs s ! i) = SLEEPING" if "i < NPROC" for i
    using e(2) [OF that] by auto
  have a: "0 < p_pid (procs s' ! j) \<and> p_pid (procs s' ! j) < nextpid s'" if b "j < NPROC" "p_state (procs s' ! j) \<noteq> UNUSED" for j
    using d(3) [of j] that u(1) e(1) len by simp
  have b: "j = k" if b "j < NPROC" "k < NPROC" "p_state (procs s' ! j) \<noteq> UNUSED" "p_state (procs s' ! k) \<noteq> UNUSED"
    "p_pid (procs s' ! j) = p_pid (procs s' ! k)" for j k
    using d(4) [of j k] that u(1) e(1) by simp
  have f: "k < NPROC \<and> p_state (procs s' ! k) = RUNNING" if "cpu_proc s' x = Some k" for x k
    using d(5) [of x k] that u(2) len by simp
  have g: "\<exists>x. cpu_proc s' x = Some k" if "k < NPROC" "p_state (procs s' ! k) = RUNNING" for k
    using d(6) [of k] that u(2) len by simp
  have h: "x = y" if "cpu_proc s' x = Some k" "cpu_proc s' y = Some k" for x y k
    using d(7) [of x k y] that len by simp
  have l: "p_chan (procs s' ! k) \<noteq> None" if "k < NPROC" "p_state (procs s' ! k) = SLEEPING" for k
    using d(8) [of k] that u(3) e(3) by simp
  have "b \<longrightarrow> 0 < nextpid s'" using d(2) len by simp
  with len(1) show ?thesis by (rule table_invI) (fact a b f g h l)+
qed

text \<open>The running process leaves its processor.\<close>

lemma table_inv_leave:
  assumes "tab_inv b s" "cpu_proc s c = Some i" "p_state st' \<noteq> RUNNING" "p_state st' \<noteq> UNUSED" "p_pid st' = p_pid (procs s ! i)"
    "p_state st' = SLEEPING \<longrightarrow> p_chan st' \<noteq> None"
  shows "tab_inv b (s\<lparr>procs := (procs s)[i := st'], cpu_proc := (cpu_proc s)(c := None)\<rparr>)"
proof -
  note d = table_invD [OF assms(1)]
  have i: "i < NPROC" "p_state (procs s ! i) = RUNNING" using d(5) [OF assms(2)] by auto
  then have g: "(procs s)[i := st'] ! j = (if j = i then st' else procs s ! j)" for j using d(1) by (simp add: nth_list_update)
  have cpu: "e \<noteq> c" if "cpu_proc s e = Some k" "k \<noteq> i" for e k using that assms(2) by auto
  have only: "k \<noteq> i" if "cpu_proc s e = Some k" "e \<noteq> c" for e k using that assms(2) d(7) [of e i c] by blast
  let ?s = "s\<lparr>procs := (procs s)[i := st'], cpu_proc := (cpu_proc s)(c := None)\<rparr>"
  have a: "0 < p_pid (procs ?s ! j) \<and> p_pid (procs ?s ! j) < nextpid ?s" if b "j < NPROC" "p_state (procs ?s ! j) \<noteq> UNUSED" for j
    using d(3) [of j] that i assms(5) by (auto simp: g)
  have b: "j = k" if b "j < NPROC" "k < NPROC" "p_state (procs ?s ! j) \<noteq> UNUSED" "p_state (procs ?s ! k) \<noteq> UNUSED"
    "p_pid (procs ?s ! j) = p_pid (procs ?s ! k)" for j k
    using d(4) [of j k] that i assms(5) by (cases "j = i"; cases "k = i") (simp_all add: g)
  have e: "k < NPROC \<and> p_state (procs ?s ! k) = RUNNING" if "cpu_proc ?s x = Some k" for x k
    using d(5) [of x k] only [of x k] that by (auto simp: g split: if_splits)
  have f: "\<exists>x. cpu_proc ?s x = Some k" if "k < NPROC" "p_state (procs ?s ! k) = RUNNING" for k
  proof -
    have k: "k \<noteq> i" "p_state (procs s ! k) = RUNNING" using that assms(3) by (auto simp: g split: if_splits)
    from d(6) [OF that(1) k(2)] obtain x where "cpu_proc s x = Some k" by blast
    then show ?thesis using cpu [of x k] k by (intro exI [of _ x]) simp
  qed
  have h: "x = y" if "cpu_proc ?s x = Some k" "cpu_proc ?s y = Some k" for x y k
    using that d(7) [of x k y] by (auto split: if_splits)
  have l: "p_chan (procs ?s ! k) \<noteq> None" if "k < NPROC" "p_state (procs ?s ! k) = SLEEPING" for k
    using that d(8) [of k] assms(6) by (auto simp: g split: if_splits)
  have len: "length (procs ?s) = NPROC" "b \<longrightarrow> 0 < nextpid ?s" using d(1,2) by simp_all
  from len show ?thesis by (rule table_invI) (fact a b e f h l)+
qed

lemma table_inv_enter:
  assumes "tab_inv b s" "cpu_proc s c = None" "j < NPROC" "p_state (procs s ! j) = RUNNABLE"
  shows "tab_inv b (upd_proc j (\<lambda>p. p\<lparr>p_state := RUNNING\<rparr>) (s\<lparr>cpu_proc := (cpu_proc s)(c := Some j)\<rparr>))"
proof -
  note d = table_invD [OF assms(1)]
  let ?s = "upd_proc j (\<lambda>p. p\<lparr>p_state := RUNNING\<rparr>) (s\<lparr>cpu_proc := (cpu_proc s)(c := Some j)\<rparr>)"
  have g: "procs ?s ! k = (if k = j then (procs s ! j)\<lparr>p_state := RUNNING\<rparr> else procs s ! k)" for k
    using d(1) assms(3) by (simp add: upd_proc_def nth_list_update)
  have no: "cpu_proc s x \<noteq> Some j" for x using d(5) [of x j] assms(4) by auto
  have a: "0 < p_pid (procs ?s ! i) \<and> p_pid (procs ?s ! i) < nextpid ?s" if b "i < NPROC" "p_state (procs ?s ! i) \<noteq> UNUSED" for i
    using d(3) [of i] that assms(3,4) by (auto simp: g)
  have b: "i = k" if b "i < NPROC" "k < NPROC" "p_state (procs ?s ! i) \<noteq> UNUSED" "p_state (procs ?s ! k) \<noteq> UNUSED"
    "p_pid (procs ?s ! i) = p_pid (procs ?s ! k)" for i k
    using d(4) [of i k] that assms(3,4) by (cases "i = j"; cases "k = j") (simp_all add: g)
  have e: "k < NPROC \<and> p_state (procs ?s ! k) = RUNNING" if "cpu_proc ?s x = Some k" for x k
    using d(5) [of x k] that assms(3) by (auto simp: g split: if_splits)
  have f: "\<exists>x. cpu_proc ?s x = Some k" if k: "k < NPROC" "p_state (procs ?s ! k) = RUNNING" for k
  proof (cases "k = j")
    case True
    then show ?thesis by (intro exI [of _ c]) simp
  next
    case False
    with k have "p_state (procs s ! k) = RUNNING" by (simp add: g)
    from d(6) [OF k(1) this] obtain x where x: "cpu_proc s x = Some k" by blast
    moreover have "x \<noteq> c" using x assms(2) by auto
    ultimately show ?thesis by (intro exI [of _ x]) simp
  qed
  have h: "x = y" if "cpu_proc ?s x = Some k" "cpu_proc ?s y = Some k" for x y k
    using that d(7) [of x k y] no [of x] no [of y] by (auto split: if_splits)
  have l: "p_chan (procs ?s ! k) \<noteq> None" if "k < NPROC" "p_state (procs ?s ! k) = SLEEPING" for k
    using that d(8) [of k] by (auto simp: g split: if_splits)
  have len: "length (procs ?s) = NPROC" "b \<longrightarrow> 0 < nextpid ?s" using d(1,2) by simp_all
  from len show ?thesis by (rule table_invI) (fact a b e f h l)+
qed

text \<open>The operations.\<close>

lemma sleep_inv:
  assumes "tab_inv b s" "cpu_proc s c = Some i" "sleep c (Some i) ch lk s = Inr s'"
  shows "tab_inv b s'"
proof -
  have i: "i < length (procs s)" using table_invD(1,5) [OF assms(1)] assms(2) by auto
  then have "s' = s\<lparr>procs := (procs s)[i := (procs s ! i)\<lparr>p_chan := Some ch, p_state := SLEEPING\<rparr>], cpu_proc := (cpu_proc s)(c := None)\<rparr>"
    using assms(3) by (auto simp: sleep_def sched_def upd_proc_def split: if_splits)
  then show ?thesis using table_inv_leave [OF assms(1,2)] by simp
qed

lemma yield_inv:
  assumes "tab_inv b s" "cpu_proc s c = Some i" "yield c i s = Inr s'"
  shows "tab_inv b s'"
proof -
  have i: "i < length (procs s)" using table_invD(1,5) [OF assms(1)] assms(2) by auto
  then have "s' = s\<lparr>procs := (procs s)[i := (procs s ! i)\<lparr>p_state := RUNNABLE\<rparr>], cpu_proc := (cpu_proc s)(c := None)\<rparr>"
    using assms(3) by (auto simp: yield_def sched_def upd_proc_def split: if_splits)
  then show ?thesis using table_inv_leave [OF assms(1,2)] by simp
qed

lemma exit_inv:
  assumes "tab_inv b s" "cpu_proc s c = Some i" "exit_table c i s = Inr s'"
  shows "tab_inv b s'"
proof -
  define s1 where "s1 = (case p_parent (procs s ! i) of None \<Rightarrow> s | Some q \<Rightarrow> wakeup1 (ChanProc q) s)"
  define s2 where "s2 = fold (pass_child i (initproc s1)) [0..<NPROC] s1"
  have "soft s s1" by (simp add: s1_def soft_wakeup1 split: option.split)
  moreover have "soft s1 s2" unfolding s2_def by (rule soft_fold) (rule soft_pass_child)
  ultimately have sf: "soft s s2" by (rule soft_trans)
  have v2: "tab_inv b s2" by (rule table_inv_soft [OF assms(1) sf])
  have c2: "cpu_proc s2 c = Some i" using sf assms(2) by (simp add: soft_def)
  have i: "i < length (procs s2)" using table_invD(1,5) [OF v2] c2 by auto
  have "s' = s2\<lparr>procs := (procs s2)[i := (procs s2 ! i)\<lparr>p_state := ZOMBIE\<rparr>], cpu_proc := (cpu_proc s2)(c := None)\<rparr>"
    using assms(3) i by (auto simp: exit_table_def sched_def upd_proc_def s1_def [symmetric] s2_def [symmetric] Let_def split: if_splits)
  then show ?thesis using table_inv_leave [OF v2 c2] by simp
qed

lemma kill_soft: "kill pid s = (r, s') \<Longrightarrow> soft s s'"
  by (auto simp: kill_def split: option.splits if_splits intro!: soft_upd_proc)

lemma dispatch_inv:
  assumes "tab_inv b s" "cpu_proc s c = None" "dispatch c j s = Inr (r, s')"
  shows "tab_inv b s'"
proof (cases "find (\<lambda>j. p_state (procs s ! j) = RUNNABLE) [j..<NPROC]")
  case None
  then show ?thesis using assms(1,3) by (simp add: dispatch_def)
next
  case (Some k)
  then have "k < NPROC" "p_state (procs s ! k) = RUNNABLE" using find_less by blast+
  with table_inv_enter [OF assms(1,2)] show ?thesis using assms(3) Some by (auto simp: dispatch_def bnd_eq_Inr)
qed

lemma wait_inv:
  assumes "tab_inv b s" "cpu_proc s c = Some i" "wait kend c i s = Inr (w, s')"
  shows "tab_inv b s'"
proof (cases "find (\<lambda>j. p_parent (procs s ! j) = Some i \<and> p_state (procs s ! j) = ZOMBIE) [0..<NPROC]")
  case None
  then show ?thesis using assms sleep_inv [OF assms(1,2)] by (auto simp: wait_def bnd_eq_Inr split: if_splits)
next
  case (Some z)
  then have z: "z < NPROC" "p_state (procs s ! z) = ZOMBIE" using find_less by blast+
  obtain pid where "reap kend z s = Inr (pid, s')" using assms(3) Some by (auto simp: wait_def bnd_eq_Inr)
  then obtain s1 s2 where k: "kfree kend (p_kstack (procs s ! z)) s = Inr s1"
    "freevm kend (p_pgdir (procs (upd_proc z (\<lambda>p. p\<lparr>p_kstack := 0\<rparr>) s1) ! z)) (upd_proc z (\<lambda>p. p\<lparr>p_kstack := 0\<rparr>) s1) = Inr s2"
    "s' = upd_proc z (\<lambda>p. p\<lparr>p_pid := 0, p_parent := None, p_name := 0 # drop 1 (p_name p), p_killed := False, p_state := UNUSED\<rparr>) s2"
    by (auto simp: reap_def bnd_eq_Inr Let_def)
  note f1 = table_frame [OF kfree_more [OF k(1)]] and f2 = table_frame [OF freevm_more [OF k(2)]]
  have l: "length (procs s) = NPROC" using table_invD(1) [OF assms(1)] .
  show ?thesis
    by (rule table_inv_entry [OF assms(1) z(1)]) (use z l f1 f2 k(3) in \<open>auto simp: procs_upd_proc\<close>)
qed

lemma int32_id: "- (2 ^ 31) \<le> n \<Longrightarrow> n < 2 ^ 31 \<Longrightarrow> int32 n = n"
  by (simp add: int32_def)

lemma alloc_pid_inv:
  assumes "tab_inv b s" "alloc_pid s = (r, s')" "b \<longrightarrow> nextpid s + 1 < 2 ^ 31"
  shows "tab_inv b s'" "b \<longrightarrow> nextpid s' \<le> nextpid s + 1"
proof -
  have n: "b \<longrightarrow> int32 (nextpid s + 1) = nextpid s + 1" using assms(3) table_invD(2) [OF assms(1)] by (auto intro: int32_id)
  have "tab_inv b s' \<and> (b \<longrightarrow> nextpid s' \<le> nextpid s + 1)"
  proof (cases "alloc_slot s")
    case None
    then show ?thesis using assms(1,2) by (simp add: alloc_pid_def)
  next
    case (Some i)
    then have i: "i < NPROC" "p_state (procs s ! i) = UNUSED" by (auto simp: alloc_slot_def dest!: find_less)
    have s': "s' = (upd_proc i (\<lambda>p. p\<lparr>p_state := EMBRYO, p_pid := nextpid s\<rparr>) s)\<lparr>nextpid := int32 (nextpid s + 1)\<rparr>"
      using Some assms(2) by (simp add: alloc_pid_def)
    have l: "length (procs s) = NPROC" using table_invD(1) [OF assms(1)] .
    have "tab_inv b s'"
      by (rule table_inv_entry [OF assms(1) i(1)]) (use i l n s' in \<open>auto simp: procs_upd_proc\<close>)
    then show ?thesis using n s' by simp
  qed
  then show "tab_inv b s'" "b \<longrightarrow> nextpid s' \<le> nextpid s + 1" by simp_all
qed

lemma only_entry_inv:
  assumes "tab_inv b s" "np < NPROC" "p_state (procs s ! np) = EMBRYO" "only_entry np s s'"
  shows "tab_inv b s'"
  by (rule table_inv_entry [OF assms(1,2)]) (use assms(2-4) table_invD(1) [OF assms(1)] in \<open>auto simp: only_entry_def\<close>)

lemma fork_start_inv:
  assumes "tab_inv b s" "np < NPROC" "p_state (procs s ! np) = EMBRYO" "fork_start np s = (pid, s')"
  shows "tab_inv b s'"
  by (rule table_inv_entry [OF assms(1,2)])
    (use assms(2-4) table_invD(1) [OF assms(1)] in \<open>auto simp: fork_start_def procs_upd_proc\<close>)

text \<open>Only \<open>alloc_pid\<close> moves \<^verbatim>\<open>nextpid\<close>.\<close>

lemma wait_nextpid: "wait kend c i s = Inr (w, s') \<Longrightarrow> nextpid s' = nextpid s"
  by (auto simp: wait_def reap_def sleep_def sched_def bnd_eq_Inr Let_def split: option.splits if_splits
      dest!: table_frame(2) [OF kfree_more] table_frame(2) [OF freevm_more])

lemma exit_nextpid:
  assumes "exit_table c i s = Inr s'"
  shows "nextpid s' = nextpid s"
proof -
  have "soft s (case p_parent (procs s ! i) of None \<Rightarrow> s | Some q \<Rightarrow> wakeup1 (ChanProc q) s)"
    by (simp add: soft_wakeup1 split: option.split)
  moreover have "soft t (fold (pass_child i init) [0..<NPROC] t)" for t :: "'a ptable_scheme" and init
    by (rule soft_fold) (rule soft_pass_child)
  ultimately show ?thesis using assms by (auto simp: exit_table_def sched_def Let_def soft_def split: if_splits)
qed

lemma proc_step_inv:
  "proc_step k s s' \<Longrightarrow> tab_inv b s \<Longrightarrow> b \<longrightarrow> nextpid s + int k < 2 ^ 31 \<Longrightarrow> tab_inv b s' \<and> (b \<longrightarrow> nextpid s' \<le> nextpid s + int k)"
proof (induction rule: proc_step.induct)
  case (allocs s c i r s')
  then show ?case using alloc_pid_inv [of b s r s'] by simp
next
  case (stacks s c i np trapret forkret r s')
  note e = alloc_kstack_table [OF stacks(4)]
  have "tab_inv b s'" using stacks(5,2,3) e by (rule only_entry_inv)
  then show ?case using e by (simp add: only_entry_def)
next
  case (copies s c i np filedup idup kend kdata ok s')
  have e: "only_entry np s s'" using copies(6,4,5) by (rule fork_copy_table)
  have "tab_inv b s'" using copies(7,2,3) e by (rule only_entry_inv)
  then show ?case using e by (simp add: only_entry_def)
next
  case (starts s c i np pid s')
  have "tab_inv b s'" using starts(5,2,3,4) by (rule fork_start_inv)
  then show ?case using starts(4) by (auto simp: fork_start_def)
next
  case (sleeps s c i ch s')
  have "tab_inv b s'" using sleeps(3,1,2) by (rule sleep_inv)
  then show ?case using sleeps(2) by (auto simp: sleep_def sched_def split: if_splits)
next
  case (yields s c i s')
  have "tab_inv b s'" using yields(3,1,2) by (rule yield_inv)
  then show ?case using yields(2) by (auto simp: yield_def sched_def split: if_splits)
next
  case (exits s c i s')
  have "tab_inv b s'" using exits(3,1,2) by (rule exit_inv)
  then show ?case using exit_nextpid [OF exits(2)] by simp
next
  case (waits s c i kend w s')
  have "tab_inv b s'" using waits(3,1,2) by (rule wait_inv)
  then show ?case using wait_nextpid [OF waits(2)] by simp
next
  case (dispatches s c j r s')
  have "tab_inv b s'" using dispatches(3,1,2) by (rule dispatch_inv)
  then show ?case using dispatches(2) by (auto simp: dispatch_def bnd_eq_Inr split: option.splits)
next
  case (wakes s ch)
  have "tab_inv b (wakeup ch s)" unfolding wakeup_def using wakes(1) soft_wakeup1 by (rule table_inv_soft)
  then show ?case by (simp add: wakeup_def wakeup1_def)
next
  case (kills pid s r s')
  have "tab_inv b s'" using kills(2) kill_soft [OF kills(1)] by (rule table_inv_soft)
  then show ?case using kill_soft [OF kills(1)] by (simp add: soft_def)
next
  case (resumes s i)
  have "soft s (sleep_resume i s)" unfolding sleep_resume_def by (rule soft_upd_proc) (simp_all add: resumes)
  with resumes(2) have "tab_inv b (sleep_resume i s)" by (rule table_inv_soft)
  then show ?case by (simp add: sleep_resume_def)
qed

lemma proc_run_inv:
  "proc_run n s s' \<Longrightarrow> tab_inv b s \<Longrightarrow> b \<longrightarrow> nextpid s + int n < 2 ^ 31 \<Longrightarrow> tab_inv b s' \<and> (b \<longrightarrow> nextpid s' \<le> nextpid s + int n)"
proof (induction rule: proc_run.induct)
  case (run_step n s t k u)
  have "tab_inv b t" "b \<longrightarrow> nextpid t \<le> nextpid s + int n" using run_step.IH run_step.prems by auto
  then show ?case using proc_step_inv [OF run_step.hyps(2), of b] run_step.prems(2) by auto
qed simp

text \<open>
  C28. The process table. However the processes of the system fork, sleep, yield, exit, wait, wake and
  kill, and however the processors dispatch: a process is \<^verbatim>\<open>RUNNING\<close> exactly if some processor runs it, never
  two at once. And as long as fewer than \<open>2 ^ 31\<close> pids have been taken, so that the \<^verbatim>\<open>int\<close> \<^verbatim>\<open>nextpid\<close> has not
  overflowed, live processes keep distinct positive pids below \<^verbatim>\<open>nextpid\<close>. Each step is one section under
  \<^verbatim>\<open>ptable.lock\<close> or works on an \<^verbatim>\<open>EMBRYO\<close> entry, so that \<^verbatim>\<open>fork\<close> interleaves with everything else.
\<close>

theorem process_table_invariant:
  assumes "proc_run n s s'" "table_inv s"
  shows "(\<forall>i<NPROC. p_state (procs s' ! i) = RUNNING \<longleftrightarrow> (\<exists>!c. cpu_proc s' c = Some i)) \<and>
    (nextpid s + int n < 2 ^ 31 \<longrightarrow> table_inv s' \<and>
      (\<forall>i<NPROC. p_state (procs s' ! i) \<noteq> UNUSED \<longrightarrow> 0 < p_pid (procs s' ! i) \<and> p_pid (procs s' ! i) < nextpid s') \<and>
      (\<forall>i<NPROC. \<forall>j<NPROC. p_state (procs s' ! i) \<noteq> UNUSED \<and> p_state (procs s' ! j) \<noteq> UNUSED \<and> i \<noteq> j \<longrightarrow>
         p_pid (procs s' ! i) \<noteq> p_pid (procs s' ! j)))"
proof (intro conjI impI)
  have "tab_inv False s" using assms(2) by (simp add: tab_inv_def)
  then have v: "tab_inv False s'" using proc_run_inv [OF assms(1)] by blast
  note d = table_invD [OF v]
  show "\<forall>i<NPROC. p_state (procs s' ! i) = RUNNING \<longleftrightarrow> (\<exists>!c. cpu_proc s' c = Some i)"
    using d(5) d(6) d(7) by metis
  assume "nextpid s + int n < 2 ^ 31"
  then show w: "table_inv s'" using proc_run_inv [OF assms(1,2)] by simp
  note d = table_invD [OF w]
  show "\<forall>i<NPROC. p_state (procs s' ! i) \<noteq> UNUSED \<longrightarrow> 0 < p_pid (procs s' ! i) \<and> p_pid (procs s' ! i) < nextpid s'"
    using d(3) by blast
  show "\<forall>i<NPROC. \<forall>j<NPROC. p_state (procs s' ! i) \<noteq> UNUSED \<and> p_state (procs s' ! j) \<noteq> UNUSED \<and> i \<noteq> j \<longrightarrow>
         p_pid (procs s' ! i) \<noteq> p_pid (procs s' ! j)"
    using d(4) by blast
qed

text \<open>
  The bound is needed: the pid after \<open>2 ^ 31 - 1\<close> is negative, so that \<^verbatim>\<open>fork\<close> returns a negative number for a
  child it has started.
\<close>

lemma pid_overflow:
  assumes "nextpid s = 2 ^ 31 - 1" "alloc_slot s = Some i" "i < length (procs s)"
  shows "\<exists>s'. alloc_pid s = (Some i, s') \<and> nextpid s' = - (2 ^ 31)"
    "nextpid t = - (2 ^ 31) \<Longrightarrow> alloc_slot t = Some j \<Longrightarrow> j < length (procs t) \<Longrightarrow>
     fst (fork_start j (snd (alloc_pid t))) = - (2 ^ 31)"
  using assms by (simp_all add: alloc_pid_def int32_def fork_start_def procs_upd_proc)

definition ex_proc :: proc where
  "ex_proc = \<lparr>p_sz = 0, p_pgdir = 0, p_kstack = 0, p_state = UNUSED, p_pid = 0, p_parent = None, p_tf = 0, p_context = 0,
     p_chan = None, p_killed = False, p_ofile = replicate 16 None, p_cwd = None, p_name = []\<rparr>"

definition ex_table :: ptable where
  "ex_table = \<lparr>use_lock = True, freelist = 0, pages = (\<lambda>_ _. 0),
     procs = ex_proc\<lparr>p_state := RUNNING, p_pid := 1\<rparr> # replicate 63 ex_proc, nextpid = 2, initproc = Some 0,
     cpu_proc = (\<lambda>c. if c = 0 then Some 0 else None)\<rparr>"

theorem process_table_invariant_witness:
  "\<exists>s. proc_run 1 ex_table s \<and> p_state (procs s ! 1) = RUNNABLE \<and> p_pid (procs s ! 0) \<noteq> p_pid (procs s ! 1) \<and>
    (\<exists>!c. cpu_proc s c = Some 0)"
proof -
  have n: "procs ex_table ! i = (if i = 0 then ex_proc\<lparr>p_state := RUNNING, p_pid := 1\<rparr> else ex_proc)" if "i < NPROC" for i
    using that by (cases i) (simp_all add: ex_table_def)
  have u: "p_state ex_proc = UNUSED" by (simp add: ex_proc_def)
  have v: "table_inv ex_table"
    using u by (intro table_invI) (auto simp: n, auto simp: ex_table_def split: if_splits)
  have l: "length (procs ex_table) = NPROC" "nextpid ex_table = 2" "cpu_proc ex_table 0 = Some 0" by (simp_all add: ex_table_def)
  have sl: "alloc_slot ex_table = Some 1" using n [of 0] n [of 1] u by (simp add: alloc_slot_def upt_conv_Cons One_nat_def)
  obtain t where t: "alloc_pid ex_table = (Some 1, t)" "procs t = procs (upd_proc 1 (\<lambda>p. p\<lparr>p_state := EMBRYO, p_pid := 2\<rparr>) ex_table)"
    "cpu_proc t = cpu_proc ex_table"
    using sl l by (simp add: alloc_pid_def)
  obtain pid s where s: "fork_start 1 t = (pid, s)" by fastforce
  have e: "p_state (procs t ! 1) = EMBRYO" using t(2) l by (simp add: procs_upd_proc)
  have c: "cpu_proc t 0 = Some 0" by (simp add: t(3) l)
  have "proc_run (0 + 1) ex_table t" by (rule run_step [OF run_none proc_step.allocs [OF l(3) t(1)]])
  from run_step [OF this proc_step.starts [OF c _ e s]] have r: "proc_run 1 ex_table s" by simp
  have p: "p_state (procs s ! 1) = RUNNABLE" "p_state (procs s ! 0) = RUNNING"
    using s t(2) l n [of 0] by (auto simp: fork_start_def procs_upd_proc)
  note inv = process_table_invariant [OF r v, unfolded l(2)]
  have "\<exists>!c. cpu_proc s c = Some 0" using inv [THEN conjunct1, rule_format, of 0] p(2) by simp
  moreover have "p_pid (procs s ! 0) \<noteq> p_pid (procs s ! 1)"
    using inv [THEN conjunct2, THEN mp, THEN conjunct2, THEN conjunct2, rule_format, of 0 1] p by simp
  ultimately show ?thesis using r p(1) by blast
qed

end
