(* ===== verification/Arp.thy ===== *)
theory Arp
  imports Cstring
begin

text \<open>
  ARP frames (\<^verbatim>\<open>arpfrm.c\<close>, \<^verbatim>\<open>arpfrm.h\<close>), the request path (\<^verbatim>\<open>arp.c\<close>) and the table of network
  interfaces (\<^verbatim>\<open>nic.c\<close>). Local arrays start out with whatever the stack held: where the code reads
  an element it may not have written, the model takes the old contents as an argument.
\<close>

section \<open>Conversions\<close>

definition hton :: "u16 \<Rightarrow> u16" where
  "hton v = drop_bit 8 v OR push_bit 8 v"

definition htons :: "u32 \<Rightarrow> u32" where
  "htons v = ucast (hton (ucast (drop_bit 16 v))) OR push_bit 16 (ucast (hton (ucast v)))"

definition inttohex :: "u32 \<Rightarrow> u8" where
  "inttohex n = (if n \<le> 9 then 48 + ucast n else if 10 \<le> n \<and> n \<le> 15 then 65 + (ucast n - 10) else 48)"

definition hextoint :: "u8 \<Rightarrow> u32" where
  "hextoint c =
     (if 48 \<le> c \<and> c \<le> 57 then ucast c - 48
      else if 65 \<le> c \<and> c \<le> 70 then 10 + (ucast c - 65)
      else if 97 \<le> c \<and> c \<le> 102 then 10 + (ucast c - 97)
      else 0)"

subsection \<open>IP addresses\<close>

text \<open>Stores into the local arrays of \<^verbatim>\<open>getip\<close> and \<^verbatim>\<open>parseip\<close>, and \<^verbatim>\<open>atoi\<close> on \<^verbatim>\<open>arr\<close>.\<close>

definition arr_set :: "'b list \<Rightarrow> nat \<Rightarrow> 'b \<Rightarrow> 'b list res" where
  "arr_set a i v = (if i < length a then Inr (a[i := v]) else Inl (Fault ''array index''))"

primrec arr_atoi :: "u8 list \<Rightarrow> u32 \<Rightarrow> u32 res" where
  "arr_atoi [] n = Inl (Fault ''array index'')"
| "arr_atoi (c # cs) n = (if is_digit c then arr_atoi cs (n * 10 + ucast c - 48) else Inr n)"

fun getip_loop :: "bytes \<Rightarrow> nat \<Rightarrow> u8 list \<Rightarrow> u32 list \<Rightarrow> nat \<Rightarrow> nat \<Rightarrow> (u8 list \<times> u32 list \<times> nat \<times> nat) res" where
  "getip_loop ip 0 arr ipvals j k = Inr (arr, ipvals, j, k)"
| "getip_loop ip (Suc n) arr ipvals j k =
     (if ip j = 46 then
        bnd (arr_set arr j 0) (\<lambda>arr.
        bnd (arr_atoi arr 0) (\<lambda>v.
        bnd (arr_set ipvals k v) (\<lambda>ipvals.
        getip_loop ip n arr ipvals 0 (k + 1))))
      else
        bnd (arr_set arr j (ip j)) (\<lambda>arr.
        getip_loop ip n arr ipvals (j + 1) k))"

definition pack_ip :: "u32 list \<Rightarrow> u32" where
  "pack_ip v = push_bit 24 (v ! 3) + push_bit 16 (v ! 2) + push_bit 8 (v ! 1) + v ! 0"

definition getip :: "u8 list \<Rightarrow> u32 list \<Rightarrow> bytes \<Rightarrow> nat \<Rightarrow> u32 res" where
  "getip arr0 ipvals0 ip len =
     bnd (getip_loop ip len arr0 ipvals0 0 0) (\<lambda>(arr, ipvals, j, k).
     bnd (arr_set arr j 0) (\<lambda>arr.
     bnd (arr_atoi arr 0) (\<lambda>v.
     bnd (arr_set ipvals k v) (\<lambda>ipvals.
     Inr (pack_ip ipvals)))))"

text \<open>The digit loop of \<^verbatim>\<open>parseip\<close>, least significant digit first.\<close>

function dec_digits :: "u32 \<Rightarrow> u8 list \<Rightarrow> nat \<Rightarrow> (u8 list \<times> nat) res" where
  "dec_digits x arr k =
     (if x > 0 then bnd (arr_set arr k (ucast (x mod 10) + 48)) (\<lambda>arr. dec_digits (x div 10) arr (k + 1))
      else Inr (arr, k))"
  by pat_completeness auto
termination
  by (relation "measure (\<lambda>(x, _, _). unat x)") (auto simp: unat_div word_gt_0 unat_gt_0)

declare dec_digits.simps [simp del]

text \<open>The copy loop \<^verbatim>\<open>for (k = k - 1; j >= 0; j--) ipstr[j++] = arr[k]\<close>.\<close>

partial_function (option) copy_digits :: "bytes \<Rightarrow> int \<Rightarrow> u8 \<Rightarrow> (bytes \<times> int) option" where
  "copy_digits m j c =
     (if 0 \<le> j then copy_digits (m(nat j := c)) (j + 1 - 1) c else Some (m, j))"

fun parseip_loop :: "u8 list \<Rightarrow> u32 list \<Rightarrow> bytes \<Rightarrow> int \<Rightarrow> (bytes \<times> int) res option" where
  "parseip_loop arr [] m j = Some (Inr (m, j))"
| "parseip_loop arr (ipx # xs) m j =
     (if ipx = 0 then parseip_loop arr xs (m(nat j := 48, nat (j + 1) := 58)) (j + 2)
      else (case dec_digits ipx arr 0 of
              Inl e \<Rightarrow> Some (Inl e)
            | Inr (arr, k) \<Rightarrow>
                (case copy_digits m j (arr ! (k - 1)) of
                   None \<Rightarrow> None
                 | Some (m, j) \<Rightarrow> parseip_loop arr xs (m(nat j := 58)) (j + 1))))"

text \<open>
  The first loop of \<^verbatim>\<open>parseip\<close> is \<^verbatim>\<open>for (i = 0; i >= 0; i--)\<close>: one round, storing \<^verbatim>\<open>ip && v\<close>.
\<close>

definition parseip :: "u8 list \<Rightarrow> u32 list \<Rightarrow> u32 \<Rightarrow> bytes \<Rightarrow> bytes res option" where
  "parseip arr0 ipvals0 ip ipstr =
     (case parseip_loop arr0 (ipvals0[0 := if ip \<noteq> 0 \<and> (255::u32) \<noteq> 0 then 1 else 0]) ipstr 0 of
        None \<Rightarrow> None
      | Some (Inl e) \<Rightarrow> Some (Inl e)
      | Some (Inr (m, j)) \<Rightarrow> Some (Inr (m(nat (j - 1) := 0))))"

subsection \<open>MAC addresses\<close>

definition mac_digits :: "u8 \<Rightarrow> u8 list" where
  "mac_digits b = (let m = ucast b :: u32 in [inttohex (drop_bit 4 (m AND 0xf0)), inttohex (m AND 0x0f)])"

definition unpackmac :: "u8 list \<Rightarrow> u8 list" where
  "unpackmac mac = (concat (map (\<lambda>i. mac_digits (mac ! i) @ [58]) [0..<6]))[17 := 0]"

definition hexpair :: "u8 \<Rightarrow> u8 \<Rightarrow> u8" where
  "hexpair a b = ucast (push_bit 4 (hextoint a) + hextoint b)"

definition packmac :: "u8 list \<Rightarrow> u8 list" where
  "packmac macstr = map (\<lambda>i. hexpair (macstr ! i) (macstr ! (i + 1))) [0, 3, 6, 9, 12, 15]"

definition BROADCASTMAC :: "u8 list" where
  "BROADCASTMAC = str ''FF:FF:FF:FF:FF:FF'' @ [0]"

section \<open>Frames\<close>

record eth_head =
  e_dmac :: "u8 list"
  e_smac :: "u8 list"
  e_ethtype :: u16
  e_hwtype :: u16
  e_prottype :: u16
  e_hwsize :: u8
  e_protsize :: u8
  e_opercode :: u16
  e_arpsmac :: "u8 list"
  e_sip :: u32
  e_arpdmac :: "u8 list"
  e_dip :: u32
  e_padd :: u16

text \<open>A NUL-terminated string as memory.\<close>

definition cmem :: "u8 list \<Rightarrow> bytes" where
  "cmem cs i = (if i < length cs then cs ! i else 0)"

text \<open>\<open>st1\<close> and \<open>st2\<close>: what the arrays \<^verbatim>\<open>arr\<close> and \<^verbatim>\<open>ipvals\<close> hold when each of the two calls of \<^verbatim>\<open>getip\<close> begins.\<close>

definition initframe ::
  "u8 list \<times> u32 list \<Rightarrow> u8 list \<times> u32 list \<Rightarrow> u8 list \<Rightarrow> u8 list \<Rightarrow> eth_head \<Rightarrow> eth_head res" where
  "initframe st1 st2 smac ipadd eth =
     (let eth = eth\<lparr>e_dmac := packmac BROADCASTMAC, e_smac := take 6 smac, e_ethtype := hton 0x0806,
            e_hwtype := hton 1, e_prottype := hton 0x0800, e_hwsize := 6, e_protsize := 4,
            e_opercode := hton 1, e_arpsmac := take 6 smac, e_arpdmac := packmac BROADCASTMAC\<rparr> in
      bnd (getip (fst st1) (snd st1) (cmem (str ''192.168.1.1'')) (length (str ''192.168.1.1''))) (\<lambda>sip.
      let eth = eth\<lparr>e_sip := sip\<rparr> in
      bnd (getip (fst st2) (snd st2) (cmem ipadd) (length ipadd)) (\<lambda>dip.
      Inr (eth\<lparr>e_dip := dip\<rparr>))))"

text \<open>
  The bytes of a structure as the compiler lays it out: each member, given by its alignment and
  its bytes, starts at the next multiple of the alignment, the size is a multiple of the greatest
  alignment, and padding holds whatever the memory \<open>mem\<close> held there.
\<close>

fun struct_members :: "bytes \<Rightarrow> nat \<Rightarrow> (nat \<times> u8 list) list \<Rightarrow> u8 list" where
  "struct_members mem off [] = []"
| "struct_members mem off ((al, bs) # ms) =
     (let start = (off + al - 1) div al * al in
      map mem [off..<start] @ bs @ struct_members mem (start + length bs) ms)"

definition struct_bytes :: "bytes \<Rightarrow> (nat \<times> u8 list) list \<Rightarrow> u8 list" where
  "struct_bytes mem ms = struct_members mem 0 (ms @ [(foldr max (map fst ms) 1, [])])"

definition le16 :: "u16 \<Rightarrow> u8 list" where
  "le16 v = [ucast v, ucast (drop_bit 8 v)]"

definition le32 :: "u32 \<Rightarrow> u8 list" where
  "le32 v = [ucast v, ucast (drop_bit 8 v), ucast (drop_bit 16 v), ucast (drop_bit 24 v)]"

text \<open>\<^verbatim>\<open>eth_head\<close> is not packed: its members have the alignment of their types.\<close>

definition eth_bytes :: "bytes \<Rightarrow> eth_head \<Rightarrow> u8 list" where
  "eth_bytes mem e = struct_bytes mem
     [(1, e_dmac e), (1, e_smac e), (2, le16 (e_ethtype e)), (2, le16 (e_hwtype e)), (2, le16 (e_prottype e)),
      (1, [e_hwsize e]), (1, [e_protsize e]), (2, le16 (e_opercode e)), (1, e_arpsmac e), (4, le32 (e_sip e)),
      (1, e_arpdmac e), (4, le32 (e_dip e)), (2, le16 (e_padd e))]"

text \<open>What \<^verbatim>\<open>parsereply\<close> prints; \<open>None\<close> when it does not return.\<close>

datatype arp_out = NotArp | NotIpv4 | NotReply | NotRecipient | MacIs "u8 list"

definition parsereply :: "u8 list \<Rightarrow> u32 list \<Rightarrow> bytes \<Rightarrow> eth_head \<Rightarrow> arp_out res option" where
  "parsereply arr0 ipvals0 dip0 eth =
     (if e_ethtype eth \<noteq> 0x0806 then Some (Inr NotArp)
      else if e_prottype eth \<noteq> 0x0800 then Some (Inr NotIpv4)
      else if e_opercode eth \<noteq> 2 then Some (Inr NotReply)
      else if BROADCASTMAC \<noteq> unpackmac (e_arpdmac eth) then Some (Inr NotRecipient)
      else (case parseip arr0 ipvals0 (e_dip eth) dip0 of
              None \<Rightarrow> None
            | Some (Inl e) \<Rightarrow> Some (Inl e)
            | Some (Inr dip) \<Rightarrow>
                if map dip [0..<16] \<noteq> str ''255.255.255.255'' @ [0] then Some (Inr NotRecipient)
                else Some (Inr (MacIs (unpackmac (e_arpsmac eth))))))"

section \<open>Interfaces and requests\<close>

text \<open>\<^verbatim>\<open>nics[0]\<close>: the function pointers matter only as null or not, the driver is a parameter.\<close>

record nic =
  nic_macaddr :: "u8 list"
  nic_sendpacket :: bool
  nic_recvpacket :: bool

definition regnicdevice :: "nic \<Rightarrow> nic \<Rightarrow> nic" where
  "regnicdevice d nics0 = d"

definition getnicdevice :: "nic \<Rightarrow> nic option" where
  "getnicdevice n = (if \<not> nic_sendpacket n \<or> \<not> nic_recvpacket n then None else Some n)"

definition blockuntilreply :: "eth_head \<Rightarrow> int" where
  "blockuntilreply eth = 0"

text \<open>
  \<^verbatim>\<open>sendrequest\<close>: the result, the packets handed to the driver's \<^verbatim>\<open>sendpacket\<close>, and the text stored
  through \<^verbatim>\<open>arpresp\<close>. \<open>resp\<close> and \<open>eth0\<close> are the initial contents of the two local frames, \<open>mem\<close> the
  memory under the first one. The packet is the frame without its last two bytes.
\<close>

definition sendrequest ::
  "u8 list \<times> u32 list \<Rightarrow> u8 list \<times> u32 list \<Rightarrow> bytes \<Rightarrow> eth_head \<Rightarrow> eth_head \<Rightarrow> nic \<Rightarrow> u8 list \<Rightarrow>
   (int \<times> u8 list list \<times> u8 list option) res" where
  "sendrequest st1 st2 mem eth0 resp nics0 ipadd =
     (case getnicdevice nics0 of
        None \<Rightarrow> Inr (-1, [], None)
      | Some n \<Rightarrow>
          bnd (initframe st1 st2 (nic_macaddr n) ipadd eth0) (\<lambda>eth.
          let pkt = take (length (eth_bytes mem eth) - 2) (eth_bytes mem eth) in
          if blockuntilreply resp < 0 then Inr (-3, [pkt], None)
          else Inr (0, [pkt], Some ((unpackmac (e_arpdmac resp))[17 := 0]))))"

section \<open>MAC address text\<close>

lemma hex_digits: "\<forall>k\<in>set [0..<16]. hextoint (inttohex (of_nat k)) = of_nat k"
  by code_simp

lemma mac_digits_val:
  "hextoint (mac_digits b ! 0) = of_nat (unat b div 16)" "hextoint (mac_digits b ! 1) = of_nat (unat b mod 16)"
proof -
  have l: "unat b < 256" using unsigned_less [of b] by simp
  have e: "(0xf0 :: u32) = push_bit 4 (mask 4)" "(0xf :: u32) = mask 4" by code_simp+
  have "unat (drop_bit 4 b) = unat b div 16" "unat (take_bit 4 b) = unat b mod 16"
    by (simp_all add: drop_bit_eq_div take_bit_eq_mod unat_div unat_mod)
  then have n: "of_nat (unat b div 16) = (ucast (drop_bit 4 b) :: u32)" "of_nat (unat b mod 16) = (ucast (take_bit 4 b) :: u32)"
    by (metis of_nat_unat)+
  have hi: "drop_bit 4 (ucast b AND (0xf0 :: u32)) = of_nat (unat b div 16)"
    unfolding n(1) e(1) by (rule bit_word_eqI) (auto simp: bit_simps dest: bit_imp_le_length)
  have lo: "ucast b AND (0xf :: u32) = of_nat (unat b mod 16)"
    unfolding n(2) e(2) by (rule bit_word_eqI) (auto simp: bit_simps)
  have "unat b div 16 \<in> set [0..<16]" "unat b mod 16 \<in> set [0..<16]" using l by auto
  from bspec [OF hex_digits this(1)] bspec [OF hex_digits this(2)]
  show "hextoint (mac_digits b ! 0) = of_nat (unat b div 16)" "hextoint (mac_digits b ! 1) = of_nat (unat b mod 16)"
    by (simp_all only: mac_digits_def Let_def hi lo nth_Cons_0 nth_Cons_Suc One_nat_def)
qed

lemma mac_digits_pack: "hexpair (mac_digits b ! 0) (mac_digits b ! 1) = b"
proof -
  have "push_bit 4 (of_nat (unat b div 16)) + of_nat (unat b mod 16) = (of_nat (unat b div 16 * 16 + unat b mod 16) :: u32)"
    by (simp only: push_bit_eq_mult of_nat_add of_nat_mult of_nat_numeral) simp
  also have "\<dots> = ucast b" by (simp only: div_mult_mod_eq of_nat_unat)
  finally show ?thesis unfolding hexpair_def mac_digits_val by (simp only:) (rule bit_word_eqI, auto simp: bit_simps)
qed

lemma mac_list:
  assumes "length mac = 6"
  obtains a b c d e f where "mac = [a, b, c, d, e, f]"
proof -
  from assms have "length mac = Suc (Suc (Suc (Suc (Suc (Suc 0)))))" by simp
  then show ?thesis using that by (auto simp: length_Suc_conv)
qed

lemma mac_text:
  "unpackmac [a, b, c, d, e, f] =
    [mac_digits a ! 0, mac_digits a ! 1, 58, mac_digits b ! 0, mac_digits b ! 1, 58,
     mac_digits c ! 0, mac_digits c ! 1, 58, mac_digits d ! 0, mac_digits d ! 1, 58,
     mac_digits e ! 0, mac_digits e ! 1, 58, mac_digits f ! 0, mac_digits f ! 1, 0]"
proof -
  have "concat (map (\<lambda>i. mac_digits ([a, b, c, d, e, f] ! i) @ [58]) [0..<6]) =
    mac_digits a @ [58] @ mac_digits b @ [58] @ mac_digits c @ [58] @ mac_digits d @ [58] @
    mac_digits e @ [58] @ mac_digits f @ [58]" by (simp add: upt_small)
  also have "\<dots> = [mac_digits a ! 0, mac_digits a ! 1, 58, mac_digits b ! 0, mac_digits b ! 1, 58,
     mac_digits c ! 0, mac_digits c ! 1, 58, mac_digits d ! 0, mac_digits d ! 1, 58,
     mac_digits e ! 0, mac_digits e ! 1, 58, mac_digits f ! 0, mac_digits f ! 1, 58]"
    by (simp add: mac_digits_def Let_def)
  finally show ?thesis by (simp add: unpackmac_def One_nat_def)
qed

text \<open>
  C14. The text form of a MAC address is faithful: \<^verbatim>\<open>unpackmac\<close> writes exactly 18 bytes ending in NUL, and
  \<^verbatim>\<open>packmac\<close> recovers the address from them.
\<close>

theorem packmac_unpackmac:
  assumes "length mac = 6"
  shows "packmac (unpackmac mac) = mac \<and> length (unpackmac mac) = 18 \<and> unpackmac mac ! 17 = 0"
proof -
  from assms obtain a b c d e f where m: "mac = [a, b, c, d, e, f]" by (rule mac_list)
  show ?thesis
    unfolding m mac_text by (simp add: packmac_def mac_digits_pack)
qed

theorem packmac_unpackmac_witness:
  "packmac (unpackmac [0x52, 0x54, 0, 0x12, 0x34, 0xAB]) = [0x52, 0x54, 0, 0x12, 0x34, 0xAB]"
  using packmac_unpackmac [of "[0x52, 0x54, 0, 0x12, 0x34, 0xAB]"] by simp

section \<open>Byte order\<close>

lemma hton_bytes:
  "ucast (hton v) = (ucast (drop_bit 8 v) :: u8)" "ucast (drop_bit 8 (hton v)) = (ucast v :: u8)"
proof -
  show "ucast (hton v) = (ucast (drop_bit 8 v) :: u8)"
    by (rule bit_word_eqI) (simp add: hton_def bit_simps)
  show "ucast (drop_bit 8 (hton v)) = (ucast v :: u8)"
  proof (rule bit_word_eqI)
    fix n assume "n < LENGTH(8)"
    then show "bit (ucast (drop_bit 8 (hton v)) :: u8) n = bit (ucast v :: u8) n"
      using bit_imp_le_length [of v "8 + (8 + n)"] by (auto simp: hton_def bit_simps)
  qed
qed

lemma hton_hton: "hton (hton v) = v"
proof (rule bit_word_eqI)
  fix n assume "n < LENGTH(16)"
  then show "bit (hton (hton v)) n = bit v n" by (cases "n < 8") (auto simp: hton_def bit_simps)
qed

lemma htons_halves:
  "ucast (htons w) = hton (ucast (drop_bit 16 w))" "ucast (drop_bit 16 (htons w)) = hton (ucast w)"
proof -
  show "ucast (htons w) = hton (ucast (drop_bit 16 w))"
    by (rule bit_word_eqI) (simp add: htons_def bit_simps)
  show "ucast (drop_bit 16 (htons w)) = hton (ucast w)"
  proof (rule bit_word_eqI)
    fix n assume "n < LENGTH(16)"
    then show "bit (ucast (drop_bit 16 (htons w)) :: u16) n = bit (hton (ucast w)) n"
      using bit_imp_le_length [of "hton (ucast (drop_bit 16 w))" "16 + n"] by (auto simp: htons_def bit_simps)
  qed
qed

lemma byte_of_half:
  "ucast (w :: u32) = (ucast (ucast w :: u16) :: u8)"
  "ucast (drop_bit 8 w) = (ucast (drop_bit 8 (ucast w :: u16)) :: u8)"
  "ucast (drop_bit 24 w) = (ucast (drop_bit 8 (ucast (drop_bit 16 w) :: u16)) :: u8)"
  "ucast (drop_bit 16 w) = (ucast (ucast (drop_bit 16 w) :: u16) :: u8)"
proof -
  show "ucast (w :: u32) = (ucast (ucast w :: u16) :: u8)" by (rule bit_word_eqI) (simp add: bit_simps)
  show "ucast (drop_bit 8 w) = (ucast (drop_bit 8 (ucast w :: u16)) :: u8)"
    by (rule bit_word_eqI) (simp add: bit_simps)
  show "ucast (drop_bit 24 w) = (ucast (drop_bit 8 (ucast (drop_bit 16 w) :: u16)) :: u8)"
    by (rule bit_word_eqI) (simp add: bit_simps)
  show "ucast (drop_bit 16 w) = (ucast (ucast (drop_bit 16 w) :: u16) :: u8)"
    by (rule bit_word_eqI) (simp add: bit_simps)
qed

lemma htons_bytes:
  "ucast (htons w) = (ucast (drop_bit 24 w) :: u8)" "ucast (drop_bit 8 (htons w)) = (ucast (drop_bit 16 w) :: u8)"
  "ucast (drop_bit 16 (htons w)) = (ucast (drop_bit 8 w) :: u8)" "ucast (drop_bit 24 (htons w)) = (ucast w :: u8)"
  unfolding byte_of_half [of "htons w"] byte_of_half [of w] htons_halves hton_bytes by (rule refl)+

text \<open>
  The byte-order conversions are involutions that reverse the bytes of the value as stored in
  memory: what \<^verbatim>\<open>hton\<close> and \<^verbatim>\<open>htons\<close> return is laid out most significant byte first.
\<close>

theorem byte_order:
  "hton (hton v) = v \<and> htons (htons w) = w \<and> le16 (hton v) = rev (le16 v) \<and> le32 (htons w) = rev (le32 w)"
proof (intro conjI)
  show "hton (hton v) = v" by (rule hton_hton)
  have "w = ucast (ucast w :: u16) OR push_bit 16 (ucast (ucast (drop_bit 16 w) :: u16))"
  proof (rule bit_word_eqI)
    fix n assume "n < LENGTH(32)"
    then show "bit w n = bit (ucast (ucast w :: u16) OR push_bit 16 (ucast (ucast (drop_bit 16 w) :: u16)) :: u32) n"
      by (cases "n < 16") (auto simp: bit_simps)
  qed
  then show "htons (htons w) = w"
    unfolding htons_def [of "htons w"] htons_halves hton_hton by (rule sym)
  show "le16 (hton v) = rev (le16 v)" by (simp add: le16_def hton_bytes)
  show "le32 (htons w) = rev (le32 w)" by (simp add: le32_def htons_bytes)
qed

section \<open>Reading an IP address\<close>

text \<open>A text that starts with a three-digit octet and a dot.\<close>

definition three_digits :: "bytes \<Rightarrow> bool" where
  "three_digits ip \<longleftrightarrow> is_digit (ip 0) \<and> is_digit (ip 1) \<and> is_digit (ip 2) \<and> ip 3 = 46"

definition octet :: "bytes \<Rightarrow> u32" where
  "octet ip = ((ucast (ip 0) - 48) * 10 + ucast (ip 1) - 48) * 10 + ucast (ip 2) - 48"

lemma digit_not_dot: "is_digit c \<Longrightarrow> c \<noteq> 46" "\<not> is_digit 46" "\<not> is_digit 0"
  by (auto simp: is_digit_def)

lemma len4:
  assumes "length xs = 4"
  obtains a b c d where "xs = [a, b, c, d]"
proof -
  from assms have "length xs = Suc (Suc (Suc (Suc 0)))" by simp
  then show ?thesis using that by (auto simp: length_Suc_conv)
qed

lemma getip_three:
  assumes "three_digits ip" "length arr = 4"
  shows "getip_loop ip (Suc (Suc (Suc n))) arr vals 0 k =
    getip_loop ip n [ip 0, ip 1, ip 2, arr ! 3] vals 3 k"
proof -
  from assms(2) obtain a b c d where a: "arr = [a, b, c, d]" by (rule len4)
  have "ip 0 \<noteq> 46" "ip 1 \<noteq> 46" "ip 2 \<noteq> 46" using assms(1) digit_not_dot(1) by (auto simp: three_digits_def)
  then show ?thesis by (simp add: a arr_set_def One_nat_def numeral_2_eq_2 numeral_3_eq_3)
qed

lemma octet_atoi:
  "three_digits ip \<Longrightarrow> arr_atoi [ip 0, ip 1, ip 2, 0] 0 = Inr (octet ip)"
  by (simp add: three_digits_def octet_def digit_not_dot)

lemma getip_octet:
  assumes "three_digits ip" "length arr = 4" "k < length vals"
  shows "getip_loop ip (Suc (Suc (Suc (Suc n)))) arr vals 0 k =
    getip_loop ip n [ip 0, ip 1, ip 2, 0] (vals[k := octet ip]) 0 (k + 1)"
  unfolding getip_three [OF assms(1,2)]
  using assms octet_atoi [OF assms(1)]
  by (simp add: arr_set_def three_digits_def numeral_3_eq_3)

lemma getip_octets:
  assumes "three_digits ip" "length arr = 4" "length vals = 4" "k + q \<le> 4"
  shows "getip_loop ip (4 * q + n) arr vals 0 k =
    getip_loop ip n (if q = 0 then arr else [ip 0, ip 1, ip 2, 0])
      (fold (\<lambda>i v. v[i := octet ip]) [k..<k + q] vals) 0 (k + q)"
  using assms
proof (induction q arbitrary: arr vals k)
  case (Suc q)
  have "4 * Suc q + n = Suc (Suc (Suc (Suc (4 * q + n))))" by simp
  then have "getip_loop ip (4 * Suc q + n) arr vals 0 k =
      getip_loop ip (4 * q + n) [ip 0, ip 1, ip 2, 0] (vals[k := octet ip]) 0 (k + 1)"
    using getip_octet [OF Suc.prems(1,2), of k vals "4 * q + n"] Suc.prems(3,4) by (simp only:)
  also have "\<dots> = getip_loop ip n [ip 0, ip 1, ip 2, 0]
      (fold (\<lambda>i v. v[i := octet ip]) [k + 1..<k + 1 + q] (vals[k := octet ip])) 0 (k + 1 + q)"
    using Suc.IH [of "[ip 0, ip 1, ip 2, 0]" "vals[k := octet ip]" "k + 1"] Suc.prems by simp
  also have "\<dots> = getip_loop ip n [ip 0, ip 1, ip 2, 0]
      (fold (\<lambda>i v. v[i := octet ip]) [k..<k + Suc q] vals) 0 (k + Suc q)"
    by (simp add: upt_conv_Cons One_nat_def del: upt_Suc)
  finally show ?case by simp
qed simp

text \<open>
  \<^verbatim>\<open>getip\<close> reads \<^verbatim>\<open>ip[j]\<close> where it means \<^verbatim>\<open>ip[i]\<close>, so it parses the first octet again and again. For any
  text of length \<open>4q + 3\<close> that starts with a three-digit octet, the first \<open>q + 1\<close> octets of the result
  are that octet, and the remaining ones are what the stack held: the rest of the text is ignored.
\<close>

theorem getip_repeats_octet:
  assumes "three_digits ip" "length arr0 = 4" "length ipvals0 = 4" "q \<le> 3"
  shows "getip arr0 ipvals0 ip (4 * q + 3) =
    Inr (pack_ip (map (\<lambda>i. if i \<le> q then octet ip else ipvals0 ! i) [0..<4]))"
proof -
  let ?a = "if q = 0 then arr0 else [ip 0, ip 1, ip 2, 0]"
  let ?v = "fold (\<lambda>i v. v[i := octet ip]) [0..<q] ipvals0"
  have l: "length ?a = 4" "length ?v = 4"
  proof -
    have "length (fold (\<lambda>i v. v[i := octet ip]) xs vs) = length vs" for xs vs
      by (induction xs arbitrary: vs) auto
    then show "length ?a = 4" "length ?v = 4" using assms by simp_all
  qed
  have "getip_loop ip (4 * q + 3) arr0 ipvals0 0 0 = getip_loop ip 3 ?a ?v 0 q"
    using getip_octets [OF assms(1-3), of 0 q 3] assms(4) by simp
  also have "\<dots> = Inr ([ip 0, ip 1, ip 2, ?a ! 3], ?v, 3, q)"
    using getip_three [OF assms(1) l(1), of 0 ?v q] by (simp add: numeral_3_eq_3)
  finally have "getip arr0 ipvals0 ip (4 * q + 3) = Inr (pack_ip (?v[q := octet ip]))"
    using octet_atoi [OF assms(1)] l(2) assms(4) by (simp add: getip_def arr_set_def numeral_3_eq_3)
  moreover from assms(3) obtain a b c d where v: "ipvals0 = [a, b, c, d]" by (rule len4)
  moreover have "q = 0 \<or> q = 1 \<or> q = 2 \<or> q = 3" using assms(4) by linarith
  ultimately show ?thesis by (auto simp: v upt_small)
qed

theorem getip_repeats_octet_witness:
  "getip [0, 0, 0, 0] [7, 7, 7, 7] (cmem (str ''192.168.1.1'')) 11 = Inr (pack_ip [192, 192, 192, 7])"
proof -
  have t: "three_digits (cmem (str ''192.168.1.1''))"
    by (simp add: three_digits_def cmem_def str_def chr_def is_digit_def)
  have o: "octet (cmem (str ''192.168.1.1'')) = 192"
    by (simp add: octet_def cmem_def str_def chr_def)
  show ?thesis using getip_repeats_octet [OF t, of "[0, 0, 0, 0]" "[7, 7, 7, 7]" 2] o
    by (simp add: upt_small)
qed

section \<open>Writing an IP address\<close>

text \<open>The copy loop keeps \<^verbatim>\<open>j\<close> where it is and so never ends.\<close>

lemma copy_digits_diverges:
  assumes "0 \<le> j"
  shows "copy_digits m j c = None"
proof -
  have "j < 0" if "copy_digits m j c = Some y" for m y
    using that
  proof (induction rule: copy_digits.raw_induct [rotated, consumes 1])
    case (1 f m j c y)
    then show ?case by (auto split: if_splits)
  qed
  with assms show ?thesis by (cases "copy_digits m j c") auto
qed

lemma parseip_loop_stops:
  assumes "0 \<le> j" "parseip_loop arr xs m j = Some (Inr r)"
  shows "\<forall>x\<in>set xs. x = 0"
  using assms
proof (induction xs arbitrary: m j)
  case (Cons x xs)
  show ?case
  proof (cases "x = 0")
    case True
    with Cons.prems have "parseip_loop arr xs (m(nat j := 48, nat (j + 1) := 58)) (j + 2) = Some (Inr r)" by simp
    with Cons.IH [of "j + 2"] Cons.prems(1) True show ?thesis by simp
  next
    case False
    with Cons.prems show ?thesis by (auto simp: copy_digits_diverges split: sum.splits prod.splits)
  qed
qed simp

lemma parseip_cases:
  assumes "length ipvals0 = 4"
  shows "if ip = 0 \<and> drop 1 ipvals0 = [0, 0, 0]
    then \<exists>m. parseip arr0 ipvals0 ip ipstr = Some (Inr m) \<and> map m [0..<8] = str ''0:0:0:0'' @ [0]
    else \<forall>m. parseip arr0 ipvals0 ip ipstr \<noteq> Some (Inr m)"
proof -
  from assms obtain a b c d where v: "ipvals0 = [a, b, c, d]" by (rule len4)
  have u: "[0..<8] = [0, 1, 2, 3, 4, 5, 6, 7]" by code_simp
  show ?thesis
  proof (cases "ip = 0 \<and> drop 1 ipvals0 = [0, 0, 0]")
    case True
    then show ?thesis
      by (simp add: parseip_def v u str_def chr_def One_nat_def nat_add_distrib)
  next
    case False
    have "parseip arr0 ipvals0 ip ipstr \<noteq> Some (Inr m)" for m
    proof
      assume "parseip arr0 ipvals0 ip ipstr = Some (Inr m)"
      then obtain r where "parseip_loop arr0 (ipvals0[0 := if ip \<noteq> 0 then 1 else 0]) ipstr 0 = Some (Inr r)"
        by (auto simp: parseip_def split: option.splits sum.splits)
      from parseip_loop_stops [OF _ this] False show False by (auto simp: v One_nat_def split: if_splits)
    qed
    with False show ?thesis by auto
  qed
qed

text \<open>
  C15. \<^verbatim>\<open>parseip\<close> returns only for the address 0 and only if the three stack words its first loop fails
  to initialise happen to be 0; the text is then \<^verbatim>\<open>0:0:0:0\<close>. For every other address or stack it
  runs forever (or overruns its digit buffer).
\<close>

theorem parseip_returns:
  assumes "length ipvals0 = 4"
  shows "if ip = 0 \<and> drop 1 ipvals0 = [0, 0, 0]
    then \<exists>m. parseip arr0 ipvals0 ip ipstr = Some (Inr m) \<and> map m [0..<8] = str ''0:0:0:0'' @ [0]
    else \<forall>m. parseip arr0 ipvals0 ip ipstr \<noteq> Some (Inr m)"
  using assms by (rule parseip_cases)

theorem parseip_returns_witness:
  "\<forall>m. parseip [0, 0, 0] [0, 0, 0, 0] 0xC0A80101 (\<lambda>_. 0) \<noteq> Some (Inr m)"
  using parseip_returns [of "[0, 0, 0, 0]" "0xC0A80101" "[0, 0, 0]" "\<lambda>_. 0"] by simp

text \<open>
  C16. \<^verbatim>\<open>parsereply\<close> never reports a MAC address, whatever frame arrives; in particular it rejects
  as "not ARP" every frame whose type field is in network byte order, as \<^verbatim>\<open>initframe\<close> writes it.
\<close>

theorem parsereply_never_reports:
  assumes "length ipvals0 = 4"
  shows "parsereply arr0 ipvals0 dip0 eth \<noteq> Some (Inr (MacIs mac)) \<and>
    (e_ethtype eth = hton 0x0806 \<longrightarrow> parsereply arr0 ipvals0 dip0 eth = Some (Inr NotArp))"
proof
  show "parsereply arr0 ipvals0 dip0 eth \<noteq> Some (Inr (MacIs mac))"
  proof
    assume "parsereply arr0 ipvals0 dip0 eth = Some (Inr (MacIs mac))"
    then obtain m where p: "parseip arr0 ipvals0 (e_dip eth) dip0 = Some (Inr m)"
      and m: "map m [0..<16] = str ''255.255.255.255'' @ [0]"
      by (auto simp: parsereply_def split: if_splits option.splits sum.splits)
    from parseip_cases [OF assms, of "e_dip eth" arr0 dip0] p
    have "map m [0..<8] = str ''0:0:0:0'' @ [0]" by (auto split: if_splits)
    then have "m 0 = 48" by (auto simp: upt_conv_Cons str_def chr_def)
    moreover have "m 0 = 50" using m by (auto simp: upt_conv_Cons str_def chr_def)
    ultimately show False by simp
  qed
  have "hton 0x0806 \<noteq> 0x0806" by code_simp
  then show "e_ethtype eth = hton 0x0806 \<longrightarrow> parsereply arr0 ipvals0 dip0 eth = Some (Inr NotArp)"
    by (simp add: parsereply_def)
qed

definition ex_eth :: eth_head where
  "ex_eth = \<lparr>e_dmac = replicate 6 0xFF, e_smac = replicate 6 2, e_ethtype = hton 0x0806, e_hwtype = hton 1,
     e_prottype = hton 0x0800, e_hwsize = 6, e_protsize = 4, e_opercode = hton 2,
     e_arpsmac = replicate 6 2, e_sip = 0x0101A8C0, e_arpdmac = replicate 6 0xFF, e_dip = 0x0201A8C0, e_padd = 0\<rparr>"

theorem parsereply_never_reports_witness:
  "parsereply [0, 0, 0] [0, 0, 0, 0] (\<lambda>_. 0) ex_eth = Some (Inr NotArp)"
  using parsereply_never_reports [of "[0, 0, 0, 0]" "[0, 0, 0]" "\<lambda>_. 0" ex_eth "[]"] by (simp add: ex_eth_def)

section \<open>The frame on the wire\<close>

lemma own_octet: "three_digits (cmem (str ''192.168.1.1''))" "octet (cmem (str ''192.168.1.1'')) = 192"
  by (simp_all add: three_digits_def octet_def cmem_def str_def chr_def is_digit_def)

lemma le32_pack_192: "le32 (pack_ip [192, 192, 192, v]) = [192, 192, 192, ucast v]"
proof -
  have m: "0xC0C0C0 = take_bit 24 (0xC0C0C0 :: u32)" by code_simp
  have b: "n < 24" if "bit (0xC0C0C0 :: u32) n" for n
    using bit_take_bit_iff [of 24 "0xC0C0C0 :: u32" n] that unfolding m [symmetric] by blast
  have d: "\<not> bit (push_bit 24 v) n" if "n < 24" for n using that by (simp add: bit_simps)
  have "push_bit 16 192 + push_bit 8 192 + 192 = (0xC0C0C0 :: u32)" by code_simp
  then have "pack_ip [192, 192, 192, v] = push_bit 24 v + 0xC0C0C0" by (simp only: pack_ip_def nth_Cons_numeral) (simp add: add.assoc [symmetric])
  also have "\<dots> = push_bit 24 v OR 0xC0C0C0"
    by (rule disjunctive_add) (use b d in blast)
  finally have p: "pack_ip [192, 192, 192, v] = push_bit 24 v OR 0xC0C0C0" .
  have z: "ucast (push_bit 24 v) = (0 :: u8)" "ucast (drop_bit 8 (push_bit 24 v)) = (0 :: u8)"
    "ucast (drop_bit 16 (push_bit 24 v)) = (0 :: u8)" "ucast (drop_bit 24 (push_bit 24 v)) = (ucast v :: u8)"
    by (rule bit_word_eqI; auto simp: bit_simps)+
  have c: "ucast (0xC0C0C0 :: u32) = (192 :: u8)" "ucast (drop_bit 8 (0xC0C0C0 :: u32)) = (192 :: u8)"
    "ucast (drop_bit 16 (0xC0C0C0 :: u32)) = (192 :: u8)" "ucast (drop_bit 24 (0xC0C0C0 :: u32)) = (0 :: u8)"
    by code_simp+
  show ?thesis unfolding le32_def p drop_bit_or unsigned_or_eq z c by simp
qed

lemma initframe_fields:
  assumes "initframe (arr1, vals1) (arr2, vals2) smac ipadd eth0 = Inr eth" "length arr1 = 4" "length vals1 = 4"
    "length smac = 6"
  obtains dip where "getip arr2 vals2 (cmem ipadd) (length ipadd) = Inr dip"
    "eth = \<lparr>e_dmac = replicate 6 0xFF, e_smac = smac, e_ethtype = hton 0x0806, e_hwtype = hton 1,
       e_prottype = hton 0x0800, e_hwsize = 6, e_protsize = 4, e_opercode = hton 1, e_arpsmac = smac,
       e_sip = pack_ip [192, 192, 192, vals1 ! 3], e_arpdmac = replicate 6 0xFF, e_dip = dip, e_padd = e_padd eth0\<rparr>"
proof -
  have b: "packmac BROADCASTMAC = replicate 6 0xFF" by code_simp
  have l: "length (str ''192.168.1.1'') = 11" by (simp add: str_def)
  have s: "getip arr1 vals1 (cmem (str ''192.168.1.1'')) 11 = Inr (pack_ip [192, 192, 192, vals1 ! 3])"
    using getip_repeats_octet [OF own_octet(1) assms(2,3), of 2] own_octet(2) by (simp add: upt_small)
  show ?thesis using assms(1,4) that
    by (cases eth0) (auto simp: initframe_def l s b bnd_eq_Inr)
qed

lemma eth_bytes_layout:
  assumes "length (e_dmac e) = 6" "length (e_smac e) = 6" "length (e_arpsmac e) = 6" "length (e_arpdmac e) = 6"
  shows "eth_bytes mem e =
    e_dmac e @ e_smac e @ le16 (e_ethtype e) @ le16 (e_hwtype e) @ le16 (e_prottype e) @
    [e_hwsize e, e_protsize e] @ le16 (e_opercode e) @ e_arpsmac e @ le32 (e_sip e) @
    e_arpdmac e @ [mem 38, mem 39] @ le32 (e_dip e) @ le16 (e_padd e) @ [mem 46, mem 47]"
proof -
  have l: "length (le32 x) = 4" "length (le16 y) = 2" for x y by (simp_all add: le32_def le16_def)
  have u: "[38..<40] = [38, 39]" "[46..<48] = [46, 47]" by code_simp+
  show ?thesis by (simp add: eth_bytes_def struct_bytes_def l u assms)
qed

text \<open>
  C17. The request frame: with an interface registered, whenever \<^verbatim>\<open>sendrequest\<close> returns it has handed the driver
  one packet of 46 bytes. Its first 28 bytes are those of a broadcast ARP request for IPv4 over
  Ethernet from the interface's address. The sender address at offset 28, meant to be
  192.168.1.1, is 192.192.192.\<open>x\<close> with \<open>x\<close> from the stack, for \<^verbatim>\<open>getip\<close> repeats the first octet. The
  target address is what \<^verbatim>\<open>getip\<close> makes of the text given; ARP has it at offset 38, but alignment
  puts it at offset 40, after two bytes of padding.
\<close>

theorem sendrequest_frame:
  assumes "sendrequest (arr1, vals1) (arr2, vals2) mem eth0 resp n ipadd = Inr (r, pkts, out)"
    "nic_sendpacket n" "nic_recvpacket n" "length (nic_macaddr n) = 6" "length arr1 = 4" "length vals1 = 4"
  shows "r = 0 \<and> (\<exists>dip. getip arr2 vals2 (cmem ipadd) (length ipadd) = Inr dip \<and>
    pkts = [replicate 6 0xFF @ nic_macaddr n @ [8, 6, 0, 1, 8, 0, 6, 4, 0, 1] @ nic_macaddr n @
      [192, 192, 192, ucast (vals1 ! 3)] @ replicate 6 0xFF @ [mem 38, mem 39] @ le32 dip @ le16 (e_padd eth0)])"
proof -
  have h: "le16 (hton 0x0806) = [8, 6]" "le16 (hton 1) = [0, 1]" "le16 (hton 0x0800) = [8, 0]" by code_simp+
  have l: "length (le32 x) = 4" "length (le16 y) = 2" for x y by (simp_all add: le32_def le16_def)
  from assms(1-3) obtain eth where e: "initframe (arr1, vals1) (arr2, vals2) (nic_macaddr n) ipadd eth0 = Inr eth"
    and r: "r = 0" "pkts = [take (length (eth_bytes mem eth) - 2) (eth_bytes mem eth)]"
    by (auto simp: sendrequest_def getnicdevice_def blockuntilreply_def bnd_eq_Inr Let_def)
  from initframe_fields [OF e assms(5,6,4)] obtain dip where
    d: "getip arr2 vals2 (cmem ipadd) (length ipadd) = Inr dip" and
    eth: "eth = \<lparr>e_dmac = replicate 6 0xFF, e_smac = nic_macaddr n, e_ethtype = hton 0x0806, e_hwtype = hton 1,
       e_prottype = hton 0x0800, e_hwsize = 6, e_protsize = 4, e_opercode = hton 1, e_arpsmac = nic_macaddr n,
       e_sip = pack_ip [192, 192, 192, vals1 ! 3], e_arpdmac = replicate 6 0xFF, e_dip = dip, e_padd = e_padd eth0\<rparr>" .
  have "eth_bytes mem eth = (replicate 6 0xFF @ nic_macaddr n @ [8, 6, 0, 1, 8, 0, 6, 4, 0, 1] @ nic_macaddr n @
      [192, 192, 192, ucast (vals1 ! 3)] @ replicate 6 0xFF @ [mem 38, mem 39] @ le32 dip @ le16 (e_padd eth0)) @ [mem 46, mem 47]"
    unfolding eth by (subst eth_bytes_layout) (simp_all add: assms(4) h le32_pack_192)
  moreover have "take (length (xs @ [a, b]) - 2) (xs @ [a, b]) = xs" for xs :: "u8 list" and a b by simp
  ultimately show ?thesis using d r by (simp only:) blast
qed

definition ex_nic :: nic where
  "ex_nic = \<lparr>nic_macaddr = [0x52, 0x54, 0, 0x12, 0x34, 0x56], nic_sendpacket = True, nic_recvpacket = True\<rparr>"

theorem sendrequest_frame_witness:
  "\<exists>out. sendrequest ([0, 0, 0, 0], [9, 9, 9, 9]) ([0, 0, 0, 0], [0, 0, 0, 0]) (\<lambda>_. 0xAA) ex_eth ex_eth ex_nic
      (str ''254.255.255.255'') =
    Inr (0, [[0xFF, 0xFF, 0xFF, 0xFF, 0xFF, 0xFF, 0x52, 0x54, 0, 0x12, 0x34, 0x56, 8, 6, 0, 1, 8, 0, 6, 4, 0, 1,
      0x52, 0x54, 0, 0x12, 0x34, 0x56, 192, 192, 192, 9, 0xFF, 0xFF, 0xFF, 0xFF, 0xFF, 0xFF, 0xAA, 0xAA,
      254, 254, 254, 254, 0, 0]], out)"
  (is "\<exists>out. ?c = _")
proof -
  have g: "getip [0, 0, 0, 0] [0, 0, 0, 0] (cmem (str ''254.255.255.255'')) (length (str ''254.255.255.255'')) = Inr 0xFEFEFEFE"
    by code_simp
  let ?i = "initframe ([0, 0, 0, 0], [9, 9, 9, 9]) ([0, 0, 0, 0], [0, 0, 0, 0]) (nic_macaddr ex_nic)
      (str ''254.255.255.255'') ex_eth"
  have "\<not> isl ?i" by code_simp
  then obtain eth where i: "?i = Inr eth" by (cases ?i) auto
  obtain r pkts out where c: "?c = Inr (r, pkts, out)"
    using i by (simp add: sendrequest_def getnicdevice_def ex_nic_def blockuntilreply_def Let_def)
  have "le32 0xFEFEFEFE = [254, 254, 254, 254]" "le16 0 = [0, 0]" by code_simp+
  moreover have "replicate 6 (0xFF :: u8) = [0xFF, 0xFF, 0xFF, 0xFF, 0xFF, 0xFF]" by code_simp
  ultimately show ?thesis using sendrequest_frame [OF c] unfolding g c by (simp add: ex_nic_def ex_eth_def)
qed

end
