(* ===== verification/E1000.thy ===== *)
theory E1000
  imports Kalloc Arp
begin

text \<open>
  The E1000 driver (\<^verbatim>\<open>e1000.c\<close>, \<^verbatim>\<open>e1000.h\<close>). The controller is not part of the sources: what a register
  read at the \<open>t\<close>th access returns, and what the controller has made of the descriptors in memory by
  the \<open>t\<close>th poll, are arguments. Register writes are recorded in order. Addresses of descriptors and buffers are
  kernel addresses; the pages come from the page allocator.
\<close>

section \<open>Registers\<close>

abbreviation E1000_SLOTS :: nat where
  "E1000_SLOTS \<equiv> 128"

definition E1000_CONTROL_REG :: u32 where "E1000_CONTROL_REG = 0"
definition E1000_CONTROL_RESET_MASK :: u32 where "E1000_CONTROL_RESET_MASK = 0x04000000"
definition E1000_CONTROL_ASDE_MASK :: u32 where "E1000_CONTROL_ASDE_MASK = 0x20"
definition E1000_CONTROL_SLUP_MASK :: u32 where "E1000_CONTROL_SLUP_MASK = 0x40"

definition E1000_RDBAL :: u32 where "E1000_RDBAL = 0x02800"
definition E1000_RDBAH :: u32 where "E1000_RDBAH = 0x02804"
definition E1000_RDLEN :: u32 where "E1000_RDLEN = 0x02808"
definition E1000_RDH :: u32 where "E1000_RDH = 0x02810"
definition E1000_RDT :: u32 where "E1000_RDT = 0x02818"
definition E1000_TDBAL :: u32 where "E1000_TDBAL = 0x03800"
definition E1000_TDBAH :: u32 where "E1000_TDBAH = 0x03804"
definition E1000_TDLEN :: u32 where "E1000_TDLEN = 0x03808"
definition E1000_TDH :: u32 where "E1000_TDH = 0x03810"
definition E1000_TDT :: u32 where "E1000_TDT = 0x03818"
definition E1000_RECV_RAL0 :: u32 where "E1000_RECV_RAL0 = 0x05400"
definition E1000_RECV_RAH0 :: u32 where "E1000_RECV_RAH0 = 0x05404"
definition E1000_TCTL :: u32 where "E1000_TCTL = 0x400"
definition E1000_TIPG :: u32 where "E1000_TIPG = 0x410"
definition E1000_IMS :: u32 where "E1000_IMS = 0xd0"
definition E1000_RCTL :: u32 where "E1000_RCTL = 0x100"

definition E1000_TCTL_CT_SET :: "u32 \<Rightarrow> u32" where
  "E1000_TCTL_CT_SET v = push_bit 4 v AND 0x00000ff0"

definition E1000_TCTL_COLD_SET :: "u32 \<Rightarrow> u32" where
  "E1000_TCTL_COLD_SET v = push_bit 12 v AND 0x003ff000"

definition tctl_value :: u32 where
  "tctl_value = 0x2 OR 0x8 OR E1000_TCTL_CT_SET 0x0f OR E1000_TCTL_COLD_SET 0x200"

definition E1000_TIPG_IPGT_SET :: "u32 \<Rightarrow> u32" where
  "E1000_TIPG_IPGT_SET v = push_bit 0 v AND 0x000003ff"

definition E1000_TIPG_IPGR1_SET :: "u32 \<Rightarrow> u32" where
  "E1000_TIPG_IPGR1_SET v = push_bit 10 v AND 0x000ffc00"

definition E1000_TIPG_IPGR2_SET :: "u32 \<Rightarrow> u32" where
  "E1000_TIPG_IPGR2_SET v = push_bit 20 v AND 0x3ff00000"

definition tipg_value :: u32 where
  "tipg_value = E1000_TIPG_IPGT_SET 10 OR E1000_TIPG_IPGR1_SET 10 OR E1000_TIPG_IPGR2_SET 10"

definition ims_value :: u32 where
  "ims_value = 0x8 OR 0x40 OR 0x80 OR 0x2"

definition rctl_value :: u32 where
  "rctl_value = 0x2 OR 0x8000 OR 0x0 OR 0x8"

definition ring_len :: u32 where
  "ring_len = push_bit 7 (128 * 16)"

section \<open>Descriptors and the driver state\<close>

record e1000_TBD =
  t_addr :: u64
  t_len :: u16
  t_cso :: u8
  t_cmd :: u8
  t_sts :: u8
  t_css :: u8
  t_spc :: u16

record e1000_RBD =
  r_addr0 :: u32
  r_addr1 :: u32

record e1000 =
  tbd :: "u32 list"
  rbd :: "u32 list"
  tbuf :: "u32 list"
  rbuf :: "u32 list"
  tdesc :: "e1000_TBD list"
  rdesc :: "e1000_RBD list"
  tdata :: "u8 list list"
  tbdtail :: nat
  tbdhead :: nat
  rbdtail :: nat
  rbdhead :: nat
  iobase :: u32
  membase :: u32
  irqline :: u8
  irqpin :: u8
  emac :: "u8 list"
  regwrites :: "(u32 \<times> u32) list"
  accesses :: nat

definition e1000regwrite :: "u32 \<Rightarrow> u32 \<Rightarrow> e1000 \<Rightarrow> e1000" where
  "e1000regwrite regaddr val e = e\<lparr>regwrites := regwrites e @ [(regaddr, val)]\<rparr>"

definition e1000regread :: "(nat \<Rightarrow> u32 \<Rightarrow> u32) \<Rightarrow> u32 \<Rightarrow> e1000 \<Rightarrow> u32 \<times> e1000" where
  "e1000regread dev regaddr e = (dev (accesses e) regaddr, e\<lparr>accesses := accesses e + 1\<rparr>)"

section \<open>Sending\<close>

text \<open>
  The controller as a parameter: \<open>hw t ws ds\<close> are the transmit descriptors in memory after it has worked on
  \<open>ds\<close> before the \<open>t\<close>th poll, given the register writes \<open>ws\<close> so far.
\<close>

type_synonym controller = "nat \<Rightarrow> (u32 \<times> u32) list \<Rightarrow> e1000_TBD list \<Rightarrow> e1000_TBD list"

definition E1000_TDESC_STATUS_DONE :: "u8 \<Rightarrow> bool" where
  "E1000_TDESC_STATUS_DONE status \<longleftrightarrow> status AND 0x01 \<noteq> 0"

text \<open>The wait for the status of slot \<open>i\<close>; no result if the controller never sets it.\<close>

partial_function (option) wait_done :: "controller \<Rightarrow> nat \<Rightarrow> nat \<Rightarrow> e1000 \<Rightarrow> e1000 option" where
  "wait_done hw i t e =
     (let e = e\<lparr>tdesc := hw t (regwrites e) (tdesc e)\<rparr> in
      if E1000_TDESC_STATUS_DONE (t_sts (tdesc e ! i)) then Some e else wait_done hw i (t + 1) e)"

definition zero_TBD :: e1000_TBD where
  "zero_TBD = \<lparr>t_addr = 0, t_len = 0, t_cso = 0, t_cmd = 0, t_sts = 0, t_css = 0, t_spc = 0\<rparr>"

definition send_desc :: "u32 \<Rightarrow> u16 \<Rightarrow> e1000_TBD" where
  "send_desc buf len = zero_TBD\<lparr>t_addr := ucast (V2P buf), t_len := len, t_cmd := 0x08 OR 0x01 OR 0x02, t_cso := 0\<rparr>"

text \<open>
  \<^verbatim>\<open>sende1000\<close> copies \<open>len\<close> bytes into a buffer of 2046 whatever \<open>len\<close> is.
\<close>

definition sende1000 :: "controller \<Rightarrow> u8 list \<Rightarrow> e1000 \<Rightarrow> e1000 res option" where
  "sende1000 hw pkt e =
     (let oldtail = tbdtail e in
      if length (tbuf e) \<le> oldtail \<or> 2046 < length pkt then Some (Inl (Fault ''sende1000: memmove''))
      else
        let e = e\<lparr>tdata := (tdata e)[oldtail := pkt @ drop (length pkt) (tdata e ! oldtail)],
                  tdesc := (tdesc e)[oldtail := send_desc (tbuf e ! oldtail) (of_nat (length pkt))],
                  tbdtail := (oldtail + 1) mod E1000_SLOTS\<rparr>;
            e = e1000regwrite E1000_TDT (of_nat (tbdtail e)) e
        in case wait_done hw oldtail 0 e of None \<Rightarrow> None | Some e \<Rightarrow> Some (Inr e))"

definition recve1000 :: "u8 list \<Rightarrow> e1000 \<Rightarrow> e1000" where
  "recve1000 pkt e = e"

section \<open>Initialisation\<close>

text \<open>The loop over the base address registers: the port base, the memory base, or a panic.\<close>

fun scan_bars :: "(u32 \<times> u32) list \<Rightarrow> u32 \<Rightarrow> u32 \<Rightarrow> (u32 \<times> u32) res" where
  "scan_bars [] io mm = Inr (io, mm)"
| "scan_bars ((base, sz) # bars) io mm =
     (if base \<le> 0xffff then
        if sz \<noteq> 64 then Inl (Panic ''I/O space BAR size != 64'') else Inr (base, mm)
      else if base > 0 then
        if sz \<noteq> 2 ^ 17 then Inl (Panic ''Mem space BAR size != 128KB'') else scan_bars bars io base
      else scan_bars bars io mm)"

text \<open>Polling until the reset bit clears.\<close>

partial_function (option) wait_reset :: "(nat \<Rightarrow> u32 \<Rightarrow> u32) \<Rightarrow> e1000 \<Rightarrow> e1000 option" where
  "wait_reset dev e =
     (let (v, e) = e1000regread dev E1000_CONTROL_REG e in
      if v AND E1000_CONTROL_RESET_MASK \<noteq> 0 then wait_reset dev e else Some e)"

definition mac_of :: "u32 \<Rightarrow> u32 \<Rightarrow> u8 list" where
  "mac_of lo hi = le32 lo @ le16 (ucast hi)"

text \<open>Two buffers of 2046 bytes per page, for \<open>n\<close> pages.\<close>

primrec alloc_buffers :: "nat \<Rightarrow> 'a kmem_scheme \<Rightarrow> u32 list \<times> 'a kmem_scheme" where
  "alloc_buffers 0 s = ([], s)"
| "alloc_buffers (Suc n) s =
     (let (tmp, s) = kalloc s; (bs, s) = alloc_buffers n s in (tmp # (tmp + 2046) # bs, s))"

definition setup_regs :: "e1000 \<Rightarrow> e1000" where
  "setup_regs e =
     (let e = e1000regwrite E1000_TDBAL (V2P (tbd e ! 0)) e;
          e = e1000regwrite E1000_TDBAH 0 e;
          e = e1000regwrite E1000_TDLEN ring_len e;
          e = e1000regwrite E1000_TDH 0 e;
          e = e1000regwrite E1000_TCTL tctl_value e;
          e = e1000regwrite E1000_TDT 0 e;
          e = e1000regwrite E1000_TIPG tipg_value e;
          e = e1000regwrite E1000_RDBAL (V2P (rbd e ! 0)) e;
          e = e1000regwrite E1000_RDBAH 0 e;
          e = e1000regwrite E1000_RDLEN ring_len e;
          e = e1000regwrite E1000_RDH 0 e;
          e = e1000regwrite E1000_RDT 0 e;
          e = e1000regwrite E1000_IMS ims_value e
      in e1000regwrite E1000_RCTL rctl_value e)"

definition ring :: "u32 \<Rightarrow> u32 list" where
  "ring p = map (\<lambda>i. p + 16 * of_nat i) [0..<E1000_SLOTS]"

text \<open>
  The allocation part, after the device has been reset: descriptor rings, buffers, registers. On a
  misaligned ring the code frees the pointer advanced past the ring and returns -1.
\<close>

definition init_rings :: "u32 \<Rightarrow> e1000 \<Rightarrow> 'a kmem_scheme \<Rightarrow> (int \<times> e1000 \<times> 'a kmem_scheme) res" where
  "init_rings kend e s =
     (let (ttmp, s) = kalloc s; e = e\<lparr>tbd := ring ttmp\<rparr> in
      if V2P (tbd e ! 0) AND 0xf \<noteq> 0 then
        bnd (kfree kend (ttmp + 16 * 128) s) (\<lambda>s. Inr (-1, e, s))
      else
        let (rtmp, s) = kalloc s; e = e\<lparr>rbd := ring rtmp\<rparr> in
        if V2P (rbd e ! 0) AND 0xf \<noteq> 0 then
          bnd (kfree kend (rtmp + 16 * 128) s) (\<lambda>s. Inr (-1, e, s))
        else if rtmp = 0 then Inl (Fault ''inite1000: no descriptors'')
        else
          let (rb, s) = alloc_buffers 64 s;
              e = e\<lparr>rbuf := rb, rdesc := map (\<lambda>b. \<lparr>r_addr0 = V2P b, r_addr1 = 0\<rparr>) rb\<rparr>;
              (tb, s) = alloc_buffers 64 s
          in Inr (0, setup_regs (e\<lparr>tbuf := tb\<rparr>), s))"

text \<open>
  \<^verbatim>\<open>inite1000\<close>: \<open>e0\<close> is what the page of the driver state holds when \<^verbatim>\<open>kalloc\<close> returns it; \<open>bars\<close> pairs
  \<^verbatim>\<open>regbase\<close> with \<^verbatim>\<open>regsize\<close>. The result is the return value, the driver state and the address stored
  through \<^verbatim>\<open>macaddr\<close>.
\<close>

definition inite1000 ::
  "(nat \<Rightarrow> u32 \<Rightarrow> u32) \<Rightarrow> u32 \<Rightarrow> e1000 \<Rightarrow> (u32 \<times> u32) list \<Rightarrow> u8 \<Rightarrow> u8 \<Rightarrow> 'a kmem_scheme \<Rightarrow>
   (int \<times> e1000 \<times> u8 list \<times> 'a kmem_scheme) res option" where
  "inite1000 dev kend e0 bars line pin s =
     (let (p, s) = kalloc s in
      if p = 0 then Some (Inl (Fault ''inite1000: no page''))
      else
        case scan_bars bars (iobase e0) (membase e0) of
          Inl err \<Rightarrow> Some (Inl err)
        | Inr (io, mm) \<Rightarrow>
            if io = 0 then Some (Inl (Panic ''Failed to find a valid I/O port base for the E1000''))
            else
              let e = e0\<lparr>iobase := io, membase := mm, irqline := line, irqpin := pin,
                         tbdhead := 0, tbdtail := 0, rbdhead := 0, rbdtail := 0\<rparr>;
                  (c, e) = e1000regread dev E1000_CONTROL_REG e;
                  e = e1000regwrite E1000_CONTROL_REG (c OR E1000_CONTROL_RESET_MASK) e
              in case wait_reset dev e of
                   None \<Rightarrow> None
                 | Some e \<Rightarrow>
                     let (c, e) = e1000regread dev E1000_CONTROL_REG e;
                         e = e1000regwrite E1000_CONTROL_REG (c OR E1000_CONTROL_ASDE_MASK OR E1000_CONTROL_SLUP_MASK) e;
                         (lo, e) = e1000regread dev E1000_RECV_RAL0 e;
                         (hi, e) = e1000regread dev E1000_RECV_RAH0 e;
                         e = e\<lparr>emac := mac_of lo hi\<rparr>
                     in Some (bnd (init_rings kend e s) (\<lambda>(r, e, s).
                          Inr (r, if r = 0 then snd (e1000regread dev E1000_IMS e) else e, mac_of lo hi, s))))"

section \<open>Properties\<close>

text \<open>The descriptors after the controller has worked \<open>k\<close> times, from the \<open>t\<close>th poll on.\<close>

primrec ring_at :: "controller \<Rightarrow> (u32 \<times> u32) list \<Rightarrow> nat \<Rightarrow> nat \<Rightarrow> e1000_TBD list \<Rightarrow> e1000_TBD list" where
  "ring_at hw ws t 0 ds = ds"
| "ring_at hw ws t (Suc k) ds = ring_at hw ws (t + 1) k (hw t ws ds)"

text \<open>
  What the data sheet promises: the controller writes back nothing but the status byte of
  descriptors, and when the tail register has just been set past a descriptor whose command asks
  for a status report, the done bit of that descriptor is set some time.
\<close>

definition writes_status_only :: "controller \<Rightarrow> bool" where
  "writes_status_only hw \<longleftrightarrow> (\<forall>t ws ds. length (hw t ws ds) = length ds \<and>
     (\<forall>i<length ds. (hw t ws ds ! i)\<lparr>t_sts := 0\<rparr> = (ds ! i)\<lparr>t_sts := 0\<rparr>))"

definition reports_done :: "controller \<Rightarrow> bool" where
  "reports_done hw \<longleftrightarrow> (\<forall>ws ds i. i < length ds \<and> t_cmd (ds ! i) AND 0x08 \<noteq> 0 \<longrightarrow>
     (\<exists>k. E1000_TDESC_STATUS_DONE (t_sts (ring_at hw (ws @ [(E1000_TDT, of_nat ((i + 1) mod E1000_SLOTS))]) 0 (Suc k) ds ! i))))"

lemma wait_done_returns:
  assumes "E1000_TDESC_STATUS_DONE (t_sts (ring_at hw (regwrites e) t (Suc k) (tdesc e) ! i))"
  shows "\<exists>m. wait_done hw i t e = Some (e\<lparr>tdesc := ring_at hw (regwrites e) t m (tdesc e)\<rparr>) \<and>
    E1000_TDESC_STATUS_DONE (t_sts (ring_at hw (regwrites e) t m (tdesc e) ! i))"
  using assms
proof (induction k arbitrary: t e)
  case 0
  then have "wait_done hw i t e = Some (e\<lparr>tdesc := ring_at hw (regwrites e) t (Suc 0) (tdesc e)\<rparr>)"
    by (subst wait_done.simps) (simp add: Let_def)
  then show ?case using 0 by blast
next
  case (Suc k)
  let ?e = "e\<lparr>tdesc := hw t (regwrites e) (tdesc e)\<rparr>"
  show ?case
  proof (cases "E1000_TDESC_STATUS_DONE (t_sts (hw t (regwrites e) (tdesc e) ! i))")
    case True
    then show ?thesis by (subst wait_done.simps) (auto simp: Let_def intro: exI [of _ "Suc 0"])
  next
    case False
    then have w: "wait_done hw i t e = wait_done hw i (t + 1) ?e" by (subst wait_done.simps) (simp add: Let_def)
    have "E1000_TDESC_STATUS_DONE (t_sts (ring_at hw (regwrites ?e) (t + 1) (Suc k) (tdesc ?e) ! i))"
      using Suc.prems by simp
    from Suc.IH [OF this] obtain m where
      "wait_done hw i (t + 1) ?e = Some (?e\<lparr>tdesc := ring_at hw (regwrites ?e) (t + 1) m (tdesc ?e)\<rparr>)"
      "E1000_TDESC_STATUS_DONE (t_sts (ring_at hw (regwrites ?e) (t + 1) m (tdesc ?e) ! i))" by blast
    then show ?thesis unfolding w by (intro exI [of _ "Suc m"]) simp
  qed
qed

lemma ring_at_status:
  assumes "writes_status_only hw"
  shows "length (ring_at hw ws t k ds) = length ds \<and>
    (\<forall>i<length ds. (ring_at hw ws t k ds ! i)\<lparr>t_sts := 0\<rparr> = (ds ! i)\<lparr>t_sts := 0\<rparr>)"
  using assms by (induction k arbitrary: t ds) (simp_all add: writes_status_only_def)

definition rings_ok :: "e1000 \<Rightarrow> bool" where
  "rings_ok e \<longleftrightarrow> length (tbuf e) = 128 \<and> length (tdesc e) = 128 \<and> length (tdata e) = 128 \<and> tbdtail e < 128"

text \<open>
  C26. Sending: for a packet that fits, and a controller that writes back only status bytes and
  reports the descriptors it is told of, \<^verbatim>\<open>sende1000\<close> returns. Then the slot at the old tail holds the
  packet, and a descriptor of its buffer and length with the end-of-packet, checksum and
  report-status commands whose status has the done bit; the other slots hold what they held, apart
  from status bytes the controller may have written; the tail has advanced cyclically, and the
  controller has been told the new tail.
\<close>

theorem sende1000_queues:
  assumes "rings_ok e" "length pkt \<le> 2046" "writes_status_only hw" "reports_done hw"
  shows "\<exists>e' st. sende1000 hw pkt e = Some (Inr e') \<and> rings_ok e' \<and>
    take (length pkt) (tdata e' ! tbdtail e) = pkt \<and>
    tdesc e' ! tbdtail e = \<lparr>t_addr = ucast (V2P (tbuf e ! tbdtail e)), t_len = of_nat (length pkt), t_cso = 0,
      t_cmd = 0x0b, t_sts = st, t_css = 0, t_spc = 0\<rparr> \<and> st AND 1 \<noteq> 0 \<and>
    (\<forall>i<128. i \<noteq> tbdtail e \<longrightarrow> tdata e' ! i = tdata e ! i \<and> (tdesc e' ! i)\<lparr>t_sts := 0\<rparr> = (tdesc e ! i)\<lparr>t_sts := 0\<rparr>) \<and>
    tbdtail e' = (tbdtail e + 1) mod 128 \<and> regwrites e' = regwrites e @ [(E1000_TDT, of_nat ((tbdtail e + 1) mod 128))]"
proof -
  define i where "i = tbdtail e"
  have l: "length (tbuf e) = 128" "length (tdesc e) = 128" "length (tdata e) = 128" "i < 128"
    using assms(1) by (simp_all add: rings_ok_def i_def)
  define d where "d = send_desc (tbuf e ! i) (of_nat (length pkt))"
  define e1 where "e1 = e1000regwrite E1000_TDT (of_nat ((i + 1) mod 128))
    (e\<lparr>tdata := (tdata e)[i := pkt @ drop (length pkt) (tdata e ! i)], tdesc := (tdesc e)[i := d], tbdtail := (i + 1) mod 128\<rparr>)"
  have e1: "tdesc e1 = (tdesc e)[i := d]" "regwrites e1 = regwrites e @ [(E1000_TDT, of_nat ((i + 1) mod 128))]"
    by (simp_all add: e1_def e1000regwrite_def)
  have "t_cmd d AND 0x08 \<noteq> 0" by (simp add: d_def send_desc_def zero_TBD_def)
  then obtain k where "E1000_TDESC_STATUS_DONE (t_sts (ring_at hw (regwrites e1) 0 (Suc k) (tdesc e1) ! i))"
    using assms(4) l unfolding reports_done_def e1 by (metis length_list_update nth_list_update_eq)
  from wait_done_returns [OF this] obtain m where
    w: "wait_done hw i 0 e1 = Some (e1\<lparr>tdesc := ring_at hw (regwrites e1) 0 m (tdesc e1)\<rparr>)" and
    dn: "E1000_TDESC_STATUS_DONE (t_sts (ring_at hw (regwrites e1) 0 m (tdesc e1) ! i))" by blast
  define ds where "ds = ring_at hw (regwrites e1) 0 m (tdesc e1)"
  have st: "length ds = 128" "j < 128 \<Longrightarrow> (ds ! j)\<lparr>t_sts := 0\<rparr> = (if j = i then d else tdesc e ! j)\<lparr>t_sts := 0\<rparr>" for j
    using ring_at_status [OF assms(3), of "regwrites e1" 0 m "tdesc e1"] l unfolding ds_def by (auto simp: e1)
  have "sende1000 hw pkt e = Some (Inr (e1\<lparr>tdesc := ds\<rparr>))"
    using assms(2) l w unfolding sende1000_def ds_def e1_def d_def i_def by (simp add: Let_def e1000regwrite_def)
  moreover have "ds ! i = d\<lparr>t_sts := t_sts (ds ! i)\<rparr>" using st(2) [OF l(4)] by (cases "ds ! i"; cases d) simp
  then have "ds ! i = \<lparr>t_addr = ucast (V2P (tbuf e ! i)), t_len = of_nat (length pkt), t_cso = 0,
      t_cmd = 0x0b, t_sts = t_sts (ds ! i), t_css = 0, t_spc = 0\<rparr>"
    by (simp add: d_def send_desc_def zero_TBD_def)
  moreover have "t_sts (ds ! i) AND 1 \<noteq> 0" using dn by (simp add: E1000_TDESC_STATUS_DONE_def ds_def)
  moreover have "rings_ok (e1\<lparr>tdesc := ds\<rparr>)" using l st(1) by (simp add: rings_ok_def e1_def e1000regwrite_def)
  moreover have "tdata e1 = (tdata e)[i := pkt @ drop (length pkt) (tdata e ! i)]" "tbdtail e1 = (i + 1) mod 128"
    by (simp_all add: e1_def e1000regwrite_def)
  ultimately show ?thesis using l st(2) e1(2)
    by (intro exI [of _ "e1\<lparr>tdesc := ds\<rparr>"] exI [of _ "t_sts (ds ! i)"]) (simp flip: i_def)
qed

lemma alloc_buffers_pages:
  assumes "kmem_ok kend s vs" "n \<le> length vs"
  shows "\<exists>s'. alloc_buffers n s = (concat (map (\<lambda>v. [v, v + 2046]) (take n vs)), s') \<and> kmem_ok kend s' (drop n vs)"
  using assms
proof (induction n arbitrary: s vs)
  case (Suc n)
  then obtain v ws where v: "vs = v # ws" by (cases vs) auto
  with kalloc_ok [OF Suc.prems(1)] obtain f where
    f: "kalloc s = (v, s\<lparr>freelist := f\<rparr>)" "kmem_ok kend (s\<lparr>freelist := f\<rparr>) ws" by auto
  have "n \<le> length ws" using Suc.prems(2) v by simp
  from Suc.IH [OF f(2) this] show ?case using f(1) v by auto
qed simp

lemma pairs_nth:
  "i < 2 * length vs \<Longrightarrow> concat (map (\<lambda>v. [v, v + d]) vs) ! i = (if even i then vs ! (i div 2) else vs ! (i div 2) + d)"
proof (induction vs arbitrary: i)
  case (Cons v vs)
  consider "i = 0" | "i = 1" | j where "i = Suc (Suc j)" by (metis One_nat_def not0_implies_Suc)
  then show ?case
  proof cases
    case 3
    then show ?thesis using Cons.IH [of j] Cons.prems by auto
  qed (auto simp: One_nat_def)
qed simp

lemma length_pairs: "length (concat (map (\<lambda>v. [v, v + d]) vs)) = 2 * length vs"
  by (induction vs) auto

lemma page_end:
  assumes "page_ok kend v"
  shows "unat (v + 2046) = unat v + 2046"
proof -
  obtain k where k: "unat v = 4096 * k" using assms by (auto simp: page_ok_def simp flip: dvd_eq_mod_eq_0 elim!: dvdE)
  have "unat v < 4294967296" using unsigned_less [of v] by simp
  then have "k < 1048576" using k by simp
  then have "unat v + unat (2046 :: u32) < 2 ^ LENGTH(32)" using k by simp
  then show ?thesis by (simp only: unat_add_lem) simp
qed

lemma pages_apart:
  assumes "page_ok kend v" "page_ok kend w" "v \<noteq> w"
  shows "unat v + PGSIZE \<le> unat w \<or> unat w + PGSIZE \<le> unat v"
proof -
  obtain k l where "unat v = 4096 * k" "unat w = 4096 * l"
    using assms(1,2) by (auto simp: page_ok_def simp flip: dvd_eq_mod_eq_0 elim!: dvdE)
  moreover have "unat v \<noteq> unat w" using assms(3) unfolding word_unat_eq_iff .
  ultimately show ?thesis by (cases "k < l") auto
qed

text \<open>
  The packet buffers set up from the page allocator do not overlap: with enough free pages,
  each of the two calls that fill \<^verbatim>\<open>rbuf\<close> and \<^verbatim>\<open>tbuf\<close> gives \<open>2 n\<close> buffers of 2046 bytes with disjoint
  address ranges, inside pages taken off the free list.
\<close>

theorem e1000_buffers_disjoint:
  assumes "kmem_ok kend s vs" "n \<le> length vs"
  shows "\<exists>bs s'. alloc_buffers n s = (bs, s') \<and> length bs = 2 * n \<and> kmem_ok kend s' (drop n vs) \<and>
    (\<forall>i<2 * n. \<forall>j<2 * n. i \<noteq> j \<longrightarrow> unat (bs ! i) + 2046 \<le> unat (bs ! j) \<or> unat (bs ! j) + 2046 \<le> unat (bs ! i))"
proof -
  let ?vs = "take n vs"
  let ?bs = "concat (map (\<lambda>v. [v, v + 2046]) ?vs)"
  obtain s' where s': "alloc_buffers n s = (?bs, s')" "kmem_ok kend s' (drop n vs)"
    using alloc_buffers_pages [OF assms] by blast
  have len: "length ?vs = n" using assms(2) by simp
  have ds: "distinct ?vs" using assms by (simp add: kmem_ok_def)
  have pk: "page_ok kend (?vs ! k)" if "k < n" for k
    using assms that by (auto simp: kmem_ok_def)
  have at: "unat (?bs ! i) = unat (?vs ! (i div 2)) + (if even i then 0 else 2046)" if "i < 2 * n" for i
  proof -
    have "i div 2 < n" using that by simp
    with pk have "page_ok kend (?vs ! (i div 2))" by blast
    then show ?thesis using pairs_nth [of i ?vs 2046] that len page_end by simp
  qed
  have "unat (?bs ! i) + 2046 \<le> unat (?bs ! j) \<or> unat (?bs ! j) + 2046 \<le> unat (?bs ! i)"
    if ij: "i < 2 * n" "j < 2 * n" "i \<noteq> j" for i j
  proof (cases "i div 2 = j div 2")
    case True
    with ij(3) have "even i \<noteq> even j" by (metis even_two_times_div_two odd_two_times_div_two_succ)
    then show ?thesis using at [OF ij(1)] at [OF ij(2)] True by auto
  next
    case False
    moreover have "i div 2 < n" "j div 2 < n" using ij by auto
    ultimately have "?vs ! (i div 2) \<noteq> ?vs ! (j div 2)" using nth_eq_iff_index_eq [OF ds] len by metis
    with pages_apart pk \<open>i div 2 < n\<close> \<open>j div 2 < n\<close>
    have "unat (?vs ! (i div 2)) + PGSIZE \<le> unat (?vs ! (j div 2)) \<or> unat (?vs ! (j div 2)) + PGSIZE \<le> unat (?vs ! (i div 2))"
      by blast
    then show ?thesis using at [OF ij(1)] at [OF ij(2)] by auto
  qed
  moreover have "length ?bs = 2 * n" unfolding length_pairs len ..
  ultimately show ?thesis using s' by blast
qed

theorem e1000_buffers_disjoint_witness:
  "\<exists>bs s'. alloc_buffers 1 \<lparr>use_lock = False, freelist = 0x80400000, pages = (\<lambda>_ _. 0)\<rparr> = (bs, s') \<and> length bs = 2"
proof -
  have "kmem_ok 0x80200000 \<lparr>use_lock = False, freelist = 0x80400000, pages = (\<lambda>_ _. 0)\<rparr> [0x80400000]"
    by (simp add: kmem_ok_def page_ok_def V2P_def KERNBASE_def PHYSTOP_def)
  from e1000_buffers_disjoint [OF this, of 1] show ?thesis by auto
qed

text \<open>
  The lengths programmed for the two rings are not those of the rings: the transmit and the
  receive length registers get 262144 bytes, 64 pages, for 128 descriptors of 16 bytes.
\<close>

theorem ring_length_registers:
  "\<exists>ws. regwrites (setup_regs e) = regwrites e @ ws \<and> map_of (rev ws) E1000_TDLEN = Some ring_len \<and>
     map_of (rev ws) E1000_RDLEN = Some ring_len \<and> unat ring_len = 64 * PGSIZE \<and>
     16 * length (ring p) = 2048 \<and> 16 * length (ring p) < unat ring_len"
proof -
  have l: "unat ring_len = 64 * PGSIZE" by (simp add: ring_len_def push_bit_eq_mult)
  show ?thesis
    by (auto simp: setup_regs_def e1000regwrite_def l ring_def E1000_TDLEN_def E1000_RDLEN_def E1000_RCTL_def E1000_IMS_def
      E1000_RDT_def E1000_RDH_def E1000_RDBAH_def E1000_RDBAL_def E1000_TIPG_def E1000_TDT_def E1000_TCTL_def E1000_TDH_def
      E1000_TDBAH_def E1000_TDBAL_def)
qed

definition ex_e1000 :: e1000 where
  "ex_e1000 = \<lparr>tbd = [], rbd = [], tbuf = replicate 128 0x80400000, rbuf = [], tdesc = replicate 128 zero_TBD, rdesc = [],
     tdata = replicate 128 [], tbdtail = 127, tbdhead = 0, rbdtail = 0, rbdhead = 0, iobase = 0, membase = 0, irqline = 0,
     irqpin = 0, emac = [], regwrites = [], accesses = 0\<rparr>"

text \<open>A controller that marks every descriptor done before the third poll.\<close>

definition ex_hw :: controller where
  "ex_hw t ws ds = (if t = 2 then map (\<lambda>d. d\<lparr>t_sts := 1\<rparr>) ds else ds)"

theorem sende1000_queues_witness:
  "\<exists>e'. sende1000 ex_hw [1, 2, 3] ex_e1000 = Some (Inr e') \<and> tbdtail e' = 0 \<and> t_len (tdesc e' ! 127) = 3 \<and>
    t_sts (tdesc e' ! 127) AND 1 \<noteq> 0 \<and> regwrites e' = [(E1000_TDT, 0)]"
proof -
  have "rings_ok ex_e1000" by (simp add: rings_ok_def ex_e1000_def)
  moreover have "writes_status_only ex_hw" by (simp add: writes_status_only_def ex_hw_def)
  moreover have "reports_done ex_hw"
    by (auto simp: reports_done_def ex_hw_def E1000_TDESC_STATUS_DONE_def intro!: exI [of _ 2] simp: numeral_2_eq_2)
  moreover have "tbdtail ex_e1000 = 127" "regwrites ex_e1000 = []" by (simp_all add: ex_e1000_def)
  ultimately show ?thesis using sende1000_queues [of ex_e1000 "[1, 2, 3]" ex_hw] by fastforce
qed

end
