(* ===== verification/Pci.thy ===== *)
theory Pci
  imports E1000
begin

text \<open>
  PCI enumeration (\<^verbatim>\<open>pci.c\<close>, \<^verbatim>\<open>pci.h\<close>, \<^verbatim>\<open>pciregs.h\<close>). Configuration space is reached through two ports;
  what the bus answers is not in the sources. It is an argument: \<open>rd a h\<close> is what a read of the
  configuration address \<open>a\<close> returns in the hardware state \<open>h\<close>, \<open>wr a v h\<close> the state after a write.
  \<open>attach\<close> stands for the driver's attach function.
\<close>

section \<open>Register fields\<close>

definition PCI_VENDOR :: "u32 \<Rightarrow> u32" where
  "PCI_VENDOR i = drop_bit 0 i AND 0xffff"

definition PCI_PRODUCT :: "u32 \<Rightarrow> u32" where
  "PCI_PRODUCT i = drop_bit 16 i AND 0xffff"

definition PCI_HDRTYPE :: "u32 \<Rightarrow> u32" where
  "PCI_HDRTYPE r = drop_bit 16 r AND 0xff"

definition PCI_HDRTYPE_TYPE :: "u32 \<Rightarrow> u32" where
  "PCI_HDRTYPE_TYPE r = PCI_HDRTYPE r AND 0x7f"

definition PCI_HDRTYPE_MULTIFN :: "u32 \<Rightarrow> bool" where
  "PCI_HDRTYPE_MULTIFN r \<longleftrightarrow> PCI_HDRTYPE r AND 0x80 \<noteq> 0"

definition PCI_INTERRUPT_PIN :: "u32 \<Rightarrow> u8" where
  "PCI_INTERRUPT_PIN r = ucast (drop_bit 8 r AND 0xff)"

definition PCI_INTERRUPT_LINE :: "u32 \<Rightarrow> u8" where
  "PCI_INTERRUPT_LINE r = ucast (drop_bit 0 r AND 0xff)"

definition PCI_CLASS :: "u32 \<Rightarrow> u32" where
  "PCI_CLASS r = drop_bit 24 r AND 0xff"

definition PCI_MAPREG_TYPE :: "u32 \<Rightarrow> u32" where
  "PCI_MAPREG_TYPE r = r AND 1"

definition PCI_MAPREG_MEM_TYPE :: "u32 \<Rightarrow> u32" where
  "PCI_MAPREG_MEM_TYPE r = r AND 6"

definition PCI_MAPREG_MEM_ADDR :: "u32 \<Rightarrow> u32" where
  "PCI_MAPREG_MEM_ADDR r = r AND 0xfffffff0"

definition PCI_MAPREG_MEM_SIZE :: "u32 \<Rightarrow> u32" where
  "PCI_MAPREG_MEM_SIZE r = PCI_MAPREG_MEM_ADDR r AND - PCI_MAPREG_MEM_ADDR r"

definition PCI_MAPREG_IO_ADDR :: "u32 \<Rightarrow> u32" where
  "PCI_MAPREG_IO_ADDR r = r AND 0xfffffffc"

definition PCI_MAPREG_IO_SIZE :: "u32 \<Rightarrow> u32" where
  "PCI_MAPREG_IO_SIZE r = PCI_MAPREG_IO_ADDR r AND - PCI_MAPREG_IO_ADDR r"

definition PCI_MAPREG_NUM :: "nat \<Rightarrow> nat" where
  "PCI_MAPREG_NUM off = (off - 0x10) div 4"

section \<open>Functions and configuration accesses\<close>

record pcifunc =
  busnum :: u32
  dev :: u32
  func :: u32
  devid :: u32
  devcls :: u32
  regbase :: "u32 list"
  regsize :: "u32 list"
  pirqline :: u8
  pirqpin :: u8

definition pciconfigformaddr :: "u32 \<Rightarrow> u32 \<Rightarrow> u32 \<Rightarrow> u32 \<Rightarrow> u32" where
  "pciconfigformaddr busaddr devaddr funcaddr off =
     0x80000000 OR push_bit 16 busaddr OR push_bit 11 devaddr OR push_bit 8 funcaddr OR off"

definition pciconfread :: "(u32 \<Rightarrow> 'h \<Rightarrow> u32) \<Rightarrow> pcifunc \<Rightarrow> u32 \<Rightarrow> 'h \<Rightarrow> u32" where
  "pciconfread rd f off h = rd (pciconfigformaddr (busnum f) (dev f) (func f) off) h"

definition pciconfwrite :: "(u32 \<Rightarrow> u32 \<Rightarrow> 'h \<Rightarrow> 'h) \<Rightarrow> pcifunc \<Rightarrow> u32 \<Rightarrow> u32 \<Rightarrow> 'h \<Rightarrow> 'h" where
  "pciconfwrite wr f off v h = wr (pciconfigformaddr (busnum f) (dev f) (func f) off) v h"

section \<open>Base address registers\<close>

definition bar_decode :: "u32 \<Rightarrow> u32 \<Rightarrow> u32 \<times> u32" where
  "bar_decode oldv rv =
     (if PCI_MAPREG_TYPE rv = 0 then (PCI_MAPREG_MEM_ADDR oldv, PCI_MAPREG_MEM_SIZE rv)
      else (PCI_MAPREG_IO_ADDR oldv, PCI_MAPREG_IO_SIZE rv))"

definition bar_width :: "u32 \<Rightarrow> nat" where
  "bar_width rv = (if rv \<noteq> 0 \<and> PCI_MAPREG_TYPE rv = 0 \<and> PCI_MAPREG_MEM_TYPE rv = 4 then 8 else 4)"

text \<open>A register that reads 0 after the probe is skipped, before its old value is written back.\<close>

function scan_regs ::
  "(u32 \<Rightarrow> 'h \<Rightarrow> u32) \<Rightarrow> (u32 \<Rightarrow> u32 \<Rightarrow> 'h \<Rightarrow> 'h) \<Rightarrow> nat \<Rightarrow> pcifunc \<Rightarrow> 'h \<Rightarrow> pcifunc \<times> 'h" where
  "scan_regs rd wr bar f h =
     (if bar < 0x28 then
        let oldv = pciconfread rd f (of_nat bar) h;
            h = pciconfwrite wr f (of_nat bar) 0xffffffff h;
            rv = pciconfread rd f (of_nat bar) h
        in if rv = 0 then scan_regs rd wr (bar + bar_width rv) f h
        else
          let regnum = PCI_MAPREG_NUM bar;
              (base, sz) = bar_decode oldv rv;
              h = pciconfwrite wr f (of_nat bar) oldv h;
              f = f\<lparr>regbase := (regbase f)[regnum := base], regsize := (regsize f)[regnum := sz]\<rparr>
          in scan_regs rd wr (bar + bar_width rv) f h
      else (f, h))"
  by auto
termination
  by (relation "measure (\<lambda>(_, _, bar, _). 0x28 - bar)") (auto simp: bar_width_def)

declare scan_regs.simps [simp del]

definition pcienabledev ::
  "(u32 \<Rightarrow> 'h \<Rightarrow> u32) \<Rightarrow> (u32 \<Rightarrow> u32 \<Rightarrow> 'h \<Rightarrow> 'h) \<Rightarrow> pcifunc \<Rightarrow> 'h \<Rightarrow> pcifunc \<times> 'h" where
  "pcienabledev rd wr f h = scan_regs rd wr 0x10 f (pciconfwrite wr f 0x04 (1 OR 2 OR 4) h)"

section \<open>Drivers and enumeration\<close>

text \<open>
  \<^verbatim>\<open>attachpcivendbase\<close> has one entry, the E1000. \<^verbatim>\<open>attache1000\<close> enables the device, initialises the driver
  and registers the interface, whatever \<^verbatim>\<open>inite1000\<close> returned. \<open>init\<close> is \<^verbatim>\<open>inite1000\<close> on the base
  registers and interrupt of the function.
\<close>

definition attache1000 ::
  "(u32 \<Rightarrow> 'h \<Rightarrow> u32) \<Rightarrow> (u32 \<Rightarrow> u32 \<Rightarrow> 'h \<Rightarrow> 'h) \<Rightarrow>
   ((u32 \<times> u32) list \<Rightarrow> u8 \<Rightarrow> u8 \<Rightarrow> 'm \<Rightarrow> (int \<times> e1000 \<times> u8 list \<times> 'm) res option) \<Rightarrow>
   pcifunc \<Rightarrow> 'h \<times> 'm \<times> nic \<Rightarrow> (int \<times> 'h \<times> 'm \<times> nic) res option" where
  "attache1000 rd wr init f s =
     (let (h, m, nics0) = s; (f, h) = pcienabledev rd wr f h in
      case init (zip (regbase f) (regsize f)) (pirqline f) (pirqpin f) m of
        None \<Rightarrow> None
      | Some (Inl err) \<Rightarrow> Some (Inl err)
      | Some (Inr (r, e, mac, m)) \<Rightarrow>
          Some (Inr (0, h, m, regnicdevice \<lparr>nic_macaddr = mac, nic_sendpacket = True, nic_recvpacket = True\<rparr> nics0)))"

definition attachpcivendbase :: "(u32 \<times> u32) list" where
  "attachpcivendbase = [(0x8086, 0x100e)]"

primrec attach_list :: "(pcifunc \<Rightarrow> 's \<Rightarrow> (int \<times> 's) res option) \<Rightarrow> (u32 \<times> u32) list \<Rightarrow> pcifunc \<Rightarrow> 's \<Rightarrow> 's res option" where
  "attach_list attach [] f s = Some (Inr s)"
| "attach_list attach (k # ks) f s =
     (if fst k = PCI_VENDOR (devid f) \<and> snd k = PCI_PRODUCT (devid f) then
        case attach f s of
          None \<Rightarrow> None
        | Some (Inl err) \<Rightarrow> Some (Inl err)
        | Some (Inr (_, s)) \<Rightarrow> attach_list attach ks f s
      else attach_list attach ks f s)"

definition attachpcinic :: "(pcifunc \<Rightarrow> 's \<Rightarrow> (int \<times> 's) res option) \<Rightarrow> pcifunc \<Rightarrow> 's \<Rightarrow> 's res option" where
  "attachpcinic attach f s = attach_list attach attachpcivendbase f s"

text \<open>
  The enumeration reads configuration space through \<open>rd\<close> of the state reached so far (\<open>hw\<close> selects the
  hardware in it) and attaches network controllers in order of device and function number.
\<close>

definition probe_func ::
  "(u32 \<Rightarrow> 's \<Rightarrow> u32) \<Rightarrow> (pcifunc \<Rightarrow> 's \<Rightarrow> (int \<times> 's) res option) \<Rightarrow> pcifunc \<Rightarrow> 's \<Rightarrow> 's res option" where
  "probe_func rd attach f s =
     (let pf = f\<lparr>devid := pciconfread rd f 0x00 s\<rparr> in
      if PCI_VENDOR (devid pf) = 0xffff then Some (Inr s)
      else
        let intr = pciconfread rd pf 0x3c s;
            pf = pf\<lparr>pirqline := PCI_INTERRUPT_LINE intr, pirqpin := PCI_INTERRUPT_PIN intr\<rparr>;
            pf = pf\<lparr>devcls := pciconfread rd pf 0x08 s\<rparr>
        in if PCI_CLASS (devcls pf) = 2 then attachpcinic attach pf s else Some (Inr s))"

primrec probe_funcs ::
  "(u32 \<Rightarrow> 's \<Rightarrow> u32) \<Rightarrow> (pcifunc \<Rightarrow> 's \<Rightarrow> (int \<times> 's) res option) \<Rightarrow> nat list \<Rightarrow> pcifunc \<Rightarrow> 's \<Rightarrow> 's res option" where
  "probe_funcs rd attach [] f s = Some (Inr s)"
| "probe_funcs rd attach (n # ns) f s =
     (case probe_func rd attach (f\<lparr>func := of_nat n\<rparr>) s of
        None \<Rightarrow> None
      | Some (Inl err) \<Rightarrow> Some (Inl err)
      | Some (Inr s) \<Rightarrow> probe_funcs rd attach ns f s)"

primrec enum_devs ::
  "(u32 \<Rightarrow> 's \<Rightarrow> u32) \<Rightarrow> (pcifunc \<Rightarrow> 's \<Rightarrow> (int \<times> 's) res option) \<Rightarrow> nat list \<Rightarrow> pcifunc \<Rightarrow> nat \<Rightarrow> 's \<Rightarrow> (nat \<times> 's) res option" where
  "enum_devs rd attach [] f totdev s = Some (Inr (totdev, s))"
| "enum_devs rd attach (d # ds) f totdev s =
     (let f = f\<lparr>dev := of_nat d\<rparr>; bhlc = pciconfread rd f 0x0c s in
      if PCI_HDRTYPE_TYPE bhlc > 1 then enum_devs rd attach ds f totdev s
      else
        case probe_funcs rd attach [0..<(if PCI_HDRTYPE_MULTIFN bhlc then 8 else 1)] f s of
          None \<Rightarrow> None
        | Some (Inl err) \<Rightarrow> Some (Inl err)
        | Some (Inr s) \<Rightarrow> enum_devs rd attach ds f (totdev + 1) s)"

definition pcienumbus ::
  "(u32 \<Rightarrow> 's \<Rightarrow> u32) \<Rightarrow> (pcifunc \<Rightarrow> 's \<Rightarrow> (int \<times> 's) res option) \<Rightarrow> u32 \<Rightarrow> 's \<Rightarrow> (nat \<times> 's) res option" where
  "pcienumbus rd attach bus s =
     enum_devs rd attach [0..<32]
       \<lparr>busnum = bus, dev = 0, func = 0, devid = 0, devcls = 0, regbase = replicate 6 0, regsize = replicate 6 0,
        pirqline = 0, pirqpin = 0\<rparr> 0 s"

definition pciinit :: "(u32 \<Rightarrow> 's \<Rightarrow> u32) \<Rightarrow> (pcifunc \<Rightarrow> 's \<Rightarrow> (int \<times> 's) res option) \<Rightarrow> 's \<Rightarrow> (nat \<times> 's) res option" where
  "pciinit rd attach s = pcienumbus rd attach 0 s"

section \<open>Base registers\<close>

lemma small_bits:
  assumes "unat f < 2 ^ k" "k \<le> i"
  shows "\<not> bit (f :: u32) i"
proof -
  have "unat (take_bit k f) = unat f" using assms(1) by (simp only: unsigned_take_bit_eq take_bit_nat_eq_self_iff)
  then have "take_bit k f = f" by (simp only: word_unat_eq_iff)
  then show ?thesis using assms(2) by (metis bit_take_bit_iff not_le)
qed

text \<open>
  The size of a memory region: a base register of a region of \<open>2 ^ k\<close> bytes answers the probe
  with the complement of \<open>2 ^ k - 1\<close> and any type bits, and \<^verbatim>\<open>pcienabledev\<close> decodes that to \<open>2 ^ k\<close>
  and the old value to its address bits.
\<close>

theorem bar_decode_size:
  assumes "4 \<le> k" "k < 32" "fl < 16" "fl AND 1 = 0"
  shows "bar_decode oldv (- (2 ^ k) OR fl) = (oldv AND 0xfffffff0, 2 ^ k)"
proof -
  have m: "(0xfffffff0 :: u32) = NOT (mask 4)" by (simp add: mask_eq_exp_minus_1)
  have "unat fl < 2 ^ 4" using assms(3) by (simp add: word_less_nat_alt)
  note fl = small_bits [OF this]
  have a: "(- (2 ^ k) OR fl) AND 0xfffffff0 = (- (2 ^ k) :: u32)"
    unfolding m minus_exp_eq_not_mask
    by (rule bit_word_eqI) (use assms(1) fl in \<open>auto simp: bit_simps not_less\<close>)
  have s: "- (2 ^ k) AND (2 ^ k :: u32) = 2 ^ k"
    unfolding minus_exp_eq_not_mask by (rule bit_word_eqI) (auto simp: bit_simps)
  have "(- (2 ^ k) OR fl) AND 1 = 0"
  proof -
    have "\<not> bit fl 0"
    proof
      assume "bit fl 0"
      then have "bit (fl AND 1) 0" by (simp add: bit_simps)
      then show False using assms(4) by simp
    qed
    then show ?thesis unfolding minus_exp_eq_not_mask
      by (intro bit_word_eqI) (use assms(1) in \<open>auto simp: bit_simps\<close>)
  qed
  then show ?thesis
    by (simp add: bar_decode_def PCI_MAPREG_TYPE_def PCI_MAPREG_MEM_ADDR_def PCI_MAPREG_MEM_SIZE_def a s)
qed

theorem bar_decode_size_witness: "bar_decode 0xfebc0000 (- (2 ^ 17) OR 0) = (0xfebc0000, 2 ^ 17)"
  using bar_decode_size [of 17 0 "0xfebc0000"] by simp

section \<open>Enumeration\<close>

definition absent :: "(u32 \<Rightarrow> 's \<Rightarrow> u32) \<Rightarrow> u32 \<Rightarrow> nat \<Rightarrow> bool" where
  "absent rd bus d \<longleftrightarrow> (\<forall>s. rd (pciconfigformaddr bus (of_nat d) 0 0x0c) s = 0xffffffff)"

lemma absent_header: "1 < PCI_HDRTYPE_TYPE 0xffffffff"
  by code_simp

lemma enum_devs_absent:
  assumes "\<forall>d \<in> set ds. absent rd (busnum f) d" "func f = 0"
  shows "enum_devs rd attach (ds @ es) f tot s =
    enum_devs rd attach es (if ds = [] then f else f\<lparr>dev := of_nat (last ds)\<rparr>) tot s"
  using assms
proof (induction ds arbitrary: f)
  case (Cons d ds)
  have "pciconfread rd (f\<lparr>dev := of_nat d\<rparr>) 0x0c s = 0xffffffff"
    using Cons.prems by (simp add: absent_def pciconfread_def)
  then show ?case using Cons.IH [of "f\<lparr>dev := of_nat d\<rparr>"] Cons.prems
    by (simp add: absent_header)
qed simp

text \<open>
  C27. Discovery: on a bus where every slot but one answers the header read with all ones, and that
  one is a single-function E1000 network controller, \<^verbatim>\<open>pciinit\<close> calls the driver's attach function
  exactly once, on that device with its interrupt line and pin, and reports one device.
\<close>

theorem pciinit_attaches:
  assumes "d < 32" "\<forall>i<32. i \<noteq> d \<longrightarrow> absent rd 0 i"
    "rd (pciconfigformaddr 0 (of_nat d) 0 0x0c) s = 0"
    "rd (pciconfigformaddr 0 (of_nat d) 0 0x00) s = 0x100e8086"
    "rd (pciconfigformaddr 0 (of_nat d) 0 0x08) s = 0x02000003"
    "rd (pciconfigformaddr 0 (of_nat d) 0 0x3c) s = intr"
  shows "pciinit rd attach s =
    (case attach \<lparr>busnum = 0, dev = of_nat d, func = 0, devid = 0x100e8086, devcls = 0x02000003,
       regbase = replicate 6 0, regsize = replicate 6 0, pirqline = PCI_INTERRUPT_LINE intr, pirqpin = PCI_INTERRUPT_PIN intr\<rparr> s of
       None \<Rightarrow> None | Some (Inl err) \<Rightarrow> Some (Inl err) | Some (Inr (_, s')) \<Rightarrow> Some (Inr (1, s')))"
proof -
  have h: "\<not> 1 < PCI_HDRTYPE_TYPE 0" "\<not> PCI_HDRTYPE_MULTIFN 0" by code_simp+
  have v: "PCI_VENDOR 0x100e8086 = 0x8086" "PCI_PRODUCT 0x100e8086 = 0x100e" "PCI_CLASS 0x02000003 = 2" by code_simp+
  let ?f = "\<lparr>busnum = 0, dev = 0, func = 0, devid = 0, devcls = 0, regbase = replicate 6 0, regsize = replicate 6 0,
    pirqline = 0, pirqpin = 0\<rparr>"
  have "[0..<d + (32 - d)] = [0..<d] @ [d..<d + (32 - d)]" by (rule upt_add_eq_append) simp
  then have sp: "[0..<32] = [0..<d] @ d # [Suc d..<32]" using assms(1) by (simp add: upt_conv_Cons)
  have rest: "enum_devs rd attach [Suc d..<32] (?f\<lparr>dev := of_nat d\<rparr>) n s' = Some (Inr (n, s'))" for n s'
    using enum_devs_absent [of "[Suc d..<32]" rd "?f\<lparr>dev := of_nat d\<rparr>" attach "[]"] assms(2) by (auto split: if_splits)
  have front: "enum_devs rd attach ([0..<d] @ es) ?f 0 s =
      enum_devs rd attach es (if [0..<d] = [] then ?f else ?f\<lparr>dev := of_nat (last [0..<d])\<rparr>) 0 s" for es
    using assms(1,2) by (intro enum_devs_absent) auto
  have one: "[0..<1] = [0]" by (simp add: One_nat_def)
  obtain y where y: "(if [0..<d] = [] then ?f else ?f\<lparr>dev := of_nat (last [0..<d])\<rparr>) = ?f\<lparr>dev := y\<rparr>"
    by (cases "[0..<d] = []") auto
  show ?thesis unfolding pciinit_def pcienumbus_def sp front y enum_devs.simps Let_def
    using assms(3-6) rest
    by (simp add: pciconfread_def h v one probe_func_def attachpcinic_def attachpcivendbase_def
      split: option.split sum.split prod.split)
qed

definition ex_conf :: "u32 \<Rightarrow> nat \<Rightarrow> u32" where
  "ex_conf a s =
     (if a = 0x80001800 then 0x100e8086 else if a = 0x80001808 then 0x02000003 else if a = 0x8000180c then 0
      else if a = 0x8000183c then 0x010b else 0xffffffff)"

theorem pciinit_attaches_witness:
  "pciinit ex_conf (\<lambda>f s. Some (Inr (0, s + unat (pirqline f)))) 0 = Some (Inr (1, 11))"
proof -
  have a: "\<forall>i\<in>set [0..<32]. i \<noteq> 3 \<longrightarrow> ex_conf (pciconfigformaddr 0 (of_nat i) 0 0x0c) 0 = 0xffffffff" by code_simp
  have b: "ex_conf x s = ex_conf x 0" for x s by (simp add: ex_conf_def)
  have "absent ex_conf 0 i" if "i < 32" "i \<noteq> 3" for i
    unfolding absent_def using a that b [of "pciconfigformaddr 0 (of_nat i) 0 0x0c"] by fastforce
  then have "\<forall>i<32. i \<noteq> 3 \<longrightarrow> absent ex_conf 0 i" by blast
  moreover have "pciconfigformaddr 0 (of_nat 3) 0 0x0c = 0x8000180c" "pciconfigformaddr 0 (of_nat 3) 0 0 = 0x80001800"
    "pciconfigformaddr 0 (of_nat 3) 0 8 = 0x80001808" "pciconfigformaddr 0 (of_nat 3) 0 0x3c = 0x8000183c" by code_simp+
  moreover have "PCI_INTERRUPT_LINE 0x010b = 11" by code_simp
  ultimately show ?thesis
    using pciinit_attaches [of 3 ex_conf 0 "0x010b" "\<lambda>f s. Some (Inr (0, s + unat (pirqline f)))"]
    by (simp add: ex_conf_def)
qed

end
