(* ===== verification/Grep.thy ===== *)
theory Grep
  imports Prelude "HOL-Library.Sublist"
begin

text \<open>
  The pattern matcher and the line loop of \<^verbatim>\<open>grep.c\<close>. C strings are lists of characters without the
  terminating NUL; the end of the list is the NUL. The matcher is proved equal to a declarative
  meaning of patterns.
\<close>

section \<open>The matcher\<close>

definition chStar :: u8 where "chStar = 42"
definition chDollar :: u8 where "chDollar = 36"
definition chDot :: u8 where "chDot = 46"
definition chCaret :: u8 where "chCaret = 94"
definition chNl :: u8 where "chNl = 10"

function (sequential) matchhere :: "u8 list \<Rightarrow> u8 list \<Rightarrow> bool" and matchstar :: "u8 \<Rightarrow> u8 list \<Rightarrow> u8 list \<Rightarrow> bool" where
  "matchhere re text =
     (case re of [] \<Rightarrow> True
      | c # re' \<Rightarrow>
          if re' \<noteq> [] \<and> hd re' = chStar then matchstar c (tl re') text
          else if c = chDollar \<and> re' = [] then text = []
          else (case text of [] \<Rightarrow> False | t # text' \<Rightarrow> (c = chDot \<or> c = t) \<and> matchhere re' text'))"
| "matchstar c re text =
     (matchhere re text \<or> (case text of [] \<Rightarrow> False | t # text' \<Rightarrow> (t = c \<or> c = chDot) \<and> matchstar c re text'))"
  by pat_completeness auto
termination
  by (relation "measures [case_sum (\<lambda>(re, _). length re) (\<lambda>(_, re, _). length re),
      case_sum (\<lambda>(_, t). length t) (\<lambda>(_, _, t). length t), case_sum (\<lambda>_. 0) (\<lambda>_. 1)]")
    auto

declare matchhere.simps [simp del] matchstar.simps [simp del]

text \<open>The loop of \<^verbatim>\<open>match\<close> tries every position of the text, the end included.\<close>

fun match_loop :: "u8 list \<Rightarrow> u8 list \<Rightarrow> bool" where
  "match_loop re [] = matchhere re []"
| "match_loop re (t # text) = (matchhere re (t # text) \<or> match_loop re text)"

definition match :: "u8 list \<Rightarrow> u8 list \<Rightarrow> bool" where
  "match re text = (if re \<noteq> [] \<and> hd re = chCaret then matchhere (tl re) text else match_loop re text)"

section \<open>The line loop\<close>

text \<open>\<open>cut_line\<close>: what \<^verbatim>\<open>strchr(p, '\n')\<close> finds before a NUL, as the line and the rest after the newline.\<close>

definition cut_line :: "u8 list \<Rightarrow> (u8 list \<times> u8 list) option" where
  "cut_line xs =
     (case dropWhile (\<lambda>x. x \<noteq> chNl \<and> x \<noteq> 0) xs of
        [] \<Rightarrow> None
      | x # rest \<Rightarrow> if x = chNl then Some (takeWhile (\<lambda>x. x \<noteq> chNl \<and> x \<noteq> 0) xs, rest) else None)"

lemma cut_line_length: "cut_line xs = Some (l, r) \<Longrightarrow> length r < length xs"
proof -
  assume "cut_line xs = Some (l, r)"
  then have "dropWhile (\<lambda>x. x \<noteq> chNl \<and> x \<noteq> 0) xs = chNl # r" by (auto simp: cut_line_def split: list.splits if_splits)
  moreover have "length (dropWhile (\<lambda>x. x \<noteq> chNl \<and> x \<noteq> 0) xs) \<le> length xs" by (rule length_dropWhile_le)
  ultimately show ?thesis by simp
qed

function buf_lines :: "u8 list \<Rightarrow> u8 list \<Rightarrow> u8 list \<times> u8 list" where
  "buf_lines pattern p =
     (case cut_line p of
        None \<Rightarrow> ([], p)
      | Some (l, rest) \<Rightarrow>
          let (outp, p') = buf_lines pattern rest
          in ((if match pattern l then l @ [chNl] else []) @ outp, p'))"
  by auto
termination
  by (relation "measure (\<lambda>(_, p). length p)") (auto dest: cut_line_length)

declare buf_lines.simps [simp del]

text \<open>
  The reading loop: \<open>sz k\<close> bounds what the \<open>k\<close>th read returns; a read of 0 bytes ends the loop. \<open>carry\<close> is
  what is kept in the buffer of 1024 bytes; if a round finds no newline the buffer is dropped.
\<close>

function grep_loop :: "(nat \<Rightarrow> nat) \<Rightarrow> u8 list \<Rightarrow> nat \<Rightarrow> u8 list \<Rightarrow> u8 list \<Rightarrow> u8 list" where
  "grep_loop sz pattern k inp carry =
     (let n = min (sz k) (min (length inp) (1024 - length carry - 1)) in
      if n = 0 then []
      else
        let buf = carry @ take n inp;
            (outp, p) = buf_lines pattern buf;
            carry = (if length p = length buf then [] else p)
        in outp @ grep_loop sz pattern (k + 1) (drop n inp) carry)"
  by auto
termination
  by (relation "measure (\<lambda>(_, _, _, inp, _). length inp)") auto

declare grep_loop.simps [simp del]

definition grep :: "(nat \<Rightarrow> nat) \<Rightarrow> u8 list \<Rightarrow> u8 list \<Rightarrow> u8 list" where
  "grep sz pattern inp = grep_loop sz pattern 0 inp []"

section \<open>Meaning of patterns\<close>

datatype pat = One u8 | Star u8 | End

fun parse :: "u8 list \<Rightarrow> pat list" where
  "parse [] = []"
| "parse [c] = (if c = chDollar then [End] else [One c])"
| "parse (c # d # re) = (if d = chStar then Star c # parse re else One c # parse (d # re))"

definition fits_char :: "u8 \<Rightarrow> u8 \<Rightarrow> bool" where
  "fits_char c t \<longleftrightarrow> c = chDot \<or> c = t"

inductive matches :: "pat list \<Rightarrow> u8 list \<Rightarrow> bool" where
  m_nil: "matches [] text"
| m_end: "matches [End] []"
| m_one: "fits_char c t \<Longrightarrow> matches ps text \<Longrightarrow> matches (One c # ps) (t # text)"
| m_star: "\<forall>t \<in> set ts. fits_char c t \<Longrightarrow> matches ps text \<Longrightarrow> matches (Star c # ps) (ts @ text)"

inductive_simps matches_Nil [simp]: "matches [] text"
inductive_simps matches_One: "matches (One c # ps) text"
inductive_simps matches_End: "matches (End # ps) text"
inductive_simps matches_Star: "matches (Star c # ps) text"

lemma matches_Star_unfold:
  "matches (Star c # ps) text \<longleftrightarrow> matches ps text \<or> (\<exists>t text'. text = t # text' \<and> fits_char c t \<and> matches (Star c # ps) text')"
proof
  assume "matches (Star c # ps) text"
  then obtain ts rest where t: "text = ts @ rest" "\<forall>t \<in> set ts. fits_char c t" "matches ps rest"
    by (auto simp: matches_Star)
  show "matches ps text \<or> (\<exists>t text'. text = t # text' \<and> fits_char c t \<and> matches (Star c # ps) text')"
  proof (cases ts)
    case (Cons u us)
    then have "matches (Star c # ps) (us @ rest)" using t by (intro m_star) auto
    then show ?thesis using t Cons by auto
  qed (use t in simp)
next
  assume "matches ps text \<or> (\<exists>t text'. text = t # text' \<and> fits_char c t \<and> matches (Star c # ps) text')"
  then show "matches (Star c # ps) text"
  proof
    assume "matches ps text"
    then show ?thesis using m_star [of "[]"] by simp
  next
    assume "\<exists>t text'. text = t # text' \<and> fits_char c t \<and> matches (Star c # ps) text'"
    then obtain t ts rest where "text = t # ts @ rest" "fits_char c t" "\<forall>t \<in> set ts. fits_char c t" "matches ps rest"
      by (auto simp: matches_Star)
    then show ?thesis using m_star [of "t # ts" c ps rest] by simp
  qed
qed

lemma matcher_correct:
  "matchhere re x \<longleftrightarrow> matches (parse re) x" "matchstar c re x \<longleftrightarrow> matches (Star c # parse re) x"
proof (induction re x and c re x rule: matchhere_matchstar.induct)
  case (1 re x)
  show ?case
  proof (cases re)
    case (Cons c re')
    show ?thesis
    proof (cases "re' \<noteq> [] \<and> hd re' = chStar")
      case True
      then obtain re'' where "re' = chStar # re''" by (cases re') auto
      then show ?thesis using 1(1) [OF Cons True] Cons by (subst matchhere.simps) simp
    next
      case False
      then have p: "c = chDollar \<and> re' = [] \<or> parse re = One c # parse re'" using Cons by (cases re') auto
      show ?thesis
      proof (cases "c = chDollar \<and> re' = []")
        case True
        then show ?thesis using Cons by (subst matchhere.simps) (simp add: matches_End)
      next
        case nd: False
        with p have p: "parse re = One c # parse re'" by blast
        have M: "matchhere re x = (case x of [] \<Rightarrow> False | t # x' \<Rightarrow> (c = chDot \<or> c = t) \<and> matchhere re' x')"
          using \<open>re = c # re'\<close> False nd by (subst matchhere.simps) (simp only: list.case if_False)
        show ?thesis
        proof (cases x)
          case Nil
          then show ?thesis unfolding M p by (simp add: matches_One)
        next
          case (Cons t x')
          have "matchhere re' x' \<longleftrightarrow> matches (parse re') x'" by (rule 1(2) [OF \<open>re = c # re'\<close> False nd Cons])
          then show ?thesis unfolding M p using Cons by (simp add: matches_One fits_char_def)
        qed
      qed
    qed
  qed (subst matchhere.simps, simp)
next
  case (2 c re x)
  have "matchstar c re x \<longleftrightarrow> matches (parse re) x \<or> (\<exists>t x'. x = t # x' \<and> fits_char c t \<and> matches (Star c # parse re) x')"
  proof (cases x)
    case Nil
    then show ?thesis using 2(1) by (subst matchstar.simps) simp
  next
    case (Cons t x')
    then show ?thesis using 2(1) 2(2) [OF Cons] by (subst matchstar.simps) (auto simp: fits_char_def)
  qed
  then show ?case by (simp only: matches_Star_unfold [of c "parse re" x])
qed

lemma match_loop_suffix: "match_loop re text \<longleftrightarrow> (\<exists>s. suffix s text \<and> matchhere re s)"
  
proof (induction "text")
  case (Cons t ts)
  then show ?case unfolding match_loop.simps suffix_Cons by blast
qed simp

text \<open>
  C39. The matcher implements the meaning of patterns: a literal or a dot for one character, a star
  for any number of them, a final dollar for the end; an initial caret anchors the match at the
  start of the text, otherwise some suffix of the text has to match.
\<close>

theorem match_meaning:
  "match re text \<longleftrightarrow>
     (if re \<noteq> [] \<and> hd re = chCaret then matches (parse (tl re)) text
      else \<exists>s. suffix s text \<and> matches (parse re) s)"
  by (simp add: match_def match_loop_suffix matcher_correct)

section \<open>Lines\<close>

text \<open>Without NUL bytes, the lines of a text are those of its parts put together.\<close>

lemma dropWhile_split:
  "dropWhile P xs = y # r \<Longrightarrow> dropWhile P (xs @ ys) = y # r @ ys \<and> takeWhile P (xs @ ys) = takeWhile P xs"
  by (induction xs) (auto split: if_splits)

lemma cut_line_append:
  assumes "cut_line xs = Some (l, r)"
  shows "cut_line (xs @ ys) = Some (l, r @ ys)"
proof -
  from assms have "dropWhile (\<lambda>x. x \<noteq> chNl \<and> x \<noteq> 0) xs = chNl # r"
    "takeWhile (\<lambda>x. x \<noteq> chNl \<and> x \<noteq> 0) xs = l"
    by (auto simp: cut_line_def split: list.splits if_splits)
  with dropWhile_split [OF this(1), of ys] show ?thesis by (simp only: cut_line_def list.case if_True simp_thms)
qed

lemma buf_lines_append:
  "buf_lines pattern xs = (out, p) \<Longrightarrow>
   buf_lines pattern (xs @ ys) = (let (out', p') = buf_lines pattern (p @ ys) in (out @ out', p'))"
proof (induction pattern xs arbitrary: out rule: buf_lines.induct)
  case (1 pattern xs)
  show ?case
  proof (cases "cut_line xs")
    case None
    then have "out = []" "p = xs" using "1.prems" by (auto simp: buf_lines.simps [of _ xs])
    then show ?thesis by (simp add: split_def)
  next
    case (Some lr)
    obtain l r where lr: "lr = (l, r)" by fastforce
    obtain o1 where o1: "buf_lines pattern r = (o1, p)" "out = (if match pattern l then l @ [chNl] else []) @ o1"
      using "1.prems" Some lr by (auto simp: buf_lines.simps [of _ xs] split: prod.splits)
    have "buf_lines pattern (r @ ys) = (let (out', p') = buf_lines pattern (p @ ys) in (o1 @ out', p'))"
      using "1.IH" [OF Some lr [symmetric] o1(1)] .
    then show ?thesis using cut_line_append [of xs l r ys] Some lr o1(2)
      by (subst buf_lines.simps) (simp add: split_def Let_def)
  qed
qed

lemma buf_lines_no_line:
  assumes "chNl \<notin> set xs"
  shows "buf_lines pattern xs = ([], xs)"
proof -
  have "cut_line xs \<noteq> Some y" for y
  proof
    assume "cut_line xs = Some y"
    then obtain r where "dropWhile (\<lambda>x. x \<noteq> chNl \<and> x \<noteq> 0) xs = chNl # r"
      by (auto simp: cut_line_def split: list.splits if_splits)
    then have "chNl \<in> set xs" by (metis list.set_intros(1) set_dropWhileD)
    with assms show False ..
  qed
  then have "cut_line xs = None" by (cases "cut_line xs") blast+
  then show ?thesis by (simp add: buf_lines.simps)
qed

lemma buf_lines_rest:
  assumes "buf_lines pattern xs = (out, p)" "0 \<notin> set xs"
  shows "chNl \<notin> set p \<and> suffix p xs \<and> (p = xs \<longrightarrow> chNl \<notin> set xs)"
  using assms
proof (induction pattern xs arbitrary: out rule: buf_lines.induct)
  case (1 pattern xs)
  let ?P = "\<lambda>x. x \<noteq> chNl \<and> x \<noteq> 0"
  show ?case
  proof (cases "cut_line xs")
    case None
    have "dropWhile ?P xs = []"
    proof (rule ccontr)
      assume n: "dropWhile ?P xs \<noteq> []"
      then have "hd (dropWhile ?P xs) \<in> set xs" by (meson hd_in_set set_dropWhileD)
      with n None "1.prems"(2) hd_dropWhile [of ?P xs] show False
        by (auto simp: cut_line_def split: list.splits if_splits)
    qed
    then have "chNl \<notin> set xs" by (auto simp: dropWhile_eq_Nil_conv)
    then show ?thesis using None "1.prems"(1) by (simp add: buf_lines.simps [of _ xs])
  next
    case (Some lr)
    obtain l r where lr: "lr = (l, r)" by fastforce
    obtain o1 where o1: "buf_lines pattern r = (o1, p)"
      using "1.prems"(1) Some lr by (auto simp: buf_lines.simps [of _ xs] split: prod.splits)
    have dr: "dropWhile ?P xs = chNl # r" using Some lr by (auto simp: cut_line_def split: list.splits if_splits)
    have s: "suffix (chNl # r) xs" using suffix_dropWhile [of ?P xs] dr by simp
    then have z: "0 \<notin> set r" "suffix r xs" using "1.prems"(2) by (auto simp: suffix_def)
    from "1.IH" [OF Some lr [symmetric] o1 z(1)] have p: "chNl \<notin> set p" "suffix p r" by auto
    have "length p < length xs" using p(2) cut_line_length [of xs l r] Some lr suffix_length_le [of p r] by simp
    then show ?thesis using p z(2) by (auto intro: suffix_order.trans)
  qed
qed

lemma grep_loop_nil: "grep_loop sz pattern k [] carry = []"
  by (simp add: grep_loop.simps)

lemma grep_loop_unfold:
  assumes "n = min (sz k) (min (length inp) (1024 - length carry - 1))" "buf_lines pattern (carry @ take n inp) = (out, p)"
  shows "grep_loop sz pattern k inp carry = (if n = 0 then []
    else out @ grep_loop sz pattern (k + 1) (drop n inp) (if length p = length (carry @ take n inp) then [] else p))"
  unfolding grep_loop.simps [of sz pattern k inp carry] Let_def assms(1) [symmetric] assms(2) by (simp only: prod.case)

text \<open>A full buffer without a newline is a line of 1023 bytes.\<close>

lemma buffer_full:
  assumes "suffix (carry @ xs) inp" "length carry < 1023" "n = min (1024 :: nat) (min (length xs) (1024 - length carry - 1))"
    and "\<forall>a b c. inp = a @ b @ c \<and> length b = 1023 \<longrightarrow> chNl \<in> set b" "chNl \<notin> set (carry @ take n xs)"
  shows "drop n xs = []"
proof (rule ccontr)
  assume "drop n xs \<noteq> []"
  then have "length (carry @ take n xs) = 1023" using assms(2,3) by (auto simp: min_def split: if_splits)
  moreover obtain z where "inp = z @ (carry @ take n xs) @ drop n xs" using assms(1) by (auto simp: suffix_def)
  ultimately show False using assms(4,5) by blast
qed

lemma grep_loop_lines:
  assumes "0 \<notin> set inp" "\<forall>a b c. inp = a @ b @ c \<and> length b = 1023 \<longrightarrow> chNl \<in> set b"
    and "suffix (carry @ xs) inp" "chNl \<notin> set carry" "length carry < 1023"
  shows "grep_loop (\<lambda>_. 1024) pattern k xs carry = fst (buf_lines pattern (carry @ xs))"
  using assms(3-5)
proof (induction "length xs" arbitrary: k xs carry rule: less_induct)
  case less
  define n where "n = min (1024 :: nat) (min (length xs) (1024 - length carry - 1))"
  show ?case
  proof (cases "n = 0")
    case True
    then have "xs = []" using less.prems(3) by (auto simp: n_def min_def split: if_splits)
    then have "grep_loop (\<lambda>_. 1024) pattern k xs carry = []" by (simp add: grep_loop.simps)
    then show ?thesis using \<open>xs = []\<close> buf_lines_no_line [OF less.prems(2)] by simp
  next
    case False
    let ?b = "carry @ take n xs"
    obtain out p where b: "buf_lines pattern ?b = (out, p)" by fastforce
    have zb: "0 \<notin> set ?b" using less.prems(1) assms(1) by (auto simp: suffix_def dest: in_set_takeD)
    note r = buf_lines_rest [OF b zb]
    let ?c = "if length p = length ?b then [] else p"
    have g: "grep_loop (\<lambda>_. 1024) pattern k xs carry = out @ grep_loop (\<lambda>_. 1024) pattern (k + 1) (drop n xs) ?c"
      using grep_loop_unfold [of n "\<lambda>_. 1024" k xs carry pattern out p, OF n_def b] False by simp
    have full: "buf_lines pattern (carry @ xs) = (let (o', p') = buf_lines pattern (p @ drop n xs) in (out @ o', p'))"
      using buf_lines_append [OF b, of "drop n xs"] by simp
    have lt: "length (drop n xs) < length xs" using False by (auto simp: n_def)
    obtain zs where zs: "?b = zs @ p" using r by (auto simp: suffix_def)
    show ?thesis
    proof (cases "length p = length ?b")
      case True
      then have pb: "p = ?b" using zs by simp
      then have nn: "chNl \<notin> set ?b" using r by simp
      then have "drop n xs = []" by (rule buffer_full [OF less.prems(1,3) n_def assms(2)])
      then show ?thesis using g full pb True b buf_lines_no_line [OF nn] by (simp add: grep_loop_nil)
    next
      case False
      have "carry @ xs = zs @ p @ drop n xs" using zs by (metis append.assoc append_take_drop_id)
      then have "suffix (p @ drop n xs) (carry @ xs)" by (rule suffixI)
      then have "suffix (p @ drop n xs) inp" using less.prems(1) by (rule suffix_order.trans)
      moreover have "length ?b \<le> 1023" using less.prems(3) by (auto simp: n_def)
      moreover have l: "length ?b = length zs + length p" using arg_cong [OF zs, of length] by (simp only: length_append)
      moreover have "0 < length zs" using False l by linarith
      ultimately have "suffix (p @ drop n xs) inp" "length p < 1023" by (blast, linarith)
      then have "grep_loop (\<lambda>_. 1024) pattern (k + 1) (drop n xs) p = fst (buf_lines pattern (p @ drop n xs))"
        using less.hyps [OF lt] r by blast
      then show ?thesis using g full False by (simp add: split_def Let_def)
    qed
  qed
qed

text \<open>
  The specification: a text is the lines \<open>ls\<close>, each ended by a newline, and a last line \<open>tl\<close> without one; a
  line is selected if the pattern, by its meaning, fits at its start (after a caret) or anywhere.
\<close>

definition of_lines :: "u8 list list \<Rightarrow> u8 list" where
  "of_lines ls = concat (map (\<lambda>l. l @ [chNl]) ls)"

definition selects :: "u8 list \<Rightarrow> u8 list \<Rightarrow> bool" where
  "selects pattern l \<longleftrightarrow>
     (case pattern of
        [] \<Rightarrow> True
      | c # re \<Rightarrow> if c = chCaret then matches (parse re) l else (\<exists>before s. l = before @ s \<and> matches (parse pattern) s))"

lemma match_selects: "match pattern l \<longleftrightarrow> selects pattern l"
proof (cases pattern)
  case Nil
  have "matchhere [] l" by (simp add: matcher_correct)
  then show ?thesis unfolding Nil by (auto simp: match_def selects_def match_loop_suffix)
next
  case (Cons c re)
  then show ?thesis by (simp add: match_def selects_def match_loop_suffix matcher_correct suffix_def) blast
qed

lemma cut_line_eq:
  assumes "chNl \<notin> set l" "0 \<notin> set l"
  shows "cut_line (l @ chNl # r) = Some (l, r)"
proof -
  have "\<forall>x \<in> set l. x \<noteq> chNl \<and> x \<noteq> 0" using assms by metis
  then show ?thesis by (simp add: cut_line_def)
qed

lemma buf_lines_selected:
  assumes "\<forall>l \<in> set ls. chNl \<notin> set l \<and> 0 \<notin> set l" "chNl \<notin> set last_line"
  shows "buf_lines pattern (of_lines ls @ last_line) = (of_lines (filter (selects pattern) ls), last_line)"
  using assms(1)
proof (induction ls)
  case Nil
  then show ?case using buf_lines_no_line [OF assms(2)] by (simp add: of_lines_def)
next
  case (Cons l ls)
  have e: "of_lines (l # ls) @ last_line = l @ chNl # (of_lines ls @ last_line)" by (simp add: of_lines_def)
  have "cut_line (l @ chNl # (of_lines ls @ last_line)) = Some (l, of_lines ls @ last_line)"
    using Cons.prems by (intro cut_line_eq) simp_all
  then show ?case unfolding e using Cons by (subst buf_lines.simps) (simp add: of_lines_def match_selects)
qed

text \<open>A part without a newline lies in one line.\<close>

lemma part_in_line:
  "of_lines ls @ last_line = a @ b @ c \<Longrightarrow> chNl \<notin> set b \<Longrightarrow> \<exists>l \<in> set (last_line # ls). length b \<le> length l"
proof (induction ls arbitrary: a)
  case Nil
  then have "length b \<le> length last_line" by (simp add: of_lines_def)
  then show ?case by simp
next
  case (Cons l ls)
  have e: "l @ chNl # (of_lines ls @ last_line) = a @ b @ c" using Cons.prems(1) by (simp add: of_lines_def)
  then consider us where "a = l @ us" "chNl # (of_lines ls @ last_line) = us @ b @ c"
    | us where "l = a @ us" "us @ chNl # (of_lines ls @ last_line) = b @ c"
    by (auto simp: append_eq_append_conv2)
  then show ?case
  proof cases
    case 1
    show ?thesis
    proof (cases us)
      case Nil
      then have "b = []" using 1(2) Cons.prems(2) by (cases b) auto
      then show ?thesis by auto
    next
      case (Cons u vs)
      then show ?thesis using 1(2) Cons.IH [of vs] Cons.prems(2) by auto
    qed
  next
    case 2
    have "length b \<le> length us"
    proof (rule ccontr)
      assume "\<not> length b \<le> length us"
      then obtain vs where "b = us @ vs" "vs \<noteq> []" using 2(2) by (auto simp: append_eq_append_conv2)
      then have "chNl # (of_lines ls @ last_line) = vs @ c" using 2(2) by simp
      then have "chNl \<in> set vs" using \<open>vs \<noteq> []\<close> by (cases vs) auto
      then show False using Cons.prems(2) \<open>b = us @ vs\<close> by simp
    qed
    then show ?thesis using 2(1) by simp
  qed
qed

text \<open>
  C40. On input without NUL bytes, with lines of at most 1022 bytes, and with reads that return as much as
  they can, \<^verbatim>\<open>grep\<close> prints exactly those lines of the input that the pattern selects, in order and each with
  its newline. Lines are those ended by a newline: what follows the last newline is never printed.
\<close>

theorem grep_prints_matching_lines:
  assumes "inp = of_lines ls @ last_line"
    "\<forall>l \<in> set (last_line # ls). chNl \<notin> set l \<and> 0 \<notin> set l \<and> length l \<le> 1022"
  shows "grep (\<lambda>_. 1024) pattern inp = of_lines (filter (selects pattern) ls)"
proof -
  have "0 \<notin> set inp" using assms by (auto simp: of_lines_def chNl_def)
  moreover have "\<forall>a b c. inp = a @ b @ c \<and> length b = 1023 \<longrightarrow> chNl \<in> set b"
  proof (intro allI impI, rule ccontr)
    fix a b c assume b: "inp = a @ b @ c \<and> length b = 1023" "chNl \<notin> set b"
    then obtain l where "l \<in> set (last_line # ls)" "1023 \<le> length l"
      using part_in_line [of ls last_line a b c] assms(1) by auto
    then show False using assms(2) by fastforce
  qed
  ultimately have "grep (\<lambda>_. 1024) pattern inp = fst (buf_lines pattern inp)"
    using grep_loop_lines [of inp "[]" inp pattern 0] by (simp add: grep_def)
  moreover have "\<forall>l \<in> set ls. chNl \<notin> set l \<and> 0 \<notin> set l" "chNl \<notin> set last_line" using assms(2) by auto
  ultimately show ?thesis unfolding assms(1) by (simp add: buf_lines_selected)
qed

text \<open>The lines \<^verbatim>\<open>ab\<close>, \<^verbatim>\<open>ba\<close>, and \<^verbatim>\<open>b\<close> without a newline, for the pattern \<^verbatim>\<open>^b\<close>.\<close>

theorem grep_prints_matching_lines_witness:
  "grep (\<lambda>_. 1024) [chCaret, 98] [97, 98, chNl, 98, 97, chNl, 98] = [98, 97, chNl]"
proof -
  have "[97, 98, chNl, 98, 97, chNl, 98] = of_lines [[97, 98], [98, 97]] @ [98]" by (simp add: of_lines_def)
  moreover have "\<forall>l \<in> set [[98], [97, 98], [98, 97]]. chNl \<notin> set l \<and> 0 \<notin> set l \<and> length l \<le> 1022"
    by (simp add: chNl_def)
  ultimately have "grep (\<lambda>_. 1024) [chCaret, 98] [97, 98, chNl, 98, 97, chNl, 98] =
      of_lines (filter (selects [chCaret, 98]) [[97, 98], [98, 97]])"
    by (rule grep_prints_matching_lines)
  also have "\<dots> = [98, 97, chNl]"
    by (simp add: selects_def of_lines_def matches_One fits_char_def chDollar_def chDot_def)
  finally show ?thesis .
qed

end
