(* ===== verification/Printf.thy ===== *)
theory Printf
  imports Prelude
begin

text \<open>
  Formatted output: \<^verbatim>\<open>printint\<close> and \<^verbatim>\<open>printf\<close> of the user library (\<^verbatim>\<open>printf.c\<close>). The output of a
  call is the list of the bytes written, one \<^verbatim>\<open>write\<close> each. The arguments are the \<^verbatim>\<open>uint\<close> values
  on the stack after the format; \<open>strs\<close> gives the C string stored at an address.
\<close>

section \<open>Integers\<close>

text \<open>
  The digits of \<open>x\<close>, least significant first, as the loop stores them into \<^verbatim>\<open>buf[16]\<close>:
  \<open>room\<close> is the space left in the buffer.
\<close>

fun digit_loop :: "nat \<Rightarrow> u32 \<Rightarrow> u32 \<Rightarrow> nat list res" where
  "digit_loop 0 base x = Inl (Fault ''buf'')"
| "digit_loop (Suc room) base x =
     (if base = 0 then Inl (Fault ''division by zero'')
      else if x div base \<noteq> 0 then
        bnd (digit_loop room base (x div base)) (\<lambda>ds. Inr (unat (x mod base) # ds))
      else Inr [unat (x mod base)])"

definition digits :: "u8 list" where
  "digits = str ''0123456789ABCDEF''"

text \<open>The bytes \<^verbatim>\<open>printint\<close> writes: the buffer from its end.\<close>

definition buf_out :: "u8 list \<Rightarrow> bool \<Rightarrow> nat list \<Rightarrow> u8 list res" where
  "buf_out table neg ds =
     (if neg then
        if length ds < 16 then Inr (rev (map (\<lambda>d. table ! d) ds @ [chr CHR ''-''])) else Inl (Fault ''buf'')
      else Inr (rev (map (\<lambda>d. table ! d) ds)))"

definition printint :: "u32 \<Rightarrow> u32 \<Rightarrow> bool \<Rightarrow> u8 list res" where
  "printint xx base sg =
     (let neg = (sg \<and> xx <s 0);
          x = (if neg then - xx else xx)
      in bnd (digit_loop 16 base x) (\<lambda>ds. buf_out digits neg ds))"

section \<open>printf\<close>

fun printf_loop :: "(u32 \<Rightarrow> u8 list) \<Rightarrow> bool \<Rightarrow> u8 list \<Rightarrow> u32 list \<Rightarrow> u8 list res" where
  "printf_loop strs percent [] ap = Inr []"
| "printf_loop strs False (c # fmt) ap =
     (if c = chr CHR ''%'' then printf_loop strs True fmt ap
      else bnd (printf_loop strs False fmt ap) (\<lambda>out. Inr (c # out)))"
| "printf_loop strs True (c # fmt) ap =
     (if c = chr CHR ''d'' then
        (case ap of [] \<Rightarrow> Inl (Fault ''va'')
         | a # ap' \<Rightarrow> bnd (printint a 10 True) (\<lambda>o1. bnd (printf_loop strs False fmt ap') (\<lambda>out. Inr (o1 @ out))))
      else if c = chr CHR ''x'' \<or> c = chr CHR ''p'' then
        (case ap of [] \<Rightarrow> Inl (Fault ''va'')
         | a # ap' \<Rightarrow> bnd (printint a 16 False) (\<lambda>o1. bnd (printf_loop strs False fmt ap') (\<lambda>out. Inr (o1 @ out))))
      else if c = chr CHR ''s'' then
        (case ap of [] \<Rightarrow> Inl (Fault ''va'')
         | a # ap' \<Rightarrow>
             bnd (printf_loop strs False fmt ap')
              (\<lambda>out. Inr ((if a = 0 then str ''(null)'' else strs a) @ out)))
      else if c = chr CHR ''c'' then
        (case ap of [] \<Rightarrow> Inl (Fault ''va'')
         | a # ap' \<Rightarrow> bnd (printf_loop strs False fmt ap') (\<lambda>out. Inr (ucast a # out)))
      else if c = chr CHR ''%'' then bnd (printf_loop strs False fmt ap) (\<lambda>out. Inr (c # out))
      else bnd (printf_loop strs False fmt ap) (\<lambda>out. Inr (chr CHR ''%'' # c # out)))"

definition printf :: "(u32 \<Rightarrow> u8 list) \<Rightarrow> u8 list \<Rightarrow> u32 list \<Rightarrow> u8 list res" where
  "printf strs fmt ap = printf_loop strs False fmt ap"

section \<open>Properties\<close>

text \<open>The value of a list of digits, least significant first.\<close>

fun digits_value :: "nat \<Rightarrow> nat list \<Rightarrow> nat" where
  "digits_value base [] = 0"
| "digits_value base (d # ds) = d + base * digits_value base ds"

text \<open>A canonical numeral: digits below the base and no leading zero (except for 0 itself).\<close>

definition canonical :: "nat \<Rightarrow> nat list \<Rightarrow> bool" where
  "canonical base ds \<longleftrightarrow> list_all (\<lambda>d. d < base) ds \<and> ds \<noteq> [] \<and> (last ds = 0 \<longrightarrow> length ds = 1)"

lemma digit_loop_ok:
  "2 \<le> unat base \<Longrightarrow> unat x < unat base ^ room \<Longrightarrow> 0 < room \<Longrightarrow>
   \<exists>ds. digit_loop room base x = Inr ds \<and> digits_value (unat base) ds = unat x \<and>
     canonical (unat base) ds \<and> length ds \<le> room \<and> (x \<noteq> 0 \<longrightarrow> last ds \<noteq> 0)"
proof (induction room arbitrary: x)
  case (Suc room)
  have b: "base \<noteq> 0" using Suc.prems(1) by auto
  have m: "unat (x mod base) = unat x mod unat base" "unat (x div base) = unat x div unat base"
    by (simp_all add: unat_mod unat_div)
  show ?case
  proof (cases "x div base = 0")
    case True
    then have "unat x div unat base = 0" using m(2) by simp
    then have "unat x < unat base" using Suc.prems(1) by (simp add: div_eq_0_iff)
    then show ?thesis using True b m(1) by (auto simp: canonical_def unat_gt_0)
  next
    case False
    then have q: "unat x div unat base \<noteq> 0" using m(2) by (metis unat_eq_0)
    have r: "unat (x div base) < unat base ^ room"
      using Suc.prems(2) m(2) by (simp add: less_mult_imp_div_less mult.commute)
    have "0 < room" using r q m(2) by (cases room) auto
    from Suc.IH [OF Suc.prems(1) r this] obtain ds where
      ds: "digit_loop room base (x div base) = Inr ds" "digits_value (unat base) ds = unat x div unat base"
        "canonical (unat base) ds" "length ds \<le> room" "last ds \<noteq> 0"
      using False m(2) by auto
    have "unat x mod unat base < unat base" using Suc.prems(1) by (intro mod_less_divisor) auto
    then show ?thesis using ds False b m(1)
      by (auto simp: canonical_def)
  qed
qed simp

lemma digit_loop_room: "digit_loop n b x = Inr ds \<Longrightarrow> digit_loop (Suc n) b x = Inr ds"
proof (induction n arbitrary: x ds)
  case (Suc n)
  from Suc.prems have b: "b \<noteq> 0" by (auto split: if_splits)
  show ?case
  proof (cases "x div b = 0")
    case False
    with Suc.prems b obtain ds' where d: "digit_loop n b (x div b) = Inr ds'" "ds = unat (x mod b) # ds'"
      by (auto simp: bnd_eq_Inr)
    from Suc.IH [OF d(1)] d(2) False b show ?thesis
      by (subst digit_loop.simps(2)) (simp del: digit_loop.simps)
  qed (use Suc.prems b in simp)
qed simp

lemma unat_abs: "unat (if xx <s 0 then - xx else xx) = nat \<bar>sint xx\<bar>" for xx :: u32
proof -
  have r: "- (2 ^ 31) \<le> sint xx" "sint xx < 2 ^ 31"
    using sint_ge [of xx] sint_lt [of xx] by simp_all
  have e: "uint (word_of_int k :: u32) = k mod 2 ^ 32" for k by (simp add: uint_word_of_int)
  have "uint (- xx) = (- sint xx) mod 2 ^ 32" using e [of "- sint xx"] by simp
  moreover have "uint xx = sint xx mod 2 ^ 32" using e [of "sint xx"] by simp
  moreover have "(- sint xx) mod 2 ^ 32 = - sint xx" if "sint xx < 0"
    using r that by (intro mod_pos_pos_trivial) simp_all
  moreover have "sint xx mod 2 ^ 32 = sint xx" if "\<not> sint xx < 0"
    using r that by (intro mod_pos_pos_trivial) simp_all
  ultimately have "uint (if xx <s 0 then - xx else xx) = \<bar>sint xx\<bar>"
    by (simp add: word_sless_alt del: uint_minus_simple_alt)
  then show ?thesis by (metis nat_uint_eq)
qed

text \<open>C34. \<^verbatim>\<open>printint\<close> prints every integer, within its 16-byte buffer: in decimal the sign and the
  canonical digits of the signed value (also for the least integer, whose negation wraps around),
  in hexadecimal the canonical digits of the unsigned value.\<close>

theorem printint_correct:
  "(\<exists>ds. printint xx 10 True = Inr ((if xx <s 0 then [chr CHR ''-''] else []) @ rev (map (\<lambda>d. digits ! d) ds))
      \<and> canonical 10 ds \<and> sint xx = (if xx <s 0 then - 1 else 1) * int (digits_value 10 ds))
   \<and> (\<exists>ds. printint xx 16 False = Inr (rev (map (\<lambda>d. digits ! d) ds))
      \<and> canonical 16 ds \<and> unat xx = digits_value 16 ds)"
proof -
  let ?x = "if xx <s 0 then - xx else xx"
  have l: "unat w < 4294967296" for w :: u32 using unsigned_less [of w] by simp
  have "unat ?x < unat (10 :: u32) ^ 15" "unat xx < unat (16 :: u32) ^ 15"
    using l [of ?x] l [of xx] by simp_all
  with digit_loop_ok [of 10 ?x 15] digit_loop_ok [of 16 xx 15] obtain ds es where
    ds: "digit_loop 15 10 ?x = Inr ds" "digits_value 10 ds = unat ?x" "canonical 10 ds" "length ds \<le> 15" and
    es: "digit_loop 15 16 xx = Inr es" "digits_value 16 es = unat xx" "canonical 16 es" "length es \<le> 15"
    by auto
  have r: "digit_loop 16 10 ?x = Inr ds" "digit_loop 16 16 xx = Inr es"
    using digit_loop_room [OF ds(1)] digit_loop_room [OF es(1)] by (simp_all del: digit_loop.simps)
  have "int (digits_value 10 ds) = \<bar>sint xx\<bar>" using ds(2) unat_abs [of xx] by simp
  then have "sint xx = (if xx <s 0 then - 1 else 1) * int (digits_value 10 ds)"
    by (auto simp: word_sless_alt)
  moreover have "printint xx 10 True = Inr ((if xx <s 0 then [chr CHR ''-''] else []) @ rev (map (\<lambda>d. digits ! d) ds))"
    using r(1) ds(4) by (simp add: printint_def buf_out_def Let_def del: digit_loop.simps)
  moreover have "printint xx 16 False = Inr (rev (map (\<lambda>d. digits ! d) es))"
    using r(2) by (simp add: printint_def buf_out_def Let_def del: digit_loop.simps)
  ultimately show ?thesis
    using ds(3) es(2,3) by - (rule conjI, rule exI [of _ ds], simp, rule exI [of _ es], simp)
qed

end
