(* ===== verification/Kbd.thy ===== *)
theory Kbd
  imports Prelude
begin

text \<open>
  The keyboard driver (\<^verbatim>\<open>kbd.c\<close>, \<^verbatim>\<open>kbd.h\<close>): the scan code tables and \<^verbatim>\<open>kbdgetc\<close>. The static
  variable \<^verbatim>\<open>shift\<close> is the state; the bytes read from the status and data ports are arguments.
\<close>

definition KBS_DIB :: u32 where "KBS_DIB = 0x01"
definition SHIFT :: u32 where "SHIFT = 1"
definition CTL :: u32 where "CTL = 2"
definition ALT :: u32 where "ALT = 4"
definition CAPSLOCK :: u32 where "CAPSLOCK = 8"
definition NUMLOCK :: u32 where "NUMLOCK = 16"
definition SCROLLLOCK :: u32 where "SCROLLLOCK = 32"
definition E0ESC :: u32 where "E0ESC = 64"

definition shiftcode :: "u32 \<Rightarrow> u32" where
  "shiftcode d =
     (if d = 0x1D then CTL else if d = 0x2A then SHIFT else if d = 0x36 then SHIFT
      else if d = 0x38 then ALT else if d = 0x9D then CTL else if d = 0xB8 then ALT else 0)"

definition togglecode :: "u32 \<Rightarrow> u32" where
  "togglecode d =
     (if d = 0x3A then CAPSLOCK else if d = 0x45 then NUMLOCK else if d = 0x46 then SCROLLLOCK else 0)"

text \<open>The initialisers of the maps: a positional prefix, then designated elements.\<close>

definition keypad :: "(u32 \<times> u8) list" where
  "keypad = [(0xC8, 0xE2), (0xD0, 0xE3), (0xC9, 0xE6), (0xD1, 0xE7), (0xCB, 0xE4), (0xCD, 0xE5),
     (0x97, 0xE0), (0xCF, 0xE1), (0xD2, 0xE8), (0xD3, 0xE9)]"

definition table :: "u8 list \<Rightarrow> (u32 \<times> u8) list \<Rightarrow> u32 \<Rightarrow> u8" where
  "table xs des d =
     (case map_of des d of Some c \<Rightarrow> c
      | None \<Rightarrow> if unat d < length xs then xs ! unat d else 0)"

definition normalmap :: "u32 \<Rightarrow> u8" where
  "normalmap = table
     ([0, 0x1B] @ str ''1234567890-='' @ [8, 9] @ str ''qwertyuiop[]'' @ [10, 0] @ str ''asdfghjkl;''
      @ [39, 96, 0, 92] @ str ''zxcvbnm,./'' @ [0] @ str ''*'' @ [0] @ str '' '' @ replicate 13 0
      @ str ''789-456+1230.'' @ replicate 4 0)
     ([(0x9C, 10), (0xB5, chr CHR ''/'')] @ keypad)"

definition shiftmap :: "u32 \<Rightarrow> u8" where
  "shiftmap = table
     ([0, 27] @ str ''!@#$%^&*()_+'' @ [8, 9] @ str ''QWERTYUIOP{}'' @ [10, 0] @ str ''ASDFGHJKL:''
      @ [34, 126, 0, 124] @ str ''ZXCVBNM<>?'' @ [0] @ str ''*'' @ [0] @ str '' '' @ replicate 13 0
      @ str ''789-456+1230.'' @ replicate 4 0)
     ([(0x9C, 10), (0xB5, chr CHR ''/'')] @ keypad)"

definition ctl :: "char \<Rightarrow> u8" where
  "ctl x = chr x - chr CHR ''@''"

definition ctlmap :: "u32 \<Rightarrow> u8" where
  "ctlmap = table
     (replicate 16 0 @ map ctl ''QWERTYUIOP'' @ [0, 0, 13, 0] @ map ctl ''ASDFGHJKL'' @ [0, 0, 0, 0, ctl CHR 0x5C]
      @ map ctl ''ZXCVBNM'' @ [0, 0, ctl CHR ''/'', 0, 0])
     ([(0x9C, 13), (0xB5, ctl CHR ''/'')] @ keypad)"

definition charcode :: "u32 \<Rightarrow> u32 \<Rightarrow> u8" where
  "charcode i = (if i = 0 then normalmap else if i = 1 then shiftmap else ctlmap)"

text \<open>Caps Lock: the case of a letter.\<close>

definition swapcase :: "u32 \<Rightarrow> u32" where
  "swapcase c =
     (if 97 \<le> c \<and> c \<le> 122 then c + (65 - 97)
      else if 65 \<le> c \<and> c \<le> 90 then c + (97 - 65) else c)"

text \<open>One call: the character (\<open>-1\<close>: no data, 0: no character) and the new \<^verbatim>\<open>shift\<close>.\<close>

definition kbdgetc :: "u8 \<Rightarrow> u8 \<Rightarrow> u32 \<Rightarrow> int \<times> u32" where
  "kbdgetc st data0 shift =
     (if ucast st AND KBS_DIB = 0 then (-1, shift)
      else
        let data = ucast data0 :: u32 in
        if data = 0xE0 then (0, shift OR E0ESC)
        else if data AND 0x80 \<noteq> 0 then
          let data = (if shift AND E0ESC \<noteq> 0 then data else data AND 0x7F)
          in (0, shift AND NOT (shiftcode data OR E0ESC))
        else
          let (data, shift) =
                (if shift AND E0ESC \<noteq> 0 then (data OR 0x80, shift AND NOT E0ESC) else (data, shift));
              shift = shift OR shiftcode data;
              shift = shift XOR togglecode data;
              c = ucast (charcode (shift AND (CTL OR SHIFT)) data) :: u32;
              c = (if shift AND CAPSLOCK \<noteq> 0 then swapcase c else c)
          in (uint c, shift))"

text \<open>The characters delivered fit in a byte.\<close>

lemma swapcase_byte: "c < 256 \<Longrightarrow> swapcase c < 256"
proof -
  assume c: "c < 256"
  have "c - 32 < 256" if "97 \<le> c" "c \<le> 122" using that c by (auto simp: word_less_nat_alt word_le_nat_alt unat_sub)
  moreover have "c + 32 < 256" if "65 \<le> c" "c \<le> 90"
    using that by (simp add: word_less_nat_alt word_le_nat_alt unat_word_ariths)
  ultimately show ?thesis using c by (auto simp: swapcase_def)
qed

lemma ucast_byte: "(ucast (b :: u8) :: u32) < 256"
proof -
  have "unat b < 256" using unsigned_less [of b] by simp
  then have "take_bit 32 (unat b) < 256" using take_bit_nat_less_eq_self [of 32 "unat b"] by linarith
  then show ?thesis by (simp add: word_less_nat_alt unsigned_ucast_eq)
qed

lemma kbdgetc_range: "fst (kbdgetc st data shift) \<in> {-1..<256}"
proof -
  have u: "uint c \<in> {-1..<256}" if "c < 256" for c :: u32
    using that by (auto simp: word_less_def intro: order_trans [OF _ uint_ge_0])
  have d: "fst (kbdgetc st data shift) \<in> {-1, 0} \<or>
      (\<exists>b :: u8. fst (kbdgetc st data shift) = uint (ucast b :: u32)
        \<or> fst (kbdgetc st data shift) = uint (swapcase (ucast b)))"
    unfolding kbdgetc_def Let_def case_prod_beta by (simp split: if_split) blast
  then show ?thesis using u ucast_byte swapcase_byte [OF ucast_byte] by auto
qed

end
