(* ===== verification/Irq.thy ===== *)
theory Irq
  imports Prelude
begin

text \<open>
  The interrupt controllers: the I/O APIC (\<^verbatim>\<open>ioapic.c\<close>) as its register file, selected by
  \<^verbatim>\<open>ioapic->reg\<close> and accessed through \<^verbatim>\<open>ioapic->data\<close>, and the two 8259A (\<^verbatim>\<open>picirq.c\<close>) as the
  sequence of bytes written to their ports.
\<close>

section \<open>The I/O APIC\<close>

type_synonym ioapic = "u32 \<Rightarrow> u32"

definition REG_ID :: u32 where "REG_ID = 0x00"
definition REG_VER :: u32 where "REG_VER = 0x01"
definition REG_TABLE :: u32 where "REG_TABLE = 0x10"
definition INT_DISABLED :: u32 where "INT_DISABLED = 0x00010000"
definition T_IRQ0 :: u32 where "T_IRQ0 = 32"

definition ioapicread :: "u32 \<Rightarrow> ioapic \<Rightarrow> u32" where
  "ioapicread reg a = a reg"

definition ioapicwrite :: "u32 \<Rightarrow> u32 \<Rightarrow> ioapic \<Rightarrow> ioapic" where
  "ioapicwrite reg v a = a(reg := v)"

text \<open>The result says whether the warning about the id is printed.\<close>

definition ioapicinit :: "u32 \<Rightarrow> ioapic \<Rightarrow> bool \<times> ioapic" where
  "ioapicinit ioapicid a =
     (let maxintr = drop_bit 16 (ioapicread REG_VER a) AND 0xFF;
          id = drop_bit 24 (ioapicread REG_ID a)
      in (id \<noteq> ioapicid,
          fold (\<lambda>i a. ioapicwrite (REG_TABLE + 2 * of_nat i + 1) 0
                 (ioapicwrite (REG_TABLE + 2 * of_nat i) (INT_DISABLED OR (T_IRQ0 + of_nat i)) a))
            [0..<unat maxintr + 1] a))"

definition ioapicenable :: "u32 \<Rightarrow> u32 \<Rightarrow> ioapic \<Rightarrow> ioapic" where
  "ioapicenable irq cpunum a =
     ioapicwrite (REG_TABLE + 2 * irq + 1) (push_bit 24 cpunum)
       (ioapicwrite (REG_TABLE + 2 * irq) (T_IRQ0 + irq) a)"

section \<open>The 8259A controllers\<close>

type_synonym port_writes = "(u16 \<times> u8) list"

definition IO_PIC1 :: u16 where "IO_PIC1 = 0x20"
definition IO_PIC2 :: u16 where "IO_PIC2 = 0xA0"
definition IRQ_SLAVE :: nat where "IRQ_SLAVE = 2"

definition irqmask_init :: u16 where
  "irqmask_init = 0xFFFF AND NOT (push_bit IRQ_SLAVE 1)"

definition picsetmask :: "u16 \<Rightarrow> u16 \<times> port_writes" where
  "picsetmask m = (m, [(IO_PIC1 + 1, ucast m), (IO_PIC2 + 1, ucast (drop_bit 8 m))])"

definition picenable :: "nat \<Rightarrow> u16 \<Rightarrow> u16 \<times> port_writes" where
  "picenable irq irqmask = picsetmask (irqmask AND NOT (push_bit irq 1))"

definition picinit :: "u16 \<Rightarrow> u16 \<times> port_writes" where
  "picinit irqmask =
     (let w = [(IO_PIC1 + 1, 0xFF), (IO_PIC2 + 1, 0xFF),
               (IO_PIC1, 0x11), (IO_PIC1 + 1, ucast T_IRQ0), (IO_PIC1 + 1, push_bit IRQ_SLAVE 1), (IO_PIC1 + 1, 0x3),
               (IO_PIC2, 0x11), (IO_PIC2 + 1, ucast T_IRQ0 + 8), (IO_PIC2 + 1, of_nat IRQ_SLAVE), (IO_PIC2 + 1, 0x3),
               (IO_PIC1, 0x68), (IO_PIC1, 0x0a), (IO_PIC2, 0x68), (IO_PIC2, 0x0a)]
      in if irqmask \<noteq> 0xFFFF then (case picsetmask irqmask of (m, w') \<Rightarrow> (m, w @ w')) else (irqmask, w))"

section \<open>Redirection entries\<close>

lemma table_index:
  assumes "i < 1024" "j < 1024"
  shows "REG_TABLE + 2 * of_nat i = REG_TABLE + 2 * of_nat j \<longleftrightarrow> i = j"
    "REG_TABLE + 2 * of_nat i \<noteq> REG_TABLE + 2 * of_nat j + (1 :: u32)"
proof -
  have u: "unat (2 * of_nat k :: u32) = 2 * k" "unat (2 * of_nat k + 1 :: u32) = 2 * k + 1" if "k < 1024" for k
    using that by (simp_all add: unat_word_ariths unsigned_of_nat take_bit_nat_eq_self)
  show "REG_TABLE + 2 * of_nat i = REG_TABLE + 2 * of_nat j \<longleftrightarrow> i = j"
  proof
    assume "REG_TABLE + 2 * of_nat i = REG_TABLE + 2 * of_nat j"
    then have "unat (2 * of_nat i :: u32) = unat (2 * of_nat j :: u32)" by simp
    then show "i = j" using u assms by simp
  qed simp
  show "REG_TABLE + 2 * of_nat i \<noteq> REG_TABLE + 2 * of_nat j + (1 :: u32)"
  proof
    assume "REG_TABLE + 2 * of_nat i = REG_TABLE + 2 * of_nat j + (1 :: u32)"
    then have "unat (2 * of_nat i :: u32) = unat (2 * of_nat j + 1 :: u32)" by (simp add: add.assoc)
    then show False using u assms by simp presburger
  qed
qed

text \<open>After \<^verbatim>\<open>ioapicinit\<close> every redirection entry is disabled with its own vector.\<close>

lemma init_loop:
  "i < n \<Longrightarrow> n \<le> 1024 \<Longrightarrow>
   fold (\<lambda>i a. ioapicwrite (REG_TABLE + 2 * of_nat i + 1) 0
          (ioapicwrite (REG_TABLE + 2 * of_nat i) (INT_DISABLED OR (T_IRQ0 + of_nat i)) a)) [0..<n] a
     (REG_TABLE + 2 * of_nat i) = INT_DISABLED OR (T_IRQ0 + of_nat i)"
proof (induction n)
  case (Suc n)
  then show ?case using table_index [of i n] table_index(2) [of i n]
    by (cases "i = n") (auto simp: ioapicwrite_def)
qed simp

lemma ioapicinit_disabled:
  assumes "i \<le> unat (drop_bit 16 (a REG_VER) AND 0xFF)"
  shows "snd (ioapicinit ioapicid a) (REG_TABLE + 2 * of_nat i) = INT_DISABLED OR (T_IRQ0 + of_nat i)"
proof -
  have "drop_bit 16 (a REG_VER) AND 0xFF \<le> 0xFF" by (rule word_and_le1)
  then have "unat (drop_bit 16 (a REG_VER) AND 0xFF) \<le> 255" by (simp add: word_le_nat_alt)
  then show ?thesis using assms unfolding ioapicinit_def Let_def snd_conv ioapicread_def
    by (intro init_loop) simp_all
qed

lemma ioapicenable_only:
  assumes "unat irq < 1024" "i < 1024"
  shows "ioapicenable irq cpu a (REG_TABLE + 2 * of_nat i) =
    (if of_nat i = irq then T_IRQ0 + irq else a (REG_TABLE + 2 * of_nat i))"
  using table_index [OF assms(2,1)] by (auto simp: ioapicenable_def ioapicwrite_def)

end
