(* ===== verification/Console.thy ===== *)
theory Console
  imports Printf Kbd Irq
begin

text \<open>
  The console (\<^verbatim>\<open>console.c\<close>) and the serial line (\<^verbatim>\<open>uart.c\<close>): screen output with scrolling,
  \<^verbatim>\<open>cprintf\<close>, and the line discipline between the keyboard or serial interrupt and
  \<^verbatim>\<open>consoleread\<close>. The sections under \<^verbatim>\<open>cons.lock\<close> are single steps.
\<close>

section \<open>Output\<close>

text \<open>
  The CGA memory \<^verbatim>\<open>crt\<close>, the cursor register of the controller (written and read in two
  halves through \<^verbatim>\<open>CRTPORT\<close>), the serial port's presence and the bytes sent to it, and
  the \<^verbatim>\<open>panicked\<close> flag.
\<close>

record screen =
  crt :: "nat \<Rightarrow> u16"
  cursor :: u16
  uart :: bool
  uart_out :: "u8 list"
  panicked :: bool

definition BACKSPACE :: int where
  "BACKSPACE = 0x100"

text \<open>\<^verbatim>\<open>uartputc\<close> polls the transmitter at most 128 times and then writes in any case.\<close>

definition uartputc :: "int \<Rightarrow> screen \<Rightarrow> screen" where
  "uartputc c s = (if uart s then s\<lparr>uart_out := uart_out s @ [word_of_int c]\<rparr> else s)"

text \<open>\<^verbatim>\<open>uartinit\<close>, given the line status it reads: the configuration bytes written to the ports,
  the I/O APIC and the screen state.\<close>

definition COM1 :: u16 where
  "COM1 = 0x3f8"

definition IRQ_COM1 :: u32 where
  "IRQ_COM1 = 4"

definition uartinit :: "u8 \<Rightarrow> ioapic \<Rightarrow> screen \<Rightarrow> port_writes \<times> ioapic \<times> screen" where
  "uartinit status a s =
     (let w = [(COM1 + 2, 0), (COM1 + 3, 0x80), (COM1 + 0, 115200 div 9600), (COM1 + 1, 0),
               (COM1 + 3, 0x03), (COM1 + 4, 0), (COM1 + 1, 0x01)]
      in if status = 0xFF then (w, a, s)
         else (w, ioapicenable IRQ_COM1 0 a,
               fold uartputc (map uint (str ''xv6...'' @ [10])) (s\<lparr>uart := True\<rparr>)))"

definition uartgetc :: "bool \<Rightarrow> u8 \<Rightarrow> u8 \<Rightarrow> int" where
  "uartgetc present status data =
     (if \<not> present then -1 else if status AND 0x01 = 0 then -1 else uint data)"

definition cgaputc :: "int \<Rightarrow> screen \<Rightarrow> screen res" where
  "cgaputc c s =
     (let pos = unat (cursor s);
          (pos, m) =
            (if c = 10 then (pos + (80 - pos mod 80), crt s)
             else if c = BACKSPACE then (if pos > 0 then (pos - 1, crt s) else (pos, crt s))
             else (pos + 1, (crt s)(pos := (word_of_int c AND 0xff) OR 0x0700)))
      in if pos > 25 * 80 then Inl (Panic ''pos under/overflow'')
         else
           let (pos, m) =
                 (if pos div 80 \<ge> 24 then
                    let m1 = (\<lambda>i. if i < 23 * 80 then m (i + 80) else m i);
                        pos' = pos - 80
                    in (pos', \<lambda>i. if pos' \<le> i \<and> i < 24 * 80 then 0 else m1 i)
                  else (pos, m))
           in Inr (s\<lparr>cursor := of_nat pos, crt := m(pos := 0x0720)\<rparr>))"

definition consputc :: "int \<Rightarrow> screen \<Rightarrow> screen res" where
  "consputc c s =
     (if panicked s then Inl (Sleep ''panicked'')
      else cgaputc c
        (if c = BACKSPACE then uartputc 8 (uartputc 32 (uartputc 8 s)) else uartputc c s))"

fun consputs :: "u8 list \<Rightarrow> screen \<Rightarrow> screen res" where
  "consputs [] s = Inr s"
| "consputs (c # cs) s = bnd (consputc (uint c) s) (consputs cs)"

text \<open>The kernel's own \<^verbatim>\<open>printint\<close>: lower-case digits, the sign flag reused for the sign.\<close>

definition cdigits :: "u8 list" where
  "cdigits = str ''0123456789abcdef''"

definition cprintint :: "u32 \<Rightarrow> u32 \<Rightarrow> bool \<Rightarrow> screen \<Rightarrow> screen res" where
  "cprintint xx base sg s =
     (let sg = (sg \<and> xx <s 0);
          x = (if sg then - xx else xx)
      in bnd (digit_loop 16 base x) (\<lambda>ds. bnd (buf_out cdigits sg ds) (\<lambda>out. consputs out s)))"

fun cprintf_loop :: "(u32 \<Rightarrow> u8 list) \<Rightarrow> u8 list \<Rightarrow> u32 list \<Rightarrow> screen \<Rightarrow> screen res" where
  "cprintf_loop strs [] argp s = Inr s"
| "cprintf_loop strs [c] argp s = (if c = chr CHR ''%'' then Inr s else consputc (uint c) s)"
| "cprintf_loop strs (c # d # fmt) argp s =
     (if c \<noteq> chr CHR ''%'' then bnd (consputc (uint c) s) (cprintf_loop strs (d # fmt) argp)
      else if d = chr CHR ''d'' then
        (case argp of [] \<Rightarrow> Inl (Fault ''va'')
         | a # argp' \<Rightarrow> bnd (cprintint a 10 True s) (cprintf_loop strs fmt argp'))
      else if d = chr CHR ''x'' \<or> d = chr CHR ''p'' then
        (case argp of [] \<Rightarrow> Inl (Fault ''va'')
         | a # argp' \<Rightarrow> bnd (cprintint a 16 False s) (cprintf_loop strs fmt argp'))
      else if d = chr CHR ''s'' then
        (case argp of [] \<Rightarrow> Inl (Fault ''va'')
         | a # argp' \<Rightarrow> bnd (consputs (if a = 0 then str ''(null)'' else strs a) s) (cprintf_loop strs fmt argp'))
      else if d = chr CHR ''%'' then bnd (consputc 37 s) (cprintf_loop strs fmt argp)
      else bnd (consputc 37 s) (\<lambda>s. bnd (consputc (uint d) s) (cprintf_loop strs fmt argp)))"

definition cprintf :: "(u32 \<Rightarrow> u8 list) \<Rightarrow> u8 list option \<Rightarrow> u32 list \<Rightarrow> screen \<Rightarrow> screen res" where
  "cprintf strs fmt argp s =
     (case fmt of None \<Rightarrow> Inl (Panic ''null fmt'') | Some f \<Rightarrow> cprintf_loop strs f argp s)"

definition consolewrite :: "u8 list \<Rightarrow> screen \<Rightarrow> (int \<times> screen) res" where
  "consolewrite buf s = bnd (consputs buf s) (\<lambda>s. Inr (int (length buf), s))"

section \<open>Input\<close>

record input =
  ibuf :: "nat \<Rightarrow> u8"
  ir :: u32
  iw :: u32
  ie :: u32

definition INPUT_BUF :: u32 where
  "INPUT_BUF = 128"

definition cell :: "u32 \<Rightarrow> nat" where
  "cell i = unat (i mod INPUT_BUF)"

lemma unat_dec: "x \<noteq> 0 \<Longrightarrow> unat (x - 1) = unat x - 1" for x :: u32
  by (rule unat_minus_one)

text \<open>Kill line: the loop of \<^verbatim>\<open>C('U')\<close>.\<close>

function kill_line :: "input \<Rightarrow> screen \<Rightarrow> (input \<times> screen) res" where
  "kill_line i s =
     (if ie i \<noteq> iw i \<and> ibuf i (cell (ie i - 1)) \<noteq> 10 then
        (case consputc BACKSPACE s of
           Inl e \<Rightarrow> Inl e
         | Inr s' \<Rightarrow> kill_line (i\<lparr>ie := ie i - 1\<rparr>) s')
      else Inr (i, s))"
  by pat_completeness auto

termination
proof (relation "measure (\<lambda>(i, s). unat (ie i - iw i))")
  fix i :: input and s s'
  assume "ie i \<noteq> iw i \<and> ibuf i (cell (ie i - 1)) \<noteq> 10"
  then have n: "ie i - iw i \<noteq> 0" by simp
  have "ie i - 1 - iw i = ie i - iw i - 1" by simp
  moreover have "0 < unat (ie i - iw i)" using n by (simp add: unat_gt_0)
  ultimately have "unat (ie i - 1 - iw i) < unat (ie i - iw i)" using unat_dec [OF n] by (simp only:)
  then show "((i\<lparr>ie := ie i - 1\<rparr>, s'), (i, s)) \<in> measure (\<lambda>(i, s). unat (ie i - iw i))" by simp
qed simp

declare kill_line.simps [simp del]

text \<open>One character of \<^verbatim>\<open>consoleintr\<close>: the new state, and whether a reader is woken or a process
  listing is asked for.\<close>

datatype key_event = Nothing | Wakeup | Procdump

definition consoleintr_key :: "int \<Rightarrow> input \<Rightarrow> screen \<Rightarrow> (input \<times> screen \<times> key_event) res" where
  "consoleintr_key c i s =
     (if c = 0x10 then Inr (i, s, Procdump)
      else if c = 0x15 then bnd (kill_line i s) (\<lambda>(i, s). Inr (i, s, Nothing))
      else if c = 0x08 \<or> c = 0x7f then
        if ie i \<noteq> iw i then bnd (consputc BACKSPACE s) (\<lambda>s. Inr (i\<lparr>ie := ie i - 1\<rparr>, s, Nothing))
        else Inr (i, s, Nothing)
      else if c \<noteq> 0 \<and> ie i - ir i < INPUT_BUF then
        let c = (if c = 13 then 10 else c);
            i = i\<lparr>ibuf := (ibuf i)(cell (ie i) := word_of_int c), ie := ie i + 1\<rparr>
        in bnd (consputc c s) (\<lambda>s.
             if c = 10 \<or> c = 0x04 \<or> ie i = ir i + INPUT_BUF
             then Inr (i\<lparr>iw := ie i\<rparr>, s, Wakeup) else Inr (i, s, Nothing))
      else Inr (i, s, Nothing))"

text \<open>\<^verbatim>\<open>consoleintr\<close> on the characters \<^verbatim>\<open>getc\<close> delivers before it returns a negative value;
  the flag is \<^verbatim>\<open>doprocdump\<close>.\<close>

fun consoleintr :: "int list \<Rightarrow> input \<Rightarrow> screen \<Rightarrow> (input \<times> screen \<times> bool) res" where
  "consoleintr [] i s = Inr (i, s, False)"
| "consoleintr (c # cs) i s =
     bnd (consoleintr_key c i s) (\<lambda>(i, s, ev).
     bnd (consoleintr cs i s) (\<lambda>(i, s, dump). Inr (i, s, dump \<or> ev = Procdump)))"

text \<open>
  The loop of \<^verbatim>\<open>consoleread\<close>: how it ends, the bytes delivered and the input. \<open>first\<close> says that
  nothing was delivered yet (\<^verbatim>\<open>n == target\<close>). A reader that goes to sleep goes on later with the
  bytes still missing.
\<close>

datatype read_end = Done | Killed | Asleep

fun consoleread :: "bool \<Rightarrow> bool \<Rightarrow> nat \<Rightarrow> input \<Rightarrow> read_end \<times> u8 list \<times> input" where
  "consoleread killed first 0 i = (Done, [], i)"
| "consoleread killed first (Suc n) i =
     (if ir i = iw i then (if killed then Killed else Asleep, [], i)
      else
        let c = ibuf i (cell (ir i)); i' = i\<lparr>ir := ir i + 1\<rparr>
        in if c = 4 then (Done, [], if first then i' else i'\<lparr>ir := ir i' - 1\<rparr>)
           else if c = 10 then (Done, [c], i')
           else (case consoleread killed False n i' of (e, bs, i'') \<Rightarrow> (e, c # bs, i'')))"

section \<open>The screen\<close>

text \<open>The cursor stays in the first 24 rows, so that no character makes the console panic.\<close>

definition screen_ok :: "screen \<Rightarrow> bool" where
  "screen_ok s \<longleftrightarrow> unat (cursor s) < 24 * 80 \<and> \<not> panicked s"

lemma next_line: "p < 1920 \<Longrightarrow> p + (80 - p mod 80) \<le> (1920 :: nat)"
proof -
  assume p: "p < 1920"
  have "p = 80 * (p div 80) + p mod 80" by simp
  moreover have "p div 80 < 24" using p by (simp add: less_mult_imp_div_less)
  moreover have "p mod 80 < 80" by simp
  ultimately show ?thesis by linarith
qed

lemma cgaputc_ok:
  assumes "screen_ok s"
  shows "\<exists>s'. cgaputc c s = Inr s' \<and> screen_ok s' \<and> uart_out s' = uart_out s \<and> uart s' = uart s"
proof -
  have fin: "screen_ok (s\<lparr>cursor := of_nat q, crt := m\<rparr>)" if "q < 1920" for q m
    using that assms by (simp add: screen_ok_def unsigned_of_nat take_bit_nat_eq_self)
  have p: "unat (cursor s) < 1920" using assms by (simp add: screen_ok_def)
  define d where "d = (if c = 10 then (unat (cursor s) + (80 - unat (cursor s) mod 80), crt s)
             else if c = BACKSPACE then
               (if unat (cursor s) > 0 then (unat (cursor s) - 1, crt s) else (unat (cursor s), crt s))
             else (unat (cursor s) + 1, (crt s)(unat (cursor s) := (word_of_int c AND 0xff) OR 0x0700)))"
  obtain q m where qm: "d = (q, m)" by (cases d)
  have q: "q \<le> 1920" using qm p next_line [OF p] by (auto simp: d_def split: if_splits)
  then have "q div 80 \<ge> 24 \<longleftrightarrow> q = 1920" by auto
  then show ?thesis
    using q fin fin [of 1840, simplified] by (auto simp: cgaputc_def Let_def d_def [symmetric] qm simp del: fun_upd_apply)
qed

lemma uartputc_ok [simp]: "screen_ok (uartputc c s) = screen_ok s" "panicked (uartputc c s) = panicked s"
  by (simp_all add: screen_ok_def uartputc_def)

lemma consputc_ok: "screen_ok s \<Longrightarrow> \<exists>s'. consputc c s = Inr s' \<and> screen_ok s'"
  using cgaputc_ok [of "uartputc c s" c] cgaputc_ok [of "uartputc 8 (uartputc 32 (uartputc 8 s))" c]
  by (auto simp: consputc_def) (simp_all add: screen_ok_def)

lemma consputs_ok: "screen_ok s \<Longrightarrow> \<exists>s'. consputs cs s = Inr s' \<and> screen_ok s'"
proof (induction cs arbitrary: s)
  case (Cons c cs)
  from consputc_ok [OF Cons.prems, of "uint c"] obtain s1 where "consputc (uint c) s = Inr s1" "screen_ok s1"
    by blast
  then show ?case using Cons.IH [of s1] by simp
qed simp

section \<open>The line discipline\<close>

text \<open>
  The ring of 128 bytes holds the committed input, between the read and the write index, and
  the line being edited, between the write and the edit index. The indices only grow, and wrap
  around at \<^verbatim>\<open>2^32\<close>.
\<close>

definition slice :: "(nat \<Rightarrow> u8) \<Rightarrow> u32 \<Rightarrow> nat \<Rightarrow> u8 list" where
  "slice b a n = map (\<lambda>k. b (cell (a + of_nat k))) [0..<n]"

definition ncommit :: "input \<Rightarrow> nat" where
  "ncommit i = unat (iw i - ir i)"

definition nedit :: "input \<Rightarrow> nat" where
  "nedit i = unat (ie i - iw i)"

definition committed :: "input \<Rightarrow> u8 list" where
  "committed i = slice (ibuf i) (ir i) (ncommit i)"

definition editing :: "input \<Rightarrow> u8 list" where
  "editing i = slice (ibuf i) (iw i) (nedit i)"

definition input_ok :: "input \<Rightarrow> bool" where
  "input_ok i \<longleftrightarrow> ncommit i + nedit i \<le> 128 \<and> 10 \<notin> set (editing i)"

lemma cell_offset: "cell (a + of_nat k) = (unat a + k) mod 128"
proof -
  have "cell (a + of_nat k) = unat (a + of_nat k) mod 128" by (simp add: cell_def INPUT_BUF_def unat_mod)
  also have "unat (a + of_nat k) = (unat a + k) mod 4294967296"
    by (simp add: unat_word_ariths unsigned_of_nat take_bit_eq_mod mod_simps)
  also have "\<dots> mod 128 = (unat a + k) mod 128" by (rule mod_mod_cancel) simp
  finally show ?thesis .
qed

lemma slice_add: "slice b a (n + m) = slice b a n @ slice b (a + of_nat n) m"
proof -
  have "[0..<n + m] = [0..<n] @ map (\<lambda>k. k + n) [0..<m]"
    using upt_add_eq_append [of 0 n m] map_add_upt [of n m] by (simp only: add.commute [of m n] le0)
  then show ?thesis by (simp add: slice_def comp_def algebra_simps)
qed

lemma slice_put: "n \<le> m \<Longrightarrow> m < 128 \<Longrightarrow> slice (b(cell (a + of_nat m) := x)) a n = slice b a n"
proof -
  assume m: "n \<le> m" "m < 128"
  have "(unat a + k) mod 128 \<noteq> (unat a + m) mod 128" if "k < n" for k
  proof
    assume e: "(unat a + k) mod 128 = (unat a + m) mod 128"
    have "unat a + k \<le> unat a + m" using that m by simp
    from mod_eq_dvd_iff_nat [THEN iffD1, OF this e [symmetric]]
    have "128 dvd m - k" by simp
    moreover have "0 < m - k" using that m by simp
    ultimately have "128 \<le> m - k" by (rule dvd_imp_le)
    then show False using m by simp
  qed
  then show ?thesis unfolding slice_def by (intro map_cong refl) (simp only: cell_offset fun_upd_apply set_upt atLeastLessThan_iff if_False)
qed

lemma slice_simps [simp]:
  "slice b a 0 = []" "length (slice b a n) = n" "slice b a (Suc 0) = [b (cell a)]"
  by (simp_all add: slice_def)

lemma index_sum': "ncommit i + nedit i \<le> 128 \<Longrightarrow> unat (ie i - ir i) = ncommit i + nedit i"
proof -
  assume "ncommit i + nedit i \<le> 128"
  then have l: "unat (iw i - ir i) + unat (ie i - iw i) \<le> 128"
    by (simp add: ncommit_def nedit_def)
  have "unat ((iw i - ir i) + (ie i - iw i)) = (unat (iw i - ir i) + unat (ie i - iw i)) mod 2 ^ 32"
    using unat_word_ariths(1) [of "iw i - ir i" "ie i - iw i"] by simp
  also have "\<dots> = unat (iw i - ir i) + unat (ie i - iw i)" using l by (intro mod_less) simp
  also have "(iw i - ir i) + (ie i - iw i) = ie i - ir i" by simp
  finally show ?thesis by (simp add: ncommit_def nedit_def)
qed

lemma index_sum: "input_ok i \<Longrightarrow> unat (ie i - ir i) = ncommit i + nedit i"
  by (simp add: input_ok_def index_sum')

text \<open>Storing a character, committing the line, and taking a character back.\<close>

lemma put_char:
  fixes x :: u8
  assumes ok: "input_ok i" and l: "ncommit i + nedit i < 128"
  defines "j \<equiv> i\<lparr>ibuf := (ibuf i)(cell (ie i) := x), ie := ie i + 1\<rparr>"
  shows "committed j = committed i" "editing j = editing i @ [x]" "ncommit j = ncommit i" "nedit j = nedit i + 1"
proof -
  have "unat (ie i + 1 - iw i) = unat (ie i - iw i + 1)" by (rule arg_cong [where f = unat]) simp
  moreover have "unat (ie i - iw i + 1) = unat (ie i - iw i) + 1"
    using l by (simp add: nedit_def unat_word_ariths)
  ultimately show n: "nedit j = nedit i + 1" "ncommit j = ncommit i" by (simp_all add: nedit_def ncommit_def j_def)
  have e: "ie i = ir i + of_nat (ncommit i + nedit i)" "ie i = iw i + of_nat (nedit i)"
    by (simp_all add: index_sum [OF ok, symmetric]) (simp add: nedit_def)
  have "slice ((ibuf i)(cell (ie i) := x)) (ir i) (ncommit i) = slice (ibuf i) (ir i) (ncommit i)"
    by (subst e(1), rule slice_put) (use l in auto)
  then show "committed j = committed i" unfolding committed_def n(2) by (simp add: j_def)
  have "slice ((ibuf i)(cell (ie i) := x)) (iw i) (nedit i) = slice (ibuf i) (iw i) (nedit i)"
    by (subst e(2), rule slice_put) (use l in auto)
  moreover have "slice (ibuf j) (iw i) (nedit i + 1) = slice (ibuf j) (iw i) (nedit i) @ [ibuf j (cell (ie i))]"
    using slice_add [of "ibuf j" "iw i" "nedit i" 1] by (simp add: e(2) [symmetric] One_nat_def)
  ultimately show "editing j = editing i @ [x]" unfolding editing_def n(1) by (simp add: j_def)
qed

lemma commit_line:
  assumes "ncommit i + nedit i \<le> 128"
  shows "committed (i\<lparr>iw := ie i\<rparr>) = committed i @ editing i" "editing (i\<lparr>iw := ie i\<rparr>) = []"
    "ncommit (i\<lparr>iw := ie i\<rparr>) = ncommit i + nedit i" "nedit (i\<lparr>iw := ie i\<rparr>) = 0"
proof -
  have "iw i = ir i + of_nat (ncommit i)" by (simp add: ncommit_def)
  then show "committed (i\<lparr>iw := ie i\<rparr>) = committed i @ editing i"
    using index_sum' [OF assms] by (simp add: committed_def editing_def ncommit_def nedit_def slice_add)
qed (use index_sum' [OF assms] in \<open>simp_all add: editing_def nedit_def ncommit_def\<close>)

lemma take_back:
  assumes "ie i \<noteq> iw i"
  defines "j \<equiv> i\<lparr>ie := ie i - 1\<rparr>"
  shows "committed j = committed i" "editing i = editing j @ [ibuf i (cell (ie i - 1))]"
    "ncommit j = ncommit i" "nedit i = nedit j + 1"
proof -
  have n: "ie i - iw i \<noteq> 0" using assms(1) by simp
  have "unat (ie i - 1 - iw i) = unat (ie i - iw i - 1)" by (rule arg_cong [where f = unat]) simp
  moreover have "0 < unat (ie i - iw i)" using n by (simp add: unat_gt_0)
  ultimately show d: "nedit i = nedit j + 1"
    using unat_dec [OF n] by (simp add: nedit_def j_def)
  show "committed j = committed i" "ncommit j = ncommit i" by (simp_all add: committed_def ncommit_def j_def)
  have "iw i + of_nat (nedit j) = ie i - 1" by (simp add: nedit_def j_def)
  then show "editing i = editing j @ [ibuf i (cell (ie i - 1))]"
    using slice_add [of "ibuf i" "iw i" "nedit j" 1] unfolding editing_def d by (simp add: j_def One_nat_def)
qed

text \<open>What the user sees: the committed bytes and the line being edited.\<close>

definition spec_key :: "int \<Rightarrow> u8 list \<times> u8 list \<Rightarrow> u8 list \<times> u8 list" where
  "spec_key c q =
     (case q of (cm, ed) \<Rightarrow>
      if c = 0x10 then (cm, ed)
      else if c = 0x15 then (cm, [])
      else if c = 0x08 \<or> c = 0x7f then (cm, butlast ed)
      else if c \<noteq> 0 \<and> length cm + length ed < 128 then
        let c = (if c = 13 then 10 else c); ed = ed @ [word_of_int c]
        in if c = 10 \<or> c = 4 \<or> length cm + length ed = 128 then (cm @ ed, []) else (cm, ed)
      else (cm, ed))"

fun spec_read :: "bool \<Rightarrow> nat \<Rightarrow> u8 list \<Rightarrow> u8 list \<times> u8 list" where
  "spec_read first 0 q = ([], q)"
| "spec_read first (Suc n) [] = ([], [])"
| "spec_read first (Suc n) (c # q) =
     (if c = 4 then ([], if first then q else c # q)
      else if c = 10 then ([c], q)
      else (case spec_read False n q of (bs, q') \<Rightarrow> (c # bs, q')))"

abbreviation abs_input :: "input \<Rightarrow> u8 list \<times> u8 list" where
  "abs_input i \<equiv> (committed i, editing i)"

lemma kill_line_step:
  assumes "ie i \<noteq> iw i" "ibuf i (cell (ie i - 1)) \<noteq> 10" "consputc BACKSPACE s = Inr s1"
  shows "kill_line i s = kill_line (i\<lparr>ie := ie i - 1\<rparr>) s1"
proof -
  have "kill_line i s = (case consputc BACKSPACE s of
           Inl e \<Rightarrow> Inl e
         | Inr s' \<Rightarrow> kill_line (i\<lparr>ie := ie i - 1\<rparr>) s')"
    using assms(1,2) kill_line.simps [of i s] by presburger
  also have "\<dots> = kill_line (i\<lparr>ie := ie i - 1\<rparr>) s1" unfolding assms(3) by (rule sum.case(2))
  finally show ?thesis .
qed

lemma kill_line_ok:
  "input_ok i \<Longrightarrow> screen_ok s \<Longrightarrow>
   \<exists>i' s'. kill_line i s = Inr (i', s') \<and> screen_ok s' \<and> input_ok i' \<and> abs_input i' = (committed i, [])"
proof (induction i s rule: kill_line.induct)
  case (1 i s)
  show ?case
  proof (cases "ie i = iw i")
    case True
    then have "kill_line i s = Inr (i, s)" by (subst kill_line.simps) simp
    moreover have "editing i = []" using True by (simp add: editing_def nedit_def)
    ultimately show ?thesis using 1(2,3) by blast
  next
    case False
    note t = take_back [OF False]
    have c: "ibuf i (cell (ie i - 1)) \<noteq> 10" using 1(2) t(2) by (auto simp: input_ok_def)
    obtain s1 where s1: "consputc BACKSPACE s = Inr s1" "screen_ok s1" using consputc_ok [OF 1(3)] by blast
    have "input_ok (i\<lparr>ie := ie i - 1\<rparr>)" using 1(2) t by (simp add: input_ok_def)
    then obtain i' s' where r: "kill_line (i\<lparr>ie := ie i - 1\<rparr>) s1 = Inr (i', s')" "screen_ok s'" "input_ok i'"
        "abs_input i' = (committed i, [])"
      using 1(1) [OF conjI [OF False c] s1(1) _ s1(2)] unfolding t(1) by blast
    note kill_line_step [OF False c s1(1)]
    then show ?thesis using r by (simp only:) blast
  qed
qed

lemma byte_eq: "0 \<le> c \<Longrightarrow> c < 256 \<Longrightarrow> (word_of_int c :: u8) = 10 \<longleftrightarrow> c = 10"
proof
  assume c: "0 \<le> c" "c < 256" "(word_of_int c :: u8) = 10"
  then have "uint (word_of_int c :: u8) = 10" by simp
  with c(1,2) show "c = 10" by (simp add: uint_word_of_int)
qed simp

lemma full_iff: "input_ok i \<Longrightarrow> ie i - ir i < INPUT_BUF \<longleftrightarrow> ncommit i + nedit i < 128"
  by (simp add: word_less_nat_alt INPUT_BUF_def index_sum)

lemma full_eq: "ncommit i + nedit i \<le> 128 \<Longrightarrow> ie i = ir i + INPUT_BUF \<longleftrightarrow> ncommit i + nedit i = 128"
proof -
  assume ok: "ncommit i + nedit i \<le> 128"
  have "ie i = ir i + INPUT_BUF \<longleftrightarrow> ie i - ir i = 128" by (auto simp: INPUT_BUF_def algebra_simps)
  also have "\<dots> \<longleftrightarrow> unat (ie i - ir i) = unat (128 :: u32)" by (rule word_unat_eq_iff)
  finally show ?thesis using index_sum' [OF ok] by simp
qed

lemma lengths [simp]: "length (committed i) = ncommit i" "length (editing i) = nedit i"
  by (simp_all add: committed_def editing_def)

lemma key_put:
  assumes ok: "input_ok i" "screen_ok s" and c: "0 \<le> c" "c < 256" "c \<notin> {0, 0x08, 0x10, 0x15, 0x7f}"
    and l: "ncommit i + nedit i < 128"
  shows "\<exists>i' s' ev. consoleintr_key c i s = Inr (i', s', ev) \<and> input_ok i' \<and> screen_ok s' \<and>
    abs_input i' = spec_key c (abs_input i)"
proof -
  define d where "d = (if c = 13 then 10 else c)"
  define j where "j = i\<lparr>ibuf := (ibuf i)(cell (ie i) := word_of_int d), ie := ie i + 1\<rparr>"
  note p = put_char [OF ok(1) l, of "word_of_int d", folded j_def]
  obtain s' where s': "consputc d s = Inr s'" "screen_ok s'" using consputc_ok [OF ok(2)] by blast
  have d: "0 \<le> d" "d < 256" using c by (auto simp: d_def)
  let ?commit = "d = 10 \<or> d = 4 \<or> ncommit i + (nedit i + 1) = 128"
  have pre: "ncommit j + nedit j \<le> 128" using l p by simp
  have w: "ie j = ir j + INPUT_BUF \<longleftrightarrow> ncommit i + (nedit i + 1) = 128"
    using full_eq [OF pre] p by simp
  have k: "consoleintr_key c i s =
      (if ?commit then Inr (j\<lparr>iw := ie j\<rparr>, s', Wakeup) else Inr (j, s', Nothing))"
    using c(3) full_iff [OF ok(1)] l w s'(1)
    unfolding consoleintr_key_def Let_def d_def [symmetric] j_def [symmetric] by simp
  have a: "spec_key c (abs_input i) =
      (if ?commit then (committed i @ editing i @ [word_of_int d], []) else (committed i, editing i @ [word_of_int d]))"
    using c(3) l by (simp add: spec_key_def Let_def d_def [symmetric])
  show ?thesis
  proof (cases ?commit)
    case True
    then show ?thesis using commit_line [OF pre] k a p pre s'(2) by (simp add: input_ok_def)
  next
    case False
    then have "(word_of_int d :: u8) \<noteq> 10" using byte_eq [OF d] by simp
    then have "input_ok j" using ok(1) pre p(2) by (simp add: input_ok_def)
    then show ?thesis using False k a p s'(2) by simp
  qed
qed

lemma key_refines:
  assumes ok: "input_ok i" "screen_ok s" and c: "0 \<le> c" "c < 256"
  shows "\<exists>i' s' ev. consoleintr_key c i s = Inr (i', s', ev) \<and> input_ok i' \<and> screen_ok s' \<and>
    abs_input i' = spec_key c (abs_input i)"
proof -
  consider "c = 0x15" | "c = 0x08 \<or> c = 0x7f" "ie i \<noteq> iw i" | "c = 0x08 \<or> c = 0x7f" "ie i = iw i"
    | "c = 0x10 \<or> c = 0" | "c \<notin> {0, 0x08, 0x10, 0x15, 0x7f}" "\<not> ncommit i + nedit i < 128"
    | "c \<notin> {0, 0x08, 0x10, 0x15, 0x7f}" "ncommit i + nedit i < 128" by blast
  then show ?thesis
  proof cases
    case 1
    then show ?thesis using kill_line_ok [OF ok] by (auto simp: consoleintr_key_def spec_key_def)
  next
    case 2
    note t = take_back [OF 2(2)]
    obtain s' where s': "consputc BACKSPACE s = Inr s'" "screen_ok s'" using consputc_ok [OF ok(2)] by blast
    have "input_ok (i\<lparr>ie := ie i - 1\<rparr>)" using ok(1) t by (simp add: input_ok_def)
    then show ?thesis using 2 s' t(1,2) by (auto simp: consoleintr_key_def spec_key_def)
  next
    case 3
    then have "editing i = []" by (simp add: editing_def nedit_def)
    then show ?thesis using 3 ok by (auto simp: consoleintr_key_def spec_key_def)
  next
    case 4
    then show ?thesis using ok by (auto simp: consoleintr_key_def spec_key_def)
  next
    case 5
    then show ?thesis using ok full_iff [OF ok(1)] by (auto simp: consoleintr_key_def spec_key_def)
  next
    case 6
    then show ?thesis using key_put [OF ok c] by blast
  qed
qed

lemma intr_refines:
  "input_ok i \<Longrightarrow> screen_ok s \<Longrightarrow> list_all (\<lambda>c. 0 \<le> c \<and> c < 256) cs \<Longrightarrow>
   \<exists>i' s' dump. consoleintr cs i s = Inr (i', s', dump) \<and> input_ok i' \<and> screen_ok s' \<and>
     abs_input i' = fold spec_key cs (abs_input i)"
proof (induction cs arbitrary: i s)
  case (Cons c cs)
  from key_refines [OF Cons.prems(1,2)] Cons.prems(3) obtain i1 s1 ev where
    k: "consoleintr_key c i s = Inr (i1, s1, ev)" "input_ok i1" "screen_ok s1" "abs_input i1 = spec_key c (abs_input i)"
    by fastforce
  from Cons.IH [OF k(2,3)] Cons.prems(3) obtain i' s' dump where
    r: "consoleintr cs i1 s1 = Inr (i', s', dump)" "input_ok i'" "screen_ok s'"
      "abs_input i' = fold spec_key cs (abs_input i1)" by auto
  then show ?case using k by simp
next
  case Nil
  then show ?case by (intro exI [of _ i] exI [of _ s] exI [of _ False]) simp
qed

lemma read_refines:
  "input_ok i \<Longrightarrow> consoleread killed first n i = (e, bs, i') \<Longrightarrow>
   input_ok i' \<and> spec_read first n (committed i) = (bs, committed i') \<and> editing i' = editing i"
proof (induction killed first n i arbitrary: e bs i' rule: consoleread.induct)
  case (2 killed first n i)
  show ?case
  proof (cases "ir i = iw i")
    case True
    then have "committed i = []" by (simp add: committed_def ncommit_def)
    then show ?thesis using 2(2,3) True by auto
  next
    case False
    define j where "j = i\<lparr>ir := ir i + 1\<rparr>"
    define c where "c = ibuf i (cell (ir i))"
    have n: "iw i - ir i \<noteq> 0" using False by simp
    have "unat (iw i - (ir i + 1)) = unat (iw i - ir i - 1)" by (rule arg_cong [where f = unat]) simp
    moreover have "0 < unat (iw i - ir i)" using n by (simp add: unat_gt_0)
    ultimately have d: "ncommit i = 1 + ncommit j" using unat_dec [OF n] by (simp add: ncommit_def j_def)
    have cm: "committed i = c # committed j"
      using slice_add [of "ibuf i" "ir i" 1 "ncommit j"] unfolding committed_def d
      by (simp add: j_def c_def One_nat_def)
    have ed: "editing j = editing i" "nedit j = nedit i" by (simp_all add: editing_def nedit_def j_def)
    have ok: "input_ok j" using 2(2) d ed by (simp add: input_ok_def)
    have bk: "j\<lparr>ir := ir j - 1\<rparr> = i" by (simp add: j_def)
    show ?thesis
    proof (cases "c = 4 \<or> c = 10")
      case True
      then show ?thesis using 2(2,3) False cm ed ok bk
        by (auto simp: Let_def c_def [symmetric] j_def [symmetric] split: if_splits)
    next
      case nl: False
      obtain e1 bs1 i1 where r: "consoleread killed False n j = (e1, bs1, i1)" by (cases "consoleread killed False n j")
      have "bs = c # bs1" "i' = i1"
        using 2(3) False nl r by (auto simp: Let_def c_def [symmetric] j_def [symmetric])
      moreover have "input_ok i1 \<and> spec_read False n (committed j) = (bs1, committed i1) \<and> editing i1 = editing j"
        using 2(1) [OF False c_def j_def _ _ ok r] nl by simp
      ultimately show ?thesis using nl cm ed by simp
    qed
  qed
qed simp

section \<open>Correctness\<close>

text \<open>C35. The line discipline. From a state in which the ring is within its bounds, the interrupt
  handler takes any characters without panicking and does to the committed input and the edited
  line what the specification says (erase, kill, commit at a newline, at \<^verbatim>\<open>^D\<close> or when 128 bytes are
  pending), and \<^verbatim>\<open>consoleread\<close> delivers committed bytes in order, up to the requested number, at most
  one line, ending before \<^verbatim>\<open>^D\<close>; both keep the ring within its bounds, also when the indices
  wrap around.\<close>

theorem console_line_discipline:
  assumes "input_ok i" "screen_ok s" "list_all (\<lambda>c. 0 \<le> c \<and> c < 256) cs"
  shows "(\<exists>i' s' dump. consoleintr cs i s = Inr (i', s', dump) \<and> input_ok i' \<and> screen_ok s' \<and>
        (committed i', editing i') = fold spec_key cs (committed i, editing i)) \<and>
    (case consoleread killed first n i of (e, bs, i') \<Rightarrow>
      input_ok i' \<and> spec_read first n (committed i) = (bs, committed i') \<and> editing i' = editing i)"
proof
  show "case consoleread killed first n i of (e, bs, i') \<Rightarrow>
      input_ok i' \<and> spec_read first n (committed i) = (bs, committed i') \<and> editing i' = editing i"
    by (cases "consoleread killed first n i") (use read_refines [OF assms(1)] in auto)
qed (rule intr_refines [OF assms])

definition ex_input :: input where
  "ex_input = \<lparr>ibuf = \<lambda>_. 0, ir = 0xFFFFFFFF, iw = 0xFFFFFFFF, ie = 0xFFFFFFFF\<rparr>"

definition ex_screen :: screen where
  "ex_screen = \<lparr>crt = \<lambda>_. 0, cursor = 1919, uart = True, uart_out = [], panicked = False\<rparr>"

lemma ex_console_ok: "input_ok ex_input" "screen_ok ex_screen" "committed ex_input = []" "editing ex_input = []"
  by (simp_all add: input_ok_def screen_ok_def ex_input_def ex_screen_def ncommit_def nedit_def
    committed_def editing_def)

theorem console_line_discipline_witness:
  "\<exists>i' s' dump. consoleintr [108, 120, 8, 115, 13] ex_input ex_screen = Inr (i', s', dump) \<and>
     (committed i', editing i') = ([108, 115, 10], [])"
proof -
  have "fold spec_key [108, 120, 8, 115, 13] ([], []) = ([108, 115, 10], [])"
    by (simp add: spec_key_def)
  moreover have "list_all (\<lambda>c. 0 \<le> c \<and> c < 256) [108, 120, 8, 115, 13 :: int]" by simp
  ultimately show ?thesis
    using console_line_discipline [OF ex_console_ok(1,2), where cs = "[108, 120, 8, 115, 13]" and first = True and n = 0 and killed = False]
    unfolding ex_console_ok(3,4) by (simp del: consoleintr.simps consoleread.simps fold_simps) blast
qed

end
