(* ===== verification/Umalloc.thy ===== *)
theory Umalloc
  imports Prelude
begin

text \<open>
  The user-level allocator (\<^verbatim>\<open>umalloc.c\<close>): a circular list of free blocks, each with an 8-byte
  header holding the next block and the size in header units. The headers are two maps on
  addresses; \<^verbatim>\<open>&base\<close> is an argument, as is the address \<^verbatim>\<open>sbrk\<close> returns. The searches
  follow the list and may not end on a damaged one: not returning is the value \<open>None\<close>.
\<close>

record uheap =
  hptr :: "u32 \<Rightarrow> u32"
  hsize :: "u32 \<Rightarrow> u32"
  freep :: u32

section \<open>free\<close>

partial_function (option) free_slot :: "uheap \<Rightarrow> u32 \<Rightarrow> u32 \<Rightarrow> u32 option" where
  "free_slot h bp p =
     (if p < bp \<and> bp < hptr h p then Some p
      else if hptr h p \<le> p \<and> (p < bp \<or> bp < hptr h p) then Some p
      else free_slot h bp (hptr h p))"

text \<open>Linking the block \<open>bp\<close> in after \<open>p\<close>, merging it with its neighbours.\<close>

definition link_block :: "u32 \<Rightarrow> u32 \<Rightarrow> uheap \<Rightarrow> uheap" where
  "link_block bp p h =
     (let nx = hptr h p;
          h = (if bp + 8 * hsize h bp = nx then
                 h\<lparr>hsize := (hsize h)(bp := hsize h bp + hsize h nx), hptr := (hptr h)(bp := hptr h nx)\<rparr>
               else h\<lparr>hptr := (hptr h)(bp := nx)\<rparr>);
          h = (if p + 8 * hsize h p = bp then
                 h\<lparr>hsize := (hsize h)(p := hsize h p + hsize h bp), hptr := (hptr h)(p := hptr h bp)\<rparr>
               else h\<lparr>hptr := (hptr h)(p := bp)\<rparr>)
      in h\<lparr>freep := p\<rparr>)"

definition free :: "u32 \<Rightarrow> uheap \<Rightarrow> uheap option" where
  "free ap h =
     (let bp = ap - 8 in
      case free_slot h bp (freep h) of None \<Rightarrow> None | Some p \<Rightarrow> Some (link_block bp p h))"

section \<open>malloc\<close>

text \<open>\<^verbatim>\<open>morecore\<close>: the new value of \<^verbatim>\<open>freep\<close>, 0 when \<^verbatim>\<open>sbrk\<close> fails.\<close>

definition morecore :: "(u32 \<Rightarrow> u32) \<Rightarrow> u32 \<Rightarrow> uheap \<Rightarrow> (u32 \<times> uheap) option" where
  "morecore sbrk nu h =
     (let nu = (if nu < 4096 then 4096 else nu);
          p = sbrk (nu * 8)
      in if p = 0xFFFFFFFF then Some (0, h)
         else
           (case free (p + 8) (h\<lparr>hsize := (hsize h)(p := nu)\<rparr>) of
              None \<Rightarrow> None
            | Some h \<Rightarrow> Some (freep h, h)))"

definition nunits :: "u32 \<Rightarrow> u32" where
  "nunits nbytes = (nbytes + 8 - 1) div 8 + 1"

text \<open>Taking \<open>n\<close> units from the block \<open>p\<close>: all of it, or its tail.\<close>

definition take_block :: "u32 \<Rightarrow> u32 \<Rightarrow> u32 \<Rightarrow> uheap \<Rightarrow> u32 \<times> uheap" where
  "take_block n prevp p h =
     (let (p, h) =
        (if hsize h p = n then (p, h\<lparr>hptr := (hptr h)(prevp := hptr h p)\<rparr>)
         else
           let h = h\<lparr>hsize := (hsize h)(p := hsize h p - n)\<rparr>;
               p = p + 8 * hsize h p
           in (p, h\<lparr>hsize := (hsize h)(p := n)\<rparr>))
      in (p + 8, h\<lparr>freep := prevp\<rparr>))"

text \<open>\<open>sbrks\<close>: what the successive calls of \<^verbatim>\<open>sbrk\<close> return.\<close>

partial_function (option) malloc_loop ::
  "(nat \<Rightarrow> u32 \<Rightarrow> u32) \<Rightarrow> nat \<Rightarrow> u32 \<Rightarrow> u32 \<Rightarrow> u32 \<Rightarrow> uheap \<Rightarrow> (u32 \<times> uheap) option" where
  "malloc_loop sbrks k n prevp p h =
     (if n \<le> hsize h p then Some (take_block n prevp p h)
      else if p = freep h then
        (case morecore (sbrks k) n h of
           None \<Rightarrow> None
         | Some (q, h) \<Rightarrow>
             if q = 0 then Some (0, h) else malloc_loop sbrks (k + 1) n q (hptr h q) h)
      else malloc_loop sbrks k n p (hptr h p) h)"

definition malloc :: "u32 \<Rightarrow> (nat \<Rightarrow> u32 \<Rightarrow> u32) \<Rightarrow> u32 \<Rightarrow> uheap \<Rightarrow> (u32 \<times> uheap) option" where
  "malloc base sbrks nbytes h =
     (let h = (if freep h = 0
               then h\<lparr>hptr := (hptr h)(base := base), freep := base, hsize := (hsize h)(base := 0)\<rparr> else h)
      in malloc_loop sbrks 0 (nunits nbytes) (freep h) (hptr h (freep h)) h)"

section \<open>The size of a request\<close>

text \<open>The units \<^verbatim>\<open>malloc\<close> looks for hold the header and the requested bytes, with less than a
  unit to spare, up to a request of \<^verbatim>\<open>2^32 - 8\<close> bytes; beyond, the rounding wraps around and the
  request is served as one of 0 bytes.\<close>

theorem malloc_request:
  "if unat nbytes \<le> 2 ^ 32 - 8
   then unat nbytes + 8 \<le> 8 * unat (nunits nbytes) \<and> 8 * unat (nunits nbytes) < unat nbytes + 16
   else malloc base sbrks nbytes h = malloc base sbrks 0 h"
proof (cases "unat nbytes \<le> 2 ^ 32 - 8")
  case True
  have "unat (nbytes + 8 - 1) = unat nbytes + 7"
  proof -
    have "nbytes + 8 - 1 = nbytes + 7" by simp
    moreover have "unat (nbytes + 7) = unat nbytes + 7" using True by (simp add: unat_word_ariths)
    ultimately show ?thesis by (simp only:)
  qed
  then have "unat ((nbytes + 8 - 1) div 8) = (unat nbytes + 7) div 8" by (simp add: unat_div)
  moreover have "(unat nbytes + 7) div 8 < 2 ^ 30" using True by simp
  ultimately have "unat (nunits nbytes) = (unat nbytes + 7) div 8 + 1"
    unfolding nunits_def by (simp add: unat_word_ariths)
  moreover have "unat nbytes + 7 = 8 * ((unat nbytes + 7) div 8) + (unat nbytes + 7) mod 8"
    "(unat nbytes + 7) mod 8 < 8" by simp_all
  ultimately have "unat nbytes + 8 \<le> 8 * unat (nunits nbytes)" "8 * unat (nunits nbytes) < unat nbytes + 16"
    by linarith+
  then show ?thesis using True by simp
next
  case False
  have "unat nbytes < 2 ^ 32" using unsigned_less [of nbytes] by simp
  moreover have "unat (nbytes + 7) = (unat nbytes + 7) mod 2 ^ 32" by (simp add: unat_word_ariths)
  moreover have "2 ^ 32 - 8 < unat nbytes" using False by simp
  ultimately have "unat (nbytes + 7) = unat nbytes + 7 - 2 ^ 32" by (simp add: le_mod_geq)
  then have "unat (nbytes + 7) < 8" using \<open>unat nbytes < 2 ^ 32\<close> by linarith
  then have "unat ((nbytes + 7) div 8) = 0" by (simp add: unat_div)
  moreover have "nbytes + 8 - 1 = nbytes + 7" by simp
  ultimately have "(nbytes + 8 - 1) div 8 = 0" by (simp only: unat_eq_0)
  moreover have "(0 + 8 - 1 :: u32) div 8 = 0" by simp
  ultimately have "nunits nbytes = nunits 0" unfolding nunits_def by (simp only:)
  then show ?thesis using False by (simp add: malloc_def)
qed

end
