(* ===== verification/Userprog.thy ===== *)
theory Userprog
  imports Prelude
begin

text \<open>
  Small user programs: the counting loop of \<^verbatim>\<open>wc\<close> (\<^verbatim>\<open>wc.c\<close>) and \<^verbatim>\<open>fmtname\<close> of \<^verbatim>\<open>ls\<close> (\<^verbatim>\<open>ls.c\<close>).
\<close>

section \<open>wc\<close>

definition wc_white :: "u8 \<Rightarrow> bool" where
  "wc_white b \<longleftrightarrow> b \<in> {32, 13, 9, 10, 11}"

text \<open>The body of the inner loop on the counters \<^verbatim>\<open>l\<close>, \<^verbatim>\<open>w\<close>, \<^verbatim>\<open>c\<close> and \<^verbatim>\<open>inword\<close>.\<close>

definition wc_byte :: "u8 \<Rightarrow> u32 \<times> u32 \<times> u32 \<times> bool \<Rightarrow> u32 \<times> u32 \<times> u32 \<times> bool" where
  "wc_byte b st =
     (case st of (l, w, c, inword) \<Rightarrow>
      let c = c + 1; l = (if b = 10 then l + 1 else l)
      in if wc_white b then (l, w, c, False)
         else if \<not> inword then (l, w + 1, c, True)
         else (l, w, c, inword))"

text \<open>
  The reading loop: each element of the list is what one \<^verbatim>\<open>read\<close> returns, \<open>None\<close> being a
  negative value and the end of the list or an empty read the end of the file. The result is
  the three numbers printed, or \<open>None\<close> for the error message.
\<close>

fun wc_loop :: "u8 list option list \<Rightarrow> u32 \<times> u32 \<times> u32 \<times> bool \<Rightarrow> (u32 \<times> u32 \<times> u32) option" where
  "wc_loop [] st = (case st of (l, w, c, _) \<Rightarrow> Some (l, w, c))"
| "wc_loop (None # _) st = None"
| "wc_loop (Some buf # reads) st =
     (if buf = [] then (case st of (l, w, c, _) \<Rightarrow> Some (l, w, c))
      else wc_loop reads (fold wc_byte buf st))"

definition wc :: "u8 list option list \<Rightarrow> (u32 \<times> u32 \<times> u32) option" where
  "wc reads = wc_loop reads (0, 0, 0, False)"

text \<open>The starts of words: a non-blank byte at the start of the input or after a blank.\<close>

definition word_starts :: "u8 \<Rightarrow> u8 list \<Rightarrow> nat" where
  "word_starts prev inp = length (filter (\<lambda>(a, b). wc_white a \<and> \<not> wc_white b) (zip (prev # inp) inp))"

lemma word_starts_Cons:
  "word_starts prev (b # inp) = (if wc_white prev \<and> \<not> wc_white b then 1 else 0) + word_starts b inp"
  by (simp add: word_starts_def)

lemma wc_bytes:
  "fold wc_byte inp (l, w, c, \<not> wc_white prev) =
     (l + of_nat (count_list inp 10), w + of_nat (word_starts prev inp), c + of_nat (length inp),
      \<not> wc_white (last (prev # inp)))"
proof (induction inp arbitrary: l w c prev)
  case Nil
  then show ?case by (simp add: word_starts_def)
next
  case (Cons b inp)
  have "wc_byte b (l, w, c, \<not> wc_white prev) =
      (if b = 10 then l + 1 else l, if wc_white prev \<and> \<not> wc_white b then w + 1 else w, c + 1, \<not> wc_white b)"
    by (simp add: wc_byte_def Let_def)
  then show ?case by (simp add: Cons.IH word_starts_Cons)
qed

lemma wc_loop_concat:
  "list_all (\<lambda>b. b \<noteq> []) bufs \<Longrightarrow>
   wc_loop (map Some bufs) st = (case fold wc_byte (concat bufs) st of (l, w, c, _) \<Rightarrow> Some (l, w, c))"
  by (induction bufs arbitrary: st) auto

text \<open>C38. However the input is cut into reads, \<^verbatim>\<open>wc\<close> prints the number of newlines, of words and
  of bytes of the whole input (in 32 bits): a word cut by a read is counted once.\<close>

theorem wc_counts:
  assumes "list_all (\<lambda>b. b \<noteq> []) bufs"
  shows "wc (map Some bufs) =
    Some (of_nat (count_list (concat bufs) 10), of_nat (word_starts 32 (concat bufs)), of_nat (length (concat bufs)))"
proof -
  have "\<not> wc_white 32 \<longleftrightarrow> False" by (simp add: wc_white_def)
  then show ?thesis
    using wc_loop_concat [OF assms, of "(0, 0, 0, False)"] wc_bytes [of "concat bufs" 0 0 0 32]
    by (simp add: wc_def)
qed

theorem wc_counts_witness: "wc (map Some [[97, 98], [99, 32], [100, 10]]) = Some (1, 2, 6)"
proof -
  have "list_all (\<lambda>b. b \<noteq> []) [[97, 98], [99, 32], [100, 10 :: u8]]" by simp
  from wc_counts [OF this] show ?thesis by (simp add: word_starts_def wc_white_def)
qed

section \<open>fmtname\<close>

text \<open>The index after the last slash, scanning back from \<open>k\<close>.\<close>

primrec after_slash :: "u8 list \<Rightarrow> nat \<Rightarrow> nat" where
  "after_slash path 0 = 0"
| "after_slash path (Suc k) = (if path ! k = 0x2F then Suc k else after_slash path k)"

definition fmtname :: "u8 list \<Rightarrow> u8 list" where
  "fmtname path =
     (let p = drop (after_slash path (length path)) path
      in if length p \<ge> 14 then p else p @ replicate (14 - length p) 32)"

lemma after_slash_spec: "after_slash path k \<le> k \<and> (\<forall>i. after_slash path k \<le> i \<and> i < k \<longrightarrow> path ! i \<noteq> 0x2F)"
  by (induction k) (auto simp: less_Suc_eq)

lemma fmtname_spec: "14 \<le> length (fmtname path) \<and> 0x2F \<notin> set (fmtname path)"
proof -
  have "0x2F \<notin> set (drop (after_slash path (length path)) path)"
    using after_slash_spec [of path "length path"] by (auto simp: in_set_conv_nth)
  then show ?thesis by (auto simp: fmtname_def Let_def)
qed

end
