(* ===== verification/Machine.thy ===== *)
theory Machine
  imports Irq
begin

text \<open>
  Processor discovery (\<^verbatim>\<open>mp.c\<close>) on the bytes of physical memory, and the local interrupt
  controller and clock (\<^verbatim>\<open>lapic.c\<close>) as the sequences of register and port writes. Values read
  from the hardware are arguments.
\<close>

section \<open>The multiprocessor tables\<close>

definition sum :: "bytes \<Rightarrow> nat \<Rightarrow> nat \<Rightarrow> u8" where
  "sum m addr len = word_of_nat (\<Sum>i = 0..<len. unat (m (addr + i)))"

definition has_bytes :: "bytes \<Rightarrow> nat \<Rightarrow> string \<Rightarrow> bool" where
  "has_bytes m a cs \<longleftrightarrow> map (\<lambda>i. m (a + i)) [0..<length cs] = str cs"

text \<open>The search visits the 16-byte slots of the area.\<close>

definition mpsearch1 :: "bytes \<Rightarrow> nat \<Rightarrow> nat \<Rightarrow> nat option" where
  "mpsearch1 m a len =
     find (\<lambda>p. has_bytes m p ''_MP_'' \<and> sum m p 16 = 0) (map (\<lambda>k. a + 16 * k) [0..<(len + 15) div 16])"

definition mpsearch :: "bytes \<Rightarrow> nat option" where
  "mpsearch m =
     (let bda = 0x400;
          p = (unat (m (bda + 0x0F)) * 2 ^ 8 + unat (m (bda + 0x0E))) * 2 ^ 4
      in if p \<noteq> 0 then
           (case mpsearch1 m p 1024 of Some mp \<Rightarrow> Some mp | None \<Rightarrow> mpsearch1 m 0xF0000 0x10000)
         else
           let p = (unat (m (bda + 0x14)) * 2 ^ 8 + unat (m (bda + 0x13))) * 1024
           in case mpsearch1 m ((p + 2 ^ 32 - 1024) mod 2 ^ 32) 1024 of Some mp \<Rightarrow> Some mp | None \<Rightarrow> mpsearch1 m 0xF0000 0x10000)"

text \<open>The fields of \<^verbatim>\<open>struct mp\<close> and \<^verbatim>\<open>struct mpconf\<close>.\<close>

definition mp_physaddr :: "bytes \<Rightarrow> nat \<Rightarrow> nat" where
  "mp_physaddr m mp = unat (get32 m (mp + 4))"

definition mp_imcrp :: "bytes \<Rightarrow> nat \<Rightarrow> u8" where
  "mp_imcrp m mp = m (mp + 12)"

definition conf_length :: "bytes \<Rightarrow> nat \<Rightarrow> nat" where
  "conf_length m conf = unat (get16 m (conf + 4))"

definition conf_version :: "bytes \<Rightarrow> nat \<Rightarrow> u8" where
  "conf_version m conf = m (conf + 6)"

definition conf_lapicaddr :: "bytes \<Rightarrow> nat \<Rightarrow> u32" where
  "conf_lapicaddr m conf = get32 m (conf + 36)"

definition mpconfig :: "bytes \<Rightarrow> (nat \<times> nat) option" where
  "mpconfig m =
     (case mpsearch m of
        None \<Rightarrow> None
      | Some mp \<Rightarrow>
          let conf = mp_physaddr m mp in
          if conf = 0 then None
          else if \<not> has_bytes m conf ''PCMP'' then None
          else if conf_version m conf \<noteq> 1 \<and> conf_version m conf \<noteq> 4 then None
          else if sum m conf (conf_length m conf) \<noteq> 0 then None
          else Some (mp, conf))"

definition NCPU :: nat where
  "NCPU = 8"

record machine =
  apicids :: "u8 list"
  mioapicid :: u8
  ismp :: bool

text \<open>
  The loop over the table entries from \<open>p\<close> to \<open>e\<close>. In the default case the \<^verbatim>\<open>break\<close> leaves the
  \<^verbatim>\<open>switch\<close> only, and the loop goes on with the same entry.
\<close>

partial_function (option) mp_entries :: "bytes \<Rightarrow> nat \<Rightarrow> nat \<Rightarrow> machine \<Rightarrow> machine option" where
  "mp_entries m e p s =
     (if p < e then
        if m p = 0 then
          mp_entries m e (p + 20)
            (if length (apicids s) < NCPU then s\<lparr>apicids := apicids s @ [m (p + 1)]\<rparr> else s)
        else if m p = 2 then mp_entries m e (p + 8) (s\<lparr>mioapicid := m (p + 1)\<rparr>)
        else if m p = 1 \<or> m p = 3 \<or> m p = 4 then mp_entries m e (p + 8) s
        else mp_entries m e p (s\<lparr>ismp := False\<rparr>)
      else Some s)"

text \<open>The machine, the address of the local APIC and the bytes written to the IMCR, given the value
  read from port \<^verbatim>\<open>0x23\<close>; \<open>None\<close> when \<^verbatim>\<open>mpinit\<close> does not return.\<close>

definition mpinit :: "bytes \<Rightarrow> u8 \<Rightarrow> (machine \<times> u32 \<times> port_writes) res option" where
  "mpinit m imcr =
     (case mpconfig m of
        None \<Rightarrow> Some (Inl (Panic ''Expect to run on an SMP''))
      | Some (mp, conf) \<Rightarrow>
          map_option (\<lambda>s.
            if \<not> ismp s then Inl (Panic ''Didn't find a suitable machine'')
            else Inr (s, conf_lapicaddr m conf,
              if mp_imcrp m mp \<noteq> 0 then [(0x22, 0x70), (0x23, imcr OR 1)] else []))
           (mp_entries m (conf + conf_length m conf) (conf + 44) \<lparr>apicids = [], mioapicid = 0, ismp = True\<rparr>))"

section \<open>The local APIC\<close>

type_synonym apic_writes = "(nat \<times> u32) list"

definition lapicw :: "nat \<Rightarrow> u32 \<Rightarrow> nat \<times> u32" where
  "lapicw index v = (index div 4, v)"

text \<open>\<^verbatim>\<open>lapicinit\<close>, given whether there is an APIC and its version register; the wait for the
  delivery of the last command is left to the hardware.\<close>

definition lapicinit :: "bool \<Rightarrow> u32 \<Rightarrow> apic_writes" where
  "lapicinit present ver =
     (if \<not> present then [] else
     [lapicw 0xF0 (0x100 OR (T_IRQ0 + 31)), lapicw 0x3E0 0xB, lapicw 0x320 (0x20000 OR (T_IRQ0 + 0)),
      lapicw 0x380 10000000, lapicw 0x350 0x10000, lapicw 0x360 0x10000]
     @ (if drop_bit 16 ver AND 0xFF \<ge> 4 then [lapicw 0x340 0x10000] else [])
     @ [lapicw 0x370 (T_IRQ0 + 19), lapicw 0x280 0, lapicw 0x280 0, lapicw 0xB0 0, lapicw 0x310 0,
        lapicw 0x300 (0x80000 OR 0x500 OR 0x8000), lapicw 0x80 0])"

definition lapicid :: "bool \<Rightarrow> u32 \<Rightarrow> u32" where
  "lapicid present idreg = (if \<not> present then 0 else drop_bit 24 idreg)"

definition lapiceoi :: "bool \<Rightarrow> apic_writes" where
  "lapiceoi present = (if present then [lapicw 0xB0 0] else [])"

text \<open>\<^verbatim>\<open>lapicstartap\<close>: the CMOS writes, the warm reset vector, and the interrupt commands.\<close>

definition lapicstartap :: "u8 \<Rightarrow> u32 \<Rightarrow> port_writes \<times> (u16 \<times> u16) \<times> apic_writes" where
  "lapicstartap apicid addr =
     (let dest = lapicw 0x310 (push_bit 24 (ucast apicid));
          startup = [dest, lapicw 0x300 (0x600 OR drop_bit 12 addr)]
      in ([(0x70, 0xF), (0x71, 0x0A)], (0, ucast (drop_bit 4 addr)),
          [dest, lapicw 0x300 (0x500 OR 0x8000 OR 0x4000), lapicw 0x300 (0x500 OR 0x8000)] @ startup @ startup))"

section \<open>The clock\<close>

record rtcdate =
  second :: u32
  minute :: u32
  hour :: u32
  day :: u32
  month :: u32
  year :: u32

text \<open>\<open>cmos reg\<close> is the value that \<^verbatim>\<open>cmos_read(reg)\<close> returns.\<close>

definition fill_rtcdate :: "(nat \<Rightarrow> u8) \<Rightarrow> rtcdate" where
  "fill_rtcdate cmos = \<lparr>second = ucast (cmos 0x00), minute = ucast (cmos 0x02), hour = ucast (cmos 0x04),
     day = ucast (cmos 0x07), month = ucast (cmos 0x08), year = ucast (cmos 0x09)\<rparr>"

definition CONV :: "u32 \<Rightarrow> u32" where
  "CONV x = drop_bit 4 x * 10 + (x AND 0xf)"

text \<open>The loop that waits for two equal readings with no update in progress between them;
  \<open>cmos k\<close> are the registers as the \<open>k\<close>-th reading of the clock finds them.\<close>

partial_function (option) stable_time :: "(nat \<Rightarrow> nat \<Rightarrow> u8) \<Rightarrow> nat \<Rightarrow> rtcdate option" where
  "stable_time cmos k =
     (let t1 = fill_rtcdate (cmos k) in
      if cmos (k + 1) 0x0a AND 0x80 \<noteq> 0 then stable_time cmos (k + 2)
      else if t1 = fill_rtcdate (cmos (k + 2)) then Some t1
      else stable_time cmos (k + 3))"

definition cmostime :: "u8 \<Rightarrow> (nat \<Rightarrow> nat \<Rightarrow> u8) \<Rightarrow> rtcdate option" where
  "cmostime statb cmos =
     map_option (\<lambda>t.
       let t = (if statb AND 4 = 0 then
                  \<lparr>second = CONV (second t), minute = CONV (minute t), hour = CONV (hour t),
                   day = CONV (day t), month = CONV (month t), year = CONV (year t)\<rparr> else t)
       in t\<lparr>year := year t + 2000\<rparr>)
      (stable_time cmos 0)"

section \<open>Properties\<close>

text \<open>What the search finds is a structure with the signature and the checksum.\<close>

lemma mpsearch1_sound: "mpsearch1 m a len = Some p \<Longrightarrow> has_bytes m p ''_MP_'' \<and> sum m p 16 = 0"
  unfolding mpsearch1_def by (auto dest: find_SomeD)

lemma mpconfig_checked:
  "mpconfig m = Some (mp, conf) \<Longrightarrow> has_bytes m mp ''_MP_'' \<and> sum m mp 16 = 0 \<and>
   has_bytes m conf ''PCMP'' \<and> sum m conf (conf_length m conf) = 0"
  unfolding mpconfig_def mpsearch_def Let_def
  by (auto split: option.splits if_splits dest: mpsearch1_sound)

text \<open>A table of known entries is read to its end.\<close>

definition entry_size :: "u8 \<Rightarrow> nat option" where
  "entry_size t = (if t = 0 then Some 20 else if t \<in> {1, 2, 3, 4} then Some 8 else None)"

inductive table_entries :: "bytes \<Rightarrow> nat \<Rightarrow> nat \<Rightarrow> bool" for m e where
  stop: "e \<le> p \<Longrightarrow> table_entries m e p"
| entry: "p < e \<Longrightarrow> entry_size (m p) = Some k \<Longrightarrow> table_entries m e (p + k) \<Longrightarrow> table_entries m e p"

lemma mp_entries_returns: "table_entries m e p \<Longrightarrow> \<exists>s'. mp_entries m e p s = Some s' \<and> ismp s' = ismp s"
proof (induction p arbitrary: s rule: table_entries.induct)
  case (stop p)
  then show ?case by (subst mp_entries.simps) simp
next
  case (entry p k)
  show ?case
    using entry.hyps(1,2) entry.IH
      [of "if m p = 0 \<and> length (apicids s) < NCPU then s\<lparr>apicids := apicids s @ [m (p + 1)]\<rparr>
           else if m p = 2 then s\<lparr>mioapicid := m (p + 1)\<rparr> else s"]
    by (subst mp_entries.simps) (auto simp: entry_size_def split: if_splits)
qed

text \<open>An entry of an unknown type is never passed: \<^verbatim>\<open>mpinit\<close> does not come to its panic.\<close>

lemma mp_entries_unknown:
  "mp_entries m e p s = Some s' \<Longrightarrow> p < e \<longrightarrow> entry_size (m p) \<noteq> None"
proof (induction rule: mp_entries.raw_induct [rotated, consumes 1])
  case (1 f m e p s s')
  show ?case
  proof (intro impI notI)
    assume a: "p < e" "entry_size (m p) = None"
    then have "m p \<noteq> 0" "m p \<noteq> 1" "m p \<noteq> 2" "m p \<noteq> 3" "m p \<noteq> 4"
      by (auto simp: entry_size_def split: if_splits)
    then have "f m e p (s\<lparr>ismp := False\<rparr>) = Some s'" using 1(2) a(1) by simp
    from 1(1) [OF this] a show False by simp
  qed
qed

lemma mpinit_hangs:
  assumes "mpconfig m = Some (mp, conf)" "44 < conf_length m conf" "4 < m (conf + 44)"
  shows "mpinit m imcr = None"
proof -
  have "entry_size (m (conf + 44)) = None" using assms(3) by (auto simp: entry_size_def)
  then have "mp_entries m (conf + conf_length m conf) (conf + 44) s = None" for s
    using mp_entries_unknown [of m "conf + conf_length m conf" "conf + 44" s] assms(2)
    by (cases "mp_entries m (conf + conf_length m conf) (conf + 44) s") auto
  then show ?thesis by (simp add: mpinit_def assms(1))
qed

text \<open>The digits of a two-digit BCD value.\<close>

lemma CONV_bcd: "a < 10 \<Longrightarrow> b < 10 \<Longrightarrow> CONV (16 * a + b) = 10 * a + b"
proof -
  assume "a < 10" "b < 10"
  then have l: "unat a < 10" "unat b < 10" by (simp_all add: word_less_nat_alt)
  then have u: "unat (16 * a + b) = 16 * unat a + unat b" by (simp add: unat_word_ariths)
  have "unat (drop_bit 4 (16 * a + b)) = unat a"
    using u l by (simp add: drop_bit_eq_div unat_div)
  then have d: "drop_bit 4 (16 * a + b) = a" by (simp only: word_unat_eq_iff)
  have "(16 * a + b) AND 0xf = take_bit 4 (16 * a + b)" by (simp add: take_bit_eq_mask mask_eq_exp_minus_1)
  moreover have "unat (take_bit 4 (16 * a + b)) = unat b"
    using u l by (simp add: take_bit_eq_mod unat_mod)
  ultimately have "(16 * a + b) AND 0xf = b" by (simp only: word_unat_eq_iff)
  with d show ?thesis by (simp add: CONV_def)
qed

end
