(* ===== verification/Boot.thy ===== *)
theory Boot
  imports Irq
begin

text \<open>
  The boot loader (\<^verbatim>\<open>bootmain.c\<close>): it reads the kernel's ELF image from the disk into physical
  memory. Memory is a function from addresses below \<open>2 ^ 32\<close>, and address arithmetic wraps around.
  The disk is a parameter: the bytes of the data port after the commands written to it. The
  polling of \<^verbatim>\<open>waitdisk\<close> is left to it.
\<close>

type_synonym ata_disk = "port_writes \<Rightarrow> nat \<Rightarrow> u8"

section \<open>Reading sectors\<close>

definition SECTSIZE :: u32 where
  "SECTSIZE = 512"

definition fill :: "u32 \<Rightarrow> u32 \<Rightarrow> (nat \<Rightarrow> u8) \<Rightarrow> bytes \<Rightarrow> bytes" where
  "fill dst len d m =
     (\<lambda>i. if i < 2 ^ 32 \<and> word_of_nat i - dst < len then d (unat (word_of_nat i - dst)) else m i)"

definition read_cmd :: "u32 \<Rightarrow> port_writes" where
  "read_cmd offset =
     [(0x1F2, 1), (0x1F3, ucast offset), (0x1F4, ucast (drop_bit 8 offset)), (0x1F5, ucast (drop_bit 16 offset)),
      (0x1F6, ucast (drop_bit 24 offset OR 0xE0)), (0x1F7, 0x20)]"

definition readsect :: "ata_disk \<Rightarrow> u32 \<Rightarrow> u32 \<Rightarrow> bytes \<Rightarrow> bytes" where
  "readsect disk dst offset m = fill dst SECTSIZE (disk (read_cmd offset)) m"

text \<open>The loop does not end when \<open>pa\<close> wraps around below \<open>epa\<close>.\<close>

partial_function (option) readseg_loop :: "ata_disk \<Rightarrow> u32 \<Rightarrow> u32 \<Rightarrow> u32 \<Rightarrow> bytes \<Rightarrow> bytes option" where
  "readseg_loop disk pa epa offset m =
     (if pa < epa then readseg_loop disk (pa + SECTSIZE) epa (offset + 1) (readsect disk pa offset m)
      else Some m)"

definition readseg :: "ata_disk \<Rightarrow> u32 \<Rightarrow> u32 \<Rightarrow> u32 \<Rightarrow> bytes \<Rightarrow> bytes option" where
  "readseg disk pa count offset m =
     readseg_loop disk (pa - offset mod SECTSIZE) (pa + count) (offset div SECTSIZE + 1) m"

section \<open>Loading the kernel\<close>

text \<open>The fields used of \<^verbatim>\<open>struct elfhdr\<close> and \<^verbatim>\<open>struct proghdr\<close>.\<close>

definition ELF_MAGIC :: u32 where "ELF_MAGIC = 0x464C457F"
definition elf_magic :: "bytes \<Rightarrow> u32 \<Rightarrow> u32" where "elf_magic m a = get32 m (unat a)"
definition elf_entry :: "bytes \<Rightarrow> u32 \<Rightarrow> u32" where "elf_entry m a = get32 m (unat (a + 24))"
definition elf_phoff :: "bytes \<Rightarrow> u32 \<Rightarrow> u32" where "elf_phoff m a = get32 m (unat (a + 28))"
definition elf_phnum :: "bytes \<Rightarrow> u32 \<Rightarrow> u16" where "elf_phnum m a = get16 m (unat (a + 44))"
definition ph_off :: "bytes \<Rightarrow> u32 \<Rightarrow> u32" where "ph_off m a = get32 m (unat (a + 4))"
definition ph_paddr :: "bytes \<Rightarrow> u32 \<Rightarrow> u32" where "ph_paddr m a = get32 m (unat (a + 12))"
definition ph_filesz :: "bytes \<Rightarrow> u32 \<Rightarrow> u32" where "ph_filesz m a = get32 m (unat (a + 16))"
definition ph_memsz :: "bytes \<Rightarrow> u32 \<Rightarrow> u32" where "ph_memsz m a = get32 m (unat (a + 20))"

definition load_segment :: "ata_disk \<Rightarrow> u32 \<Rightarrow> bytes \<Rightarrow> bytes option" where
  "load_segment disk ph m =
     (let pa = ph_paddr m ph in
      case readseg disk pa (ph_filesz m ph) (ph_off m ph) m of
        None \<Rightarrow> None
      | Some m \<Rightarrow>
          Some (if ph_memsz m ph > ph_filesz m ph
                then fill (pa + ph_filesz m ph) (ph_memsz m ph - ph_filesz m ph) (\<lambda>_. 0) m else m))"

partial_function (option) load_segments :: "ata_disk \<Rightarrow> u32 \<Rightarrow> u32 \<Rightarrow> bytes \<Rightarrow> bytes option" where
  "load_segments disk ph eph m =
     (if ph < eph then
        case load_segment disk ph m of None \<Rightarrow> None | Some m \<Rightarrow> load_segments disk (ph + 32) eph m
      else Some m)"

text \<open>The entry point that is called, if the image is an ELF file, and the memory.\<close>

definition bootmain :: "ata_disk \<Rightarrow> bytes \<Rightarrow> (u32 option \<times> bytes) option" where
  "bootmain disk m =
     (let elf = 0x10000 in
      case readseg disk elf 4096 0 m of
        None \<Rightarrow> None
      | Some m \<Rightarrow>
          if elf_magic m elf \<noteq> ELF_MAGIC then Some (None, m)
          else
            let ph = elf + elf_phoff m elf;
                eph = ph + 32 * ucast (elf_phnum m elf)
            in case load_segments disk ph eph m of
                 None \<Rightarrow> None
               | Some m \<Rightarrow> Some (Some (elf_entry m elf), m))"

section \<open>What is loaded\<close>

lemma fill_at:
  assumes "i < 2 ^ 32"
  shows "unat dst \<le> i \<Longrightarrow> i < unat dst + unat len \<Longrightarrow> fill dst len d m i = d (i - unat dst)"
    and "i < unat dst \<Longrightarrow> unat dst + unat len \<le> 2 ^ 32 \<Longrightarrow> fill dst len d m i = m i"
proof -
  have u: "unat (word_of_nat i :: u32) = i" using assms by (simp add: unat_of_nat take_bit_eq_mod)
  show "fill dst len d m i = d (i - unat dst)" if "unat dst \<le> i" "i < unat dst + unat len"
  proof -
    have "unat (word_of_nat i - dst) = i - unat dst" using that(1) u by (simp add: unat_sub word_le_nat_alt)
    moreover have "i - unat dst < unat len" using that by linarith
    ultimately show ?thesis using assms by (simp add: fill_def word_less_nat_alt)
  qed
  show "fill dst len d m i = m i" if "i < unat dst" "unat dst + unat len \<le> 2 ^ 32"
  proof -
    have "unat (word_of_nat i - dst) = 2 ^ 32 + i - unat dst"
      using that(1) unfolding unat_sub_if' u by simp
    moreover have "\<not> 2 ^ 32 + i - unat dst < unat len" using that by linarith
    ultimately show ?thesis by (simp add: fill_def word_less_nat_alt)
  qed
qed

definition sector_byte :: "ata_disk \<Rightarrow> u32 \<Rightarrow> nat \<Rightarrow> u8" where
  "sector_byte disk offset k = disk (read_cmd (offset + word_of_nat (k div 512))) (k mod 512)"

lemma sector_byte_next: "512 \<le> k \<Longrightarrow> sector_byte disk (offset + 1) (k - 512) = sector_byte disk offset k"
  by (simp add: sector_byte_def le_div_geq [of 512 k] le_mod_geq [of 512 k] ac_simps)

text \<open>The loop returns when the end is a sector below the top of memory.\<close>

lemma readseg_loop_spec:
  assumes "unat epa + 512 \<le> 2 ^ 32"
  shows "\<exists>m'. readseg_loop disk pa epa offset m = Some m' \<and> (\<forall>i < unat pa. m' i = m i) \<and>
    (\<forall>i. unat pa \<le> i \<and> i < unat epa \<longrightarrow> m' i = sector_byte disk offset (i - unat pa))"
proof (induction "unat epa - unat pa" arbitrary: pa offset m rule: less_induct)
  case less
  show ?case
  proof (cases "pa < epa")
    case True
    then have l: "unat pa < unat epa" by (simp add: word_less_nat_alt)
    have n: "unat (pa + SECTSIZE) = unat pa + 512"
      using l assms by (simp add: SECTSIZE_def unat_word_ariths)
    let ?m = "readsect disk pa offset m"
    have d: "unat epa - (unat pa + 512) < unat epa - unat pa" using l by linarith
    obtain m' where m': "readseg_loop disk (pa + SECTSIZE) epa (offset + 1) ?m = Some m'"
      "\<forall>i < unat pa + 512. m' i = ?m i"
      "\<forall>i. unat pa + 512 \<le> i \<and> i < unat epa \<longrightarrow> m' i = sector_byte disk (offset + 1) (i - (unat pa + 512))"
      using less [of "pa + SECTSIZE" "offset + 1" ?m, unfolded n, OF d] by blast
    have "m' i = m i" if "i < unat pa" for i
      using m'(2) that l assms fill_at(2) [of i pa SECTSIZE] by (simp add: readsect_def SECTSIZE_def)
    moreover have "m' i = sector_byte disk offset (i - unat pa)" if i: "unat pa \<le> i" "i < unat epa" for i
    proof (cases "i < unat pa + 512")
      case True
      then show ?thesis using m'(2) i assms fill_at(1) [of i pa SECTSIZE]
        by (simp add: readsect_def SECTSIZE_def sector_byte_def)
    next
      case False
      then show ?thesis using m'(3) i sector_byte_next [of "i - unat pa" disk offset] by (simp add: diff_diff_left)
    qed
    ultimately show ?thesis using m'(1) True by (subst readseg_loop.simps) auto
  next
    case False
    then show ?thesis by (subst readseg_loop.simps) (auto simp: word_less_nat_alt)
  qed
qed

text \<open>On a disk that delivers the sectors of an image (28-bit sector numbers), \<^verbatim>\<open>readseg\<close> puts the \<open>count\<close> bytes from \<open>offset\<close>
  on at \<open>pa\<close>, counted from sector 1, and leaves the memory below the first sector alone.\<close>

lemma readseg_loads:
  assumes disk: "\<And>n k. unat n < 2 ^ 28 \<Longrightarrow> k < 512 \<Longrightarrow> disk (read_cmd n) k = img (unat n * 512 + k)"
    and low: "unat offset mod 512 \<le> unat pa" and top: "unat pa + unat count + 512 \<le> 2 ^ 32"
    and off: "unat offset + unat count + 1024 \<le> 2 ^ 32"
  shows "\<exists>m'. readseg disk pa count offset m = Some m' \<and>
    (\<forall>i < unat count. m' (unat pa + i) = img (512 + unat offset + i)) \<and>
    (\<forall>j < unat pa - unat offset mod 512. m' j = m j)"
proof -
  let ?p = "pa - offset mod SECTSIZE" and ?o = "offset div SECTSIZE + 1"
  have p: "unat ?p = unat pa - unat offset mod 512"
    using low by (simp add: SECTSIZE_def unat_sub word_le_nat_alt unat_mod)
  have e: "unat (pa + count) = unat pa + unat count" using top by (simp add: unat_word_ariths)
  have b: "sector_byte disk ?o (unat offset mod 512 + i) = img (512 + unat offset + i)" if "i < unat count" for i
  proof -
    let ?k = "unat offset mod 512 + i"
    have "?k div 512 \<le> ?k" by simp
    then have "unat (?o + word_of_nat (?k div 512)) = unat offset div 512 + 1 + ?k div 512"
      using that off by (simp add: SECTSIZE_def unat_word_ariths unat_div unat_of_nat take_bit_eq_mod)
    moreover have k: "(unat offset div 512 + 1 + ?k div 512) * 512 + ?k mod 512 = 512 + unat offset + i"
      using div_mult_mod_eq [of ?k 512] div_mult_mod_eq [of "unat offset" 512] by (simp add: add_mult_distrib)
    moreover have "unat offset div 512 + 1 + ?k div 512 < 2 ^ 28" using that off k by simp
    ultimately show ?thesis by (simp add: sector_byte_def disk ac_simps)
  qed
  obtain m' where m': "readseg_loop disk ?p (pa + count) ?o m = Some m'" "\<forall>i < unat ?p. m' i = m i"
    "\<forall>i. unat ?p \<le> i \<and> i < unat (pa + count) \<longrightarrow> m' i = sector_byte disk ?o (i - unat ?p)"
    using readseg_loop_spec [of "pa + count" disk ?p ?o m] top e by auto
  have "m' (unat pa + i) = img (512 + unat offset + i)" if "i < unat count" for i
  proof -
    have "unat pa + i - unat ?p = unat offset mod 512 + i" using p low by simp
    then show ?thesis using m'(3) [rule_format, of "unat pa + i"] that e p b [OF that] by simp
  qed
  then show ?thesis using m'(1,2) p by (auto simp: readseg_def)
qed

end
