(* ===== verification/Ide.thy ===== *)
theory Ide
  imports Bio Irq
begin

text \<open>
  The IDE disk driver (\<^verbatim>\<open>ide.c\<close>): the queue of buffers, linked through \<^verbatim>\<open>qnext\<close>, the commands
  written to the controller, and the interrupt handler. The buffers are those of the buffer cache
  (\<^typ>\<open>buf\<close>), by index. The status bytes that port 0x1f7 returns are a list in the state; a
  wait that finds no ready byte in it has not returned, which is the result \<open>Sleep\<close>. The lock
  \<^verbatim>\<open>idelock\<close> makes each operation atomic.
\<close>

record ide =
  ide_bufs :: "nat \<Rightarrow> buf"
  idequeue :: "nat option"
  qnext :: "nat \<Rightarrow> nat option"
  havedisk1 :: bool
  ide_status :: "u8 list"
  ide_out :: port_writes
  ide_data :: "bytes list"

definition SECTOR_SIZE :: nat where "SECTOR_SIZE = 512"
definition IDE_BSY :: u8 where "IDE_BSY = 0x80"
definition IDE_DRDY :: u8 where "IDE_DRDY = 0x40"
definition IDE_DF :: u8 where "IDE_DF = 0x20"
definition IDE_ERR :: u8 where "IDE_ERR = 0x01"
definition IDE_CMD_READ :: u8 where "IDE_CMD_READ = 0x20"
definition IDE_CMD_WRITE :: u8 where "IDE_CMD_WRITE = 0x30"
definition IDE_CMD_RDMUL :: u8 where "IDE_CMD_RDMUL = 0xc4"
definition IDE_CMD_WRMUL :: u8 where "IDE_CMD_WRMUL = 0xc5"
definition FSSIZE :: nat where "FSSIZE = 1000"
definition IRQ_IDE :: u32 where "IRQ_IDE = 14"

fun idewait_loop :: "bool \<Rightarrow> u8 list \<Rightarrow> (int \<times> u8 list) res" where
  "idewait_loop checkerr [] = Inl (Sleep ''idewait'')"
| "idewait_loop checkerr (r # rs) =
     (if r AND (IDE_BSY OR IDE_DRDY) \<noteq> IDE_DRDY then idewait_loop checkerr rs
      else if checkerr \<and> r AND (IDE_DF OR IDE_ERR) \<noteq> 0 then Inr (-1, rs)
      else Inr (0, rs))"

definition idewait :: "bool \<Rightarrow> ide \<Rightarrow> (int \<times> ide) res" where
  "idewait checkerr s =
     bnd (idewait_loop checkerr (ide_status s)) (\<lambda>(r, rs). Inr (r, s\<lparr>ide_status := rs\<rparr>))"

definition outb :: "u16 \<Rightarrow> u8 \<Rightarrow> ide \<Rightarrow> ide" where
  "outb p v s = s\<lparr>ide_out := ide_out s @ [(p, v)]\<rparr>"

text \<open>The probe for disk 1: at most \<open>i\<close> status reads, up to the first that is not 0.\<close>

fun probe :: "nat \<Rightarrow> u8 list \<Rightarrow> (bool \<times> u8 list) res" where
  "probe 0 rs = Inr (False, rs)"
| "probe (Suc i) [] = Inl (Sleep ''ideinit'')"
| "probe (Suc i) (r # rs) = (if r \<noteq> 0 then Inr (True, rs) else probe i rs)"

definition ideinit :: "nat \<Rightarrow> ioapic \<Rightarrow> ide \<Rightarrow> (ioapic \<times> ide) res" where
  "ideinit ncpu a s =
     bnd (idewait False s) (\<lambda>(_, s).
       let s = outb 0x1f6 (0xe0 OR push_bit 4 1) s in
       bnd (probe 1000 (ide_status s)) (\<lambda>(found, rs).
         let s = s\<lparr>ide_status := rs, havedisk1 := (if found then True else havedisk1 s)\<rparr> in
         Inr (ioapicenable IRQ_IDE (of_nat ncpu - 1) a, outb 0x1f6 (0xe0 OR push_bit 4 0) s)))"

definition sector_per_block :: nat where
  "sector_per_block = BSIZE div SECTOR_SIZE"

definition set_sector :: "nat \<Rightarrow> u32 \<Rightarrow> ide \<Rightarrow> ide" where
  "set_sector dev sector s =
     outb 0x1f6 (ucast (0xe0 OR push_bit 4 (of_nat dev AND 1) OR (drop_bit 24 sector AND 0x0f)))
       (outb 0x1f5 (ucast (drop_bit 16 sector AND 0xff))
         (outb 0x1f4 (ucast (drop_bit 8 sector AND 0xff))
           (outb 0x1f3 (ucast (sector AND 0xff)) (outb 0x1f2 (of_nat sector_per_block) (outb 0x3f6 0 s)))))"

definition idestart :: "nat option \<Rightarrow> ide \<Rightarrow> ide res" where
  "idestart p s =
     (case p of
        None \<Rightarrow> Inl (Panic ''idestart'')
      | Some n \<Rightarrow>
          let b = ide_bufs s n;
              read_cmd = (if sector_per_block = 1 then IDE_CMD_READ else IDE_CMD_RDMUL);
              write_cmd = (if sector_per_block = 1 then IDE_CMD_WRITE else IDE_CMD_WRMUL)
          in if b_blockno b \<ge> FSSIZE then Inl (Panic ''incorrect blockno'')
             else if sector_per_block > 7 then Inl (Panic ''idestart'')
             else bnd (idewait False s) (\<lambda>(_, s).
               let s = set_sector (b_dev b) (of_nat (b_blockno b * sector_per_block)) s
               in if b_dirty b
                  then let s = outb 0x1f7 write_cmd s in Inr (s\<lparr>ide_data := ide_data s @ [b_data b]\<rparr>)
                  else Inr (outb 0x1f7 read_cmd s)))"

definition insl :: "bytes \<Rightarrow> buf \<Rightarrow> buf" where
  "insl sector b = b\<lparr>b_data := (\<lambda>i. if i < BSIZE then sector i else b_data b i)\<rparr>"

definition ideintr_read :: "bytes \<Rightarrow> nat \<Rightarrow> ide \<Rightarrow> ide res" where
  "ideintr_read sector n s =
     (if b_dirty (ide_bufs s n) then Inr s
      else bnd (idewait True s) (\<lambda>(r, s).
        Inr (if r \<ge> 0 then s\<lparr>ide_bufs := (ide_bufs s)(n := insl sector (ide_bufs s n))\<rparr> else s)))"

text \<open>\<open>sector\<close> is the data the disk delivers. The result names the buffer that is woken.\<close>

definition ideintr :: "bytes \<Rightarrow> ide \<Rightarrow> (nat option \<times> ide) res" where
  "ideintr sector s =
     (case idequeue s of
        None \<Rightarrow> Inr (None, s)
      | Some n \<Rightarrow>
          bnd (ideintr_read sector n (s\<lparr>idequeue := qnext s n\<rparr>)) (\<lambda>s.
            let s = s\<lparr>ide_bufs := (ide_bufs s)(n := (ide_bufs s n)\<lparr>b_valid := True, b_dirty := False\<rparr>)\<rparr>
            in if idequeue s \<noteq> None then bnd (idestart (idequeue s) s) (\<lambda>s. Inr (Some n, s))
               else Inr (Some n, s)))"

text \<open>The walk to the last buffer of the queue; on a cyclic queue it does not return.\<close>

partial_function (option) last_queued :: "(nat \<Rightarrow> nat option) \<Rightarrow> nat \<Rightarrow> nat option" where
  "last_queued q n = (case q n of None \<Rightarrow> Some n | Some k \<Rightarrow> last_queued q k)"

definition append_queue :: "nat \<Rightarrow> ide \<Rightarrow> ide option" where
  "append_queue n s =
     (let s = s\<lparr>qnext := (qnext s)(n := None)\<rparr> in
      case idequeue s of
        None \<Rightarrow> Some (s\<lparr>idequeue := Some n\<rparr>)
      | Some h \<Rightarrow> (case last_queued (qnext s) h of
            None \<Rightarrow> None
          | Some l \<Rightarrow> Some (s\<lparr>qnext := (qnext s)(l := Some n)\<rparr>)))"

text \<open>\<^verbatim>\<open>iderw\<close> up to its wait, and the condition that ends the wait.\<close>

definition iderw :: "nat \<Rightarrow> ide \<Rightarrow> ide res option" where
  "iderw n s =
     (let b = ide_bufs s n in
      if \<not> holdingsleep (b_lock b) then Some (Inl (Panic ''iderw: buf not locked''))
      else if b_valid b \<and> \<not> b_dirty b then Some (Inl (Panic ''iderw: nothing to do''))
      else if b_dev b \<noteq> 0 \<and> \<not> havedisk1 s then Some (Inl (Panic ''iderw: ide disk 1 not present''))
      else case append_queue n s of
          None \<Rightarrow> None
        | Some s \<Rightarrow> Some (if idequeue s = Some n then idestart (Some n) s else Inr s))"

definition iderw_done :: "nat \<Rightarrow> ide \<Rightarrow> bool" where
  "iderw_done n s \<longleftrightarrow> b_valid (ide_bufs s n) \<and> \<not> b_dirty (ide_bufs s n)"

section \<open>The linked queue is a first-in first-out list\<close>

fun queued :: "(nat \<Rightarrow> nat option) \<Rightarrow> nat option \<Rightarrow> nat list \<Rightarrow> bool" where
  "queued q p [] \<longleftrightarrow> p = None"
| "queued q p (x # xs) \<longleftrightarrow> p = Some x \<and> queued q (q x) xs"

lemma queued_upd [simp]: "n \<notin> set xs \<Longrightarrow> queued (q(n := v)) p xs = queued q p xs"
  by (induction xs arbitrary: p) auto

lemma last_queued_path: "queued q (Some h) xs \<Longrightarrow> last_queued q h = Some (last xs)"
proof (induction xs arbitrary: h)
  case (Cons x xs)
  then show ?case by (cases xs) (auto simp: last_queued.simps [of q x])
qed simp

lemma queued_snoc:
  "queued q p xs \<Longrightarrow> xs \<noteq> [] \<Longrightarrow> distinct xs \<Longrightarrow> n \<notin> set xs \<Longrightarrow> q n = None
   \<Longrightarrow> queued (q(last xs := Some n)) p (xs @ [n])"
proof (induction xs arbitrary: p)
  case (Cons x xs)
  then show ?case by (cases xs) (auto split: if_splits)
qed simp

lemma append_queue_fifo:
  assumes "queued (qnext s) (idequeue s) xs" "distinct xs" "n \<notin> set xs"
  shows "\<exists>s'. append_queue n s = Some s' \<and> queued (qnext s') (idequeue s') (xs @ [n])
    \<and> ide_bufs s' = ide_bufs s"
proof (cases xs)
  case Nil
  then show ?thesis using assms by (simp add: append_queue_def)
next
  case (Cons x ys)
  let ?q = "(qnext s)(n := None)"
  have q: "queued ?q (Some x) xs" and h: "idequeue s = Some x"
    using assms Cons by auto
  have "queued (?q(last xs := Some n)) (Some x) (xs @ [n])"
    using queued_snoc [OF q] assms Cons by simp
  then show ?thesis using last_queued_path [OF q] h by (simp add: append_queue_def)
qed

lemma idewait_frame:
  "idewait c s = Inr (r, s') \<Longrightarrow> \<exists>rs. s' = s\<lparr>ide_status := rs\<rparr>"
  by (auto simp: idewait_def bnd_eq_Inr)

lemma idestart_frame:
  assumes "idestart p s = Inr s'"
  shows "ide_bufs s' = ide_bufs s" "qnext s' = qnext s" "idequeue s' = idequeue s"
  using assms
  by (auto simp: idestart_def Let_def bnd_eq_Inr set_sector_def outb_def split: option.splits if_splits
      dest!: idewait_frame)

text \<open>\<^verbatim>\<open>iderw\<close> returns to its wait, with the buffer last in the queue.\<close>

lemma iderw_queues:
  assumes "queued (qnext s) (idequeue s) xs" "distinct xs" "n \<notin> set xs"
  shows "\<exists>r. iderw n s = Some r"
    and "iderw n s = Some (Inr s') \<Longrightarrow> queued (qnext s') (idequeue s') (xs @ [n]) \<and> ide_bufs s' = ide_bufs s"
  using append_queue_fifo [OF assms]
  by (auto simp: iderw_def Let_def idestart_frame split: if_splits)

lemma ideintr_read_frame:
  assumes "ideintr_read sector n s = Inr s'"
  shows "qnext s' = qnext s" "idequeue s' = idequeue s" "k \<noteq> n \<Longrightarrow> ide_bufs s' k = ide_bufs s k"
  using assms by (auto simp: ideintr_read_def bnd_eq_Inr split: if_splits dest!: idewait_frame)

text \<open>The interrupt completes the head of the queue and no other buffer.\<close>

lemma ideintr_completes:
  assumes "queued (qnext s) (idequeue s) (n # xs)" "ideintr sector s = Inr (w, s')"
  shows "w = Some n \<and> queued (qnext s') (idequeue s') xs \<and> iderw_done n s'
    \<and> (\<forall>k. k \<noteq> n \<longrightarrow> ide_bufs s' k = ide_bufs s k)"
proof -
  obtain t where t: "ideintr_read sector n (s\<lparr>idequeue := qnext s n\<rparr>) = Inr t"
    using assms by (auto simp: ideintr_def bnd_eq_Inr)
  show ?thesis using assms t ideintr_read_frame [OF t]
    by (auto simp: ideintr_def iderw_done_def Let_def bnd_eq_Inr idestart_frame split: if_splits)
qed

text \<open>A read that reports an error completes too: the buffer becomes valid with its old contents.\<close>

lemma ideintr_read_error:
  assumes "idequeue s = Some n" "qnext s n = None" "\<not> b_dirty (ide_bufs s n)"
    "idewait_loop True (ide_status s) = Inr (-1, rs)"
  shows "\<exists>s'. ideintr sector s = Inr (Some n, s') \<and> iderw_done n s'
    \<and> b_data (ide_bufs s' n) = b_data (ide_bufs s n)"
  using assms by (simp add: ideintr_def ideintr_read_def idewait_def iderw_done_def Let_def)

end
