(* ===== verification/Trap.thy ===== *)
theory Trap
  imports Proc Syscall Machine Ide Console
begin

text \<open>
  Traps (\<^verbatim>\<open>trap.c\<close>) and the process system calls (\<^verbatim>\<open>sysproc.c\<close>) on the process table with the clock.
  \<^verbatim>\<open>syscall\<close>, the device handlers, and the file operations of \<^verbatim>\<open>exit\<close> act on parts of the kernel with
  state records of their own, so they are arguments here. The processor \<open>c\<close> is an argument, the current
  process is the one the table gives for it. Messages on the console are left out.
\<close>

record clock = ptable +
  ticks :: u32
  lapic_out :: apic_writes

definition T_SYSCALL :: u32 where "T_SYSCALL = 64"
definition IRQ_TIMER :: u32 where "IRQ_TIMER = 0"
definition IRQ_KBD :: u32 where "IRQ_KBD = 1"
definition IRQ_SPURIOUS :: u32 where "IRQ_SPURIOUS = 31"
definition DPL_USER :: u16 where "DPL_USER = 3"

definition eoi :: "bool \<Rightarrow> 'a clock_scheme \<Rightarrow> 'a clock_scheme" where
  "eoi apic s = s\<lparr>lapic_out := lapic_out s @ lapiceoi apic\<rparr>"

text \<open>The clock tick of the first processor; \<open>tick_chan\<close> is the address of \<^verbatim>\<open>ticks\<close>.\<close>

definition tick :: "chan \<Rightarrow> 'a clock_scheme \<Rightarrow> 'a clock_scheme" where
  "tick tick_chan s = wakeup tick_chan (s\<lparr>ticks := ticks s + 1\<rparr>)"

definition trap_event ::
  "chan \<Rightarrow> bool \<Rightarrow> ('a clock_scheme \<Rightarrow> 'a clock_scheme res) \<Rightarrow> ('a clock_scheme \<Rightarrow> 'a clock_scheme res) \<Rightarrow>
   ('a clock_scheme \<Rightarrow> 'a clock_scheme res) \<Rightarrow> nat \<Rightarrow> u32 \<Rightarrow> u16 \<Rightarrow> 'a clock_scheme \<Rightarrow> 'a clock_scheme res" where
  "trap_event tick_chan apic ide_intr kbd_intr uart_intr c trapno cs s =
     (if trapno = T_IRQ0 + IRQ_TIMER then Inr (eoi apic (if c = 0 then tick tick_chan s else s))
      else if trapno = T_IRQ0 + IRQ_IDE then bnd (ide_intr s) (\<lambda>s. Inr (eoi apic s))
      else if trapno = T_IRQ0 + IRQ_IDE + 1 then Inr s
      else if trapno = T_IRQ0 + IRQ_KBD then bnd (kbd_intr s) (\<lambda>s. Inr (eoi apic s))
      else if trapno = T_IRQ0 + IRQ_COM1 then bnd (uart_intr s) (\<lambda>s. Inr (eoi apic s))
      else if trapno = T_IRQ0 + 7 \<or> trapno = T_IRQ0 + IRQ_SPURIOUS then Inr (eoi apic s)
      else case myproc c s of
          None \<Rightarrow> Inl (Panic ''trap'')
        | Some i \<Rightarrow> if cs AND 3 = 0 then Inl (Panic ''trap'') else Inr (upd_proc i (\<lambda>p. p\<lparr>p_killed := True\<rparr>) s))"

datatype trap_out = Returned | Exited | Yielded

text \<open>\<^verbatim>\<open>exit\<close> does not return to its caller; \<open>ex c i\<close> is \<^verbatim>\<open>exit\<close> of process \<open>i\<close> on processor \<open>c\<close>.\<close>

definition exit_if_killed ::
  "(nat \<Rightarrow> nat \<Rightarrow> 'a clock_scheme \<Rightarrow> 'a clock_scheme res) \<Rightarrow> nat \<Rightarrow> u16 \<Rightarrow> 'a clock_scheme \<Rightarrow>
   ('a clock_scheme \<Rightarrow> (trap_out \<times> 'a clock_scheme) res) \<Rightarrow> (trap_out \<times> 'a clock_scheme) res" where
  "exit_if_killed ex c cs s k =
     (case myproc c s of
        None \<Rightarrow> k s
      | Some i \<Rightarrow>
          if p_killed (procs s ! i) \<and> cs AND 3 = DPL_USER then bnd (ex c i s) (\<lambda>s. Inr (Exited, s)) else k s)"

definition trap_syscall ::
  "(nat \<Rightarrow> nat \<Rightarrow> 'a clock_scheme \<Rightarrow> 'a clock_scheme res) \<Rightarrow> ('a clock_scheme \<Rightarrow> 'a clock_scheme res) \<Rightarrow>
   nat \<Rightarrow> u32 \<Rightarrow> 'a clock_scheme \<Rightarrow> (trap_out \<times> 'a clock_scheme) res" where
  "trap_syscall ex sysc c tf s =
     (case myproc c s of
        None \<Rightarrow> Inl (Fault ''trap'')
      | Some i \<Rightarrow>
          if p_killed (procs s ! i) then bnd (ex c i s) (\<lambda>s. Inr (Exited, s))
          else
            bnd (sysc (upd_proc i (\<lambda>p. p\<lparr>p_tf := tf\<rparr>) s)) (\<lambda>s.
            case myproc c s of
              None \<Rightarrow> Inl (Fault ''trap'')
            | Some i \<Rightarrow>
                if p_killed (procs s ! i) then bnd (ex c i s) (\<lambda>s. Inr (Exited, s)) else Inr (Returned, s)))"

text \<open>What follows the \<^verbatim>\<open>yield\<close>, also when the process comes back from it.\<close>

definition trap_resume ::
  "(nat \<Rightarrow> nat \<Rightarrow> 'a clock_scheme \<Rightarrow> 'a clock_scheme res) \<Rightarrow> nat \<Rightarrow> u16 \<Rightarrow> 'a clock_scheme \<Rightarrow>
   (trap_out \<times> 'a clock_scheme) res" where
  "trap_resume ex c cs s = exit_if_killed ex c cs s (\<lambda>s. Inr (Returned, s))"

definition trap_yield ::
  "(nat \<Rightarrow> nat \<Rightarrow> 'a clock_scheme \<Rightarrow> 'a clock_scheme res) \<Rightarrow> nat \<Rightarrow> u32 \<Rightarrow> u16 \<Rightarrow> 'a clock_scheme \<Rightarrow>
   (trap_out \<times> 'a clock_scheme) res" where
  "trap_yield ex c trapno cs s =
     (case myproc c s of
        None \<Rightarrow> trap_resume ex c cs s
      | Some i \<Rightarrow>
          if p_state (procs s ! i) = RUNNING \<and> trapno = T_IRQ0 + IRQ_TIMER
          then bnd (yield c i s) (\<lambda>s. Inr (Yielded, s)) else trap_resume ex c cs s)"

definition trap ::
  "chan \<Rightarrow> bool \<Rightarrow> (nat \<Rightarrow> nat \<Rightarrow> 'a clock_scheme \<Rightarrow> 'a clock_scheme res) \<Rightarrow>
   ('a clock_scheme \<Rightarrow> 'a clock_scheme res) \<Rightarrow> ('a clock_scheme \<Rightarrow> 'a clock_scheme res) \<Rightarrow>
   ('a clock_scheme \<Rightarrow> 'a clock_scheme res) \<Rightarrow> ('a clock_scheme \<Rightarrow> 'a clock_scheme res) \<Rightarrow>
   nat \<Rightarrow> u32 \<Rightarrow> u32 \<Rightarrow> u16 \<Rightarrow> 'a clock_scheme \<Rightarrow> (trap_out \<times> 'a clock_scheme) res" where
  "trap tick_chan apic ex sysc ide_intr kbd_intr uart_intr c tf trapno cs s =
     (if trapno = T_SYSCALL then trap_syscall ex sysc c tf s
      else
        bnd (trap_event tick_chan apic ide_intr kbd_intr uart_intr c trapno cs s) (\<lambda>s.
        exit_if_killed ex c cs s (trap_yield ex c trapno cs)))"

section \<open>System calls\<close>

definition sys_kill :: "uproc \<Rightarrow> 'a clock_scheme \<Rightarrow> int \<times> 'a clock_scheme" where
  "sys_kill u s = (case argint u 0 of None \<Rightarrow> (-1, s) | Some pid \<Rightarrow> kill (sint pid) s)"

definition sys_getpid :: "nat \<Rightarrow> 'a clock_scheme \<Rightarrow> int" where
  "sys_getpid cur s = p_pid (procs s ! cur)"

definition sys_sbrk :: "u32 \<Rightarrow> uproc \<Rightarrow> nat \<Rightarrow> 'a clock_scheme \<Rightarrow> (int \<times> 'a clock_scheme) res" where
  "sys_sbrk kend u cur s =
     (case argint u 0 of
        None \<Rightarrow> Inr (-1, s)
      | Some n \<Rightarrow>
          let addr = p_sz (procs s ! cur) in
          bnd (growproc kend cur (sint n) s) (\<lambda>(r, s). if r < 0 then Inr (-1, s) else Inr (sint addr, s)))"

datatype sleep_out = SleepRet int | SleepWaits

text \<open>One round of the loop of \<^verbatim>\<open>sys_sleep\<close>; the comparison with \<open>n\<close> is unsigned.\<close>

definition sleep_round :: "chan \<Rightarrow> nat \<Rightarrow> nat \<Rightarrow> u32 \<Rightarrow> u32 \<Rightarrow> 'a clock_scheme \<Rightarrow> (sleep_out \<times> 'a clock_scheme) res" where
  "sleep_round tick_chan c cur n ticks0 s =
     (if ticks s - ticks0 < n then
        if p_killed (procs s ! cur) then Inr (SleepRet (-1), s)
        else bnd (sleep c (Some cur) tick_chan True s) (\<lambda>s. Inr (SleepWaits, s))
      else Inr (SleepRet 0, s))"

definition sys_sleep :: "chan \<Rightarrow> uproc \<Rightarrow> nat \<Rightarrow> nat \<Rightarrow> 'a clock_scheme \<Rightarrow> (sleep_out \<times> 'a clock_scheme) res" where
  "sys_sleep tick_chan u c cur s =
     (case argint u 0 of
        None \<Rightarrow> Inr (SleepRet (-1), s)
      | Some n \<Rightarrow> sleep_round tick_chan c cur n (ticks s) s)"

definition sys_uptime :: "'a clock_scheme \<Rightarrow> int" where
  "sys_uptime s = sint (ticks s)"

section \<open>Traps keep the process table\<close>

lemma tick_inv [intro]: "table_inv s \<Longrightarrow> table_inv (tick ch s)"
  unfolding tick_def wakeup_def
  by (rule table_inv_soft [OF _ soft_wakeup1]) (simp add: tab_inv_def)

lemma eoi_inv [simp]: "table_inv (eoi b s) = table_inv s"
  by (simp add: eoi_def tab_inv_def)

lemma killed_inv: "table_inv s \<Longrightarrow> table_inv (upd_proc i (\<lambda>p. p\<lparr>p_killed := b\<rparr>) s)"
  by (rule table_inv_soft [where s = s], assumption, cases "i < length (procs s)")
    (auto simp: soft_def upd_proc_def nth_list_update)

lemma tf_inv: "table_inv s \<Longrightarrow> table_inv (upd_proc i (\<lambda>p. p\<lparr>p_tf := t\<rparr>) s)"
  by (rule table_inv_soft [where s = s], assumption, cases "i < length (procs s)")
    (auto simp: soft_def upd_proc_def nth_list_update)

lemma trap_event_inv:
  assumes "trap_event ch b i k u c n cs s = Inr s'" "table_inv s"
    and "\<And>f s s'. f \<in> {i, k, u} \<Longrightarrow> f s = Inr s' \<Longrightarrow> table_inv s \<Longrightarrow> table_inv s'"
  shows "table_inv s'"
  using assms(1,2) assms(3) [of i] assms(3) [of k] assms(3) [of u]
  by (auto simp: trap_event_def bnd_eq_Inr killed_inv split: if_splits option.splits)

lemma trap_tail_inv:
  assumes ex: "\<And>c i s s'. ex c i s = Inr s' \<Longrightarrow> cpu_proc s c = Some i \<Longrightarrow> table_inv s \<Longrightarrow> table_inv s'"
    and "exit_if_killed ex c cs s (trap_yield ex c n cs) = Inr (r, s')" "table_inv s"
  shows "table_inv s'"
  using assms(2,3)
  by (auto simp: exit_if_killed_def trap_yield_def trap_resume_def myproc_def bnd_eq_Inr
      split: option.splits if_splits intro: ex yield_inv)

text \<open>The handlers and \<^verbatim>\<open>exit\<close> keeping the invariant, every trap does.\<close>

lemma trap_inv:
  assumes "trap ch b ex sysc i k u c tf n cs s = Inr (r, s')" "table_inv s"
    and ex: "\<And>c i s s'. ex c i s = Inr s' \<Longrightarrow> cpu_proc s c = Some i \<Longrightarrow> table_inv s \<Longrightarrow> table_inv s'"
    and f: "\<And>f s s'. f \<in> {sysc, i, k, u} \<Longrightarrow> f s = Inr s' \<Longrightarrow> table_inv s \<Longrightarrow> table_inv s'"
  shows "table_inv s'"
proof (cases "n = T_SYSCALL")
  case True
  then show ?thesis using assms(1,2) f [of sysc]
    by (auto simp: trap_def trap_syscall_def myproc_def bnd_eq_Inr split: option.splits if_splits
        intro: ex tf_inv)
next
  case False
  then obtain t where t: "trap_event ch b i k u c n cs s = Inr t"
    "exit_if_killed ex c cs t (trap_yield ex c n cs) = Inr (r, s')"
    using assms(1) by (auto simp: trap_def bnd_eq_Inr)
  have "table_inv t" by (rule trap_event_inv [OF t(1) assms(2)]) (use f in auto)
  with t(2) show ?thesis by (rule trap_tail_inv [where ex = ex, rotated]) (rule ex)
qed

text \<open>A fault in the kernel panics; in user mode it is the end of the process.\<close>

definition irq_vectors :: "u32 list" where
  "irq_vectors = [T_SYSCALL, T_IRQ0 + IRQ_TIMER, T_IRQ0 + IRQ_IDE, T_IRQ0 + IRQ_IDE + 1, T_IRQ0 + IRQ_KBD,
     T_IRQ0 + IRQ_COM1, T_IRQ0 + 7, T_IRQ0 + IRQ_SPURIOUS]"

lemma trap_fault:
  assumes "n \<notin> set irq_vectors" "myproc c s = Some p" "p < length (procs s)"
  shows "cs AND 3 = 0 \<Longrightarrow> trap ch b ex sysc i k u c tf n cs s = Inl (Panic ''trap'')"
    and "cs AND 3 = DPL_USER \<Longrightarrow> trap ch b ex sysc i k u c tf n cs s =
      bnd (ex c p (upd_proc p (\<lambda>p. p\<lparr>p_killed := True\<rparr>) s)) (\<lambda>s. Inr (Exited, s))"
  using assms
  by (simp_all add: trap_def trap_event_def irq_vectors_def exit_if_killed_def myproc_def upd_proc_def DPL_USER_def)

lemma negative_large: "n <s 0 \<Longrightarrow> 2 ^ 31 \<le> unat n" for n :: u32
proof -
  assume "n <s 0"
  then have r: "sint n < 0" "- (2 ^ 31) \<le> sint n" using sint_ge [of n] by (simp_all add: word_sless_alt)
  have "uint (word_of_int (sint n) :: u32) = sint n mod 2 ^ 32" by (simp only: uint_word_of_int) simp
  then have "uint n = (sint n + 2 ^ 32) mod 2 ^ 32" by simp
  also have "\<dots> = sint n + 2 ^ 32" using r by (intro mod_pos_pos_trivial) simp_all
  finally have "2 ^ 31 \<le> uint n" using r by simp
  then have "nat (2 ^ 31) \<le> nat (uint n)" by (rule nat_mono)
  then show ?thesis by (simp only: nat_uint_eq) simp
qed

text \<open>A negative argument of \<^verbatim>\<open>sleep\<close> is a number of at least \<open>2 ^ 31\<close> ticks.\<close>

lemma sleep_negative:
  assumes "n <s 0" "sleep_round ch c cur n ticks0 s = Inr (SleepRet 0, s')"
  shows "2 ^ 31 \<le> unat (ticks s - ticks0)"
proof -
  have "2 ^ 31 \<le> unat n" by (rule negative_large [OF assms(1)])
  moreover have "\<not> ticks s - ticks0 < n"
    using assms(2) by (auto simp: sleep_round_def bnd_eq_Inr split: if_splits)
  ultimately show ?thesis by (simp add: word_less_nat_alt)
qed

end
