(* ===== verification/Exec.thy ===== *)
theory Exec
  imports Proc Boot
begin

text \<open>
  \<^verbatim>\<open>exec.c\<close> on the page tables and the process table. The program file is an argument: \<open>rd off n\<close> is
  what \<^verbatim>\<open>readi\<close> delivers, as for \<^verbatim>\<open>loaduvm\<close>, and the file is \<open>None\<close> when \<^verbatim>\<open>namei\<close> does not find the path. The
  calls to the file system that change its state are recorded in order.
\<close>

datatype fs_call = Begin_op | End_op | Ilock | Iunlockput

type_synonym prog_file = "u32 \<Rightarrow> u32 \<Rightarrow> u8 list option"

definition MAXARG :: nat where "MAXARG = 32"
definition ELF_PROG_LOAD :: u32 where "ELF_PROG_LOAD = 1"
definition ph_type :: "bytes \<Rightarrow> u32 \<Rightarrow> u32" where "ph_type m a = get32 m (unat a)"
definition ph_vaddr :: "bytes \<Rightarrow> u32 \<Rightarrow> u32" where "ph_vaddr m a = get32 m (unat (a + 8))"

text \<open>A structure of \<open>n\<close> bytes at an offset of the file, if it can be read whole.\<close>

definition read_struct :: "prog_file \<Rightarrow> u32 \<Rightarrow> nat \<Rightarrow> bytes option" where
  "read_struct rd off n =
     (case rd off (of_nat n) of
        None \<Rightarrow> None
      | Some bs \<Rightarrow> if length bs \<noteq> n then None else Some (\<lambda>i. bs ! i))"

text \<open>The loop over the program headers, \<open>n\<close> of them left; \<open>None\<close> is the jump to \<^verbatim>\<open>bad\<close>.\<close>

primrec exec_load ::
  "u32 \<Rightarrow> prog_file \<Rightarrow> u32 \<Rightarrow> nat \<Rightarrow> u32 \<Rightarrow> u32 \<Rightarrow> 'a kmem_scheme \<Rightarrow> (u32 option \<times> 'a kmem_scheme) res" where
  "exec_load kend rd pgdir 0 off sz s = Inr (Some sz, s)"
| "exec_load kend rd pgdir (Suc n) off sz s =
     (case read_struct rd off 32 of
        None \<Rightarrow> Inr (None, s)
      | Some ph \<Rightarrow>
          if ph_type ph 0 \<noteq> ELF_PROG_LOAD then exec_load kend rd pgdir n (off + 32) sz s
          else if ph_memsz ph 0 < ph_filesz ph 0 then Inr (None, s)
          else if ph_vaddr ph 0 + ph_memsz ph 0 < ph_vaddr ph 0 then Inr (None, s)
          else
            bnd (allocuvm kend pgdir sz (ph_vaddr ph 0 + ph_memsz ph 0) s) (\<lambda>(sz, s).
            if sz = 0 then Inr (None, s)
            else if ph_vaddr ph 0 mod 4096 \<noteq> 0 then Inr (None, s)
            else
              bnd (loaduvm rd pgdir (ph_vaddr ph 0) (ph_off ph 0) (ph_filesz ph 0) s) (\<lambda>(r, s).
              if r < 0 then Inr (None, s) else exec_load kend rd pgdir n (off + 32) sz s)))"

text \<open>The loop over the argument strings: the stack pointer and the addresses of the strings.\<close>

primrec exec_args ::
  "u32 \<Rightarrow> u8 list list \<Rightarrow> u32 \<Rightarrow> u32 list \<Rightarrow> 'a kmem_scheme \<Rightarrow> ((u32 \<times> u32 list) option \<times> 'a kmem_scheme) res" where
  "exec_args pgdir [] sp args s = Inr (Some (sp, args), s)"
| "exec_args pgdir (a # argv) sp args s =
     (if length args \<ge> MAXARG then Inr (None, s)
      else
        let sp = (sp - (of_nat (length a) + 1)) AND NOT 3 in
        bnd (copyout pgdir sp (a @ [0]) s) (\<lambda>(r, s).
        if r < 0 then Inr (None, s) else exec_args pgdir argv sp (args @ [sp]) s))"

definition le_bytes :: "u32 \<Rightarrow> u8 list" where
  "le_bytes w = [ucast w, ucast (drop_bit 8 w), ucast (drop_bit 16 w), ucast (drop_bit 24 w)]"

definition ustack :: "u32 \<Rightarrow> u32 list \<Rightarrow> u32 list" where
  "ustack sp args =
     (let argc = of_nat (length args) in [0xffffffff, argc, sp - (argc + 1) * 4] @ args @ [0])"

text \<open>The stack of the new image: its top, or \<open>None\<close> for \<^verbatim>\<open>bad\<close>.\<close>

definition exec_stack ::
  "u32 \<Rightarrow> u32 \<Rightarrow> u8 list list \<Rightarrow> u32 \<Rightarrow> 'a kmem_scheme \<Rightarrow> ((u32 \<times> u32) option \<times> 'a kmem_scheme) res" where
  "exec_stack kend pgdir argv sz s =
     (let sz = PGROUNDUP sz in
      bnd (allocuvm kend pgdir sz (sz + 2 * 4096) s) (\<lambda>(sz, s).
      if sz = 0 then Inr (None, s)
      else
        bnd (clearpteu pgdir (sz - 2 * 4096) s) (\<lambda>s.
        bnd (exec_args pgdir argv sz [] s) (\<lambda>(r, s).
        case r of
          None \<Rightarrow> Inr (None, s)
        | Some (sp, args) \<Rightarrow>
            let sp' = sp - (3 + of_nat (length args) + 1) * 4 in
            bnd (copyout pgdir sp' (concat (map le_bytes (ustack sp args))) s) (\<lambda>(r, s).
            if r < 0 then Inr (None, s) else Inr (Some (sz, sp'), s))))))"

primrec last_elem :: "u8 list \<Rightarrow> u8 list \<Rightarrow> u8 list" where
  "last_elem l [] = l"
| "last_elem l (c # cs) = last_elem (if c = 47 then cs else l) cs"

text \<open>\<^verbatim>\<open>safestrcpy\<close> into the 16 bytes of \<^verbatim>\<open>name\<close>: \<open>p_name\<close> has the bytes before the NUL.\<close>

definition exec_commit ::
  "u32 \<Rightarrow> nat \<Rightarrow> u8 list \<Rightarrow> u32 \<Rightarrow> u32 \<Rightarrow> u32 \<Rightarrow> u32 \<Rightarrow> 'a ptable_scheme \<Rightarrow> 'a ptable_scheme res" where
  "exec_commit kend cur path pgdir sz start sp s =
     (let oldpgdir = p_pgdir (procs s ! cur);
          s = upd_proc cur (\<lambda>p. p\<lparr>p_name := take 15 (last_elem path path), p_pgdir := pgdir, p_sz := sz\<rparr>) s;
          s = tf_put32 cur 56 start s;
          s = tf_put32 cur 68 sp s
      in bnd (switchuvm (procs s ! cur)) (\<lambda>_. freevm kend oldpgdir s))"

definition exec_bad ::
  "u32 \<Rightarrow> u32 \<Rightarrow> bool \<Rightarrow> fs_call list \<Rightarrow> 'a ptable_scheme \<Rightarrow> (int \<times> fs_call list \<times> 'a ptable_scheme) res" where
  "exec_bad kend pgdir ip calls s =
     bnd (if pgdir \<noteq> 0 then freevm kend pgdir s else Inr s) (\<lambda>s.
     Inr (-1, calls @ (if ip then [Iunlockput, End_op] else []), s))"

definition exec ::
  "u32 \<Rightarrow> u32 \<Rightarrow> nat \<Rightarrow> prog_file option \<Rightarrow> u8 list \<Rightarrow> u8 list list \<Rightarrow> 'a ptable_scheme \<Rightarrow>
   (int \<times> fs_call list \<times> 'a ptable_scheme) res" where
  "exec kend kdata cur prog path argv s =
     (case prog of
        None \<Rightarrow> Inr (-1, [Begin_op, End_op], s)
      | Some rd \<Rightarrow>
          let calls = [Begin_op, Ilock] in
          case read_struct rd 0 52 of
            None \<Rightarrow> exec_bad kend 0 True calls s
          | Some elf \<Rightarrow>
              if elf_magic elf 0 \<noteq> ELF_MAGIC then exec_bad kend 0 True calls s
              else
                bnd (setupkvm kend kdata s) (\<lambda>(pgdir, s).
                if pgdir = 0 then exec_bad kend 0 True calls s
                else
                  bnd (exec_load kend rd pgdir (unat (elf_phnum elf 0)) (elf_phoff elf 0) 0 s) (\<lambda>(r, s).
                  case r of
                    None \<Rightarrow> exec_bad kend pgdir True calls s
                  | Some sz \<Rightarrow>
                      let calls = calls @ [Iunlockput, End_op] in
                      bnd (exec_stack kend pgdir argv sz s) (\<lambda>(r, s).
                      case r of
                        None \<Rightarrow> exec_bad kend pgdir False calls s
                      | Some (sz, sp) \<Rightarrow>
                          bnd (exec_commit kend cur path pgdir sz (elf_entry elf 0) sp s) (\<lambda>s.
                          Inr (0, calls, s))))))"

section \<open>Frames of the page table operations\<close>

lemma load_loop_more: "load_loop rd pgdir addr off i sz s = Inr (r, s') \<Longrightarrow> kmem.more s' = kmem.more s"
proof (induction rd pgdir addr off i sz s rule: load_loop.induct)
  case (1 rd pgdir addr off i sz s)
  note IH = "1.IH" and P = "1.prems"
  show ?case
  proof (cases "i < sz")
    case True
    then obtain pte where w: "fst (walkpgdir pgdir (addr + of_nat i) False s) = Some pte"
      using P by (subst (asm) load_loop.simps) (auto split: option.splits)
    show ?thesis using P True w IH [OF True w refl refl]
      by (subst (asm) load_loop.simps) (auto simp: Let_def split: option.splits if_splits)
  qed (use P in \<open>subst (asm) load_loop.simps, simp\<close>)
qed

lemma loaduvm_more: "loaduvm rd pgdir addr off sz s = Inr (r, s') \<Longrightarrow> kmem.more s' = kmem.more s"
  by (auto simp: loaduvm_def split: if_splits dest: load_loop_more)

lemma alloc_loop_more: "alloc_loop kend pgdir oldsz newsz a s = Inr (r, s') \<Longrightarrow> kmem.more s' = kmem.more s"
proof (induction kend pgdir oldsz newsz a s rule: alloc_loop.induct)
  case (1 kend pgdir oldsz newsz a s)
  show ?case
  proof (cases "a < unat newsz")
    case True
    obtain mem t where k: "kalloc s = (mem, t)" by fastforce
    let ?t = "set_page (frame_of mem) (\<lambda>_. 0) t"
    have m: "kmem.more t = kmem.more s" by (rule kalloc_more [OF k])
    show ?thesis
    proof (cases "mem = 0")
      case True
      then show ?thesis using "1.prems" \<open>a < unat newsz\<close> k m
        by (subst (asm) alloc_loop.simps) (auto simp: bnd_eq_Inr dest!: deallocuvm_more)
    next
      case False
      then obtain q u where u: "mappages pgdir (of_nat a) 4096 (V2P mem) (PTE_W OR PTE_U) ?t = Inr (q, u)"
        "(if q < 0 then bnd (deallocuvm kend pgdir newsz oldsz u) (\<lambda>(_, s). bnd (kfree kend mem s) (\<lambda>s. Inr (0, s)))
          else alloc_loop kend pgdir oldsz newsz (a + PGSIZE) u) = Inr (r, s')"
        using "1.prems" \<open>a < unat newsz\<close> k by (subst (asm) alloc_loop.simps) (auto simp: bnd_eq_Inr)
      have mu: "kmem.more u = kmem.more s" using mappages_more [OF u(1)] m by simp
      show ?thesis
      proof (cases "q < 0")
        case True
        then show ?thesis using u(2) mu by (auto simp: bnd_eq_Inr dest!: deallocuvm_more kfree_more)
      next
        case q: False
        then have c: "alloc_loop kend pgdir oldsz newsz (a + PGSIZE) u = Inr (r, s')" using u(2) by simp
        show ?thesis using "1.IH" [OF \<open>a < unat newsz\<close> k [symmetric] refl False refl u(1) refl _ c] q mu by simp
      qed
    qed
  qed (use "1.prems" in \<open>subst (asm) alloc_loop.simps, simp\<close>)
qed

lemma allocuvm_more: "allocuvm kend pgdir oldsz newsz s = Inr (r, s') \<Longrightarrow> kmem.more s' = kmem.more s"
  by (auto simp: allocuvm_def split: if_splits dest: alloc_loop_more)

lemma clearpteu_more: "clearpteu pgdir uva s = Inr s' \<Longrightarrow> kmem.more s' = kmem.more s"
  by (auto simp: clearpteu_def split: option.splits)

lemma copyout_more: "copyout pgdir va bs s = Inr (r, s') \<Longrightarrow> kmem.more s' = kmem.more s"
proof (induction pgdir va bs s rule: copyout.induct)
  case (1 pgdir va bs s)
  show ?case
  proof (cases "bs = []")
    case False
    then obtain pa where u: "uva2ka pgdir (PGROUNDDOWN va) s = Inr pa"
      using "1.prems" by (subst (asm) copyout.simps) (auto simp: Let_def split: sum.splits)
    show ?thesis
    proof (cases "pa = 0")
      case True
      then show ?thesis using "1.prems" False u by (subst (asm) copyout.simps) (simp add: Let_def)
    next
      case pa: False
      show ?thesis using "1.prems" False u pa "1.IH" [OF False refl u pa refl refl refl]
        by (subst (asm) copyout.simps) (simp add: Let_def)
    qed
  qed (use "1.prems" in \<open>subst (asm) copyout.simps, simp\<close>)
qed

lemma exec_load_more: "exec_load kend rd pgdir n off sz s = Inr (r, s') \<Longrightarrow> kmem.more s' = kmem.more s"
proof (induction n arbitrary: off sz s)
  case (Suc n)
  show ?case using Suc.prems
    by (auto simp: bnd_eq_Inr split: option.splits if_splits dest!: Suc.IH loaduvm_more allocuvm_more)
qed simp

lemma exec_args_more: "exec_args pgdir argv sp args s = Inr (r, s') \<Longrightarrow> kmem.more s' = kmem.more s"
proof (induction argv arbitrary: sp args s)
  case (Cons a argv)
  show ?case using Cons.prems
    by (auto simp: bnd_eq_Inr Let_def split: if_splits dest!: Cons.IH copyout_more)
qed simp

lemma exec_stack_more: "exec_stack kend pgdir argv sz s = Inr (r, s') \<Longrightarrow> kmem.more s' = kmem.more s"
  by (auto simp: exec_stack_def Let_def bnd_eq_Inr split: option.splits if_splits
      dest!: allocuvm_more clearpteu_more exec_args_more copyout_more)

section \<open>What exec does\<close>

text \<open>A failed \<^verbatim>\<open>exec\<close> leaves the process table, so also the image of the caller, as it was; and on
  every return the file system calls are paired.\<close>

lemma exec_fails:
  assumes "exec kend kdata cur prog path argv s = Inr (r, calls, s')" "r \<noteq> 0"
  shows "r = -1 \<and> kmem.more s' = kmem.more s"
  using assms
  by (auto simp: exec_def exec_bad_def Let_def bnd_eq_Inr split: option.splits if_splits
      dest!: setupkvm_more exec_load_more exec_stack_more freevm_more)

lemma exec_calls:
  assumes "exec kend kdata cur prog path argv s = Inr (r, calls, s')"
  shows "calls = [Begin_op, Ilock, Iunlockput, End_op] \<or> prog = None \<and> calls = [Begin_op, End_op]"
  using assms
  by (auto simp: exec_def exec_bad_def Let_def bnd_eq_Inr split: option.splits if_splits)

text \<open>The arguments: no more than \<^verbatim>\<open>MAXARG\<close>, one address for each, every one a multiple of 4.\<close>

lemma exec_args_addresses:
  "exec_args pgdir argv sp args s = Inr (Some (sp', args'), s') \<Longrightarrow> length args \<le> MAXARG \<Longrightarrow>
   length args' = length args + length argv \<and> length args' \<le> MAXARG \<and>
   (\<forall>a \<in> set args' - set args. a AND 3 = 0)"
proof (induction argv arbitrary: sp args s)
  case (Cons a argv)
  let ?sp = "(sp - (of_nat (length a) + 1)) AND NOT 3"
  obtain t where t: "length args < MAXARG" "exec_args pgdir argv ?sp (args @ [?sp]) t = Inr (Some (sp', args'), s')"
    using Cons.prems(1) by (auto simp: Let_def bnd_eq_Inr split: if_splits)
  have "?sp AND 3 = 0" by (simp add: and.assoc)
  then show ?case using Cons.IH [OF t(2)] t(1) by auto
qed simp

text \<open>A successful one changes the entry of the caller only, and there the image and the name.\<close>

lemma exec_commit_table:
  assumes "exec_commit kend cur path pgdir sz start sp s = Inr s'"
  shows "procs s' = procs (upd_proc cur (\<lambda>p. p\<lparr>p_name := take 15 (last_elem path path), p_pgdir := pgdir, p_sz := sz\<rparr>) s)"
  using assms
  by (auto simp: exec_commit_def Let_def bnd_eq_Inr tf_put32_def dest!: freevm_more dest: table_frame(1))

lemma exec_succeeds:
  assumes "exec kend kdata cur prog path argv s = Inr (0, calls, s')"
  shows "\<exists>d sz. d \<noteq> 0 \<and> procs s' =
    (procs s)[cur := (procs s ! cur)\<lparr>p_name := take 15 (last_elem path path), p_pgdir := d, p_sz := sz\<rparr>]"
proof -
  obtain rd elf d t sz0 u sz sp v where e: "setupkvm kend kdata s = Inr (d, t)" "d \<noteq> 0"
    "exec_load kend rd d (unat (elf_phnum elf 0)) (elf_phoff elf 0) 0 t = Inr (Some sz0, u)"
    "exec_stack kend d argv sz0 u = Inr (Some (sz, sp), v)"
    "exec_commit kend cur path d sz (elf_entry elf 0) sp v = Inr s'"
    using assms
    by (auto simp: exec_def exec_bad_def Let_def bnd_eq_Inr split: option.splits if_splits)
  have "kmem.more v = kmem.more s"
    using setupkvm_more [OF e(1)] exec_load_more [OF e(3)] exec_stack_more [OF e(4)] by simp
  then have "procs v = procs s" by (rule table_frame)
  then show ?thesis using exec_commit_table [OF e(5)] e(2) by (auto simp: upd_proc_def)
qed

text \<open>
  C33. Whatever the program, its arguments and the memory: when \<^verbatim>\<open>exec\<close> returns, its file system calls are paired
  (the inode it locked is unlocked and put, the operation it began is ended), and it has either failed with -1
  and left the process table and all of the state behind it as it was, or succeeded and changed of the table only
  the page table, size and name of the caller.
\<close>

theorem exec_transaction:
  "wlp (exec kend kdata cur prog path argv s) (\<lambda>(r, calls, s').
     (calls = [Begin_op, Ilock, Iunlockput, End_op] \<or> prog = None \<and> calls = [Begin_op, End_op]) \<and>
     (r = -1 \<and> kmem.more s' = kmem.more s \<or>
      r = 0 \<and> (\<exists>d sz. 0 < d \<and> procs s' =
        (procs s)[cur := (procs s ! cur)\<lparr>p_name := take 15 (last_elem path path), p_pgdir := d, p_sz := sz\<rparr>])))"
proof (cases "exec kend kdata cur prog path argv s")
  case (Inr x)
  obtain r calls s' where x: "x = (r, calls, s')" by (cases x)
  have e: "exec kend kdata cur prog path argv s = Inr (r, calls, s')" using Inr x by simp
  show ?thesis
  proof (cases "r = 0")
    case True
    with e have e0: "exec kend kdata cur prog path argv s = Inr (0, calls, s')" by simp
    show ?thesis using exec_calls [OF e] exec_succeeds [OF e0] by (simp add: e0 word_neq_0_conv)
  next
    case False
    show ?thesis using exec_calls [OF e] exec_fails [OF e False] by (simp add: e)
  qed
qed simp

end
