(* ===== verification/Mkfs.thy ===== *)
theory Mkfs
  imports Fs_File Ide
begin

text \<open>
  The tool that builds the disk image (\<^verbatim>\<open>mkfs.c\<close>): a sector file on the host, and the inode and block
  counters. Structures of the image are bytes in Intel order, which is what \<^verbatim>\<open>xshort\<close> and \<^verbatim>\<open>xint\<close> make of them
  on any host. An assertion that fails and an \<^verbatim>\<open>exit(1)\<close> are the result \<open>Panic\<close>. Writes of the host succeed;
  a read past the end of the image file fails. The files to copy are arguments.
\<close>

record mkfs =
  sects :: "nat \<Rightarrow> bytes"
  nsects :: nat
  freeinode :: u32
  freeblock :: u32

definition NINODES :: nat where "NINODES = 200"
definition nbitmap :: nat where "nbitmap = FSSIZE div (BSIZE * 8) + 1"
definition ninodeblocks :: nat where "ninodeblocks = NINODES div IPB + 1"
definition nlog :: nat where "nlog = LOGSIZE"
definition nmeta :: nat where "nmeta = 2 + nlog + ninodeblocks + nbitmap"
definition nblocks :: nat where "nblocks = FSSIZE - nmeta"
definition mk_inodestart :: u32 where "mk_inodestart = of_nat (2 + nlog)"
definition mk_bmapstart :: u32 where "mk_bmapstart = of_nat (2 + nlog + ninodeblocks)"

text \<open>The superblock, by the words of \<^verbatim>\<open>struct superblock\<close>.\<close>

definition mk_sb :: bytes where
  "mk_sb = fold (\<lambda>(i, v) m. put32 m (4 * i) v)
     (zip [0..<7] [of_nat FSSIZE, of_nat nblocks, of_nat NINODES, of_nat nlog, 2, mk_inodestart, mk_bmapstart]) (\<lambda>_. 0)"

section \<open>Sectors and inodes\<close>

text \<open>The offset of a sector is a 32-bit product.\<close>

definition sect_pos :: "u32 \<Rightarrow> nat" where
  "sect_pos sec = unat (sec * 512) div 512"

definition wsect :: "u32 \<Rightarrow> bytes \<Rightarrow> mkfs \<Rightarrow> mkfs" where
  "wsect sec buf s =
     s\<lparr>sects := (sects s)(sect_pos sec := buf), nsects := max (nsects s) (sect_pos sec + 1)\<rparr>"

definition rsect :: "u32 \<Rightarrow> mkfs \<Rightarrow> bytes res" where
  "rsect sec s = (if sect_pos sec < nsects s then Inr (sects s (sect_pos sec)) else Inl (Panic ''read''))"

definition winode :: "u32 \<Rightarrow> bytes \<Rightarrow> mkfs \<Rightarrow> mkfs res" where
  "winode inum din s =
     (let bn = inum div 8 + mk_inodestart; p = dip_off (unat inum) in
      bnd (rsect bn s) (\<lambda>buf.
      Inr (wsect bn (\<lambda>i. if p \<le> i \<and> i < p + 64 then din (i - p) else buf i) s)))"

definition rinode :: "u32 \<Rightarrow> mkfs \<Rightarrow> bytes res" where
  "rinode inum s =
     (let bn = inum div 8 + mk_inodestart in
      bnd (rsect bn s) (\<lambda>buf. Inr (\<lambda>i. buf (dip_off (unat inum) + i))))"

definition mkfs_ialloc :: "u16 \<Rightarrow> mkfs \<Rightarrow> (u32 \<times> mkfs) res" where
  "mkfs_ialloc ty s =
     (let inum = freeinode s;
          s = s\<lparr>freeinode := freeinode s + 1\<rparr>;
          din = put32 (put16 (put16 (\<lambda>_. 0) 0 ty) 6 1) 8 0
      in bnd (winode inum din s) (\<lambda>s. Inr (inum, s)))"

definition mark_used :: "nat \<Rightarrow> bytes \<Rightarrow> bytes" where
  "mark_used i buf = buf(i div 8 := buf (i div 8) OR push_bit (i mod 8) 1)"

definition mkfs_balloc :: "u32 \<Rightarrow> mkfs \<Rightarrow> mkfs res" where
  "mkfs_balloc used s =
     (if \<not> sint used < int BSIZE * 8 then Inl (Panic ''assert'')
      else Inr (wsect mk_bmapstart (fold mark_used [0..<nat (sint used)] (\<lambda>_. 0)) s))"

section \<open>Appending to a file\<close>

text \<open>An address at \<open>a\<close> in the inode, allocated if it is 0.\<close>

definition take_addr :: "nat \<Rightarrow> bytes \<Rightarrow> mkfs \<Rightarrow> bytes \<times> mkfs" where
  "take_addr a d s =
     (if get32 d a = 0 then (put32 d a (freeblock s), s\<lparr>freeblock := freeblock s + 1\<rparr>) else (d, s))"

definition file_block :: "bytes \<Rightarrow> nat \<Rightarrow> mkfs \<Rightarrow> (u32 \<times> bytes \<times> mkfs) res" where
  "file_block din fbn s =
     (if fbn < NDIRECT then
        case take_addr (12 + 4 * fbn) din s of (din, s) \<Rightarrow> Inr (get32 din (12 + 4 * fbn), din, s)
      else
        case take_addr (12 + 4 * NDIRECT) din s of (din, s) \<Rightarrow>
        let ib = get32 din (12 + 4 * NDIRECT); k = 4 * (fbn - NDIRECT) in
        bnd (rsect ib s) (\<lambda>indirect.
        if get32 indirect k = 0 then
          case take_addr k indirect s of (indirect, s) \<Rightarrow> Inr (get32 indirect k, din, wsect ib indirect s)
        else Inr (get32 indirect k, din, s)))"

lemma room_pos: "off div 512 < 140 \<Longrightarrow> 0 < unat ((off div 512 + 1) * 512 - off)" for off :: u32
proof -
  assume "off div 512 < 140"
  then have l: "unat off div 512 < 140" by (simp add: word_less_nat_alt unat_div)
  have "unat ((off div 512 + 1) * 512) = (unat off div 512 + 1) * 512"
    using l by (simp add: unat_word_ariths unat_div)
  moreover have "unat off < (unat off div 512 + 1) * 512"
    using div_mult_mod_eq [of "unat off" 512] mod_less_divisor [of 512 "unat off"] by (simp add: add_mult_distrib)
  ultimately have "unat ((off div 512 + 1) * 512) \<noteq> unat off" by linarith
  then have "(off div 512 + 1) * 512 - off \<noteq> 0" by auto
  then show ?thesis by (simp add: unat_gt_0)
qed

function iappend_loop :: "bytes \<Rightarrow> u32 \<Rightarrow> u8 list \<Rightarrow> mkfs \<Rightarrow> (bytes \<times> u32 \<times> mkfs) res" where
  "iappend_loop din off p s =
     (if p = [] then Inr (din, off, s)
      else
        let fbn = off div 512 in
        if \<not> fbn < of_nat MAXFILE then Inl (Panic ''assert'')
        else
          bnd (file_block din (unat fbn) s) (\<lambda>(x, din, s).
          let n1 = min (length p) (unat ((fbn + 1) * 512 - off)) in
          bnd (rsect x s) (\<lambda>buf.
          iappend_loop din (off + of_nat n1) (drop n1 p)
            (wsect x (put_bytes buf (unat (off - fbn * 512)) (take n1 p)) s))))"
  by pat_completeness auto
termination
  by (relation "measure (\<lambda>(din, off, p, s). length p)") (use room_pos in \<open>auto simp: min_def MAXFILE_def\<close>)

declare iappend_loop.simps [simp del]

definition iappend :: "u32 \<Rightarrow> u8 list \<Rightarrow> mkfs \<Rightarrow> mkfs res" where
  "iappend inum p s =
     bnd (rinode inum s) (\<lambda>din.
     bnd (iappend_loop din (get32 din 8) p s) (\<lambda>(din, off, s).
     winode inum (put32 din 8 off) s))"

section \<open>Building the image\<close>

definition mkfs_dirent :: "u32 \<Rightarrow> u8 list \<Rightarrow> u8 list" where
  "mkfs_dirent inum name =
     [ucast inum, ucast (drop_bit 8 inum)] @ take DIRSIZ name @ replicate (DIRSIZ - length name) 0"

text \<open>A file: its name and, if it can be opened, the results of the reads.\<close>

definition copy_file :: "u32 \<Rightarrow> u8 list \<times> u8 list list option \<Rightarrow> mkfs \<Rightarrow> mkfs res" where
  "copy_file rootino f s =
     (case f of (name, reads) \<Rightarrow>
      if slash \<in> set name then Inl (Panic ''assert'')
      else (case reads of
          None \<Rightarrow> Inl (Panic ''open'')
        | Some bs \<Rightarrow>
            let name = (if name \<noteq> [] \<and> hd name = 95 then tl name else name) in
            bnd (mkfs_ialloc T_FILE s) (\<lambda>(inum, s).
            bnd (iappend rootino (mkfs_dirent inum name) s) (\<lambda>s.
            fold (\<lambda>b r. bnd r (iappend inum b)) bs (Inr s)))))"

definition fix_root :: "u32 \<Rightarrow> mkfs \<Rightarrow> mkfs res" where
  "fix_root rootino s =
     bnd (rinode rootino s) (\<lambda>din.
     winode rootino (put32 din 8 ((get32 din 8 div 512 + 1) * 512)) s)"

definition mkfs_main :: "(u8 list \<times> u8 list list option) list \<Rightarrow> mkfs res" where
  "mkfs_main files =
     (let s = \<lparr>sects = \<lambda>_ _. 0, nsects = 0, freeinode = 1, freeblock = of_nat nmeta\<rparr>;
          s = fold (\<lambda>i. wsect (of_nat i) (\<lambda>_. 0)) [0..<FSSIZE] s;
          s = wsect 1 mk_sb s
      in bnd (mkfs_ialloc T_DIR s) (\<lambda>(rootino, s).
         if rootino \<noteq> of_nat ROOTINO then Inl (Panic ''assert'')
         else
           bnd (iappend rootino (mkfs_dirent rootino (str ''.'')) s) (\<lambda>s.
           bnd (iappend rootino (mkfs_dirent rootino (str ''..'')) s) (\<lambda>s.
           bnd (fold (\<lambda>f r. bnd r (copy_file rootino f)) files (Inr s)) (\<lambda>s.
           bnd (fix_root rootino s) (\<lambda>s.
           mkfs_balloc (freeblock s) s))))))"

section \<open>The image\<close>

text \<open>The metadata regions follow each other and leave the data blocks.\<close>

lemma mkfs_layout:
  "nmeta = 59" "nblocks = 941" "unat mk_inodestart = 32" "unat mk_bmapstart = 58"
  "unat mk_bmapstart + nbitmap = nmeta" "NINODES \<le> ninodeblocks * IPB"
  by (simp_all add: nmeta_def nblocks_def nlog_def ninodeblocks_def nbitmap_def NINODES_def FSSIZE_def
      mk_inodestart_def mk_bmapstart_def)

text \<open>The bitmap has exactly the bits of the used blocks.\<close>

lemma mark_used_bits: "j < 8 \<Longrightarrow> bit (fold mark_used [0..<n] (\<lambda>_. 0) q) j \<longleftrightarrow> 8 * q + j < n"
proof (induction n)
  case (Suc n)
  have "q = n div 8 \<and> j = n mod 8 \<longleftrightarrow> 8 * q + j = n" using Suc.prems by auto
  then show ?case using Suc by (auto simp: mark_used_def bit_simps)
qed simp

lemma balloc_bitmap:
  assumes "mkfs_balloc used s = Inr s'" "0 \<le> sint used" "j < 8"
  shows "bit (sects s' 58 q) j \<longleftrightarrow> 8 * q + j < nat (sint used)"
proof -
  have "sect_pos mk_bmapstart = 58"
    by (simp add: sect_pos_def mk_bmapstart_def nlog_def ninodeblocks_def NINODES_def)
  then show ?thesis using assms mark_used_bits [OF assms(3)]
    by (auto simp: mkfs_balloc_def wsect_def split: if_splits)
qed

text \<open>Appending adds the number of bytes to the size of the inode.\<close>

lemma rinode_winode:
  assumes "winode inum din s = Inr s'"
  shows "\<exists>d. rinode inum s' = Inr d \<and> (\<forall>i<64. d i = din i)"
  using assms by (auto simp: winode_def rinode_def rsect_def wsect_def Let_def bnd_eq_Inr split: if_splits)

lemma iappend_loop_off:
  "iappend_loop din off p s = Inr (din', off', s') \<Longrightarrow> off' = off + of_nat (length p)"
proof (induction din off p s rule: iappend_loop.induct)
  case (1 din off p s)
  show ?case
  proof (cases "p = []")
    case False
    let ?n = "min (length p) (unat ((off div 512 + 1) * 512 - off))"
    obtain x d t buf where b: "off div 512 < of_nat MAXFILE" "file_block din (unat (off div 512)) s = Inr (x, d, t)"
      "rsect x t = Inr buf"
      "iappend_loop d (off + of_nat ?n) (drop ?n p)
        (wsect x (put_bytes buf (unat (off - off div 512 * 512)) (take ?n p)) t) = Inr (din', off', s')"
      using "1.prems" False by (subst (asm) iappend_loop.simps) (auto simp: Let_def bnd_eq_Inr split: if_splits)
    have "off' = off + of_nat ?n + of_nat (length (drop ?n p))"
      using "1.IH" [OF False refl _ b(2) refl refl refl b(3,4)] b(1) by simp
    also have "\<dots> = off + of_nat (?n + length (drop ?n p))" by (simp only: of_nat_add add.assoc)
    also have "?n + length (drop ?n p) = length p" by simp
    finally show ?thesis .
  qed (use "1.prems" in \<open>subst (asm) iappend_loop.simps, simp\<close>)
qed

lemma iappend_size:
  assumes "iappend inum p s = Inr s'" "rinode inum s = Inr d"
  shows "\<exists>d'. rinode inum s' = Inr d' \<and> get32 d' 8 = get32 d 8 + of_nat (length p)"
proof -
  obtain din off t where t: "iappend_loop d (get32 d 8) p s = Inr (din, off, t)"
    "winode inum (put32 din 8 off) t = Inr s'"
    using assms by (auto simp: iappend_def bnd_eq_Inr)
  obtain d' where d': "rinode inum s' = Inr d'" "\<forall>i<64. d' i = put32 din 8 off i"
    using rinode_winode [OF t(2)] by blast
  have "get32 d' 8 = get32 (put32 din 8 off) 8" by (rule get32_cong) (use d'(2) in auto)
  then show ?thesis using d'(1) iappend_loop_off [OF t(1)] by simp
qed

end
