(* ===== verification/Coreutils.thy ===== *)
theory Coreutils
  imports Cstring Sh
begin

text \<open>
  The small user programs \<^verbatim>\<open>cat\<close>, \<^verbatim>\<open>echo\<close>, \<^verbatim>\<open>kill\<close>, \<^verbatim>\<open>ln\<close>, \<^verbatim>\<open>mkdir\<close>, \<^verbatim>\<open>rm\<close>, \<^verbatim>\<open>init\<close>, \<^verbatim>\<open>zombie\<close>, \<^verbatim>\<open>forktest\<close>,
  \<^verbatim>\<open>stressfs\<close> and \<^verbatim>\<open>arptest\<close>. A program is a function from the values the kernel returns, in order, to the
  system calls it makes.
\<close>

section \<open>Programs and system calls\<close>

text \<open>
  What a call returns: the value, and for \<^verbatim>\<open>read\<close> the bytes it stores. \<^verbatim>\<open>printf\<close> is one event with
  the formatted text, and its result is ignored by all programs.
\<close>

type_synonym ret = "int \<times> u8 list"

datatype ucall =
    URead int nat | UWrite int "u8 list" | UOpen string int | UClose int | UMknod string int int | UDup int
  | UFork | UExec string "string list" | UWait | USleep int | UKill int | ULink string string
  | UMkdir string | UUnlink string | UArp string string int int | UPrint int string

text \<open>How a run ends: by \<^verbatim>\<open>exit\<close>, in a call that does not return, or in a loop of the program itself.\<close>

datatype ustat = Exited | Waiting | Looping

type_synonym run = "ucall list \<times> ustat"

definition uexit :: "ret list \<Rightarrow> run" where
  "uexit rs = ([], Exited)"

definition sys :: "ucall \<Rightarrow> (int \<Rightarrow> u8 list \<Rightarrow> ret list \<Rightarrow> run) \<Rightarrow> ret list \<Rightarrow> run" where
  "sys c k rs = (case rs of [] \<Rightarrow> ([c], Waiting) | r # rs \<Rightarrow> apfst (Cons c) (k (fst r) (snd r) rs))"

definition uprint :: "int \<Rightarrow> string \<Rightarrow> (ret list \<Rightarrow> run) \<Rightarrow> ret list \<Rightarrow> run" where
  "uprint fd msg k rs = apfst (Cons (UPrint fd msg)) (k rs)"

lemma sys_cong [fundef_cong]:
  "c = c' \<Longrightarrow> rs = rs' \<Longrightarrow> (\<And>v b rs1. rs' = (v, b) # rs1 \<Longrightarrow> k v b rs1 = k' v b rs1) \<Longrightarrow> sys c k rs = sys c' k' rs'"
  by (auto simp: sys_def split: list.split)

lemma uprint_cong [fundef_cong]:
  "fd = fd' \<Longrightarrow> msg = msg' \<Longrightarrow> rs = rs' \<Longrightarrow> k rs' = k' rs' \<Longrightarrow> uprint fd msg k rs = uprint fd' msg' k' rs'"
  by (simp add: uprint_def)

lemma sys_simps [simp]:
  "sys c k [] = ([c], Waiting)" "sys c k ((v, b) # rs) = apfst (Cons c) (k v b rs)"
  by (simp_all add: sys_def)

definition nl :: string where
  "nl = [CHR 0x0A]"

section \<open>cat\<close>

text \<open>\<^verbatim>\<open>cat(fd)\<close>, followed by \<open>k\<close> when it returns.\<close>

fun cat :: "int \<Rightarrow> (ret list \<Rightarrow> run) \<Rightarrow> ret list \<Rightarrow> run" where
  "cat fd k rs =
     sys (URead fd 512) (\<lambda>n buf rs.
       if n > 0 then
         sys (UWrite 1 (take (nat n) buf)) (\<lambda>m _ rs.
           if m \<noteq> n then uprint 1 (''cat: write error'' @ nl) uexit rs else cat fd k rs) rs
       else if n < 0 then uprint 1 (''cat: read error'' @ nl) uexit rs
       else k rs) rs"

fun cat_files :: "string list \<Rightarrow> ret list \<Rightarrow> run" where
  "cat_files [] rs = uexit rs"
| "cat_files (a # args) rs =
     sys (UOpen a 0) (\<lambda>fd _ rs.
       if fd < 0 then uprint 1 (''cat: cannot open '' @ a @ nl) uexit rs
       else cat fd (sys (UClose fd) (\<lambda>_ _. cat_files args)) rs) rs"

definition cat_main :: "string list \<Rightarrow> ret list \<Rightarrow> run" where
  "cat_main argv rs = (if length argv \<le> 1 then cat 0 uexit rs else cat_files (tl argv) rs)"

section \<open>echo, kill, ln, mkdir, rm and zombie\<close>

fun echo_loop :: "string list \<Rightarrow> ret list \<Rightarrow> run" where
  "echo_loop [] rs = uexit rs"
| "echo_loop (a # args) rs = uprint 1 (a @ (if args \<noteq> [] then '' '' else nl)) (echo_loop args) rs"

definition echo_main :: "string list \<Rightarrow> ret list \<Rightarrow> run" where
  "echo_main argv rs = echo_loop (tl argv) rs"

text \<open>An argument as the C string \<^verbatim>\<open>atoi\<close> reads.\<close>

definition cstring :: "string \<Rightarrow> bytes" where
  "cstring a = (\<lambda>i. if i < length a then of_char (a ! i) else 0)"

fun kill_loop :: "string list \<Rightarrow> ret list \<Rightarrow> run" where
  "kill_loop [] rs = uexit rs"
| "kill_loop (a # args) rs =
     (case atoi (cstring a) 0 of None \<Rightarrow> ([], Looping)
      | Some pid \<Rightarrow> sys (UKill (sint pid)) (\<lambda>_ _. kill_loop args) rs)"

definition kill_main :: "string list \<Rightarrow> ret list \<Rightarrow> run" where
  "kill_main argv rs =
     (if length argv < 2 then uprint 2 (''usage: kill pid...'' @ nl) uexit rs else kill_loop (tl argv) rs)"

definition ln_main :: "string list \<Rightarrow> ret list \<Rightarrow> run" where
  "ln_main argv rs =
     (if length argv \<noteq> 3 then uprint 2 (''Usage: ln old new'' @ nl) uexit rs
      else sys (ULink (argv ! 1) (argv ! 2)) (\<lambda>r _ rs.
        if r < 0 then uprint 2 (''link '' @ argv ! 1 @ '' '' @ argv ! 2 @ '': failed'' @ nl) uexit rs
        else uexit rs) rs)"

fun mkdir_loop :: "string list \<Rightarrow> ret list \<Rightarrow> run" where
  "mkdir_loop [] rs = uexit rs"
| "mkdir_loop (a # args) rs =
     sys (UMkdir a) (\<lambda>r _ rs.
       if r < 0 then uprint 2 (''mkdir: '' @ a @ '' failed to create'' @ nl) uexit rs
       else mkdir_loop args rs) rs"

definition mkdir_main :: "string list \<Rightarrow> ret list \<Rightarrow> run" where
  "mkdir_main argv rs =
     (if length argv < 2 then uprint 2 (''Usage: mkdir files...'' @ nl) uexit rs else mkdir_loop (tl argv) rs)"

fun rm_loop :: "string list \<Rightarrow> ret list \<Rightarrow> run" where
  "rm_loop [] rs = uexit rs"
| "rm_loop (a # args) rs =
     sys (UUnlink a) (\<lambda>r _ rs.
       if r < 0 then uprint 2 (''rm: '' @ a @ '' failed to delete'' @ nl) uexit rs
       else rm_loop args rs) rs"

definition rm_main :: "string list \<Rightarrow> ret list \<Rightarrow> run" where
  "rm_main argv rs =
     (if length argv < 2 then uprint 2 (''Usage: rm files...'' @ nl) uexit rs else rm_loop (tl argv) rs)"

definition zombie_main :: "ret list \<Rightarrow> run" where
  "zombie_main = sys UFork (\<lambda>pid _ rs. if pid > 0 then sys (USleep 5) (\<lambda>_ _. uexit) rs else uexit rs)"

text \<open>\<^verbatim>\<open>arptest\<close>; \<open>mac\<close> is the pointer \<^verbatim>\<open>malloc\<close> returns.\<close>

definition arptest_main :: "int \<Rightarrow> ret list \<Rightarrow> run" where
  "arptest_main mac =
     sys (UArp ''mynet0'' ''192.168.2.1'' mac 18) (\<lambda>r _ rs.
       if r < 0 then uprint 1 (''ARP for IP:'' @ ''192.168.2.1'' @ '' Failed'' @ nl) uexit rs else uexit rs)"

section \<open>init\<close>

fun init_wait :: "int \<Rightarrow> (ret list \<Rightarrow> run) \<Rightarrow> ret list \<Rightarrow> run" where
  "init_wait pid k rs =
     sys UWait (\<lambda>wpid _ rs.
       if wpid \<ge> 0 \<and> wpid \<noteq> pid then uprint 1 (''zombie!'' @ nl) (init_wait pid k) rs else k rs) rs"

declare cat.simps [simp del] init_wait.simps [simp del]

lemma init_wait_cong [fundef_cong]:
  assumes "pid = pid'" "rs = rs'" "\<And>rs1. length rs1 < length rs' \<Longrightarrow> k rs1 = k' rs1"
  shows "init_wait pid k rs = init_wait pid' k' rs'"
proof -
  have "(\<And>rs1. length rs1 < length rs \<Longrightarrow> k rs1 = k' rs1) \<Longrightarrow> init_wait pid k rs = init_wait pid k' rs" for rs
  proof (induction rs rule: length_induct)
    case (1 rs)
    show ?case
    proof (cases rs)
      case (Cons r rs1)
      obtain v b where r: "rs = (v, b) # rs1" using Cons by (cases r) auto
      then have "init_wait pid k rs1 = init_wait pid k' rs1" "k rs1 = k' rs1" using 1 by simp_all
      then show ?thesis unfolding r
        by (simp add: init_wait.simps [of pid k "(v, b) # rs1"] init_wait.simps [of pid k' "(v, b) # rs1"] uprint_def)
    qed (simp add: init_wait.simps)
  qed
  then show ?thesis using assms by simp
qed

function init_loop :: "ret list \<Rightarrow> run" where
  "init_loop rs =
     uprint 1 (''init: starting sh'' @ nl) (sys UFork (\<lambda>pid _ rs.
       if pid < 0 then uprint 1 (''init: fork failed'' @ nl) uexit rs
       else if pid = 0 then
         sys (UExec ''sh'' [''sh'']) (\<lambda>_ _. uprint 1 (''init: exec sh failed'' @ nl) uexit) rs
       else init_wait pid init_loop rs)) rs"
  by pat_completeness auto
termination
  by (relation "measure length") auto

definition init_main :: "ret list \<Rightarrow> run" where
  "init_main =
     sys (UOpen ''console'' O_RDWR) (\<lambda>fd _.
       let start = sys (UDup 0) (\<lambda>_ _. sys (UDup 0) (\<lambda>_ _. init_loop))
       in if fd < 0 then sys (UMknod ''console'' 1 1) (\<lambda>_ _. sys (UOpen ''console'' O_RDWR) (\<lambda>_ _. start))
          else start)"

declare init_loop.simps [simp del]

section \<open>forktest\<close>

text \<open>Its \<^verbatim>\<open>printf\<close> is one \<^verbatim>\<open>write\<close>.\<close>

definition fprintf :: "int \<Rightarrow> string \<Rightarrow> (ret list \<Rightarrow> run) \<Rightarrow> ret list \<Rightarrow> run" where
  "fprintf fd msg k = sys (UWrite fd (map of_char msg)) (\<lambda>_ _. k)"

text \<open>The loop from \<open>n\<close> on with \<open>m\<close> rounds to go, and the loop of waits.\<close>

fun fork_loop :: "nat \<Rightarrow> nat \<Rightarrow> (nat \<Rightarrow> ret list \<Rightarrow> run) \<Rightarrow> ret list \<Rightarrow> run" where
  "fork_loop 0 n k rs = k n rs"
| "fork_loop (Suc m) n k rs =
     sys UFork (\<lambda>pid _ rs.
       if pid < 0 then k n rs else if pid = 0 then uexit rs else fork_loop m (n + 1) k rs) rs"

fun reap_loop :: "nat \<Rightarrow> (ret list \<Rightarrow> run) \<Rightarrow> ret list \<Rightarrow> run" where
  "reap_loop 0 k rs = k rs"
| "reap_loop (Suc n) k rs =
     sys UWait (\<lambda>r _ rs. if r < 0 then fprintf 1 (''wait stopped early'' @ nl) uexit rs else reap_loop n k rs) rs"

definition forktest_N :: nat where
  "forktest_N = 1000"

definition forktest :: "(ret list \<Rightarrow> run) \<Rightarrow> ret list \<Rightarrow> run" where
  "forktest k =
     fprintf 1 (''fork test'' @ nl) (fork_loop forktest_N 0 (\<lambda>n rs.
       if n = forktest_N then fprintf 1 (''fork claimed to work N times!'' @ nl) uexit rs
       else reap_loop n (sys UWait (\<lambda>r _.
         if r \<noteq> -1 then fprintf 1 (''wait got too many'' @ nl) uexit
         else fprintf 1 (''fork test OK'' @ nl) k)) rs))"

definition forktest_main :: "ret list \<Rightarrow> run" where
  "forktest_main = forktest uexit"

section \<open>stressfs\<close>

fun stress_fork :: "nat \<Rightarrow> nat \<Rightarrow> (nat \<Rightarrow> ret list \<Rightarrow> run) \<Rightarrow> ret list \<Rightarrow> run" where
  "stress_fork 0 i k rs = k i rs"
| "stress_fork (Suc m) i k rs =
     sys UFork (\<lambda>pid _ rs. if pid > 0 then k i rs else stress_fork m (i + 1) k rs) rs"

text \<open>The same call \<open>n\<close> times, whatever it returns.\<close>

fun repeat_call :: "nat \<Rightarrow> ucall \<Rightarrow> (ret list \<Rightarrow> run) \<Rightarrow> ret list \<Rightarrow> run" where
  "repeat_call 0 c k rs = k rs"
| "repeat_call (Suc n) c k rs = sys c (\<lambda>_ _. repeat_call n c k) rs"

definition stressfs_main :: "ret list \<Rightarrow> run" where
  "stressfs_main =
     uprint 1 (''stressfs starting'' @ nl) (stress_fork 4 0 (\<lambda>i.
       let path = ''stressfs'' @ [char_of (48 + i)] in
       uprint 1 (''write '' @ [char_of (48 + i)] @ nl)
        (sys (UOpen path (O_CREATE + O_RDWR)) (\<lambda>fd _.
          repeat_call 20 (UWrite fd (replicate 512 97)) (sys (UClose fd) (\<lambda>_ _.
          uprint 1 (''read'' @ nl)
           (sys (UOpen path O_RDONLY) (\<lambda>fd _.
             repeat_call 20 (URead fd 512) (sys (UClose fd) (\<lambda>_ _. sys UWait (\<lambda>_ _. uexit)))))))))))"

section \<open>What the programs do\<close>

text \<open>What a run writes to a descriptor, and what it prints.\<close>

definition written_to :: "int \<Rightarrow> ucall list \<Rightarrow> u8 list" where
  "written_to fd cs = concat (map (\<lambda>c. case c of UWrite f bs \<Rightarrow> if f = fd then bs else [] | _ \<Rightarrow> []) cs)"

definition printed :: "ucall list \<Rightarrow> string" where
  "printed cs = concat (map (\<lambda>c. case c of UPrint _ m \<Rightarrow> m | _ \<Rightarrow> []) cs)"

text \<open>
  The returns of a kernel that delivers the pieces \<open>bs\<close> of a file, then its end, and
  accepts every write in full.
\<close>

definition file_rets :: "u8 list list \<Rightarrow> ret list" where
  "file_rets bs = concat (map (\<lambda>b. [(int (length b), b), (int (length b), [])]) bs) @ [(0, [])]"

lemma cat_file:
  "[] \<notin> set bs \<Longrightarrow> cat fd k (file_rets bs @ rs) =
     apfst (append (concat (map (\<lambda>b. [URead fd 512, UWrite 1 b]) bs) @ [URead fd 512])) (k rs)"
proof (induction bs)
  case Nil
  then show ?case by (simp add: cat.simps file_rets_def apfst_def map_prod_def)
next
  case (Cons b bs)
  then show ?case
    by (subst cat.simps) (auto simp: file_rets_def apfst_def map_prod_def case_prod_unfold)
qed

text \<open>\<^verbatim>\<open>cat\<close> without arguments copies its input to its output, however it is cut into pieces.\<close>

lemma cat_copies:
  assumes "[] \<notin> set bs"
  shows "snd (cat_main [''cat''] (file_rets bs)) = Exited"
    "written_to 1 (fst (cat_main [''cat''] (file_rets bs))) = concat bs"
proof -
  have "cat_main [''cat''] (file_rets bs) = (concat (map (\<lambda>b. [URead 0 512, UWrite 1 b]) bs) @ [URead 0 512], Exited)"
    using cat_file [OF assms, of 0 uexit "[]"] by (simp add: cat_main_def uexit_def)
  moreover have "written_to 1 (concat (map (\<lambda>b. [URead 0 512, UWrite 1 b]) bs) @ [URead 0 512]) = concat bs"
    by (induction bs) (simp_all add: written_to_def)
  ultimately show "snd (cat_main [''cat''] (file_rets bs)) = Exited"
    "written_to 1 (fst (cat_main [''cat''] (file_rets bs))) = concat bs" by simp_all
qed

text \<open>\<^verbatim>\<open>echo\<close> prints its arguments with blanks between them and a newline at the end.\<close>

fun join_words :: "string list \<Rightarrow> string" where
  "join_words [] = []"
| "join_words [a] = a @ nl"
| "join_words (a # args) = a @ '' '' @ join_words args"

lemma echo_prints: "printed (fst (echo_main (name # args) rs)) = join_words args \<and> snd (echo_main (name # args) rs) = Exited"
proof -
  have "printed (fst (echo_loop args rs)) = join_words args \<and> snd (echo_loop args rs) = Exited"
    by (induction args rule: join_words.induct) (simp_all add: uexit_def uprint_def printed_def)
  then show ?thesis by (simp add: echo_main_def)
qed

text \<open>\<^verbatim>\<open>kill\<close> never loops in \<^verbatim>\<open>atoi\<close>.\<close>

lemma atoi_returns: "\<exists>n. atoi (cstring a) 0 = Some n"
proof -
  define ds where "ds = takeWhile is_digit (map of_char a)"
  have l: "length ds \<le> length a" unfolding ds_def using length_takeWhile_le [of is_digit "map of_char a"] by simp
  have d: "cstring a (0 + i) = ds ! i \<and> is_digit (ds ! i)" if "i < length ds" for i
    using that l nth_mem [OF that] set_takeWhileD [of "ds ! i" is_digit "map of_char a"]
    by (simp add: cstring_def ds_def takeWhile_nth)
  have "\<not> is_digit (cstring a (0 + length ds))"
  proof (cases "length ds < length a")
    case True
    then show ?thesis using nth_length_takeWhile [of is_digit "map of_char a"] by (simp add: cstring_def ds_def)
  next
    case False
    then show ?thesis by (simp add: cstring_def is_digit_def)
  qed
  from atoi_from_eq [of ds "cstring a" 0 0] this d show ?thesis by (auto simp: atoi_def)
qed

lemma kill_not_looping: "snd (kill_main argv rs) \<noteq> Looping"
proof -
  have "snd (kill_loop args rs) \<noteq> Looping" for args rs
  proof (induction args arbitrary: rs)
    case (Cons a args)
    then show ?case using atoi_returns [of a] by (cases rs) (auto simp: sys_def)
  qed (simp add: uexit_def)
  then show ?thesis by (simp add: kill_main_def uprint_def uexit_def)
qed

text \<open>\<^verbatim>\<open>init\<close> leaves its loop only when \<^verbatim>\<open>fork\<close> fails, and its child only when \<^verbatim>\<open>exec\<close> does.\<close>

lemma init_wait_exit:
  assumes "snd (init_wait pid k rs) = Exited"
    and "\<And>rs1. length rs1 < length rs \<Longrightarrow> snd (k rs1) = Exited \<Longrightarrow> fst (k rs1) \<noteq> [] \<and> last (fst (k rs1)) \<in> M"
  shows "fst (init_wait pid k rs) \<noteq> [] \<and> last (fst (init_wait pid k rs)) \<in> M"
  using assms
proof (induction rs rule: length_induct)
  case (1 rs)
  show ?case
  proof (cases rs)
    case Nil
    then show ?thesis using 1(2) by (simp add: init_wait.simps)
  next
    case (Cons r rs1)
    obtain v b where r: "rs = (v, b) # rs1" using Cons by (cases r) auto
    have k: "snd (k rs1) = Exited \<Longrightarrow> fst (k rs1) \<noteq> [] \<and> last (fst (k rs1)) \<in> M"
      "snd (init_wait pid k rs1) = Exited \<Longrightarrow> fst (init_wait pid k rs1) \<noteq> [] \<and> last (fst (init_wait pid k rs1)) \<in> M"
      using 1(1,3) r by auto
    then show ?thesis using 1(2) unfolding r
      by (auto simp: init_wait.simps [of pid k "(v, b) # rs1"] uprint_def apfst_def map_prod_def case_prod_unfold
          split: if_splits)
  qed
qed

lemma init_exits:
  assumes "snd (init_loop rs) = Exited"
  shows "last (fst (init_loop rs)) \<in> {UPrint 1 (''init: fork failed'' @ nl), UPrint 1 (''init: exec sh failed'' @ nl)}"
proof -
  let ?M = "{UPrint 1 (''init: fork failed'' @ nl), UPrint 1 (''init: exec sh failed'' @ nl)}"
  have "fst (init_loop rs) \<noteq> [] \<and> last (fst (init_loop rs)) \<in> ?M" if "snd (init_loop rs) = Exited" for rs
    using that
  proof (induction rs rule: length_induct)
    case (1 rs)
    show ?case
    proof (cases rs)
      case Nil
      then show ?thesis using 1(2) by (simp add: init_loop.simps uprint_def)
    next
      case (Cons r rs1)
      obtain v b where r: "rs = (v, b) # rs1" using Cons by (cases r) auto
      have k: "snd (init_wait v init_loop rs1) = Exited \<Longrightarrow>
          fst (init_wait v init_loop rs1) \<noteq> [] \<and> last (fst (init_wait v init_loop rs1)) \<in> ?M"
        by (rule init_wait_exit) (use 1(1) r in auto)
      then show ?thesis using 1(2) unfolding r
        by (cases rs1) (auto simp: init_loop.simps [of "(v, b) # _"] uprint_def uexit_def sys_def split: if_splits)
    qed
  qed
  then show ?thesis using assms by blast
qed

text \<open>\<^verbatim>\<open>rm\<close> unlinks its arguments up to the first that fails; \<open>n\<close> succeed.\<close>

lemma rm_stops:
  assumes "\<forall>r \<in> set ok. 0 \<le> fst r" "r < 0" "length ok < length args"
  shows "rm_main (name # args) (ok @ (r, b) # rs) =
    (map UUnlink (take (Suc (length ok)) args) @ [UPrint 2 (''rm: '' @ args ! length ok @ '' failed to delete'' @ nl)], Exited)"
proof -
  have "rm_loop args (ok @ (r, b) # rs) = (map UUnlink (take (Suc (length ok)) args) @
      [UPrint 2 (''rm: '' @ args ! length ok @ '' failed to delete'' @ nl)], Exited)"
    using assms
  proof (induction ok arbitrary: args)
    case Nil
    then obtain a as where "args = a # as" by (cases args) auto
    then show ?case using Nil by (simp add: uprint_def uexit_def)
  next
    case (Cons p ok)
    then obtain a as where "args = a # as" by (cases args) auto
    then show ?case using Cons by (cases p) simp
  qed
  then show ?thesis using assms(3) by (cases args) (simp_all add: rm_main_def)
qed

text \<open>
  \<^verbatim>\<open>forktest\<close> reports success on a kernel where \<open>m\<close> forks succeed before one fails and the
  children can be waited for.
\<close>

lemma fork_loop_run:
  "length pids < j \<Longrightarrow> \<forall>p \<in> set pids. 0 < fst p \<Longrightarrow>
   fork_loop j n k (pids @ (-1, b) # rs) = apfst (append (replicate (Suc (length pids)) UFork)) (k (n + length pids) rs)"
proof (induction pids arbitrary: j n)
  case Nil
  then show ?case by (cases j) (simp_all add: apfst_def map_prod_def)
next
  case (Cons p pids)
  obtain i where "j = Suc i" using Cons.prems(1) by (cases j) auto
  moreover have e: "n + 1 + length pids = n + length (p # pids)" by simp
  ultimately show ?case using Cons.IH [of i "n + 1", unfolded e] Cons.prems
    by (cases p) (auto simp: apfst_def map_prod_def case_prod_unfold)
qed

lemma reap_loop_run:
  "\<forall>w \<in> set ws. 0 \<le> fst w \<Longrightarrow> reap_loop (length ws) k (ws @ rs) = apfst (append (replicate (length ws) UWait)) (k rs)"
proof (induction ws)
  case (Cons w ws)
  then show ?case by (cases w) (simp add: apfst_def map_prod_def case_prod_unfold)
qed (simp add: apfst_def map_prod_def)

lemma forktest_succeeds:
  assumes "length pids < forktest_N" "\<forall>p \<in> set pids. 0 < fst p" "length ws = length pids" "\<forall>w \<in> set ws. 0 \<le> fst w"
  shows "forktest_main ([w0] @ pids @ [(-1, [])] @ ws @ [(-1, []), w1]) =
    ([UWrite 1 (map of_char (''fork test'' @ nl))] @ replicate (Suc (length pids)) UFork @
     replicate (Suc (length pids)) UWait @ [UWrite 1 (map of_char (''fork test OK'' @ nl))], Exited)"
  using fork_loop_run [OF assms(1,2), of 0] reap_loop_run [OF assms(4)] assms(1,3)
  by (cases w0; cases w1)
    (simp add: forktest_main_def forktest_def fprintf_def uexit_def apfst_def map_prod_def replicate_append_same)

end
