(* ===== verification/Segments.thy ===== *)
theory Segments
  imports Trap
begin

text \<open>
  Segment descriptors, the task state segment and the interrupt descriptor table: \<^verbatim>\<open>SEG\<close>, \<^verbatim>\<open>SEG16\<close> and
  \<^verbatim>\<open>SETGATE\<close> of \<^verbatim>\<open>mmu.h\<close>, \<^verbatim>\<open>lgdt\<close> and \<^verbatim>\<open>lidt\<close> of \<^verbatim>\<open>x86.h\<close>, \<^verbatim>\<open>seginit\<close>, \<^verbatim>\<open>switchkvm\<close> and \<^verbatim>\<open>switchuvm\<close> of \<^verbatim>\<open>vm.c\<close>, \<^verbatim>\<open>tvinit\<close> and
  \<^verbatim>\<open>idtinit\<close> of \<^verbatim>\<open>trap.c\<close>. Bit fields are words of their width; an initialiser is cut to the width.
\<close>

section \<open>Descriptors\<close>

definition SEG_KCODE :: nat where "SEG_KCODE = 1"
definition SEG_KDATA :: nat where "SEG_KDATA = 2"
definition SEG_UCODE :: nat where "SEG_UCODE = 3"
definition SEG_UDATA :: nat where "SEG_UDATA = 4"
definition SEG_TSS :: nat where "SEG_TSS = 5"
definition NSEGS :: nat where "NSEGS = 6"
definition STA_X :: u32 where "STA_X = 0x8"
definition STA_W :: u32 where "STA_W = 0x2"
definition STA_R :: u32 where "STA_R = 0x2"
definition STS_T32A :: u32 where "STS_T32A = 0x9"
definition STS_IG32 :: u32 where "STS_IG32 = 0xE"
definition STS_TG32 :: u32 where "STS_TG32 = 0xF"

record segdesc =
  lim_15_0 :: "16 word"
  base_15_0 :: "16 word"
  base_23_16 :: "8 word"
  sd_type :: "4 word"
  sd_s :: "1 word"
  sd_dpl :: "2 word"
  sd_p :: "1 word"
  lim_19_16 :: "4 word"
  sd_avl :: "1 word"
  sd_rsv1 :: "1 word"
  sd_db :: "1 word"
  sd_g :: "1 word"
  base_31_24 :: "8 word"

definition SEG :: "u32 \<Rightarrow> u32 \<Rightarrow> u32 \<Rightarrow> u32 \<Rightarrow> segdesc" where
  "SEG ty base lim dpl =
     \<lparr>lim_15_0 = ucast (drop_bit 12 lim AND 0xffff), base_15_0 = ucast (base AND 0xffff),
      base_23_16 = ucast (drop_bit 16 base AND 0xff), sd_type = ucast ty, sd_s = 1, sd_dpl = ucast dpl, sd_p = 1,
      lim_19_16 = ucast (drop_bit 28 lim), sd_avl = 0, sd_rsv1 = 0, sd_db = 1, sd_g = 1,
      base_31_24 = ucast (drop_bit 24 base)\<rparr>"

definition SEG16 :: "u32 \<Rightarrow> u32 \<Rightarrow> u32 \<Rightarrow> u32 \<Rightarrow> segdesc" where
  "SEG16 ty base lim dpl =
     \<lparr>lim_15_0 = ucast (lim AND 0xffff), base_15_0 = ucast (base AND 0xffff),
      base_23_16 = ucast (drop_bit 16 base AND 0xff), sd_type = ucast ty, sd_s = 1, sd_dpl = ucast dpl, sd_p = 1,
      lim_19_16 = ucast (drop_bit 16 lim), sd_avl = 0, sd_rsv1 = 0, sd_db = 1, sd_g = 0,
      base_31_24 = ucast (drop_bit 24 base)\<rparr>"

record gatedesc =
  off_15_0 :: "16 word"
  gd_cs :: "16 word"
  gd_args :: "5 word"
  gd_rsv1 :: "3 word"
  gd_type :: "4 word"
  gd_s :: "1 word"
  gd_dpl :: "2 word"
  gd_p :: "1 word"
  off_31_16 :: "16 word"

definition SETGATE :: "bool \<Rightarrow> u32 \<Rightarrow> u32 \<Rightarrow> u32 \<Rightarrow> gatedesc" where
  "SETGATE istrap sel off d =
     \<lparr>off_15_0 = ucast (off AND 0xffff), gd_cs = ucast sel, gd_args = 0, gd_rsv1 = 0,
      gd_type = ucast (if istrap then STS_TG32 else STS_IG32), gd_s = 0, gd_dpl = ucast d, gd_p = 1,
      off_31_16 = ucast (drop_bit 16 off)\<rparr>"

definition KSTACKSIZE :: u32 where "KSTACKSIZE = 4096"

section \<open>The processor\<close>

text \<open>
  Of \<^verbatim>\<open>struct cpu\<close> the descriptor table, of the task state the fields the kernel sets; the registers
  \<^verbatim>\<open>gdtr\<close> and \<^verbatim>\<open>idtr\<close> as the pseudo-descriptors they are loaded from, the task register and \<^verbatim>\<open>cr3\<close>.
\<close>

record taskstate =
  ts_esp0 :: u32
  ts_ss0 :: u16
  ts_iomb :: u16

record tables =
  gdt :: "nat \<Rightarrow> segdesc"
  ts :: taskstate
  gdtr :: "u16 list"
  idtr :: "u16 list"
  tr :: u16
  cr3 :: u32

text \<open>The three words \<^verbatim>\<open>pd\<close> that \<^verbatim>\<open>lgdt\<close> and \<^verbatim>\<open>lidt\<close> build.\<close>

definition pseudo_desc :: "u32 \<Rightarrow> u32 \<Rightarrow> u16 list" where
  "pseudo_desc p sz = [ucast (sz - 1), ucast p, ucast (drop_bit 16 p)]"

definition lgdt :: "u32 \<Rightarrow> u32 \<Rightarrow> tables \<Rightarrow> tables" where
  "lgdt p sz c = c\<lparr>gdtr := pseudo_desc p sz\<rparr>"

definition lidt :: "u32 \<Rightarrow> u32 \<Rightarrow> tables \<Rightarrow> tables" where
  "lidt p sz c = c\<lparr>idtr := pseudo_desc p sz\<rparr>"

text \<open>\<open>gdt_addr\<close> is the address of the table of this processor; a descriptor has 8 bytes.\<close>

definition seginit :: "u32 \<Rightarrow> tables \<Rightarrow> tables" where
  "seginit gdt_addr c =
     lgdt gdt_addr (of_nat (8 * NSEGS))
       (c\<lparr>gdt := (gdt c)(SEG_KCODE := SEG (STA_X OR STA_R) 0 0xffffffff 0, SEG_KDATA := SEG STA_W 0 0xffffffff 0,
          SEG_UCODE := SEG (STA_X OR STA_R) 0 0xffffffff (ucast DPL_USER),
          SEG_UDATA := SEG STA_W 0 0xffffffff (ucast DPL_USER))\<rparr>)"

definition switchkvm :: "u32 \<Rightarrow> tables \<Rightarrow> tables" where
  "switchkvm kpgdir c = c\<lparr>cr3 := V2P kpgdir\<rparr>"

definition kvmalloc :: "u32 \<Rightarrow> u32 \<Rightarrow> tables \<Rightarrow> 'a kmem_scheme \<Rightarrow> (u32 \<times> tables \<times> 'a kmem_scheme) res" where
  "kvmalloc kend kdata c s =
     bnd (setupkvm kend kdata s) (\<lambda>(kpgdir, s). Inr (kpgdir, switchkvm kpgdir c, s))"

text \<open>
  \<^verbatim>\<open>switchuvm\<close> after its checks (\<^const>\<open>switchuvm\<close>), between \<^verbatim>\<open>pushcli\<close> and \<^verbatim>\<open>popcli\<close>; \<open>ts_addr\<close> is the address of the
  task state of this processor, which has 104 bytes.
\<close>

definition switchuvm_load :: "u32 \<Rightarrow> u32 \<Rightarrow> u32 \<Rightarrow> tables \<Rightarrow> tables" where
  "switchuvm_load ts_addr kstack pgdir c =
     (let c = c\<lparr>gdt := (gdt c)(SEG_TSS := SEG16 STS_T32A ts_addr (104 - 1) 0)\<rparr>;
          c = c\<lparr>gdt := (gdt c)(SEG_TSS := (gdt c SEG_TSS)\<lparr>sd_s := 0\<rparr>)\<rparr>;
          c = c\<lparr>ts := (ts c)\<lparr>ts_ss0 := of_nat (8 * SEG_KDATA), ts_esp0 := kstack + KSTACKSIZE, ts_iomb := 0xFFFF\<rparr>\<rparr>;
          c = c\<lparr>tr := of_nat (8 * SEG_TSS)\<rparr>
      in c\<lparr>cr3 := V2P pgdir\<rparr>)"

text \<open>\<^verbatim>\<open>tvinit\<close>: \<open>vectors\<close> are the entry points of \<^verbatim>\<open>vectors.S\<close>. The shared table and its address.\<close>

definition tvinit :: "(nat \<Rightarrow> u32) \<Rightarrow> (nat \<Rightarrow> gatedesc) \<Rightarrow> nat \<Rightarrow> gatedesc" where
  "tvinit vectors idt =
     (let idt = fold (\<lambda>i idt. idt(i := SETGATE False (of_nat (8 * SEG_KCODE)) (vectors i) 0)) [0..<256] idt
      in idt(unat T_SYSCALL := SETGATE True (of_nat (8 * SEG_KCODE)) (vectors (unat T_SYSCALL)) (ucast DPL_USER)))"

definition idtinit :: "u32 \<Rightarrow> tables \<Rightarrow> tables" where
  "idtinit idt_addr c = lidt idt_addr (8 * 256) c"

section \<open>What the processor reads\<close>

definition sd_base :: "segdesc \<Rightarrow> u32" where
  "sd_base d = ucast (base_15_0 d) OR push_bit 16 (ucast (base_23_16 d)) OR push_bit 24 (ucast (base_31_24 d))"

definition sd_limit :: "segdesc \<Rightarrow> u32" where
  "sd_limit d = (let l = ucast (lim_15_0 d) OR push_bit 16 (ucast (lim_19_16 d))
     in if sd_g d = 1 then push_bit 12 l OR 0xfff else l)"

definition gd_off :: "gatedesc \<Rightarrow> u32" where
  "gd_off g = ucast (off_15_0 g) OR push_bit 16 (ucast (off_31_16 g))"

definition pd_base :: "u16 list \<Rightarrow> u32" where
  "pd_base pd = ucast (pd ! 1) OR push_bit 16 (ucast (pd ! 2))"

text \<open>An \<^verbatim>\<open>int i\<close> at privilege level \<open>cpl\<close> goes through a present gate of at least that level.\<close>

definition int_allowed :: "(nat \<Rightarrow> gatedesc) \<Rightarrow> nat \<Rightarrow> nat \<Rightarrow> bool" where
  "int_allowed idt cpl i \<longleftrightarrow> i < 256 \<and> gd_p (idt i) = 1 \<and> cpl \<le> unat (gd_dpl (idt i))"

lemma masks:
  "w AND 0xffff = take_bit 16 w" "w AND 0xff = take_bit 8 w" "(0xfff :: u32) = mask 12" for w :: u32
  by (simp_all add: take_bit_eq_mask mask_eq_exp_minus_1)

lemma halves: "ucast (ucast (w AND 0xffff) :: 16 word) OR push_bit 16 (ucast (ucast (drop_bit 16 w) :: 16 word)) = (w :: u32)"
  unfolding masks by (rule bit_word_eqI) (auto simp: bit_simps not_less)

lemma halves_cut: "ucast (ucast w :: 16 word) OR push_bit 16 (ucast (ucast (drop_bit 16 w) :: 16 word)) = (w :: u32)"
  by (rule bit_word_eqI) (auto simp: bit_simps not_less)

lemma bytes3:
  "ucast (ucast (w AND 0xffff) :: 16 word) OR push_bit 16 (ucast (ucast (drop_bit 16 w AND 0xff) :: 8 word)) OR
   push_bit 24 (ucast (ucast (drop_bit 24 w) :: 8 word)) = (w :: u32)" (is "?l = w")
proof (rule bit_word_eqI)
  fix n assume "n < LENGTH(32)"
  then show "bit ?l n = bit w n" unfolding masks by (cases "24 \<le> n") (auto simp: bit_simps not_less)
qed

text \<open>The descriptors mean what their macros are given: the base, and the limit up to the granularity.\<close>

lemma SEG_base: "sd_base (SEG ty base lim dpl) = base" "sd_base (SEG16 ty base lim dpl) = base"
  unfolding sd_base_def SEG_def SEG16_def segdesc.simps by (rule bytes3)+

lemma SEG_limit: "sd_limit (SEG ty base lim dpl) = lim OR 0xfff"
  unfolding sd_limit_def SEG_def segdesc.simps Let_def masks
  by (simp only: if_True refl) (rule bit_word_eqI, auto simp: bit_simps not_less)

lemma SEG16_limit: "sd_limit (SEG16 ty base lim dpl) = take_bit 20 lim"
  unfolding sd_limit_def SEG16_def segdesc.simps Let_def masks by simp (rule bit_word_eqI, auto simp: bit_simps not_less)

lemma pseudo_desc_reads: "pd_base (pseudo_desc p sz) = p" "pseudo_desc p sz ! 0 = ucast (sz - 1)"
  using halves_cut [of p] by (simp_all add: pd_base_def pseudo_desc_def)

lemma SETGATE_off: "gd_off (SETGATE b sel off d) = off"
  unfolding gd_off_def SETGATE_def gatedesc.simps by (rule halves)

lemma fold_gates: "fold (\<lambda>i f. f(i := g i)) [0..<n] f j = (if j < n then g j else f j)"
  by (induction n) auto

lemma tvinit_at: "i < 256 \<Longrightarrow> tvinit vectors idt i =
    SETGATE (i = 64) (of_nat (8 * SEG_KCODE)) (vectors i) (if i = 64 then 3 else 0)"
  by (auto simp: tvinit_def Let_def fold_gates T_SYSCALL_def DPL_USER_def simp del: upt_rec_numeral)

text \<open>
  C32. After \<^verbatim>\<open>tvinit\<close> every vector enters the kernel at its entry point in the kernel code segment; of all 256 vectors
  an \<^verbatim>\<open>int\<close> instruction of a user program (privilege level 3) can use that of system calls only; and that
  one is the only trap gate, so that only system calls run with interrupts enabled from their first instruction.
\<close>

theorem tvinit_gates:
  "(int_allowed (tvinit vectors idt) 3 i \<longleftrightarrow> i = unat T_SYSCALL) \<and>
   (i < 256 \<longrightarrow> gd_off (tvinit vectors idt i) = vectors i \<and> gd_cs (tvinit vectors idt i) = of_nat (8 * SEG_KCODE) \<and>
      gd_p (tvinit vectors idt i) = 1 \<and> (gd_type (tvinit vectors idt i) = ucast STS_TG32 \<longleftrightarrow> i = unat T_SYSCALL))"
proof (cases "i < 256")
  case True
  have e: "gd_cs (tvinit vectors idt i) = of_nat (8 * SEG_KCODE)" "gd_p (tvinit vectors idt i) = 1"
    "unat (gd_dpl (tvinit vectors idt i)) = (if i = 64 then 3 else 0)"
    "gd_type (tvinit vectors idt i) = (if i = 64 then 0xF else 0xE)"
    by (simp_all add: tvinit_at [OF True] SETGATE_def SEG_KCODE_def STS_TG32_def STS_IG32_def)
  then show ?thesis using True tvinit_at [OF True] SETGATE_off
    by (simp add: int_allowed_def T_SYSCALL_def STS_TG32_def)
next
  case False
  then show ?thesis by (simp add: int_allowed_def T_SYSCALL_def)
qed

theorem tvinit_gates_witness:
  "gd_off (tvinit (\<lambda>i. 0x80105000 + of_nat i) (\<lambda>_. SETGATE False 0 0 0) 14) = 0x8010500E"
  using tvinit_gates [of "\<lambda>i. 0x80105000 + of_nat i" "\<lambda>_. SETGATE False 0 0 0" 14] by simp

text \<open>The segments are flat: 4 GB from 0 on, and differ in what they allow and to whom.\<close>

lemma seginit_flat:
  assumes "k \<in> {SEG_KCODE, SEG_KDATA, SEG_UCODE, SEG_UDATA}"
  shows "sd_base (gdt (seginit a c) k) = 0 \<and> sd_limit (gdt (seginit a c) k) = - 1 \<and>
    unat (sd_dpl (gdt (seginit a c) k)) = (if k = SEG_UCODE \<or> k = SEG_UDATA then 3 else 0) \<and> pd_base (gdtr (seginit a c)) = a"
  using assms SEG_base SEG_limit pseudo_desc_reads
  by (auto simp: seginit_def lgdt_def SEG_KCODE_def SEG_KDATA_def SEG_UCODE_def SEG_UDATA_def DPL_USER_def)
    (simp_all add: SEG_def)

text \<open>
  After \<^verbatim>\<open>switchuvm\<close> a trap from user mode switches to the kernel stack of the process, and the I/O
  permission map lies beyond the limit of the task state segment, so user code has no I/O.
\<close>

lemma switchuvm_loads:
  fixes a kstack pgdir :: u32 and c :: tables
  defines "c' \<equiv> switchuvm_load a kstack pgdir c"
  shows "sd_base (gdt c' SEG_TSS) = a" "sd_s (gdt c' SEG_TSS) = 0" "sd_limit (gdt c' SEG_TSS) < ucast (ts_iomb (ts c'))"
    "ts_esp0 (ts c') = kstack + KSTACKSIZE" "cr3 c' = V2P pgdir" "k \<noteq> SEG_TSS \<Longrightarrow> gdt c' k = gdt c k"
proof -
  have g: "gdt c' SEG_TSS = (SEG16 STS_T32A a 103 0)\<lparr>sd_s := 0\<rparr>" "ts_iomb (ts c') = 0xFFFF"
    by (simp_all add: c'_def switchuvm_load_def Let_def)
  show "sd_base (gdt c' SEG_TSS) = a" using SEG_base(2) [of STS_T32A a 103 0] by (simp add: g sd_base_def)
  have "sd_limit (gdt c' SEG_TSS) = 103" using SEG16_limit [of STS_T32A a 103 0] by (simp add: g sd_limit_def)
  then show "sd_limit (gdt c' SEG_TSS) < ucast (ts_iomb (ts c'))" by (simp add: g)
  show "sd_s (gdt c' SEG_TSS) = 0" by (simp add: g)
  show "ts_esp0 (ts c') = kstack + KSTACKSIZE" "cr3 c' = V2P pgdir" "k \<noteq> SEG_TSS \<Longrightarrow> gdt c' k = gdt c k"
    by (simp_all add: c'_def switchuvm_load_def Let_def)
qed

end
