(* ===== verification/Start.thy ===== *)
theory Start
  imports Machine Segments
begin

text \<open>
  Starting the other processors (\<^verbatim>\<open>main.c\<close>): \<^verbatim>\<open>startothers\<close> and the page table they start on. What another
  processor does until it sets \<^verbatim>\<open>started\<close> is outside; \<open>up\<close> says which ones get there.
\<close>

section \<open>The page table for entry\<close>

definition entrypgdir :: "nat \<Rightarrow> u32" where
  "entrypgdir = (\<lambda>_. 0)(0 := 0x001 OR 0x002 OR 0x080, unat (drop_bit 22 KERNBASE) := 0x001 OR 0x002 OR 0x080)"

section \<open>startothers\<close>

text \<open>The copy of \<^verbatim>\<open>entryother.S\<close> (\<open>img\<close>) to physical address 0x7000.\<close>

definition copy_entry :: "u8 list \<Rightarrow> 'a kmem_scheme \<Rightarrow> 'a kmem_scheme" where
  "copy_entry img s = s\<lparr>pages := (\<lambda>n i. if i < PGSIZE \<and> 0x7000 \<le> n * PGSIZE + i \<and> n * PGSIZE + i < 0x7000 + length img
     then img ! (n * PGSIZE + i - 0x7000) else pages s n i)\<rparr>"

text \<open>The three words below the code: they lie at the end of page 6.\<close>

definition put_args :: "u32 \<Rightarrow> u32 \<Rightarrow> u32 \<Rightarrow> 'a kmem_scheme \<Rightarrow> 'a kmem_scheme" where
  "put_args sp mpenter pgdir s =
     set_page 6 (put32 (put32 (put32 (pages s 6) (PGSIZE - 4) sp) (PGSIZE - 8) mpenter) (PGSIZE - 12) pgdir) s"

text \<open>
  The loop over the processors, \<open>me\<close> being the one that runs it. The result lists those started, with
  the commands to the interrupt controller and the memory at that moment; \<open>None\<close> is waiting forever.
\<close>

fun start_loop :: "(nat \<Rightarrow> bool) \<Rightarrow> nat \<Rightarrow> u32 \<Rightarrow> u32 \<Rightarrow> (nat \<times> u8) list \<Rightarrow> 'a kmem_scheme \<Rightarrow>
    ((nat \<times> (port_writes \<times> (u16 \<times> u16) \<times> apic_writes) \<times> (nat \<Rightarrow> bytes)) list \<times> 'a kmem_scheme) option" where
  "start_loop up me mpenter pgdir [] s = Some ([], s)"
| "start_loop up me mpenter pgdir ((c, apicid) # cs) s =
     (if c = me then start_loop up me mpenter pgdir cs s
      else
        let (stack, s) = kalloc s;
            s = put_args (stack + KSTACKSIZE) mpenter (V2P pgdir) s;
            cmds = lapicstartap apicid 0x7000
        in if up c then
             (case start_loop up me mpenter pgdir cs s of None \<Rightarrow> None
              | Some (started, s') \<Rightarrow> Some ((c, cmds, pages s) # started, s'))
           else None)"

definition startothers ::
  "(nat \<Rightarrow> bool) \<Rightarrow> nat \<Rightarrow> u8 list \<Rightarrow> u32 \<Rightarrow> u32 \<Rightarrow> machine \<Rightarrow> 'a kmem_scheme \<Rightarrow>
    ((nat \<times> (port_writes \<times> (u16 \<times> u16) \<times> apic_writes) \<times> (nat \<Rightarrow> bytes)) list \<times> 'a kmem_scheme) option" where
  "startothers up me img mpenter pgdir mach s =
     start_loop up me mpenter pgdir (enumerate 0 (apicids mach)) (copy_entry img s)"

section \<open>Every processor its own stack\<close>

text \<open>The stack pointer the processor finds below the code.\<close>

definition boot_sp :: "(nat \<Rightarrow> bytes) \<Rightarrow> u32" where
  "boot_sp ps = get32 (ps 6) (PGSIZE - 4)"

lemma low_frames:
  assumes "page_ok kend v" "unat kend \<ge> unat KERNBASE + k * PGSIZE"
  shows "k \<le> frame_of v"
proof -
  have v: "unat KERNBASE + k * PGSIZE \<le> unat v" using assms by (simp add: page_ok_def word_le_nat_alt)
  then have "KERNBASE \<le> v" unfolding word_le_nat_alt by linarith
  then have "unat (V2P v) = unat v - unat KERNBASE" unfolding V2P_def by (rule unat_sub)
  then have "k * PGSIZE \<le> unat (V2P v)" using v by linarith
  then have "k * PGSIZE div PGSIZE \<le> frame_of v" unfolding frame_of_def by (rule div_le_mono)
  then show ?thesis by simp
qed

lemma put_args_ok:
  assumes "kmem_ok kend s vs" "unat kend \<ge> unat KERNBASE + 7 * PGSIZE"
  shows "kmem_ok kend (put_args sp e d s) vs" "boot_sp (pages (put_args sp e d s)) = sp"
proof -
  have "frame_of v \<noteq> 6" if "v \<in> set vs" for v
    using low_frames [OF _ assms(2), of v] that assms(1) by (auto simp: kmem_ok_def)
  then show "kmem_ok kend (put_args sp e d s) vs"
    using assms(1) by (auto simp: kmem_ok_def put_args_def set_page_def elim!: free_list_frame)
  show "boot_sp (pages (put_args sp e d s)) = sp"
    by (simp add: boot_sp_def put_args_def set_page_def get32_put32_other)
qed

lemma start_loop_stacks:
  assumes "kmem_ok kend s vs" "unat kend \<ge> unat KERNBASE + 7 * PGSIZE"
    and "\<forall>c \<in> set cs. fst c \<noteq> me \<longrightarrow> up (fst c)" "length (filter (\<lambda>c. fst c \<noteq> me) cs) \<le> length vs"
  shows "\<exists>started s'. start_loop up me e d cs s = Some (started, s') \<and>
    map fst started = filter (\<lambda>c. c \<noteq> me) (map fst cs) \<and>
    map (\<lambda>(c, cmds, ps). boot_sp ps) started = map (\<lambda>v. v + KSTACKSIZE) (take (length started) vs) \<and>
    kmem_ok kend s' (drop (length started) vs)"
  using assms
proof (induction cs arbitrary: s vs)
  case Nil
  then show ?case by simp
next
  case (Cons p cs)
  obtain c a where p: "p = (c, a)" by (cases p)
  show ?case
  proof (cases "c = me")
    case True
    then show ?thesis using Cons p by simp
  next
    case False
    then obtain v ws where vs: "vs = v # ws" using Cons.prems(4) p by (cases vs) auto
    obtain f where f: "kalloc s = (v, s\<lparr>freelist := f\<rparr>)" "kmem_ok kend (s\<lparr>freelist := f\<rparr>) ws"
      using kalloc_ok [OF Cons.prems(1)] vs by auto
    define t where "t = put_args (v + KSTACKSIZE) e (V2P d) (s\<lparr>freelist := f\<rparr>)"
    note T = put_args_ok [OF f(2) Cons.prems(2), of "v + KSTACKSIZE" e "V2P d", folded t_def]
    obtain started s' where r: "start_loop up me e d cs t = Some (started, s')"
      "map fst started = filter (\<lambda>c. c \<noteq> me) (map fst cs)"
      "map (\<lambda>(c, cmds, ps). boot_sp ps) started = map (\<lambda>v. v + KSTACKSIZE) (take (length started) ws)"
      "kmem_ok kend s' (drop (length started) ws)"
      using Cons.IH [OF T(1) Cons.prems(2)] Cons.prems(3,4) p False vs by auto
    have "start_loop up me e d (p # cs) s = Some ((c, lapicstartap a 0x7000, pages t) # started, s')"
      using p False f(1) r(1) Cons.prems(3) by (simp add: t_def [symmetric])
    then show ?thesis using r(2-4) p False vs T(2) by simp
  qed
qed

lemma copy_entry_ok:
  assumes "kmem_ok kend s vs" "unat kend \<ge> unat KERNBASE + 8 * PGSIZE" "length img \<le> PGSIZE"
  shows "kmem_ok kend (copy_entry img s) vs"
proof -
  have "pages (copy_entry img s) (frame_of v) = pages s (frame_of v)" if "v \<in> set vs" for v
  proof -
    have "8 \<le> frame_of v" using low_frames [OF _ assms(2), of v] that assms(1) by (auto simp: kmem_ok_def)
    then show ?thesis using assms(3) by (auto simp: copy_entry_def)
  qed
  then show ?thesis using assms(1) by (auto simp: kmem_ok_def copy_entry_def elim!: free_list_frame)
qed

text \<open>
  With a free page for each, \<^verbatim>\<open>startothers\<close> returns if the other processors come up, has started each of them once,
  in order, and each found its own page as stack; the remaining pages are still free.
\<close>

lemma startothers_stacks:
  fixes s :: "'a kmem_scheme"
  assumes "kmem_ok kend s vs" "unat kend \<ge> unat KERNBASE + 8 * PGSIZE" "length img \<le> PGSIZE"
    and "\<forall>c < length (apicids mach). c \<noteq> me \<longrightarrow> up c" "length (apicids mach) \<le> length vs"
  shows "\<exists>started s'. startothers up me img e d mach s = Some (started, s') \<and>
    map fst started = filter (\<lambda>c. c \<noteq> me) [0..<length (apicids mach)] \<and>
    distinct (map (\<lambda>(c, cmds, ps). boot_sp ps) started) \<and> kmem_ok kend s' (drop (length started) vs)"
proof -
  let ?cs = "enumerate 0 (apicids mach)"
  have "length (filter (\<lambda>c. fst c \<noteq> me) ?cs) \<le> length vs"
    using length_filter_le [of "\<lambda>c. fst c \<noteq> me" ?cs] assms(5) by simp
  moreover have "\<forall>c \<in> set ?cs. fst c \<noteq> me \<longrightarrow> up (fst c)" using assms(4) by (auto simp: in_set_enumerate_eq)
  moreover have "unat kend \<ge> unat KERNBASE + 7 * PGSIZE" using assms(2) by simp
  ultimately obtain started s' where r: "start_loop up me e d ?cs (copy_entry img s) = Some (started, s')"
    "map fst started = filter (\<lambda>c. c \<noteq> me) (map fst ?cs)"
    "map (\<lambda>(c, cmds, ps). boot_sp ps) started = map (\<lambda>v. v + KSTACKSIZE) (take (length started) vs)"
    "kmem_ok kend s' (drop (length started) vs)"
    using start_loop_stacks [OF copy_entry_ok [OF assms(1-3)]] by blast
  have "distinct vs" using assms(1) by (simp add: kmem_ok_def)
  then have "distinct (map (\<lambda>v. v + KSTACKSIZE) (take (length started) vs))"
    by (simp add: distinct_map inj_on_def)
  then show ?thesis using r by (simp add: startothers_def)
qed

end
