(* ===== verification/Spec2Isabelle.thy ===== *)
theory Spec2Isabelle
  imports Log_Reserve Fs_Dir Spinlock Proc Pipe Pci Grep Console Sysfile Umalloc Userprog Machine Boot Ide Trap Exec Mkfs Coreutils Start
begin

text \<open>
  A verification development for the xv6 kernel with ARP networking under \<^verbatim>\<open>src/\<close>.

  \<^bold>\<open>Parts and theories.\<close> The kernel keeps a file system on a block device behind a buffer cache and a
  write-ahead log, runs processes in page-table address spaces over a page allocator, connects
  them with pipes, and sends ARP requests through a PCI network card.

  \<^item> \<open>Prelude\<close>: machine integers, the result type of kernel code (return value, panic, C memory error,
    sleep), the rules for \<open>wp\<close> and \<open>wlp\<close>, byte arrays with little-endian loads and stores.
  \<^item> \<open>Sleeplock\<close>, \<open>Bio\<close>: \<^verbatim>\<open>sleeplock.c\<close>; \<^verbatim>\<open>bio.c\<close> and \<^verbatim>\<open>memide.c\<close>. Buffers are slots with the LRU order as a list;
    a ghost trace records block writes. The theorems on the log and the file system are over this
    in-memory driver, which the Makefile links into \<^verbatim>\<open>kernelmemfs\<close>; the plain kernel has \<^verbatim>\<open>ide.c\<close> in its place.
  \<^item> \<open>Ide\<close>: \<^verbatim>\<open>ide.c\<close> by itself. The queue linked through \<^verbatim>\<open>qnext\<close> is a first-in first-out list, the interrupt
    completes its head and nothing else, and a failed read completes as if it had succeeded. That \<open>Bio\<close>
    behaves the same over this driver is not shown.
  \<^item> \<open>Log\<close>, \<open>Log_Crash\<close>, \<open>Log_Op\<close>, \<open>Log_Reserve\<close>: \<^verbatim>\<open>log.c\<close>. Crash atomicity of \<^verbatim>\<open>commit\<close> with recovery, idempotent
    recovery, what \<^verbatim>\<open>end_op\<close> commits, and the space reservation of \<^verbatim>\<open>begin_op\<close> under interleaving. The locale
    \<open>txn_store\<close> is the transaction interface the file system uses, interpreted on \<^verbatim>\<open>bread\<close>, \<^verbatim>\<open>log_write\<close> and \<^verbatim>\<open>brelse\<close>.
  \<^item> \<open>Fs_Block\<close>, \<open>Fs_Inode\<close>, \<open>Fs_Bmap\<close>: the block allocator and the inode layer of \<^verbatim>\<open>fs.c\<close>, with the on-disk inode codec.
  \<^item> \<open>Fs_Data\<close>, \<open>Fs_Grow\<close>, \<open>Fs_Write\<close>, \<open>Fs_Rw\<close>: no code of their own but what \<^verbatim>\<open>bmap\<close>, \<^verbatim>\<open>readi\<close> and \<^verbatim>\<open>writei\<close> do to the bytes of a file.
    \<open>fbyte\<close> is the byte of a file at an offset, through the block map. Reads return these bytes, \<^verbatim>\<open>bmap\<close> allocates
    without touching another block in use, writes store their bytes and keep all others, and a read after
    a write gives back what was written. The hypotheses \<open>log_room\<close> and \<open>disk_room\<close> bound the blocks the operation
    may log and allocate: without them \<^verbatim>\<open>log_write\<close> and \<^verbatim>\<open>balloc\<close> panic.
  \<^item> \<open>Fs_Dir\<close>: on top of these, a directory as a table of 16-byte entries. What \<^verbatim>\<open>dirlookup\<close>, the search of \<^verbatim>\<open>dirlink\<close> for a
    free entry and \<^verbatim>\<open>isdirempty\<close> find, and that \<^verbatim>\<open>dirlookup\<close> finds what \<^verbatim>\<open>dirlink\<close> entered.
  \<^item> \<open>Spinlock\<close>: \<^verbatim>\<open>spinlock.c\<close>. Interrupt nesting, and mutual exclusion of the step relation \<open>lock_step\<close>, which cuts
    \<^verbatim>\<open>acquire\<close> and \<^verbatim>\<open>release\<close> at their shared accesses. The other theories take what the code does under
    one spin lock as one step, which this justifies.
  \<^item> \<open>Kalloc\<close>, \<open>Vm\<close>, \<open>Proc\<close>: \<^verbatim>\<open>kalloc.c\<close>, \<^verbatim>\<open>vm.c\<close>, \<^verbatim>\<open>proc.c\<close>, on one growing state record. The free list lives in the free
    pages and page tables live in pages, as in the code. The locale \<open>page_allocator\<close> is the contract of
    \<^verbatim>\<open>kalloc\<close> and \<^verbatim>\<open>kfree\<close>. Shown: refinement of a stack of pages, initialisation from any range, mapping of pages and
    isolation of other translations, that \<^verbatim>\<open>copyout\<close> writes the user memory the page table translates to, and the
    invariant of the process table under all its operations, with \<^verbatim>\<open>fork\<close> cut where it gives up \<^verbatim>\<open>ptable.lock\<close>.
    Pids are \<^verbatim>\<open>int\<close>s that wrap; they are distinct as long as fewer than \<open>2 ^ 31\<close> have been taken.
  \<^item> \<open>Trap\<close>: \<^verbatim>\<open>trap.c\<close> and \<^verbatim>\<open>sysproc.c\<close>. A trap keeps the invariant of the process table if the handlers it calls
    do, a fault panics in the kernel and ends the process in user mode, and how long \<^verbatim>\<open>sleep\<close> waits.
  \<^item> \<open>Segments\<close>: the descriptors of \<^verbatim>\<open>mmu.h\<close>, \<^verbatim>\<open>seginit\<close> and the loads of \<^verbatim>\<open>switchuvm\<close> in \<^verbatim>\<open>vm.c\<close>, \<^verbatim>\<open>tvinit\<close> in \<^verbatim>\<open>trap.c\<close>. The
    descriptors decode to the base, limit and offset they are made of, user programs can enter the
    kernel by the system call vector only, and have no I/O instructions.
  \<^item> \<open>Exec\<close>: \<^verbatim>\<open>exec.c\<close>. A failed \<^verbatim>\<open>exec\<close> leaves the process table as it was, a successful one changes the image and
    the name of the caller, and its calls to the file system, which are recorded, are paired.
  \<^item> \<open>Pipe\<close>: \<^verbatim>\<open>pipe.c\<close>. First in first out over wrapping counters, and that no wakeup is lost: who sleeps
    has a reason to, except beside a killed writer, which the step relation \<open>pipe_sched\<close> shows to be possible.
  \<^item> \<open>Cstring\<close>, \<open>Arp\<close>, \<open>E1000\<close>, \<open>Pci\<close>: \<^verbatim>\<open>string.c\<close>, \<^verbatim>\<open>util.c\<close>, parts of \<^verbatim>\<open>ulib.c\<close>; \<^verbatim>\<open>arpfrm.c\<close>, \<^verbatim>\<open>arp.c\<close>, \<^verbatim>\<open>nic.c\<close>; \<^verbatim>\<open>e1000.c\<close>; \<^verbatim>\<open>pci.c\<close>.
    String routines against their meaning (comparison is the lexicographic order), MAC text round trip, the bytes of
    the request frame, the errors of address conversion, the transmit ring, discovery of the card. The controller
    is a function on the descriptors in memory, with what its data sheet promises as hypotheses.
  \<^item> \<open>Fs_File\<close>, \<open>File\<close>, \<open>Syscall\<close>, \<open>Sysfile\<close>: the rest of \<^verbatim>\<open>fs.c\<close> (\<^verbatim>\<open>readi\<close>, \<^verbatim>\<open>writei\<close>, directories, path names), \<^verbatim>\<open>file.c\<close>,
    \<^verbatim>\<open>syscall.c\<close> and \<^verbatim>\<open>sysfile.c\<close>. The elements of a path, the check of user pointers, and that
    \<^verbatim>\<open>sys_pipe\<close> leaks neither descriptors, files nor the page of the pipe.
  \<^item> \<open>Printf\<close>, \<open>Kbd\<close>, \<open>Irq\<close>, \<open>Console\<close>: number formatting, \<^verbatim>\<open>kbd.c\<close>, \<^verbatim>\<open>ioapic.c\<close> and \<^verbatim>\<open>picirq.c\<close>, \<^verbatim>\<open>console.c\<close> with \<^verbatim>\<open>uart.c\<close>. Printed
    digits denote the number; the input ring refines a line editor whose reads return at most one line.
  \<^item> \<open>Machine\<close>, \<open>Boot\<close>: \<^verbatim>\<open>mp.c\<close> and \<^verbatim>\<open>lapic.c\<close>; \<^verbatim>\<open>bootmain.c\<close>. The tables that are accepted carry signature and
    checksum, the loop over their entries returns on known entries and hangs on an unknown one;
    \<^verbatim>\<open>readseg\<close> returns with the requested bytes of the image in place, below the top of memory.
  \<^item> \<open>Start\<close>: \<^verbatim>\<open>startothers\<close> of \<^verbatim>\<open>main.c\<close>. Every other processor is started once and finds its own page as stack.
  \<^item> \<open>Mkfs\<close>: \<^verbatim>\<open>mkfs.c\<close>. The layout of the image, the bitmap of the used blocks, and the size after an append.
  \<^item> \<open>Sh\<close>, \<open>Grep\<close>, \<open>Umalloc\<close>, \<open>Userprog\<close>: \<^verbatim>\<open>sh.c\<close>, \<^verbatim>\<open>grep.c\<close>, \<^verbatim>\<open>umalloc.c\<close>, and parts of \<^verbatim>\<open>wc.c\<close> and \<^verbatim>\<open>ls.c\<close>. The parser of the
    shell yields well-formed commands and a pipeline runs both its sides with the ends of one pipe; the matcher equals a
    declarative meaning of patterns, and \<^verbatim>\<open>grep\<close> prints the lines it selects; the rounding of allocation requests; what \<^verbatim>\<open>wc\<close> counts.
  \<^item> \<open>Coreutils\<close>: \<^verbatim>\<open>cat.c\<close>, \<^verbatim>\<open>echo.c\<close>, \<^verbatim>\<open>kill.c\<close>, \<^verbatim>\<open>ln.c\<close>, \<^verbatim>\<open>mkdir.c\<close>, \<^verbatim>\<open>rm.c\<close>, \<^verbatim>\<open>init.c\<close>, \<^verbatim>\<open>zombie.c\<close>, \<^verbatim>\<open>forktest.c\<close>, \<^verbatim>\<open>stressfs.c\<close>
    and \<^verbatim>\<open>arptest.c\<close>. A program maps the values the kernel returns to the calls it makes. \<^verbatim>\<open>cat\<close> copies its input,
    \<^verbatim>\<open>echo\<close> joins its arguments, \<^verbatim>\<open>rm\<close> stops at the first failure, \<^verbatim>\<open>init\<close> ends only when \<^verbatim>\<open>fork\<close> or \<^verbatim>\<open>exec\<close> fails, and
    \<^verbatim>\<open>forktest\<close> succeeds on a kernel whose process table fills up.

  \<^bold>\<open>Conventions.\<close> Every definition translates the function, macro or loop of the same or a derived name;
  panics, faults and early returns are branches. Loops that may not end are \<open>partial_function (option)\<close> and
  divergence is \<open>None\<close>; other loops are total functions with their own termination proof. Two kinds of
  loop count down a bound: the parser of the shell (one more than the characters left, enough by
  \<open>parsecmd_correct\<close>) and the loops over directory entries (one more than the entries, enough by
  \<open>dirlookup_finds\<close>, \<open>dirfree_finds\<close> and \<open>isdirempty_finds\<close>). Uninitialised C objects are arguments, so that theorems hold for whatever they contain.
  Hardware (the network card, the PCI bus, the disk and interrupt
  controllers, the clock) and symbols of the linker script are arguments.

  \<^bold>\<open>Not modelled.\<close> Assembly (boot, \<^verbatim>\<open>swtch.S\<close>, trap entry) has no model of the processor to refer to. The file system and the process table have separate state
  records, so \<^verbatim>\<open>exec\<close>, \<^verbatim>\<open>exit\<close> and \<^verbatim>\<open>trap\<close> take what they use of the other side as arguments; for
  \<^verbatim>\<open>exec\<close> the calls to the file system are recorded and not executed. \<^verbatim>\<open>main\<close>, \<^verbatim>\<open>mpenter\<close> and \<^verbatim>\<open>mpmain\<close> only call the
  initialisation routines. \<^verbatim>\<open>usertests.c\<close> tests the kernel by fixed
  sequences of system calls and states nothing the kernel does not promise elsewhere; of \<^verbatim>\<open>ls.c\<close> and \<^verbatim>\<open>wc.c\<close> the parts
  that open files and print are left out.
\<close>

end
